(* ===== verification/Prelude.thy ===== *)
theory Prelude
  imports Main "HOL-Library.Word" "HOL-Library.Multiset" "HOL-Library.Monad_Syntax"
begin

section \<open>Prelude: types, checked array access, loops and list lemmas\<close>

text \<open>
  What every component shares. Go's run-time panics (an index out of range, a nil
  dereference) are the value \<^const>\<open>None\<close> of an option; an \<open>error\<close> result is a
  sum. Go's \<open>int\<close> is \<^typ>\<open>int\<close> where the code only uses it as an array position,
  and is wrapped explicitly (\<open>i64\<close>) where an overflow is possible.
\<close>

type_synonym byte = "8 word"
type_synonym u32 = "32 word"
type_synonym u64 = "64 word"

named_theorems bounds_simps \<open>facts that decide whether an array position is in range\<close>

subsection \<open>Go's 64-bit signed integers\<close>

definition i64 :: "int \<Rightarrow> int" where
  "i64 x = (x + 2 ^ 63) mod 2 ^ 64 - 2 ^ 63"

definition is_i64 :: "int \<Rightarrow> bool" where
  "is_i64 x \<longleftrightarrow> - (2 ^ 63) \<le> x \<and> x < 2 ^ 63"

lemma i64_id: "is_i64 x \<Longrightarrow> i64 x = x"
  by (simp add: i64_def is_i64_def)

lemma is_i64_i64 [simp]: "is_i64 (i64 x)"
proof -
  have "0 \<le> (x + 2 ^ 63) mod 2 ^ 64 \<and> (x + 2 ^ 63) mod 2 ^ 64 < (2::int) ^ 64"
    by simp
  then show ?thesis unfolding i64_def is_i64_def by simp
qed

lemma i64_max_wraps: "i64 (2 ^ 63 - 1 + 1) = - (2 ^ 63)"
  by (simp add: i64_def)

subsection \<open>Checked array access\<close>

definition get :: "'a list \<Rightarrow> int \<Rightarrow> 'a option" where
  "get xs i = (if 0 \<le> i \<and> i < int (length xs) then Some (xs ! nat i) else None)"

definition put :: "'a list \<Rightarrow> int \<Rightarrow> 'a \<Rightarrow> 'a list option" where
  "put xs i v = (if 0 \<le> i \<and> i < int (length xs) then Some (xs[nat i := v]) else None)"

lemma get_in_range [simp]: "0 \<le> i \<Longrightarrow> i < int (length xs) \<Longrightarrow> get xs i = Some (xs ! nat i)"
  by (simp add: get_def)

lemma put_in_range [simp]: "0 \<le> i \<Longrightarrow> i < int (length xs) \<Longrightarrow> put xs i v = Some (xs[nat i := v])"
  by (simp add: put_def)

lemma get_uint [simp]:
  assumes "unat w < length xs"
  shows "get xs (uint w) = Some (xs ! unat w)"
proof -
  have "uint w = int (unat w)" by simp
  then show ?thesis using assms by (simp only: get_def nat_int of_nat_less_iff of_nat_0_le_iff) simp
qed

lemma get_SomeD: "get xs i = Some v \<Longrightarrow> 0 \<le> i \<and> i < int (length xs) \<and> v = xs ! nat i"
  by (simp add: get_def split: if_splits)

subsection \<open>Loops over a range of positions\<close>

text \<open>
  \<open>for_each f xs s\<close> is Go's \<open>for ... range xs\<close> with the loop state \<open>s\<close>: a panic in
  the body ends the loop.
\<close>

fun for_each :: "('b \<Rightarrow> 's \<Rightarrow> 's option) \<Rightarrow> 'b list \<Rightarrow> 's \<Rightarrow> 's option" where
  "for_each f [] s = Some s"
| "for_each f (x # xs) s = (case f x s of None \<Rightarrow> None | Some s' \<Rightarrow> for_each f xs s')"

lemma for_each_total:
  "(\<And>x s. x \<in> set xs \<Longrightarrow> f x s = Some (g x s)) \<Longrightarrow> for_each f xs s = Some (fold g xs s)"
  by (induction xs arbitrary: s) auto

lemma for_each_append:
  "for_each f (xs @ ys) s = (case for_each f xs s of None \<Rightarrow> None | Some s' \<Rightarrow> for_each f ys s')"
  by (induction xs arbitrary: s) (auto split: option.splits)

lemma fold_append_if: "fold (\<lambda>x acc. acc @ g x) xs acc = acc @ concat (map g xs)"
  by (induction xs arbitrary: acc) auto

lemma set_upto_int: "set [l..r] = {l..r::int}"
  by simp

lemma distinct_upto_int [simp]: "distinct [l..r::int]"
  by (induction l r rule: upto.induct) (subst upto.simps, auto)

subsection \<open>Reordering a segment of a list\<close>

text \<open>
  \<open>reordered l r xs ys\<close>: \<open>ys\<close> is \<open>xs\<close> with the positions \<open>l \<le> p \<le> r\<close> permuted
  among themselves and every other position untouched.
\<close>

definition reordered :: "int \<Rightarrow> int \<Rightarrow> 'a list \<Rightarrow> 'a list \<Rightarrow> bool" where
  "reordered l r xs ys \<longleftrightarrow>
     mset xs = mset ys \<and>
     (\<forall>p. 0 \<le> p \<longrightarrow> p < int (length xs) \<longrightarrow> (p < l \<or> r < p) \<longrightarrow> ys ! nat p = xs ! nat p)"

lemma reordered_refl [simp, intro]: "reordered l r xs xs"
  by (simp add: reordered_def)

lemma reordered_length: "reordered l r xs ys \<Longrightarrow> length ys = length xs"
  by (metis reordered_def size_mset)

lemma reordered_trans:
  "reordered l r xs ys \<Longrightarrow> reordered l r ys zs \<Longrightarrow> reordered l r xs zs"
  using reordered_length [of l r xs ys] by (simp add: reordered_def)

lemma reordered_mono:
  "reordered l r xs ys \<Longrightarrow> l' \<le> l \<Longrightarrow> r \<le> r' \<Longrightarrow> reordered l' r' xs ys"
  by (auto simp: reordered_def)

lemma reordered_outside:
  "reordered l r xs ys \<Longrightarrow> 0 \<le> p \<Longrightarrow> p < int (length xs) \<Longrightarrow> p < l \<or> r < p \<Longrightarrow>
     ys ! nat p = xs ! nat p"
  by (auto simp: reordered_def)

lemma reordered_set: "reordered l r xs ys \<Longrightarrow> set ys = set xs"
  by (metis reordered_def set_mset_mset)

lemma reordered_distinct: "reordered l r xs ys \<Longrightarrow> distinct ys = distinct xs"
  by (metis reordered_def mset_eq_imp_distinct_iff)

lemma mset_segment:
  assumes "n \<le> m" "m \<le> length xs"
  shows "mset xs = mset (take n xs) + mset (take (m - n) (drop n xs)) + mset (drop m xs)"
proof -
  have "xs = take n xs @ take (m - n) (drop n xs) @ drop m xs"
    using assms by (metis append_take_drop_id drop_drop le_add_diff_inverse2)
  then show ?thesis by (metis mset_append union_assoc)
qed

lemma reordered_inside:
  assumes R: "reordered l r xs ys" and b: "0 \<le> l" "r < int (length xs)" and p: "l \<le> p" "p \<le> r"
  shows "\<exists>q. l \<le> q \<and> q \<le> r \<and> ys ! nat p = xs ! nat q"
proof -
  let ?n = "nat l" and ?m = "nat (r + 1)"
  have len: "length ys = length xs" using R by (rule reordered_length)
  have nm: "?n \<le> ?m" "?m \<le> length xs" using b p by auto
  have out: "\<And>i. i < length xs \<Longrightarrow> i < ?n \<or> ?m \<le> i \<Longrightarrow> ys ! i = xs ! i"
    using R b p unfolding reordered_def by (metis int_nat_eq nat_int nat_le_iff of_nat_0_le_iff
      of_nat_less_iff zless_nat_eq_int_zless zle_add1_eq_le not_le)
  have tk: "take ?n ys = take ?n xs"
    by (rule nth_equalityI) (use len nm out in auto)
  have dr: "drop ?m ys = drop ?m xs"
    by (rule nth_equalityI) (use len nm out in auto)
  have "mset xs = mset ys" using R by (simp add: reordered_def)
  then have "mset (take (?m - ?n) (drop ?n xs)) = mset (take (?m - ?n) (drop ?n ys))"
    using mset_segment [OF nm] mset_segment [of ?n ?m ys] nm len tk dr by simp
  then have seg: "set (take (?m - ?n) (drop ?n ys)) = set (take (?m - ?n) (drop ?n xs))"
    by (metis set_mset_mset)
  have "ys ! nat p \<in> set (take (?m - ?n) (drop ?n ys))"
  proof -
    have "nat p - ?n < length (take (?m - ?n) (drop ?n ys))" using p b len nm by auto
    moreover have "take (?m - ?n) (drop ?n ys) ! (nat p - ?n) = ys ! nat p"
      using p b len nm by simp
    ultimately show ?thesis by (metis nth_mem)
  qed
  then have "ys ! nat p \<in> set (take (?m - ?n) (drop ?n xs))" using seg by simp
  then obtain i where i: "i < ?m - ?n" "i < length xs - ?n" "ys ! nat p = xs ! (?n + i)"
    by (auto simp: in_set_conv_nth)
  have "l \<le> int (?n + i) \<and> int (?n + i) \<le> r" using i b p by auto
  then show ?thesis using i(3) by (metis nat_int)
qed

lemma reordered_swap:
  assumes "0 \<le> l" "l \<le> i" "i \<le> r" "l \<le> j" "j \<le> r" "r < int (length xs)"
  shows "reordered l r xs (xs[nat i := xs ! nat j, nat j := xs ! nat i])"
proof -
  have m: "mset (xs[nat i := xs ! nat j, nat j := xs ! nat i]) = mset xs"
    by (rule mset_swap) (use assms in auto)
  have "\<And>p. 0 \<le> p \<Longrightarrow> p < int (length xs) \<Longrightarrow> p < l \<or> r < p \<Longrightarrow>
      xs[nat i := xs ! nat j, nat j := xs ! nat i] ! nat p = xs ! nat p"
    using assms by (auto simp: nth_list_update)
  then show ?thesis using m by (simp add: reordered_def)
qed

subsection \<open>Transition systems\<close>

lemma sum_list_map_update:
  "i < length xs \<Longrightarrow> sum_list (map f (xs[i := v])) + f (xs ! i) = sum_list (map f xs) + (f v :: 'a :: comm_monoid_add)"
  by (induction xs arbitrary: i) (auto split: nat.splits simp: less_Suc_eq_0_disj ac_simps)

text \<open>A relation that preserves an invariant.\<close>

locale preserved =
  fixes step :: "'s \<Rightarrow> 's \<Rightarrow> bool" and inv :: "'s \<Rightarrow> bool"
  assumes inv_step: "inv s \<Longrightarrow> step s s' \<Longrightarrow> inv s'"
begin

lemma inv_steps: "step\<^sup>*\<^sup>* s s' \<Longrightarrow> inv s \<Longrightarrow> inv s'"
  by (induction rule: rtranclp_induct) (auto intro: inv_step)

end

text \<open>A process that can make a step until it is done, each of which makes a measure smaller, ends.\<close>

locale process = preserved +
  fixes fin :: "'s \<Rightarrow> bool" and cost :: "'s \<Rightarrow> nat"
  assumes progress: "inv s \<Longrightarrow> \<not> fin s \<Longrightarrow> \<exists>s'. step s s'"
    and cost_step: "inv s \<Longrightarrow> step s s' \<Longrightarrow> cost s' < cost s"
begin

lemma ends: "inv s \<Longrightarrow> \<exists>s'. step\<^sup>*\<^sup>* s s' \<and> fin s'"
proof (induction "cost s" arbitrary: s rule: less_induct)
  case less
  show ?case
  proof (cases "fin s")
    case False
    then obtain s' where "step s s'" using progress less.prems by blast
    moreover from this obtain s'' where "step\<^sup>*\<^sup>* s' s''" "fin s''" using less cost_step inv_step by blast
    ultimately show ?thesis using converse_rtranclp_into_rtranclp by metis
  qed blast
qed

text \<open>What holds in every state of a run.\<close>

lemma runs:
  assumes "inv s0" "step\<^sup>*\<^sup>* s0 s"
  shows "(fin s \<or> (\<exists>s'. step s s')) \<and> (\<forall>s'. step s s' \<longrightarrow> cost s' < cost s) \<and> (\<exists>s'. step\<^sup>*\<^sup>* s s' \<and> fin s')"
  using inv_steps [OF assms(2,1)] progress cost_step ends by blast

end

end
