(* ===== verification/RangeIndex.thy ===== *)
theory RangeIndex
  imports Prelude
begin

section \<open>The range index\<close>

text \<open>
  \<^verbatim>\<open>internal/rangeindex/index.go\<close>: a map from integer keys to values that stores runs of
  equal values as half-open segments \<open>[Lo, Hi)\<close> in a B-tree ordered by \<open>Lo\<close>. The B-tree
  (\<^verbatim>\<open>github.com/google/btree\<close>) is a parameter; \<open>btree_laws\<close> is its documented behaviour.
  A visit with a callback is the list of the items it would visit; the callbacks of the code
  never visit another item after they have changed the tree. Every public operation holds
  the lock from start to end, so it is one step. Keys are \<^verbatim>\<open>int64\<close>: \<open>key+1\<close> wraps.
\<close>

record 'v segment =
  Lo :: int
  Hi :: int
  Value :: 'v

record ('v, 't) btree =
  bt_new :: 't
  DescendLessOrEqual :: "'t \<Rightarrow> int \<Rightarrow> 'v segment list"
  AscendGreaterOrEqual :: "'t \<Rightarrow> int \<Rightarrow> 'v segment list"
  Ascend :: "'t \<Rightarrow> 'v segment list"
  bt_Delete :: "'t \<Rightarrow> 'v segment \<Rightarrow> 't"
  ReplaceOrInsert :: "'t \<Rightarrow> 'v segment \<Rightarrow> 't"
  bt_Clear :: "'t \<Rightarrow> 't"
  bt_Len :: "'t \<Rightarrow> nat"

subsection \<open>Internal helpers\<close>

definition findCovering :: "('v, 't) btree \<Rightarrow> 't \<Rightarrow> int \<Rightarrow> 'v segment option" where
  "findCovering B t key =
     (case DescendLessOrEqual B t key of
        [] \<Rightarrow> None
      | seg # _ \<Rightarrow> if key < Hi seg then Some seg else None)"

fun collect_overlapping :: "int \<Rightarrow> 'v segment list \<Rightarrow> 'v segment list \<Rightarrow> 'v segment list" where
  "collect_overlapping hi out [] = out"
| "collect_overlapping hi out (seg # segs) =
     (if Lo seg \<ge> hi then out
      else if length out > 0 \<and> Lo seg = Lo (out ! 0) then collect_overlapping hi out segs
      else collect_overlapping hi (out @ [seg]) segs)"

definition findOverlapping :: "('v, 't) btree \<Rightarrow> 't \<Rightarrow> int \<Rightarrow> int \<Rightarrow> 'v segment list" where
  "findOverlapping B t lo hi =
     (case (case DescendLessOrEqual B t lo of
              [] \<Rightarrow> ([], lo)
            | seg # _ \<Rightarrow> if Hi seg > lo then ([seg], Lo seg) else ([], lo)) of
        (out, startLo) \<Rightarrow> collect_overlapping hi out (AscendGreaterOrEqual B t startLo))"

fun merge_left :: "('v, 't) btree \<Rightarrow> 't \<Rightarrow> 'v segment \<Rightarrow> 'v segment list \<Rightarrow> 't \<times> 'v segment" where
  "merge_left B t seg [] = (t, seg)"
| "merge_left B t seg (left # ls) =
     (if Lo left = Lo seg then merge_left B t seg ls
      else if Hi left = Lo seg \<and> Value left = Value seg then
        let t = bt_Delete B (bt_Delete B t left) seg; seg = seg\<lparr>Lo := Lo left\<rparr>
        in (ReplaceOrInsert B t seg, seg)
      else (t, seg))"

fun merge_right :: "('v, 't) btree \<Rightarrow> 't \<Rightarrow> 'v segment \<Rightarrow> 'v segment list \<Rightarrow> 't \<times> 'v segment" where
  "merge_right B t seg [] = (t, seg)"
| "merge_right B t seg (right # rs) =
     (if Lo right = Hi seg \<and> Value right = Value seg then
        let t = bt_Delete B (bt_Delete B t right) seg; seg = seg\<lparr>Hi := Hi right\<rparr>
        in (ReplaceOrInsert B t seg, seg)
      else (t, seg))"

definition mergeNeighbors :: "('v, 't) btree \<Rightarrow> 't \<Rightarrow> 'v segment \<Rightarrow> 't \<times> 'v segment" where
  "mergeNeighbors B t seg =
     (case merge_left B t seg (DescendLessOrEqual B t (Lo seg)) of
        (t, seg) \<Rightarrow> merge_right B t seg (AscendGreaterOrEqual B t (Hi seg)))"

definition insert_trim :: "('v, 't) btree \<Rightarrow> 'v segment option \<Rightarrow> 't \<Rightarrow> 't" where
  "insert_trim B trim t = (case trim of None \<Rightarrow> t | Some s \<Rightarrow> ReplaceOrInsert B t s)"

definition internalSet :: "('v, 't) btree \<Rightarrow> 't \<Rightarrow> int \<Rightarrow> int \<Rightarrow> 'v \<Rightarrow> 't" where
  "internalSet B t lo hi val =
     (if lo \<ge> hi then t
      else
        let overlapping = findOverlapping B t lo hi;
            (leftTrim, lo') =
              (if overlapping = [] then (None, lo)
               else let first = hd overlapping in
                 if Lo first < lo \<and> Value first \<noteq> val
                 then (Some \<lparr>Lo = Lo first, Hi = lo, Value = Value first\<rparr>, lo)
                 else if Lo first < lo \<and> Value first = val then (None, Lo first)
                 else (None, lo));
            (rightTrim, hi') =
              (if overlapping = [] then (None, hi)
               else let last = last overlapping in
                 if Hi last > hi \<and> Value last \<noteq> val
                 then (Some \<lparr>Lo = hi, Hi = Hi last, Value = Value last\<rparr>, hi)
                 else if Hi last > hi \<and> Value last = val then (None, Hi last)
                 else (None, hi));
            t = fold (\<lambda>seg t. bt_Delete B t seg) overlapping t;
            t = insert_trim B leftTrim t;
            t = insert_trim B rightTrim t;
            newSeg = \<lparr>Lo = lo', Hi = hi', Value = val\<rparr>;
            t = ReplaceOrInsert B t newSeg
        in fst (mergeNeighbors B t newSeg))"

definition internalDelete :: "('v, 't) btree \<Rightarrow> 't \<Rightarrow> int \<Rightarrow> int \<Rightarrow> 't" where
  "internalDelete B t lo hi =
     (if lo \<ge> hi then t
      else
        let overlapping = findOverlapping B t lo hi in
        if overlapping = [] then t
        else
          let first = hd overlapping;
              leftTrim = (if Lo first < lo then Some \<lparr>Lo = Lo first, Hi = lo, Value = Value first\<rparr> else None);
              last = last overlapping;
              rightTrim = (if Hi last > hi then Some \<lparr>Lo = hi, Hi = Hi last, Value = Value last\<rparr> else None);
              t = fold (\<lambda>seg t. bt_Delete B t seg) overlapping t;
              t = insert_trim B leftTrim t
          in insert_trim B rightTrim t)"

subsection \<open>The operations\<close>

definition New :: "('v, 't) btree \<Rightarrow> 't" where
  "New B = bt_new B"

definition Set :: "('v, 't) btree \<Rightarrow> 't \<Rightarrow> int \<Rightarrow> 'v \<Rightarrow> 't" where
  "Set B t key val = internalSet B t key (i64 (key + 1)) val"

definition Delete :: "('v, 't) btree \<Rightarrow> 't \<Rightarrow> int \<Rightarrow> 't" where
  "Delete B t key = internalDelete B t key (i64 (key + 1))"

definition SetIfAbsent :: "('v, 't) btree \<Rightarrow> 't \<Rightarrow> int \<Rightarrow> 'v \<Rightarrow> bool \<times> 't" where
  "SetIfAbsent B t key val =
     (case findCovering B t key of
        Some _ \<Rightarrow> (False, t)
      | None \<Rightarrow>
          let newSeg = \<lparr>Lo = key, Hi = i64 (key + 1), Value = val\<rparr>
          in (True, fst (mergeNeighbors B (ReplaceOrInsert B t newSeg) newSeg)))"

definition Clear :: "('v, 't) btree \<Rightarrow> 't \<Rightarrow> 't" where
  "Clear B t = bt_Clear B t"

definition Get :: "('v, 't) btree \<Rightarrow> 't \<Rightarrow> int \<Rightarrow> 'v option" where
  "Get B t key = (case findCovering B t key of Some seg \<Rightarrow> Some (Value seg) | None \<Rightarrow> None)"

definition Contains :: "('v, 't) btree \<Rightarrow> 't \<Rightarrow> int \<Rightarrow> bool" where
  "Contains B t key = (Get B t key \<noteq> None)"

definition Len :: "('v, 't) btree \<Rightarrow> 't \<Rightarrow> nat" where
  "Len B t = bt_Len B t"

fun visit_ranges :: "(int \<Rightarrow> int \<Rightarrow> 'v \<Rightarrow> 's \<Rightarrow> 's \<times> bool) \<Rightarrow> 'v segment list \<Rightarrow> 's \<Rightarrow> 's" where
  "visit_ranges fn [] s = s"
| "visit_ranges fn (seg # segs) s =
     (case fn (Lo seg) (Hi seg) (Value seg) s of (s, go) \<Rightarrow> if go then visit_ranges fn segs s else s)"

definition Ranges :: "('v, 't) btree \<Rightarrow> 't \<Rightarrow> (int \<Rightarrow> int \<Rightarrow> 'v \<Rightarrow> 's \<Rightarrow> 's \<times> bool) \<Rightarrow> 's \<Rightarrow> 's" where
  "Ranges B t fn s = visit_ranges fn (Ascend B t) s"

definition CollectRanges :: "('v, 't) btree \<Rightarrow> 't \<Rightarrow> 'v segment list" where
  "CollectRanges B t = visit_ranges (\<lambda>lo hi v out. (out @ [\<lparr>Lo = lo, Hi = hi, Value = v\<rparr>], True)) (Ascend B t) []"

subsection \<open>The contract of the B-tree\<close>

definition btree_laws :: "('v, 't) btree \<Rightarrow> ('t \<Rightarrow> bool) \<Rightarrow> bool" where
  "btree_laws B ok \<longleftrightarrow>
     ok (bt_new B) \<and> Ascend B (bt_new B) = []
     \<and> (\<forall>t. ok t \<longrightarrow>
          sorted_wrt (\<lambda>a b. Lo a < Lo b) (Ascend B t)
          \<and> (\<forall>k. DescendLessOrEqual B t k = rev (filter (\<lambda>s. Lo s \<le> k) (Ascend B t)))
          \<and> (\<forall>k. AscendGreaterOrEqual B t k = filter (\<lambda>s. k \<le> Lo s) (Ascend B t))
          \<and> (\<forall>s. ok (bt_Delete B t s) \<and> set (Ascend B (bt_Delete B t s)) = {x \<in> set (Ascend B t). Lo x \<noteq> Lo s})
          \<and> (\<forall>s. ok (ReplaceOrInsert B t s)
               \<and> set (Ascend B (ReplaceOrInsert B t s)) = insert s {x \<in> set (Ascend B t). Lo x \<noteq> Lo s})
          \<and> ok (bt_Clear B t) \<and> Ascend B (bt_Clear B t) = [] \<and> bt_Len B t = length (Ascend B t))"

subsection \<open>Sets of segments\<close>

definition seg_wf :: "'v segment set \<Rightarrow> bool" where
  "seg_wf S \<longleftrightarrow> (\<forall>s \<in> S. Lo s < Hi s)
     \<and> (\<forall>s \<in> S. \<forall>s' \<in> S. s \<noteq> s' \<longrightarrow> Hi s \<le> Lo s' \<or> Hi s' \<le> Lo s)"

definition merged :: "'v segment set \<Rightarrow> bool" where
  "merged S \<longleftrightarrow> (\<forall>s \<in> S. \<forall>s' \<in> S. Hi s = Lo s' \<longrightarrow> Value s \<noteq> Value s')"

definition covers :: "'v segment set \<Rightarrow> int \<Rightarrow> 'v \<Rightarrow> bool" where
  "covers S k v \<longleftrightarrow> (\<exists>s \<in> S. Lo s \<le> k \<and> k < Hi s \<and> Value s = v)"

lemma seg_wfD:
  assumes "seg_wf S" "s \<in> S"
  shows "Lo s < Hi s" and "s' \<in> S \<Longrightarrow> s \<noteq> s' \<Longrightarrow> Hi s \<le> Lo s' \<or> Hi s' \<le> Lo s"
  using assms by (auto simp: seg_wf_def)

lemma seg_wf_Lo_inj:
  assumes "seg_wf S" "s \<in> S" "s' \<in> S" "Lo s = Lo s'"
  shows "s = s'"
  using assms seg_wfD(1) [OF assms(1,2)] seg_wfD(1) [OF assms(1,3)] seg_wfD(2) [OF assms(1,2,3)] by force

lemma seg_wf_Lo_less: "seg_wf S \<Longrightarrow> s \<in> S \<Longrightarrow> s' \<in> S \<Longrightarrow> Lo s < Lo s' \<Longrightarrow> Hi s \<le> Lo s'"
  using seg_wfD(1) [of S s'] seg_wfD(2) [of S s s'] by fastforce

lemma seg_wf_subset: "seg_wf S \<Longrightarrow> T \<subseteq> S \<Longrightarrow> seg_wf T"
  unfolding seg_wf_def by (meson subsetD)

lemma merged_subset: "merged S \<Longrightarrow> T \<subseteq> S \<Longrightarrow> merged T"
  unfolding merged_def by (meson subsetD)

lemma seg_wf_insert: "seg_wf (insert n C) \<longleftrightarrow>
    seg_wf C \<and> Lo n < Hi n \<and> (\<forall>s \<in> C. s \<noteq> n \<longrightarrow> Hi s \<le> Lo n \<or> Hi n \<le> Lo s)"
  unfolding seg_wf_def by auto

lemma covers_insert: "covers (insert n C) k v \<longleftrightarrow> (Lo n \<le> k \<and> k < Hi n \<and> Value n = v) \<or> covers C k v"
  unfolding covers_def by auto

lemma covers_unique: "seg_wf S \<Longrightarrow> covers S k v \<Longrightarrow> covers S k v' \<Longrightarrow> v = v'"
proof -
  assume wf: "seg_wf S" and "covers S k v" "covers S k v'"
  then obtain s s' where s: "s \<in> S" "Lo s \<le> k" "k < Hi s" "Value s = v"
    and s': "s' \<in> S" "Lo s' \<le> k" "k < Hi s'" "Value s' = v'"
    unfolding covers_def by blast
  then have "s = s'" using seg_wfD(2) [OF wf s(1) s'(1)] by force
  then show ?thesis using s s' by simp
qed

text \<open>A new segment that fits between the others, and absorbing a neighbour of the same value.\<close>

definition fits :: "'v segment set \<Rightarrow> 'v segment \<Rightarrow> bool" where
  "fits C n \<longleftrightarrow> seg_wf (insert n C) \<and> n \<notin> C \<and> merged C"

definition no_left :: "'v segment set \<Rightarrow> 'v segment \<Rightarrow> bool" where
  "no_left C n \<longleftrightarrow> (\<forall>x \<in> C. Hi x = Lo n \<longrightarrow> Value x \<noteq> Value n)"

definition no_right :: "'v segment set \<Rightarrow> 'v segment \<Rightarrow> bool" where
  "no_right C n \<longleftrightarrow> (\<forall>x \<in> C. Lo x = Hi n \<longrightarrow> Value x \<noteq> Value n)"

lemma fits_merged:
  assumes "fits C n" "no_left C n" "no_right C n"
  shows "seg_wf (insert n C)" "merged (insert n C)"
proof -
  show wf: "seg_wf (insert n C)" using assms(1) by (simp add: fits_def)
  have "Hi n \<noteq> Lo n" using seg_wfD(1) [OF wf, of n] by simp
  then show "merged (insert n C)"
    using assms unfolding fits_def merged_def no_left_def no_right_def by (metis insert_iff)
qed

lemma fits_split:
  assumes "fits C n" "x \<in> C"
  shows "Lo x < Hi x" "Lo n < Hi n" "seg_wf C" "n \<noteq> x" "Hi x \<le> Lo n \<or> Hi n \<le> Lo x"
    "\<And>y. y \<in> C \<Longrightarrow> y \<noteq> x \<Longrightarrow> Hi y \<le> Lo x \<or> Hi x \<le> Lo y"
    "\<And>y. y \<in> C \<Longrightarrow> Hi y \<le> Lo n \<or> Hi n \<le> Lo y"
  using assms unfolding fits_def seg_wf_insert by (auto dest: seg_wfD)

lemma absorb_left:
  assumes f: "fits C n" and x: "x \<in> C" "Hi x = Lo n" "Value x = Value n"
  defines "n' \<equiv> n\<lparr>Lo := Lo x\<rparr>"
  shows "fits (C - {x}) n'" "no_left (C - {x}) n'" "no_right C n \<Longrightarrow> no_right (C - {x}) n'"
    "covers (insert n' (C - {x})) k v = covers (insert n C) k v"
proof -
  note s = fits_split [OF f x(1)]
  have pos: "Lo y < Hi y" if "y \<in> C" for y using seg_wfD(1) [OF s(3) that] .
  have apart: "Hi y \<le> Lo x \<or> Hi n \<le> Lo y" if y: "y \<in> C" "y \<noteq> x" for y
    using s(1,2) s(6) [OF y] s(7) [OF y(1)] pos [OF y(1)] x(2) by linarith
  have notin: "n' \<notin> C"
  proof
    assume n': "n' \<in> C"
    then have "n' = x" by (intro seg_wf_Lo_inj [OF s(3) _ x(1)]) (simp_all add: n'_def)
    then have "Hi x = Hi n'" by simp
    then have "Hi x = Hi n" by (simp add: n'_def)
    then show False using s(2) x(2) by simp
  qed
  show "fits (C - {x}) n'"
    unfolding fits_def seg_wf_insert
    using apart s(1,2) x(2) notin seg_wf_subset [OF s(3)] f merged_subset [of C "C - {x}"]
    by (auto simp: n'_def fits_def)
  show "no_left (C - {x}) n'"
    using f x unfolding no_left_def n'_def fits_def merged_def by fastforce
  show "no_right C n \<Longrightarrow> no_right (C - {x}) n'"
    by (auto simp: no_right_def n'_def)
  have "covers C k v \<longleftrightarrow> covers (C - {x}) k v \<or> (Lo x \<le> k \<and> k < Hi x \<and> Value x = v)"
    using x(1) by (auto simp: covers_def)
  then show "covers (insert n' (C - {x})) k v = covers (insert n C) k v"
    using x s(1,2) by (auto simp: covers_insert n'_def)
qed

lemma absorb_right:
  assumes f: "fits C n" and x: "x \<in> C" "Lo x = Hi n" "Value x = Value n"
  defines "n' \<equiv> n\<lparr>Hi := Hi x\<rparr>"
  shows "fits (C - {x}) n'" "no_right (C - {x}) n'" "no_left C n \<Longrightarrow> no_left (C - {x}) n'"
    "covers (insert n' (C - {x})) k v = covers (insert n C) k v"
proof -
  note s = fits_split [OF f x(1)]
  have pos: "Lo y < Hi y" if "y \<in> C" for y using seg_wfD(1) [OF s(3) that] .
  have apart: "Hi y \<le> Lo n \<or> Hi x \<le> Lo y" if y: "y \<in> C" "y \<noteq> x" for y
    using s(1,2) s(6) [OF y] s(7) [OF y(1)] pos [OF y(1)] x(2) by linarith
  have notin: "n' \<notin> C"
  proof
    assume n': "n' \<in> C"
    then show False using s(7) [OF n'] s(1,2) x(2) by (auto simp: n'_def)
  qed
  show "fits (C - {x}) n'"
    unfolding fits_def seg_wf_insert
    using apart s(1,2) x(2) notin seg_wf_subset [OF s(3)] f merged_subset [of C "C - {x}"]
    by (auto simp: n'_def fits_def)
  show "no_right (C - {x}) n'"
    using f x unfolding no_right_def n'_def fits_def merged_def by fastforce
  show "no_left C n \<Longrightarrow> no_left (C - {x}) n'"
    by (auto simp: no_left_def n'_def)
  have "covers C k v \<longleftrightarrow> covers (C - {x}) k v \<or> (Lo x \<le> k \<and> k < Hi x \<and> Value x = v)"
    using x(1) by (auto simp: covers_def)
  then show "covers (insert n' (C - {x})) k v = covers (insert n C) k v"
    using x s(1,2) by (auto simp: covers_insert n'_def)
qed

text \<open>Cutting the interval \<open>[lo, hi)\<close> out of every segment.\<close>

definition carve :: "'v segment set \<Rightarrow> int \<Rightarrow> int \<Rightarrow> 'v segment set" where
  "carve S lo hi = {s \<in> S. Hi s \<le> lo \<or> hi \<le> Lo s}
     \<union> (\<lambda>s. s\<lparr>Hi := lo\<rparr>) ` {s \<in> S. Lo s < lo \<and> lo < Hi s}
     \<union> (\<lambda>s. s\<lparr>Lo := hi\<rparr>) ` {s \<in> S. Lo s < hi \<and> hi < Hi s}"

lemma carve_from:
  assumes "y \<in> carve S lo hi" "lo < hi" "seg_wf S"
  obtains s where "s \<in> S" "Lo s \<le> Lo y" "Hi y \<le> Hi s" "Lo y < Hi y" "Value y = Value s" "Hi y \<le> lo \<or> hi \<le> Lo y"
    "Lo y = Lo s \<or> Lo y = hi" "Hi y = Hi s \<or> Hi y = lo"
proof -
  consider "y \<in> S" "Hi y \<le> lo \<or> hi \<le> Lo y" | s where "s \<in> S" "Lo s < lo" "lo < Hi s" "y = s\<lparr>Hi := lo\<rparr>"
    | s where "s \<in> S" "Lo s < hi" "hi < Hi s" "y = s\<lparr>Lo := hi\<rparr>"
    using assms(1) by (auto simp: carve_def)
  then show thesis
  proof cases
    case 1
    then show thesis using that [of y] seg_wfD(1) [OF assms(3), of y] by simp
  next
    case (2 s)
    then show thesis using that [of s] by simp
  next
    case (3 s)
    then show thesis using that [of s] by simp
  qed
qed

lemma covers_carve:
  assumes "lo < hi" "seg_wf S"
  shows "covers (carve S lo hi) k v \<longleftrightarrow> covers S k v \<and> \<not> (lo \<le> k \<and> k < hi)"
proof
  assume "covers (carve S lo hi) k v"
  then obtain y where y: "y \<in> carve S lo hi" "Lo y \<le> k" "k < Hi y" "Value y = v" by (auto simp: covers_def)
  obtain s where "s \<in> S" "Lo s \<le> Lo y" "Hi y \<le> Hi s" "Value y = Value s" "Hi y \<le> lo \<or> hi \<le> Lo y"
    by (rule carve_from [OF y(1) assms]) auto
  then show "covers S k v \<and> \<not> (lo \<le> k \<and> k < hi)" using y by (auto simp: covers_def intro!: bexI [of _ s])
next
  assume A: "covers S k v \<and> \<not> (lo \<le> k \<and> k < hi)"
  then obtain s where s: "s \<in> S" "Lo s \<le> k" "k < Hi s" "Value s = v" by (auto simp: covers_def)
  consider "k < lo" "Hi s \<le> lo" | "k < lo" "lo < Hi s" | "hi \<le> k" "hi \<le> Lo s" | "hi \<le> k" "Lo s < hi"
    using A by linarith
  then show "covers (carve S lo hi) k v"
  proof cases
    case 2
    then have "s\<lparr>Hi := lo\<rparr> \<in> carve S lo hi" using s by (auto simp: carve_def)
    then show ?thesis unfolding covers_def using s 2 by (intro bexI [of _ "s\<lparr>Hi := lo\<rparr>"]) simp_all
  next
    case 4
    then have "s\<lparr>Lo := hi\<rparr> \<in> carve S lo hi" using s by (auto simp: carve_def)
    then show ?thesis unfolding covers_def using s 4 by (intro bexI [of _ "s\<lparr>Lo := hi\<rparr>"]) simp_all
  qed (use s in \<open>auto simp: covers_def carve_def\<close>)
qed

lemma carve_wf:
  assumes "lo < hi" "seg_wf S" "merged S"
  shows "seg_wf (carve S lo hi)" "merged (carve S lo hi)"
proof -
  have A: "Hi y \<le> Lo y' \<or> Hi y' \<le> Lo y" if y: "y \<in> carve S lo hi" "y' \<in> carve S lo hi" "y \<noteq> y'" for y y'
  proof -
    obtain s where s: "s \<in> S" "Lo s \<le> Lo y" "Hi y \<le> Hi s" "Lo y < Hi y" "Value y = Value s" "Hi y \<le> lo \<or> hi \<le> Lo y"
      "Lo y = Lo s \<or> Lo y = hi" "Hi y = Hi s \<or> Hi y = lo"
      by (rule carve_from [OF y(1) assms(1,2)])
    obtain s' where s': "s' \<in> S" "Lo s' \<le> Lo y'" "Hi y' \<le> Hi s'" "Lo y' < Hi y'" "Value y' = Value s'" "Hi y' \<le> lo \<or> hi \<le> Lo y'"
      "Lo y' = Lo s' \<or> Lo y' = hi" "Hi y' = Hi s' \<or> Hi y' = lo"
      by (rule carve_from [OF y(2) assms(1,2)])
    show ?thesis
    proof (cases "s = s'")
      case True
      have "\<not> (Lo y = Lo y' \<and> Hi y = Hi y')" using y(3) s(5) s'(5) True by (metis segment.equality old.unit.exhaust)
      then show ?thesis using s s' True assms(1) by auto
    next
      case False
      then show ?thesis using seg_wfD(2) [OF assms(2) s(1) s'(1)] s s' by linarith
    qed
  qed
  have "Lo y < Hi y" if "y \<in> carve S lo hi" for y by (rule carve_from [OF that assms(1,2)])
  with A show "seg_wf (carve S lo hi)" unfolding seg_wf_def by blast
  have "Value y \<noteq> Value y'" if y: "y \<in> carve S lo hi" "y' \<in> carve S lo hi" "Hi y = Lo y'" for y y'
  proof -
    obtain s where s: "s \<in> S" "Lo s \<le> Lo y" "Hi y \<le> Hi s" "Lo y < Hi y" "Value y = Value s" "Hi y \<le> lo \<or> hi \<le> Lo y"
      "Lo y = Lo s \<or> Lo y = hi" "Hi y = Hi s \<or> Hi y = lo"
      by (rule carve_from [OF y(1) assms(1,2)])
    obtain s' where s': "s' \<in> S" "Lo s' \<le> Lo y'" "Hi y' \<le> Hi s'" "Lo y' < Hi y'" "Value y' = Value s'" "Hi y' \<le> lo \<or> hi \<le> Lo y'"
      "Lo y' = Lo s' \<or> Lo y' = hi" "Hi y' = Hi s' \<or> Hi y' = lo"
      by (rule carve_from [OF y(2) assms(1,2)])
    have "Hi s = Lo s'"
    proof (cases "s = s'")
      case True
      then show ?thesis using s s' y(3) assms(1) by linarith
    next
      case False
      then show ?thesis using seg_wfD(2) [OF assms(2) s(1) s'(1)] s s' y(3) assms(1) by linarith
    qed
    then show ?thesis using assms(3) s(1,5) s'(1,5) unfolding merged_def by metis
  qed
  then show "merged (carve S lo hi)" unfolding merged_def by blast
qed

lemma carve_fits:
  assumes "lo < hi" "seg_wf S" "merged S"
  shows "fits (carve S lo hi) \<lparr>Lo = lo, Hi = hi, Value = val\<rparr>"
proof -
  have "Hi y \<le> lo \<or> hi \<le> Lo y" "Lo y < Hi y" if "y \<in> carve S lo hi" for y
    using carve_from [OF that assms(1,2)] by metis+
  then show ?thesis using carve_wf [OF assms] assms(1) unfolding fits_def seg_wf_insert by fastforce
qed

subsection \<open>The operations on the tree\<close>

definition segs :: "('v, 't) btree \<Rightarrow> 't \<Rightarrow> 'v segment set" where
  "segs B t = set (Ascend B t)"

definition index_ok :: "('v, 't) btree \<Rightarrow> ('t \<Rightarrow> bool) \<Rightarrow> 't \<Rightarrow> bool" where
  "index_ok B ok t \<longleftrightarrow> ok t \<and> seg_wf (segs B t) \<and> merged (segs B t)"

lemma btree_lawsD:
  assumes "btree_laws B ok" "ok t"
  shows "sorted_wrt (\<lambda>a b. Lo a < Lo b) (Ascend B t)"
    and "DescendLessOrEqual B t k = rev (filter (\<lambda>s. Lo s \<le> k) (Ascend B t))"
    and "AscendGreaterOrEqual B t k = filter (\<lambda>s. k \<le> Lo s) (Ascend B t)"
    and "ok (bt_Delete B t s)" "segs B (bt_Delete B t s) = {x \<in> segs B t. Lo x \<noteq> Lo s}"
    and "ok (ReplaceOrInsert B t s)" "segs B (ReplaceOrInsert B t s) = insert s {x \<in> segs B t. Lo x \<noteq> Lo s}"
    and "ok (bt_Clear B t)" "segs B (bt_Clear B t) = {}" "bt_Len B t = length (Ascend B t)"
  using assms by (auto simp: btree_laws_def segs_def)

lemma sorted_last_max:
  "sorted_wrt (\<lambda>a b. Lo a < Lo b) xs \<Longrightarrow> s \<in> set xs \<Longrightarrow> s \<noteq> last xs \<Longrightarrow> Lo s < Lo (last xs)"
  by (induction xs) (auto split: if_splits)

lemma sorted_hd_min:
  "sorted_wrt (\<lambda>a b. Lo a < Lo b) xs \<Longrightarrow> s \<in> set xs \<Longrightarrow> s \<noteq> hd xs \<Longrightarrow> Lo (hd xs) < Lo s"
  by (cases xs) auto

lemma sorted_filter: "sorted_wrt P xs \<Longrightarrow> sorted_wrt P (filter Q xs)"
  by (induction xs) auto

lemma sorted_from:
  "sorted_wrt (\<lambda>a b. Lo a < Lo b) xs \<Longrightarrow> s \<in> set xs \<Longrightarrow>
     filter (\<lambda>x. Lo s \<le> Lo x) xs = s # filter (\<lambda>x. Lo s < Lo x) xs"
proof (induction xs)
  case (Cons x xs)
  then show ?case
  proof (cases "s = x")
    case True
    then have "filter (\<lambda>y. Lo s \<le> Lo y) xs = xs" "filter (\<lambda>y. Lo s < Lo y) xs = xs"
      using Cons.prems(1) by (auto simp: filter_id_conv)
    then show ?thesis using True by simp
  next
    case False
    then show ?thesis using Cons by auto
  qed
qed simp

text \<open>The first item of a descending visit is the one with the largest \<open>Lo\<close>.\<close>

lemma descend_cases:
  assumes "btree_laws B ok" "ok t"
  obtains "DescendLessOrEqual B t k = []" "\<forall>s \<in> segs B t. k < Lo s"
  | s rest where "DescendLessOrEqual B t k = s # rest" "s \<in> segs B t" "Lo s \<le> k"
      "\<forall>x \<in> segs B t. x \<noteq> s \<longrightarrow> Lo x \<le> k \<longrightarrow> Lo x < Lo s"
proof -
  let ?F = "filter (\<lambda>s. Lo s \<le> k) (Ascend B t)"
  have D: "DescendLessOrEqual B t k = rev ?F" and srt: "sorted_wrt (\<lambda>a b. Lo a < Lo b) ?F"
    using btree_lawsD [OF assms] sorted_filter by blast+
  show thesis
  proof (cases "?F = []")
    case True
    then show thesis using that(1) D by (simp add: segs_def filter_empty_conv not_le)
  next
    case False
    then have "rev ?F = last ?F # rev (butlast ?F)" by (metis append_butlast_last_id rev.simps(2) rev_rev_ident rev_append append.simps rev.simps(1))
    moreover have "last ?F \<in> set ?F" using False by (rule last_in_set)
    moreover have "\<forall>x \<in> segs B t. x \<noteq> last ?F \<longrightarrow> Lo x \<le> k \<longrightarrow> Lo x < Lo (last ?F)"
      using sorted_last_max [OF srt] by (simp add: segs_def)
    ultimately show thesis using that(2) [of "last ?F" "rev (butlast ?F)"] D by (simp add: segs_def)
  qed
qed

lemma findCovering_iff:
  assumes L: "btree_laws B ok" and t: "index_ok B ok t"
  shows "findCovering B t key = Some s \<longleftrightarrow> s \<in> segs B t \<and> Lo s \<le> key \<and> key < Hi s"
proof -
  have ok: "ok t" and wf: "seg_wf (segs B t)" using t by (simp_all add: index_ok_def)
  show ?thesis
  proof (cases rule: descend_cases [OF L ok, of key])
    case 1
    then show ?thesis by (fastforce simp: findCovering_def)
  next
    case (2 s0 rest)
    have "s = s0" if s: "s \<in> segs B t" "Lo s \<le> key" "key < Hi s"
    proof (rule ccontr)
      assume "s \<noteq> s0"
      then have "Hi s \<le> Lo s0" using 2 s seg_wf_Lo_less [OF wf s(1) 2(2)] by blast
      then show False using 2(3) s(3) by simp
    qed
    then show ?thesis using 2 by (auto simp: findCovering_def)
  qed
qed

lemma Get_iff:
  assumes "btree_laws B ok" "index_ok B ok t"
  shows "Get B t k = Some v \<longleftrightarrow> covers (segs B t) k v"
proof
  assume "Get B t k = Some v"
  then obtain s where "findCovering B t k = Some s" "Value s = v" by (auto simp: Get_def split: option.splits)
  then show "covers (segs B t) k v" using findCovering_iff [OF assms] by (auto simp: covers_def)
next
  assume "covers (segs B t) k v"
  then obtain s where "s \<in> segs B t" "Lo s \<le> k" "k < Hi s" "Value s = v" by (auto simp: covers_def)
  then show "Get B t k = Some v" using findCovering_iff [OF assms, of k s] by (simp add: Get_def)
qed

lemma collect_sorted:
  assumes "sorted_wrt (\<lambda>a b. Lo a < Lo b) xs" "out \<noteq> [] \<longrightarrow> (\<forall>s \<in> set xs. Lo s \<noteq> Lo (out ! 0))"
  shows "collect_overlapping hi out xs = out @ filter (\<lambda>s. Lo s < hi) xs"
  using assms
proof (induction xs arbitrary: out)
  case (Cons x xs)
  show ?case
  proof (cases "Lo x \<ge> hi")
    case True
    then have "filter (\<lambda>s. Lo s < hi) xs = []" using Cons.prems(1) by (force simp: filter_empty_conv)
    then show ?thesis using True by simp
  next
    case False
    have "collect_overlapping hi (out @ [x]) xs = (out @ [x]) @ filter (\<lambda>s. Lo s < hi) xs"
      using Cons.prems by (intro Cons.IH) (auto simp: nth_append)
    then show ?thesis using False Cons.prems by auto
  qed
qed simp

abbreviation overlaps :: "int \<Rightarrow> int \<Rightarrow> 'v segment \<Rightarrow> bool" where
  "overlaps lo hi s \<equiv> Lo s < hi \<and> lo < Hi s"

lemma findOverlapping_eq:
  assumes L: "btree_laws B ok" and t: "index_ok B ok t" and lh: "lo < hi"
  shows "findOverlapping B t lo hi = filter (overlaps lo hi) (Ascend B t)"
proof -
  have ok: "ok t" and wf: "seg_wf (segs B t)" using t by (simp_all add: index_ok_def)
  note law = btree_lawsD [OF L ok]
  have plain: "findOverlapping B t lo hi = filter (overlaps lo hi) (Ascend B t)"
    if start: "(case DescendLessOrEqual B t lo of [] \<Rightarrow> ([], lo)
        | seg # _ \<Rightarrow> if Hi seg > lo then ([seg], Lo seg) else ([], lo)) = ([], lo)"
      and low: "\<forall>s \<in> segs B t. Lo s \<le> lo \<longrightarrow> Hi s \<le> lo"
  proof -
    have "findOverlapping B t lo hi = filter (\<lambda>s. Lo s < hi) (filter (\<lambda>s. lo \<le> Lo s) (Ascend B t))"
      unfolding findOverlapping_def start law(3)
      using collect_sorted [OF sorted_filter [OF law(1)], of "[]"] by simp
    also have "\<dots> = filter (overlaps lo hi) (Ascend B t)"
      using low seg_wfD(1) [OF wf] unfolding filter_filter segs_def by (intro filter_cong) fastforce+
    finally show ?thesis .
  qed
  show ?thesis
  proof (cases rule: descend_cases [OF L ok, of lo])
    case 1
    then show ?thesis by (intro plain) force+
  next
    case (2 s0 rest)
    show ?thesis
    proof (cases "Hi s0 > lo")
      case False
      have "\<forall>s \<in> segs B t. Lo s \<le> lo \<longrightarrow> Hi s \<le> lo"
      proof (intro ballI impI)
        fix s assume s: "s \<in> segs B t" "Lo s \<le> lo"
        show "Hi s \<le> lo"
        proof (cases "s = s0")
          case True then show ?thesis using False by simp
        next
          case ne: False
          then have "Hi s \<le> Lo s0" using 2(4) s seg_wf_Lo_less [OF wf s(1) 2(2)] by blast
          then show ?thesis using 2(3) by simp
        qed
      qed
      then show ?thesis using 2 False by (intro plain) simp_all
    next
      case True
      have s0: "s0 \<in> set (Ascend B t)" using 2(2) by (simp add: segs_def)
      let ?R = "filter (\<lambda>x. Lo s0 < Lo x) (Ascend B t)"
      have "findOverlapping B t lo hi = collect_overlapping hi [s0] (s0 # ?R)"
        using 2 True law(3) sorted_from [OF law(1) s0] by (simp add: findOverlapping_def)
      also have "\<dots> = collect_overlapping hi [s0] ?R" using 2(3) lh by simp
      also have "\<dots> = [s0] @ filter (\<lambda>s. Lo s < hi) ?R"
        by (rule collect_sorted [OF sorted_filter [OF law(1)]]) auto
      also have "\<dots> = filter (\<lambda>s. Lo s < hi) (filter (\<lambda>x. Lo s0 \<le> Lo x) (Ascend B t))"
        using sorted_from [OF law(1) s0] 2(3) lh by simp
      also have "\<dots> = filter (overlaps lo hi) (Ascend B t)"
        unfolding filter_filter
      proof (intro filter_cong refl)
        fix s assume "s \<in> set (Ascend B t)"
        then have s: "s \<in> segs B t" by (simp add: segs_def)
        show "(Lo s0 \<le> Lo s \<and> Lo s < hi) = overlaps lo hi s"
        proof (cases "s = s0")
          case eq: True
          then show ?thesis using True 2(3) lh by simp
        next
          case ne: False
          have "Lo s0 \<le> Lo s \<Longrightarrow> lo < Lo s" using 2(4) s ne by force
          moreover have "Lo s < Lo s0 \<Longrightarrow> Hi s \<le> lo" using seg_wf_Lo_less [OF wf s 2(2)] 2(3) by simp
          ultimately show ?thesis using seg_wfD(1) [OF wf s] by linarith
        qed
      qed
      finally show ?thesis .
    qed
  qed
qed

lemma delete_all:
  assumes L: "btree_laws B ok" and "ok t"
  shows "ok (fold (\<lambda>seg t. bt_Delete B t seg) xs t)
    \<and> segs B (fold (\<lambda>seg t. bt_Delete B t seg) xs t) = {x \<in> segs B t. \<forall>o' \<in> set xs. Lo x \<noteq> Lo o'}"
  using assms(2)
proof (induction xs arbitrary: t)
  case (Cons x xs)
  then show ?case using btree_lawsD(4,5) [OF L Cons.prems, of x] by auto
qed simp

lemma delete_overlapping:
  fixes lo hi :: int
  assumes L: "btree_laws B ok" and t: "index_ok B ok t"
  defines "t' \<equiv> fold (\<lambda>seg t. bt_Delete B t seg) (filter (overlaps lo hi) (Ascend B t)) t"
  shows "ok t'" "segs B t' = {s \<in> segs B t. \<not> overlaps lo hi s}"
proof -
  have ok: "ok t" and wf: "seg_wf (segs B t)" using t by (simp_all add: index_ok_def)
  show "ok t'" using delete_all [OF L ok] by (simp add: t'_def)
  have "segs B t' = {x \<in> segs B t. \<forall>o' \<in> set (filter (overlaps lo hi) (Ascend B t)). Lo x \<noteq> Lo o'}"
    using delete_all [OF L ok] by (simp add: t'_def)
  also have "\<dots> = {s \<in> segs B t. \<not> overlaps lo hi s}"
    using seg_wf_Lo_inj [OF wf] by (fastforce simp: segs_def)
  finally show "segs B t' = {s \<in> segs B t. \<not> overlaps lo hi s}" .
qed

text \<open>Inserting a segment that fits, and merging it with its neighbours.\<close>

lemma fits_apart:
  assumes "fits C n" "y \<in> C"
  shows "Lo y \<noteq> Lo n" and "x \<in> C \<Longrightarrow> Lo y = Lo x \<longleftrightarrow> y = x"
proof -
  have wf: "seg_wf (insert n C)" and n: "n \<notin> C" using assms(1) by (simp_all add: fits_def)
  show "Lo y \<noteq> Lo n" using seg_wf_Lo_inj [OF wf, of y n] assms(2) n by blast
  show "x \<in> C \<Longrightarrow> Lo y = Lo x \<longleftrightarrow> y = x" using seg_wf_Lo_inj [OF wf, of y x] assms(2) by blast
qed

lemma insert_fits:
  assumes L: "btree_laws B ok" and "ok t" and f: "fits (segs B t) n"
  shows "ok (ReplaceOrInsert B t n)" "segs B (ReplaceOrInsert B t n) = insert n (segs B t)"
proof -
  have "Lo y \<noteq> Lo n" if "y \<in> segs B t" for y
    using fits_apart(1) [OF f that] .
  then have "{x \<in> segs B t. Lo x \<noteq> Lo n} = segs B t" by blast
  then show "ok (ReplaceOrInsert B t n)" "segs B (ReplaceOrInsert B t n) = insert n (segs B t)"
    using btree_lawsD(6,7) [OF L assms(2), of n] by simp_all
qed

lemma replace_two:
  assumes L: "btree_laws B ok" and ok: "ok t" and S: "segs B t = insert n C" and f: "fits C n"
    and x: "x \<in> C" and f': "fits (C - {x}) n'"
  defines "t' \<equiv> ReplaceOrInsert B (bt_Delete B (bt_Delete B t x) n) n'"
  shows "ok t'" "segs B t' = insert n' (C - {x})"
proof -
  let ?t = "bt_Delete B (bt_Delete B t x) n"
  have ok2: "ok ?t" by (rule btree_lawsD(4) [OF L btree_lawsD(4) [OF L ok]])
  have "segs B ?t = {y \<in> insert n C. Lo y \<noteq> Lo x \<and> Lo y \<noteq> Lo n}"
    using btree_lawsD(5) [OF L btree_lawsD(4) [OF L ok], of x n] btree_lawsD(5) [OF L ok, of x] S by auto
  also have "\<dots> = C - {x}"
    using fits_apart(1) [OF f] fits_apart(2) [OF f _ x] by blast
  finally have S2: "segs B ?t = C - {x}" .
  then have f2: "fits (segs B ?t) n'" using f' by simp
  show "ok t'" "segs B t' = insert n' (C - {x})"
    unfolding t'_def using insert_fits [OF L ok2 f2] S2 by simp_all
qed

lemma rev_filter_cases:
  assumes "sorted_wrt (\<lambda>a b. Lo a < Lo b) xs"
  obtains "rev (filter P xs) = []" "\<forall>x \<in> set xs. \<not> P x"
  | y r where "rev (filter P xs) = y # r" "y \<in> set xs" "P y" "\<forall>x \<in> set xs. P x \<longrightarrow> x \<noteq> y \<longrightarrow> Lo x < Lo y"
proof (cases "filter P xs" rule: rev_cases)
  case Nil
  then show thesis using that(1) by (simp add: filter_empty_conv)
next
  case (snoc ys y)
  have "y \<in> set (filter P xs)" by (simp add: snoc)
  moreover have "sorted_wrt (\<lambda>a b. Lo a < Lo b) (ys @ [y])" using sorted_filter [OF assms, of P] by (simp only: snoc)
  moreover have "{x \<in> set xs. P x} = set (ys @ [y])" by (simp only: snoc [symmetric] set_filter)
  ultimately show thesis using that(2) [of y "rev ys"] by (auto simp: snoc sorted_wrt_append)
qed

lemma filter_cases:
  assumes "sorted_wrt (\<lambda>a b. Lo a < Lo b) xs"
  obtains "filter P xs = []" "\<forall>x \<in> set xs. \<not> P x"
  | y r where "filter P xs = y # r" "y \<in> set xs" "P y" "\<forall>x \<in> set xs. P x \<longrightarrow> x \<noteq> y \<longrightarrow> Lo y < Lo x"
proof (cases "filter P xs")
  case Nil
  then show thesis using that(1) by (simp add: filter_empty_conv)
next
  case (Cons y ys)
  have "y \<in> set (filter P xs)" by (simp add: Cons)
  moreover have "sorted_wrt (\<lambda>a b. Lo a < Lo b) (y # ys)" using sorted_filter [OF assms, of P] by (simp only: Cons)
  moreover have "{x \<in> set xs. P x} = set (y # ys)" by (simp only: Cons [symmetric] set_filter)
  ultimately show thesis using that(2) [of y ys] by (auto simp: Cons)
qed

lemma sorted_upto_self:
  "sorted_wrt (\<lambda>a b. Lo a < Lo b) xs \<Longrightarrow> n \<in> set xs \<Longrightarrow>
     filter (\<lambda>x. Lo x \<le> Lo n) xs = filter (\<lambda>x. Lo x < Lo n) xs @ [n]"
proof (induction xs)
  case (Cons x xs)
  show ?case
  proof (cases "n = x")
    case True
    then have "filter (\<lambda>y. Lo y \<le> Lo n) xs = []" "filter (\<lambda>y. Lo y < Lo n) xs = []"
      using Cons.prems(1) by (force simp: filter_empty_conv)+
    then show ?thesis using True by simp
  next
    case False
    then show ?thesis using Cons by auto
  qed
qed simp

text \<open>The state of the tree around a new segment \<open>n\<close>: \<open>C\<close> are the other segments.\<close>

definition holds_new :: "('v, 't) btree \<Rightarrow> ('t \<Rightarrow> bool) \<Rightarrow> 't \<Rightarrow> 'v segment set \<Rightarrow> 'v segment \<Rightarrow> bool" where
  "holds_new B ok t C n \<longleftrightarrow> ok t \<and> segs B t = insert n C \<and> fits C n"

lemma merge_left_ok:
  assumes L: "btree_laws B ok" and h: "holds_new B ok t C n"
  obtains t' n' C' where "merge_left B t n (DescendLessOrEqual B t (Lo n)) = (t', n')" "holds_new B ok t' C' n'"
    "no_left C' n'" "\<And>k v. covers (insert n' C') k v = covers (insert n C) k v"
proof -
  have ok: "ok t" and S: "segs B t = insert n C" and f: "fits C n" using h by (simp_all add: holds_new_def)
  note law = btree_lawsD [OF L ok]
  have n: "n \<in> set (Ascend B t)" using S by (auto simp: segs_def)
  have D: "merge_left B t n (DescendLessOrEqual B t (Lo n)) = merge_left B t n (rev (filter (\<lambda>x. Lo x < Lo n) (Ascend B t)))"
    by (simp add: law(2) sorted_upto_self [OF law(1) n])
  have left: "Lo x < Lo n" if "x \<in> C" "Hi x = Lo n" for x using fits_split(1) [OF f that(1)] that(2) by simp
  show thesis
  proof (cases rule: rev_filter_cases [OF law(1), of "\<lambda>x. Lo x < Lo n"])
    case 1
    then have "no_left C n" using left S by (force simp: no_left_def segs_def)
    then show thesis using that [of t n C] D 1 h by simp
  next
    case (2 y r)
    then have y: "y \<in> C" using S by (auto simp: segs_def)
    show thesis
    proof (cases "Hi y = Lo n \<and> Value y = Value n")
      case True
      note A = absorb_left [OF f y conjunct1 [OF True] conjunct2 [OF True]]
      note R = replace_two [OF L ok S f y A(1)]
      show thesis
        by (rule that [of _ "n\<lparr>Lo := Lo y\<rparr>" "C - {y}"])
          (use D 2 True A R in \<open>simp_all add: Let_def holds_new_def\<close>)
    next
      case False
      have "no_left C n"
        unfolding no_left_def
      proof (intro ballI impI)
        fix x assume x: "x \<in> C" "Hi x = Lo n"
        have "x = y"
        proof (rule ccontr)
          assume ne: "x \<noteq> y"
          then have "Lo x < Lo y" using 2(4) left [OF x] x(1) S by (auto simp: segs_def)
          then have "Hi x \<le> Lo y" using fits_split(6) [OF f y x(1) ne] fits_split(1) [OF f y] by linarith
          then show False using 2(3) x(2) by simp
        qed
        then show "Value x \<noteq> Value n" using False x(2) by simp
      qed
      then show thesis using that [of t n C] D 2 False h by auto
    qed
  qed
qed

lemma merge_right_ok:
  assumes L: "btree_laws B ok" and h: "holds_new B ok t C n" and nl: "no_left C n"
  obtains t' n' C' where "merge_right B t n (AscendGreaterOrEqual B t (Hi n)) = (t', n')" "holds_new B ok t' C' n'"
    "no_left C' n'" "no_right C' n'" "\<And>k v. covers (insert n' C') k v = covers (insert n C) k v"
proof -
  have ok: "ok t" and S: "segs B t = insert n C" and f: "fits C n" using h by (simp_all add: holds_new_def)
  note law = btree_lawsD [OF L ok]
  have pos: "Lo n < Hi n" using f by (simp add: fits_def seg_wf_insert)
  show thesis
  proof (cases rule: filter_cases [OF law(1), of "\<lambda>x. Hi n \<le> Lo x"])
    case 1
    then have "no_right C n" using S by (force simp: no_right_def segs_def)
    then show thesis using that [of t n C] law(3) 1 h nl by simp
  next
    case (2 y r)
    then have y: "y \<in> C" using S pos by (auto simp: segs_def)
    show thesis
    proof (cases "Lo y = Hi n \<and> Value y = Value n")
      case True
      note A = absorb_right [OF f y conjunct1 [OF True] conjunct2 [OF True]]
      note R = replace_two [OF L ok S f y A(1)]
      show thesis
        by (rule that [of _ "n\<lparr>Hi := Hi y\<rparr>" "C - {y}"])
          (use law(3) 2 True A R nl in \<open>simp_all add: Let_def holds_new_def\<close>)
    next
      case False
      have "no_right C n"
        unfolding no_right_def
      proof (intro ballI impI)
        fix x assume x: "x \<in> C" "Lo x = Hi n"
        have "x = y" using 2(3,4) x S by (force simp: segs_def)
        then show "Value x \<noteq> Value n" using False x(2) by simp
      qed
      then show thesis using that [of t n C] law(3) 2 False h nl by auto
    qed
  qed
qed

lemma mergeNeighbors_ok:
  assumes L: "btree_laws B ok" and h: "holds_new B ok t C n"
  shows "index_ok B ok (fst (mergeNeighbors B t n))"
    "covers (segs B (fst (mergeNeighbors B t n))) k v = covers (insert n C) k v"
proof -
  obtain t1 n1 C1 where 1: "merge_left B t n (DescendLessOrEqual B t (Lo n)) = (t1, n1)" "holds_new B ok t1 C1 n1"
    "no_left C1 n1" "\<And>k v. covers (insert n1 C1) k v = covers (insert n C) k v"
    using merge_left_ok [OF L h] by metis
  obtain t2 n2 C2 where 2: "merge_right B t1 n1 (AscendGreaterOrEqual B t1 (Hi n1)) = (t2, n2)" "holds_new B ok t2 C2 n2"
    "no_left C2 n2" "no_right C2 n2" "\<And>k v. covers (insert n2 C2) k v = covers (insert n1 C1) k v"
    using merge_right_ok [OF L 1(2,3)] by metis
  have m: "fst (mergeNeighbors B t n) = t2" using 1(1) 2(1) by (simp add: mergeNeighbors_def)
  show "index_ok B ok (fst (mergeNeighbors B t n))"
    using fits_merged [OF _ 2(3,4)] 2(2) unfolding m index_ok_def holds_new_def by simp
  show "covers (segs B (fst (mergeNeighbors B t n))) k v = covers (insert n C) k v"
    using 1(4) 2(2,5) unfolding m holds_new_def by simp
qed

text \<open>At most one segment is cut at each end of an interval: the first and the last overlapping one.\<close>

definition cutL :: "'v segment set \<Rightarrow> int \<Rightarrow> 'v segment set" where
  "cutL S lo = {s \<in> S. Lo s < lo \<and> lo < Hi s}"

lemma cutL_single: "seg_wf S \<Longrightarrow> s \<in> cutL S lo \<Longrightarrow> s' \<in> cutL S lo \<Longrightarrow> s = s'"
  using seg_wfD(2) [of S s s'] by (fastforce simp: cutL_def)

lemma carve_cut: "lo < hi \<Longrightarrow> carve S lo hi = {s \<in> S. \<not> overlaps lo hi s}
    \<union> (\<lambda>s. s\<lparr>Hi := lo\<rparr>) ` cutL S lo \<union> (\<lambda>s. s\<lparr>Lo := hi\<rparr>) ` cutL S hi"
  by (auto simp: carve_def cutL_def)

lemma overlapping_ends:
  assumes L: "btree_laws B ok" and t: "index_ok B ok t" and lh: "lo < hi"
  defines "O' \<equiv> filter (overlaps lo hi) (Ascend B t)"
  shows "cutL (segs B t) lo = (if O' \<noteq> [] \<and> Lo (hd O') < lo then {hd O'} else {})"
    and "cutL (segs B t) hi = (if O' \<noteq> [] \<and> Hi (last O') > hi then {last O'} else {})"
proof -
  have ok: "ok t" and wf: "seg_wf (segs B t)" using t by (simp_all add: index_ok_def)
  have srt: "sorted_wrt (\<lambda>a b. Lo a < Lo b) O'" using btree_lawsD(1) [OF L ok] by (simp add: O'_def sorted_filter)
  have set': "set O' = {s \<in> segs B t. overlaps lo hi s}" by (auto simp: O'_def segs_def)
  have in1: "s \<in> cutL (segs B t) lo \<Longrightarrow> s \<in> set O'" for s using lh set' by (auto simp: cutL_def)
  have in2: "s \<in> cutL (segs B t) hi \<Longrightarrow> s \<in> set O'" for s using lh set' by (auto simp: cutL_def)
  have hd1: "s = hd O'" if s: "s \<in> cutL (segs B t) lo" for s
  proof (rule ccontr)
    assume "s \<noteq> hd O'"
    then have "Lo (hd O') < Lo s" using sorted_hd_min [OF srt in1 [OF s]] by simp
    moreover have "hd O' \<in> set O'" using in1 [OF s] by (cases O') auto
    ultimately show False using cutL_single [OF wf s, of "hd O'"] s set' by (auto simp: cutL_def)
  qed
  have last2: "s = last O'" if s: "s \<in> cutL (segs B t) hi" for s
  proof (rule ccontr)
    assume "s \<noteq> last O'"
    then have "Lo s < Lo (last O')" using sorted_last_max [OF srt in2 [OF s]] by simp
    moreover have "last O' \<in> set O'" using in2 [OF s] by (cases O' rule: rev_cases) auto
    ultimately show False using seg_wf_Lo_less [OF wf, of s "last O'"] s set' by (auto simp: cutL_def)
  qed
  show "cutL (segs B t) lo = (if O' \<noteq> [] \<and> Lo (hd O') < lo then {hd O'} else {})"
  proof (cases "O' \<noteq> [] \<and> Lo (hd O') < lo")
    case True
    then have "hd O' \<in> {s \<in> segs B t. overlaps lo hi s}" unfolding set' [symmetric] by simp
    then have "hd O' \<in> cutL (segs B t) lo" using True by (simp add: cutL_def)
    then have "cutL (segs B t) lo = {hd O'}" using hd1 by blast
    then show ?thesis using True by simp
  next
    case False
    have "s \<notin> cutL (segs B t) lo" for s using hd1 [of s] in1 [of s] False by (auto simp: cutL_def)
    then have "cutL (segs B t) lo = {}" by blast
    then show ?thesis using False by simp
  qed
  show "cutL (segs B t) hi = (if O' \<noteq> [] \<and> Hi (last O') > hi then {last O'} else {})"
  proof (cases "O' \<noteq> [] \<and> Hi (last O') > hi")
    case True
    then have "last O' \<in> {s \<in> segs B t. overlaps lo hi s}" unfolding set' [symmetric] by simp
    then have "last O' \<in> cutL (segs B t) hi" using True by (simp add: cutL_def)
    then have "cutL (segs B t) hi = {last O'}" using last2 by blast
    then show ?thesis using True by simp
  next
    case False
    have "s \<notin> cutL (segs B t) hi" for s using last2 [of s] in2 [of s] False by (auto simp: cutL_def)
    then have "cutL (segs B t) hi = {}" by blast
    then show ?thesis using False by simp
  qed
qed

text \<open>Re-inserting the parts of cut segments that stay.\<close>

lemma insert_trim_ok:
  assumes L: "btree_laws B ok" and ok: "ok t" and new: "\<And>s x. trim = Some s \<Longrightarrow> x \<in> segs B t \<Longrightarrow> Lo x \<noteq> Lo s"
  shows "ok (insert_trim B trim t)" "segs B (insert_trim B trim t) = segs B t \<union> set_option trim"
proof -
  show "ok (insert_trim B trim t)"
    using btree_lawsD(6) [OF L ok] ok by (simp add: insert_trim_def split: option.splits)
  have "trim = Some s \<Longrightarrow> {x \<in> segs B t. Lo x \<noteq> Lo s} = segs B t" for s using new by blast
  then show "segs B (insert_trim B trim t) = segs B t \<union> set_option trim"
    using btree_lawsD(7) [OF L ok] by (auto simp: insert_trim_def split: option.splits)
qed

lemma trimmed:
  assumes L: "btree_laws B ok" and t: "index_ok B ok t" and lh: "lo < hi"
    and lt: "\<And>s. lt = Some s \<Longrightarrow> \<exists>x \<in> cutL (segs B t) lo. s = x\<lparr>Hi := lo\<rparr>"
    and rt: "\<And>s. rt = Some s \<Longrightarrow> \<exists>x \<in> cutL (segs B t) hi. s = x\<lparr>Lo := hi\<rparr>"
  defines "t0 \<equiv> fold (\<lambda>seg t. bt_Delete B t seg) (filter (overlaps lo hi) (Ascend B t)) t"
  shows "ok (insert_trim B rt (insert_trim B lt t0))"
    "segs B (insert_trim B rt (insert_trim B lt t0)) = {s \<in> segs B t. \<not> overlaps lo hi s} \<union> set_option lt \<union> set_option rt"
proof -
  have wf: "seg_wf (segs B t)" using t by (simp add: index_ok_def)
  note D = delete_overlapping [OF L t, where lo = lo and hi = hi, folded t0_def]
  have new1: "Lo x \<noteq> Lo s" if "lt = Some s" "x \<in> segs B t0" for s x
  proof -
    obtain y where y: "y \<in> cutL (segs B t) lo" "s = y\<lparr>Hi := lo\<rparr>" using lt [OF \<open>lt = Some s\<close>] by blast
    then have "y \<in> segs B t" "overlaps lo hi y" using lh by (simp_all add: cutL_def)
    moreover have "x \<in> segs B t" "\<not> overlaps lo hi x" using that(2) D(2) by simp_all
    ultimately have "Lo x \<noteq> Lo y" using seg_wf_Lo_inj [OF wf, of x y] by blast
    then show ?thesis using y(2) by simp
  qed
  note T1 = insert_trim_ok [OF L D(1) new1]
  have new2: "Lo x \<noteq> Lo s" if s: "rt = Some s" and x: "x \<in> segs B (insert_trim B lt t0)" for s x
  proof -
    obtain y where y: "y \<in> cutL (segs B t) hi" "s = y\<lparr>Lo := hi\<rparr>" using rt [OF s] by blast
    have "x \<in> segs B t0 \<Longrightarrow> Lo x \<noteq> hi"
      using y(1) D(2) lh seg_wfD [OF wf, of y] seg_wfD(1) [OF wf, of x] by (fastforce simp: cutL_def)
    moreover have "lt = Some x \<Longrightarrow> Lo x \<noteq> hi" using lt [of x] lh by (auto simp: cutL_def)
    ultimately show ?thesis using x T1(2) y(2) by auto
  qed
  note T2 = insert_trim_ok [OF L T1(1) new2]
  show "ok (insert_trim B rt (insert_trim B lt t0))" by (rule T2(1))
  show "segs B (insert_trim B rt (insert_trim B lt t0)) = {s \<in> segs B t. \<not> overlaps lo hi s} \<union> set_option lt \<union> set_option rt"
    using T1(2) T2(2) D(2) by simp
qed

lemma internalDelete_ok:
  assumes L: "btree_laws B ok" and t: "index_ok B ok t" and lh: "lo < hi"
  shows "index_ok B ok (internalDelete B t lo hi)"
    "covers (segs B (internalDelete B t lo hi)) k v \<longleftrightarrow> covers (segs B t) k v \<and> \<not> (lo \<le> k \<and> k < hi)"
proof -
  let ?O = "filter (overlaps lo hi) (Ascend B t)" and ?S = "segs B t"
  have wf: "seg_wf ?S" and mg: "merged ?S" and ok: "ok t" using t by (simp_all add: index_ok_def)
  note ends = overlapping_ends [OF L t lh] and fo = findOverlapping_eq [OF L t lh]
  have "ok (internalDelete B t lo hi) \<and> segs B (internalDelete B t lo hi) = carve ?S lo hi"
  proof (cases "?O = []")
    case True
    then have "{s \<in> ?S. \<not> overlaps lo hi s} = ?S" by (auto simp: segs_def filter_empty_conv)
    then show ?thesis using True ends lh ok by (simp add: internalDelete_def fo carve_cut)
  next
    case False
    define lt where "lt = (if Lo (hd ?O) < lo then Some \<lparr>Lo = Lo (hd ?O), Hi = lo, Value = Value (hd ?O)\<rparr> else None)"
    define rt where "rt = (if Hi (last ?O) > hi then Some \<lparr>Lo = hi, Hi = Hi (last ?O), Value = Value (last ?O)\<rparr> else None)"
    have lt: "set_option lt = (\<lambda>s. s\<lparr>Hi := lo\<rparr>) ` cutL ?S lo" and rt: "set_option rt = (\<lambda>s. s\<lparr>Lo := hi\<rparr>) ` cutL ?S hi"
      unfolding ends lt_def rt_def using False by auto
    have "internalDelete B t lo hi
        = insert_trim B rt (insert_trim B lt (fold (\<lambda>seg t. bt_Delete B t seg) ?O t))"
      using lh False by (simp add: internalDelete_def fo lt_def rt_def Let_def)
    moreover have "lt = Some s \<Longrightarrow> \<exists>x \<in> cutL ?S lo. s = x\<lparr>Hi := lo\<rparr>" for s using lt by (auto simp: set_eq_iff)
    moreover have "rt = Some s \<Longrightarrow> \<exists>x \<in> cutL ?S hi. s = x\<lparr>Lo := hi\<rparr>" for s using rt by (auto simp: set_eq_iff)
    ultimately show ?thesis using trimmed [OF L t lh, of lt rt] lt rt lh by (simp add: carve_cut Un_assoc)
  qed
  then show "index_ok B ok (internalDelete B t lo hi)"
    "covers (segs B (internalDelete B t lo hi)) k v \<longleftrightarrow> covers ?S k v \<and> \<not> (lo \<le> k \<and> k < hi)"
    using carve_wf [OF lh wf mg] covers_carve [OF lh wf] by (simp_all add: index_ok_def)
qed

text \<open>
  The two ends of the new segment: a cut segment of another value leaves its part outside,
  one of the same value is absorbed.
\<close>

lemma set_left_end:
  fixes val :: 'v and S :: "'v segment set"
  assumes wf: "seg_wf S" and mg: "merged S" and lh: "lo < hi"
    and cut: "cutL S lo = (if P then {f} else {})"
    and lt_def: "lt = (if P \<and> Value f \<noteq> val then Some \<lparr>Lo = Lo f, Hi = lo, Value = Value f\<rparr> else None)"
    and lo'_def: "lo' = (if P \<and> Value f = val then Lo f else lo)"
    and K_def: "K = {s \<in> S. \<not> overlaps lo hi s} \<union> set_option lt \<union> (\<lambda>s. s\<lparr>Lo := hi\<rparr>) ` cutL S hi"
  shows "fits K \<lparr>Lo = lo', Hi = hi, Value = val\<rparr>"
    and "covers (insert \<lparr>Lo = lo', Hi = hi, Value = val\<rparr> K) k v
      \<longleftrightarrow> (if lo \<le> k \<and> k < hi then v = val else covers S k v)"
proof -
  let ?n = "\<lparr>Lo = lo, Hi = hi, Value = val\<rparr>" and ?x = "\<lparr>Lo = Lo f, Hi = lo, Value = Value f\<rparr>"
  have C: "fits (carve S lo hi) ?n" by (rule carve_fits [OF lh wf mg])
  have cov: "covers (insert ?n (carve S lo hi)) k v \<longleftrightarrow> (if lo \<le> k \<and> k < hi then v = val else covers S k v)"
    using covers_carve [OF lh wf, of k v] by (auto simp: covers_insert)
  show "fits K \<lparr>Lo = lo', Hi = hi, Value = val\<rparr>" and "covers (insert \<lparr>Lo = lo', Hi = hi, Value = val\<rparr> K) k v
      \<longleftrightarrow> (if lo \<le> k \<and> k < hi then v = val else covers S k v)"
  proof -
    have "fits K \<lparr>Lo = lo', Hi = hi, Value = val\<rparr>
      \<and> covers (insert \<lparr>Lo = lo', Hi = hi, Value = val\<rparr> K) k v = covers (insert ?n (carve S lo hi)) k v"
    proof (cases "P \<and> Value f = val")
      case False
      then have "K = carve S lo hi" "lo' = lo" by (auto simp: K_def lo'_def carve_cut [OF lh] cut lt_def)
      then show ?thesis using C by simp
    next
      case True
      have f: "f \<in> S" "Lo f < lo" "lo < Hi f" using cut True by (auto simp: cutL_def split: if_splits)
      have x: "?x \<in> carve S lo hi" using cut True by (auto simp: carve_cut [OF lh])
      have "?x \<notin> S"
      proof
        assume "?x \<in> S"
        then have "f = ?x" by (rule seg_wf_Lo_inj [OF wf f(1)]) simp
        then have "Hi f = Hi ?x" by (rule arg_cong)
        then show False using f(3) by simp
      qed
      moreover have "?x \<notin> (\<lambda>s. s\<lparr>Lo := hi\<rparr>) ` cutL S hi"
      proof
        assume "?x \<in> (\<lambda>s. s\<lparr>Lo := hi\<rparr>) ` cutL S hi"
        then obtain s where "?x = s\<lparr>Lo := hi\<rparr>" by blast
        then have "Lo ?x = Lo (s\<lparr>Lo := hi\<rparr>)" by (rule arg_cong)
        then show False using f(2) lh by simp
      qed
      ultimately have "K = carve S lo hi - {?x}"
        using True by (auto simp: K_def carve_cut [OF lh] cut lt_def)
      then show ?thesis
        using absorb_left [OF C x] True by (simp add: lo'_def)
    qed
    then show "fits K \<lparr>Lo = lo', Hi = hi, Value = val\<rparr>" and "covers (insert \<lparr>Lo = lo', Hi = hi, Value = val\<rparr> K) k v
      \<longleftrightarrow> (if lo \<le> k \<and> k < hi then v = val else covers S k v)" using cov by simp_all
  qed
qed

lemma set_right_end:
  assumes wf: "seg_wf S" and lh: "lo < hi" and cut: "cutL S hi = (if P then {l} else {})"
    and f: "fits (A \<union> (\<lambda>s. s\<lparr>Lo := hi\<rparr>) ` cutL S hi) n" and n: "Hi n = hi" "Value n = val"
    and A: "\<And>a. a \<in> A \<Longrightarrow> Lo a = hi \<Longrightarrow> a \<in> S"
    and rt_def: "rt = (if P \<and> Value l \<noteq> val then Some \<lparr>Lo = hi, Hi = Hi l, Value = Value l\<rparr> else None)"
    and hi'_def: "hi' = (if P \<and> Value l = val then Hi l else hi)"
  shows "fits (A \<union> set_option rt) (n\<lparr>Hi := hi'\<rparr>)"
    and "covers (insert (n\<lparr>Hi := hi'\<rparr>) (A \<union> set_option rt)) k v
      = covers (insert n (A \<union> (\<lambda>s. s\<lparr>Lo := hi\<rparr>) ` cutL S hi)) k v"
proof -
  let ?K = "A \<union> (\<lambda>s. s\<lparr>Lo := hi\<rparr>) ` cutL S hi" and ?y = "\<lparr>Lo = hi, Hi = Hi l, Value = Value l\<rparr>"
  have "fits (A \<union> set_option rt) (n\<lparr>Hi := hi'\<rparr>)
    \<and> covers (insert (n\<lparr>Hi := hi'\<rparr>) (A \<union> set_option rt)) k v = covers (insert n ?K) k v"
  proof (cases "P \<and> Value l = val")
    case False
    then have "A \<union> set_option rt = ?K" by (auto simp: cut rt_def)
    moreover have "n\<lparr>Hi := hi'\<rparr> = n" using False n(1) by (auto simp: hi'_def)
    ultimately show ?thesis using f by simp
  next
    case True
    have l: "l \<in> S" "Lo l < hi" "hi < Hi l" using cut True by (auto simp: cutL_def split: if_splits)
    have y: "?y \<in> ?K" using cut True by auto
    have "Lo l \<noteq> Lo ?y" using l(2) by simp
    then have "l \<noteq> ?y" by (rule contrapos_nn) (rule arg_cong)
    then have "?y \<notin> S" using seg_wfD(2) [OF wf l(1), of ?y] l by auto
    then have "?y \<notin> A" using A [of ?y] by auto
    then have "A \<union> set_option rt = ?K - {?y}" using True by (auto simp: cut rt_def)
    then show ?thesis using absorb_right [OF f y] True n by (simp add: hi'_def)
  qed
  then show "fits (A \<union> set_option rt) (n\<lparr>Hi := hi'\<rparr>)"
    and "covers (insert (n\<lparr>Hi := hi'\<rparr>) (A \<union> set_option rt)) k v = covers (insert n ?K) k v" by simp_all
qed

lemma internalSet_ok:
  assumes L: "btree_laws B ok" and t: "index_ok B ok t" and lh: "lo < hi"
  shows "index_ok B ok (internalSet B t lo hi val)"
    "covers (segs B (internalSet B t lo hi val)) k v \<longleftrightarrow> (if lo \<le> k \<and> k < hi then v = val else covers (segs B t) k v)"
proof -
  define O' where "O' = filter (overlaps lo hi) (Ascend B t)"
  define S where "S = segs B t"
  define f where "f = hd O'"
  define l where "l = last O'"
  define P where "P \<longleftrightarrow> O' \<noteq> [] \<and> Lo f < lo"
  define Q where "Q \<longleftrightarrow> O' \<noteq> [] \<and> Hi l > hi"
  have wf: "seg_wf S" and mg: "merged S" and ok: "ok t" using t by (simp_all add: index_ok_def S_def)
  have cut: "cutL S lo = (if P then {f} else {})" "cutL S hi = (if Q then {l} else {})"
    using overlapping_ends [OF L t lh] by (simp_all add: S_def P_def Q_def f_def l_def O'_def)
  define lt where "lt = (if P \<and> Value f \<noteq> val then Some \<lparr>Lo = Lo f, Hi = lo, Value = Value f\<rparr> else None)"
  define rt where "rt = (if Q \<and> Value l \<noteq> val then Some \<lparr>Lo = hi, Hi = Hi l, Value = Value l\<rparr> else None)"
  define lo' where "lo' = (if P \<and> Value f = val then Lo f else lo)"
  define hi' where "hi' = (if Q \<and> Value l = val then Hi l else hi)"
  let ?t0 = "fold (\<lambda>seg t. bt_Delete B t seg) O' t"
  let ?t1 = "insert_trim B rt (insert_trim B lt ?t0)"
  let ?A = "{s \<in> S. \<not> overlaps lo hi s} \<union> set_option lt"
  let ?n = "\<lparr>Lo = lo', Hi = hi', Value = val\<rparr>"
  have run: "internalSet B t lo hi val = fst (mergeNeighbors B (ReplaceOrInsert B ?t1 ?n) ?n)"
    using lh unfolding internalSet_def findOverlapping_eq [OF L t lh] O'_def [symmetric]
    by (simp add: Let_def P_def Q_def f_def l_def lt_def rt_def lo'_def hi'_def)
  have "lt = Some s \<Longrightarrow> \<exists>x \<in> cutL S lo. s = x\<lparr>Hi := lo\<rparr>" for s by (auto simp: cut lt_def split: if_splits)
  moreover have "rt = Some s \<Longrightarrow> \<exists>x \<in> cutL S hi. s = x\<lparr>Lo := hi\<rparr>" for s by (auto simp: cut rt_def split: if_splits)
  ultimately have T: "ok ?t1" "segs B ?t1 = ?A \<union> set_option rt"
    using trimmed [OF L t lh, of lt rt] unfolding O'_def S_def by blast+
  note left = set_left_end [OF wf mg lh cut(1) lt_def lo'_def refl]
  have A: "a \<in> S" if "a \<in> ?A" "Lo a = hi" for a
    using that lh by (auto simp: lt_def P_def split: if_splits)
  note right = set_right_end [OF wf lh cut(2) left(1) _ _ A rt_def hi'_def, simplified]
  have fit: "fits (segs B ?t1) ?n" using right(1) T(2) by simp
  have "holds_new B ok (ReplaceOrInsert B ?t1 ?n) (segs B ?t1) ?n"
    using insert_fits [OF L T(1) fit] fit by (simp add: holds_new_def)
  note M = mergeNeighbors_ok [OF L this]
  show "index_ok B ok (internalSet B t lo hi val)" unfolding run by (rule M(1))
  show "covers (segs B (internalSet B t lo hi val)) k v \<longleftrightarrow> (if lo \<le> k \<and> k < hi then v = val else covers (segs B t) k v)"
    unfolding run M(2) T(2) S_def [symmetric] using right(2) left(2) by simp
qed

subsection \<open>The index as a map\<close>

text \<open>What a client of the index relies on: a map from the keys that are allowed.\<close>

locale point_map =
  fixes inv :: "'t \<Rightarrow> bool" and key_ok :: "int \<Rightarrow> bool" and get :: "'t \<Rightarrow> int \<Rightarrow> 'v option"
    and set_key :: "'t \<Rightarrow> int \<Rightarrow> 'v \<Rightarrow> 't" and del :: "'t \<Rightarrow> int \<Rightarrow> 't"
    and set_if_absent :: "'t \<Rightarrow> int \<Rightarrow> 'v \<Rightarrow> bool \<times> 't"
  assumes inv_set: "inv t \<Longrightarrow> key_ok k \<Longrightarrow> inv (set_key t k v)"
    and get_set: "inv t \<Longrightarrow> key_ok k \<Longrightarrow> get (set_key t k v) = (get t)(k \<mapsto> v)"
    and inv_del: "inv t \<Longrightarrow> key_ok k \<Longrightarrow> inv (del t k)"
    and get_del: "inv t \<Longrightarrow> key_ok k \<Longrightarrow> get (del t k) = (get t)(k := None)"
    and inv_absent: "inv t \<Longrightarrow> key_ok k \<Longrightarrow> inv (snd (set_if_absent t k v))"
    and fst_absent: "inv t \<Longrightarrow> key_ok k \<Longrightarrow> fst (set_if_absent t k v) \<longleftrightarrow> get t k = None"
    and get_absent: "inv t \<Longrightarrow> key_ok k \<Longrightarrow>
      get (snd (set_if_absent t k v)) = (if get t k = None then (get t)(k \<mapsto> v) else get t)"

text \<open>Claiming a sequence of keys, as the parser claims the ids of the objects it meets.\<close>

fun claim_all :: "('t \<Rightarrow> int \<Rightarrow> 'v \<Rightarrow> bool \<times> 't) \<Rightarrow> 'v \<Rightarrow> int list \<Rightarrow> 't \<Rightarrow> bool list \<times> 't" where
  "claim_all sia v [] t = ([], t)"
| "claim_all sia v (k # ks) t =
     (case sia t k v of (b, t) \<Rightarrow> case claim_all sia v ks t of (bs, t) \<Rightarrow> (b # bs, t))"

context point_map
begin

lemma claim_all_inv:
  "inv t \<Longrightarrow> \<forall>k \<in> set ks. key_ok k \<Longrightarrow> inv (snd (claim_all set_if_absent v ks t))"
proof (induction ks arbitrary: t)
  case (Cons k ks)
  have "inv (snd (claim_all set_if_absent v ks (snd (set_if_absent t k v))))"
    using Cons inv_absent [of t k v] by simp
  then show ?case by (simp add: case_prod_beta)
qed simp

lemma claim_all_first:
  assumes "inv t" "\<forall>k \<in> set ks. key_ok k"
  shows "length (fst (claim_all set_if_absent v ks t)) = length ks"
    and "i < length ks \<Longrightarrow> fst (claim_all set_if_absent v ks t) ! i \<longleftrightarrow> get t (ks ! i) = None \<and> ks ! i \<notin> set (take i ks)"
proof -
  have "length (fst (claim_all set_if_absent v ks t)) = length ks
    \<and> (\<forall>i < length ks. fst (claim_all set_if_absent v ks t) ! i \<longleftrightarrow> get t (ks ! i) = None \<and> ks ! i \<notin> set (take i ks))"
    using assms
  proof (induction ks arbitrary: t)
    case (Cons k ks)
    obtain b t' where s: "set_if_absent t k v = (b, t')" by (cases "set_if_absent t k v")
    obtain bs t'' where c: "claim_all set_if_absent v ks t' = (bs, t'')" by (cases "claim_all set_if_absent v ks t'")
    have "inv t'" "b \<longleftrightarrow> get t k = None" "get t' = (if get t k = None then (get t)(k \<mapsto> v) else get t)"
      using inv_absent [of t k v] fst_absent [of t k v] get_absent [of t k v] Cons.prems s by auto
    moreover have "length bs = length ks"
      "\<forall>i < length ks. bs ! i \<longleftrightarrow> get t' (ks ! i) = None \<and> ks ! i \<notin> set (take i ks)"
      using Cons.IH [of t'] Cons.prems \<open>inv t'\<close> c by auto
    ultimately show ?case using s c by (auto simp: nth_Cons split: nat.splits)
  qed simp
  then show "length (fst (claim_all set_if_absent v ks t)) = length ks"
    and "i < length ks \<Longrightarrow> fst (claim_all set_if_absent v ks t) ! i \<longleftrightarrow> get t (ks ! i) = None \<and> ks ! i \<notin> set (take i ks)"
    by auto
qed

lemma claim_all_get:
  assumes "inv t" "\<forall>k \<in> set ks. key_ok k"
  shows "get (snd (claim_all set_if_absent v ks t)) k = (if get t k = None \<and> k \<in> set ks then Some v else get t k)"
  using assms
proof (induction ks arbitrary: t)
  case (Cons k' ks)
  obtain b t' where s: "set_if_absent t k' v = (b, t')" by (cases "set_if_absent t k' v")
  have t': "inv t'" "get t' = (if get t k' = None then (get t)(k' \<mapsto> v) else get t)"
    using inv_absent [of t k' v] get_absent [of t k' v] Cons.prems s by auto
  then show ?case using Cons.IH [OF t'(1)] Cons.prems s by (auto split: prod.splits)
qed simp

end

text \<open>Keys for which \<open>key+1\<close> does not wrap.\<close>

definition key_fits :: "int \<Rightarrow> bool" where
  "key_fits k \<longleftrightarrow> is_i64 k \<and> k < 2 ^ 63 - 1"

lemma key_fits_Suc: "key_fits k \<Longrightarrow> i64 (k + 1) = k + 1"
  by (simp add: key_fits_def i64_id is_i64_def)

lemma Get_from_covers:
  assumes "btree_laws B ok" "index_ok B ok t" "\<And>v. covers (segs B t) k v \<longleftrightarrow> r = Some v"
  shows "Get B t k = r"
proof -
  have "Get B t k = Some v \<longleftrightarrow> r = Some v" for v using Get_iff [OF assms(1,2), of k v] assms(3) by simp
  note e = this
  show ?thesis
  proof (cases r)
    case None
    then show ?thesis using e by (metis not_None_eq)
  next
    case (Some v)
    then show ?thesis using e [of v] by simp
  qed
qed

lemma Get_covers: "btree_laws B ok \<Longrightarrow> index_ok B ok t \<Longrightarrow> covers (segs B t) k v \<longleftrightarrow> Get B t k = Some v"
  by (simp add: Get_iff)

lemma Set_ok:
  assumes L: "btree_laws B ok" and t: "index_ok B ok t" and k: "key_fits k"
  shows "index_ok B ok (Set B t k v)" "Get B (Set B t k v) = (Get B t)(k \<mapsto> v)"
proof -
  have lt: "k < k + 1" by simp
  note S = internalSet_ok [OF L t lt, of v]
  show ok: "index_ok B ok (Set B t k v)" using S(1) k by (simp add: Set_def key_fits_Suc)
  show "Get B (Set B t k v) = (Get B t)(k \<mapsto> v)"
  proof
    fix k' show "Get B (Set B t k v) k' = ((Get B t)(k \<mapsto> v)) k'"
      by (rule Get_from_covers [OF L ok])
        (use S(2) [of k'] Get_covers [OF L t, of k'] k in \<open>auto simp: Set_def key_fits_Suc\<close>)
  qed
qed

lemma Delete_ok:
  assumes L: "btree_laws B ok" and t: "index_ok B ok t" and k: "key_fits k"
  shows "index_ok B ok (Delete B t k)" "Get B (Delete B t k) = (Get B t)(k := None)"
proof -
  have lt: "k < k + 1" by simp
  note S = internalDelete_ok [OF L t lt]
  show ok: "index_ok B ok (Delete B t k)" using S(1) k by (simp add: Delete_def key_fits_Suc)
  show "Get B (Delete B t k) = (Get B t)(k := None)"
  proof
    fix k' show "Get B (Delete B t k) k' = ((Get B t)(k := None)) k'"
      by (rule Get_from_covers [OF L ok])
        (use S(2) [of k'] Get_covers [OF L t, of k'] k in \<open>auto simp: Delete_def key_fits_Suc\<close>)
  qed
qed

lemma SetIfAbsent_ok:
  assumes L: "btree_laws B ok" and t: "index_ok B ok t" and k: "key_fits k"
  shows "index_ok B ok (snd (SetIfAbsent B t k v))" "fst (SetIfAbsent B t k v) \<longleftrightarrow> Get B t k = None"
    "Get B (snd (SetIfAbsent B t k v)) = (if Get B t k = None then (Get B t)(k \<mapsto> v) else Get B t)"
proof -
  have "index_ok B ok (snd (SetIfAbsent B t k v)) \<and> (fst (SetIfAbsent B t k v) \<longleftrightarrow> Get B t k = None)
    \<and> Get B (snd (SetIfAbsent B t k v)) = (if Get B t k = None then (Get B t)(k \<mapsto> v) else Get B t)"
  proof (cases "findCovering B t k")
    case (Some s)
    then show ?thesis using t by (simp add: SetIfAbsent_def Get_def)
  next
    case None
    let ?n = "\<lparr>Lo = k, Hi = k + 1, Value = v\<rparr>" and ?t = "ReplaceOrInsert B t"
    have free: "Hi s \<le> k \<or> k + 1 \<le> Lo s" "s \<noteq> ?n" if "s \<in> segs B t" for s
      using findCovering_iff [OF L t, of k] None that by force+
    have ok: "ok t" using t by (simp add: index_ok_def)
    have fit: "fits (segs B t) ?n" using free t unfolding fits_def seg_wf_insert index_ok_def by auto
    have h: "holds_new B ok (?t ?n) (segs B t) ?n" using insert_fits [OF L ok fit] fit by (simp add: holds_new_def)
    note M = mergeNeighbors_ok [OF L h]
    have run: "SetIfAbsent B t k v = (True, fst (mergeNeighbors B (?t ?n) ?n))"
      using None k by (simp add: SetIfAbsent_def key_fits_Suc Let_def)
    have g: "Get B t k = None" using None by (simp add: Get_def)
    have "Get B (fst (mergeNeighbors B (?t ?n) ?n)) = (Get B t)(k \<mapsto> v)"
    proof
      fix k' show "Get B (fst (mergeNeighbors B (?t ?n) ?n)) k' = ((Get B t)(k \<mapsto> v)) k'"
        by (rule Get_from_covers [OF L M(1)]) (use M(2) [of k'] Get_covers [OF L t, of k'] g in \<open>auto simp: covers_insert\<close>)
    qed
    then show ?thesis using run g M(1) by simp
  qed
  then show "index_ok B ok (snd (SetIfAbsent B t k v))" "fst (SetIfAbsent B t k v) \<longleftrightarrow> Get B t k = None"
    "Get B (snd (SetIfAbsent B t k v)) = (if Get B t k = None then (Get B t)(k \<mapsto> v) else Get B t)" by blast+
qed

interpretation index: point_map "\<lambda>t. btree_laws B ok \<and> index_ok B ok t" key_fits "Get B" "Set B" "Delete B" "SetIfAbsent B"
  for B :: "('v, 't) btree" and ok :: "'t \<Rightarrow> bool"
  by unfold_locales (auto simp: Set_ok Delete_ok SetIfAbsent_ok)

lemma CollectRanges_items: "CollectRanges B t = Ascend B t"
proof -
  have "visit_ranges (\<lambda>lo hi v out. (out @ [\<lparr>Lo = lo, Hi = hi, Value = v\<rparr>], True)) xs out = out @ xs" for xs :: "'a segment list" and out
    by (induction xs arbitrary: out) auto
  then show ?thesis by (simp add: CollectRanges_def)
qed

text \<open>An ordered list is a B-tree in this sense.\<close>

definition list_btree :: "('v, 'v segment list) btree" where
  "list_btree = \<lparr>bt_new = [],
     DescendLessOrEqual = \<lambda>xs k. rev (filter (\<lambda>s. Lo s \<le> k) xs),
     AscendGreaterOrEqual = \<lambda>xs k. filter (\<lambda>s. k \<le> Lo s) xs,
     Ascend = \<lambda>xs. xs,
     bt_Delete = \<lambda>xs s. filter (\<lambda>x. Lo x \<noteq> Lo s) xs,
     ReplaceOrInsert = \<lambda>xs s. filter (\<lambda>x. Lo x < Lo s) xs @ s # filter (\<lambda>x. Lo s < Lo x) xs,
     bt_Clear = \<lambda>xs. [], bt_Len = \<lambda>xs. length xs\<rparr>"

lemma list_btree_laws: "btree_laws list_btree (sorted_wrt (\<lambda>a b. Lo a < Lo b))"
  unfolding btree_laws_def list_btree_def
  by (auto simp: sorted_filter sorted_wrt_append intro: less_trans)

lemma list_btree_new: "index_ok list_btree (sorted_wrt (\<lambda>a b. Lo a < Lo b)) (New list_btree)"
  by (simp add: index_ok_def New_def list_btree_def segs_def seg_wf_def merged_def)

subsection \<open>Properties\<close>

text \<open>
  C15. On every key but the largest, \<open>Set\<close> and \<open>Delete\<close> change the stored map exactly at
  their key, whatever segments they split, trim or merge, and keep the index well-formed:
  segments stay non-empty, disjoint, and maximally merged.
\<close>

theorem index_updates_map:
  assumes "btree_laws B ok" and "index_ok B ok t" and "is_i64 key" and "key < 2 ^ 63 - 1"
  shows "index_ok B ok (Set B t key v) \<and> Get B (Set B t key v) = (Get B t)(key \<mapsto> v)
    \<and> index_ok B ok (Delete B t key) \<and> Get B (Delete B t key) = (Get B t)(key := None)"
proof -
  have "key_fits key" using assms(3,4) by (simp add: key_fits_def)
  then show ?thesis
    using index.inv_set [of B ok t key v] index.get_set [of B ok t key v] index.inv_del [of B ok t key]
      index.get_del [of B ok t key] assms(1,2) by simp
qed

lemma index_updates_map_witness:
  "Get list_btree (Set list_btree (New list_btree) 5 ''a'') 5 = Some ''a''
   \<and> Get list_btree (Set list_btree (New list_btree) 5 ''a'') 6 = None"
  using index_updates_map [OF list_btree_laws list_btree_new, of 5 "''a''"]
  by (simp add: is_i64_def Get_def findCovering_def New_def list_btree_def)

text \<open>
  C18. Claiming a sequence of ids with \<open>SetIfAbsent\<close>, in any interleaving of the callers,
  answers true exactly for the first occurrence of an id that the index does not hold yet,
  and afterwards the index holds all of them and nothing else has changed.
\<close>

theorem SetIfAbsent_claims_once:
  assumes "btree_laws B ok" and "index_ok B ok t" and "\<forall>k \<in> set ks. is_i64 k \<and> k < 2 ^ 63 - 1"
    and "claim_all (SetIfAbsent B) v ks t = (answers, t')"
  shows "index_ok B ok t' \<and> length answers = length ks
    \<and> (\<forall>i < length ks. answers ! i \<longleftrightarrow> Get B t (ks ! i) = None \<and> ks ! i \<notin> set (take i ks))
    \<and> (\<forall>k. Get B t' k = (if Get B t k = None \<and> k \<in> set ks then Some v else Get B t k))"
proof -
  have "\<forall>k \<in> set ks. key_fits k" using assms(3) by (simp add: key_fits_def)
  note C = index.claim_all_inv [OF _ this, where B = B and ok = ok and t = t and v = v]
    index.claim_all_first [OF _ this, where B = B and ok = ok and t = t and v = v]
    index.claim_all_get [OF _ this, where B = B and ok = ok and t = t and v = v]
  show ?thesis using C assms(1,2,4) by simp
qed

lemma SetIfAbsent_claims_once_witness:
  "fst (claim_all (SetIfAbsent list_btree) () [7, 8, 7] (New list_btree)) ! 2 = False
   \<and> fst (claim_all (SetIfAbsent list_btree) () [7, 8, 7] (New list_btree)) ! 1 = True"
proof -
  obtain a t where r: "claim_all (SetIfAbsent list_btree) () [7, 8, 7] (New list_btree) = (a, t)" by fastforce
  have "Get list_btree (New list_btree) k = None" for k
    by (simp add: Get_def findCovering_def New_def list_btree_def)
  then show ?thesis
    using SetIfAbsent_claims_once [OF list_btree_laws list_btree_new _ r] r by (simp add: is_i64_def)
qed

text \<open>
  C19. \<open>CollectRanges\<close> lists the maximal runs of equal values in ascending order: a key has
  a value exactly if a listed range covers it, and no range can be extended on either side
  with its value; \<open>Len\<close> is their number.
\<close>

theorem CollectRanges_maximal_runs:
  assumes "btree_laws B ok" and "index_ok B ok t"
  shows "sorted_wrt (\<lambda>a b. Hi a \<le> Lo b) (CollectRanges B t) \<and> Len B t = length (CollectRanges B t)
    \<and> (\<forall>k v. Get B t k = Some v \<longleftrightarrow> (\<exists>s \<in> set (CollectRanges B t). Lo s \<le> k \<and> k < Hi s \<and> Value s = v))
    \<and> (\<forall>s \<in> set (CollectRanges B t). Lo s < Hi s \<and> Get B t (Lo s - 1) \<noteq> Some (Value s) \<and> Get B t (Hi s) \<noteq> Some (Value s))"
proof -
  have ok: "ok t" and wf: "seg_wf (segs B t)" and mg: "merged (segs B t)" using assms(2) by (simp_all add: index_ok_def)
  note law = btree_lawsD [OF assms(1) ok]
  have S: "set (CollectRanges B t) = segs B t" by (simp add: CollectRanges_items segs_def)
  have "sorted_wrt (\<lambda>a b. Hi a \<le> Lo b) (Ascend B t)"
    by (rule sorted_wrt_mono_rel [OF _ law(1)]) (use seg_wf_Lo_less [OF wf] in \<open>auto simp: segs_def\<close>)
  moreover have "Get B t k = Some v \<longleftrightarrow> (\<exists>s \<in> segs B t. Lo s \<le> k \<and> k < Hi s \<and> Value s = v)" for k v
    using Get_iff [OF assms] by (simp add: covers_def)
  moreover have "Lo s < Hi s \<and> Get B t (Lo s - 1) \<noteq> Some (Value s) \<and> Get B t (Hi s) \<noteq> Some (Value s)" if s: "s \<in> segs B t" for s
  proof -
    have pos: "Lo s < Hi s" using seg_wfD(1) [OF wf s] .
    have "Value x \<noteq> Value s" if x: "x \<in> segs B t" "Lo x \<le> Lo s - 1 \<and> Lo s - 1 < Hi x \<or> Lo x \<le> Hi s \<and> Hi s < Hi x" for x
    proof -
      have "x \<noteq> s" using x(2) by auto
      then have "Hi x = Lo s \<or> Hi s = Lo x" using seg_wfD(2) [OF wf x(1) s] x(2) pos seg_wfD(1) [OF wf x(1)] by linarith
      then show ?thesis using mg x(1) s unfolding merged_def by metis
    qed
    then show ?thesis using pos Get_iff [OF assms] unfolding covers_def by metis
  qed
  ultimately show ?thesis using law(10) by (simp add: S CollectRanges_items Len_def) (simp add: segs_def)
qed

lemma CollectRanges_maximal_runs_witness:
  "CollectRanges list_btree [\<lparr>Lo = 3, Hi = 6, Value = True\<rparr>, \<lparr>Lo = 6, Hi = 7, Value = False\<rparr>]
     = [\<lparr>Lo = 3, Hi = 6, Value = True\<rparr>, \<lparr>Lo = 6, Hi = 7, Value = False\<rparr>]
   \<and> Get list_btree [\<lparr>Lo = 3, Hi = 6, Value = True\<rparr>, \<lparr>Lo = 6, Hi = 7, Value = False\<rparr>] 6 \<noteq> Some True"
proof -
  let ?t = "[\<lparr>Lo = 3, Hi = 6, Value = True\<rparr>, \<lparr>Lo = 6, Hi = 7, Value = False\<rparr>]"
  have "index_ok list_btree (sorted_wrt (\<lambda>a b. Lo a < Lo b)) ?t"
    by (simp add: index_ok_def list_btree_def segs_def seg_wf_def merged_def)
  note T = CollectRanges_maximal_runs [OF list_btree_laws this]
  have c: "CollectRanges list_btree ?t = ?t" by (simp add: CollectRanges_items list_btree_def)
  show ?thesis using T unfolding c by simp
qed

subsection \<open>The largest key\<close>

definition maxKey :: int where
  "maxKey = 2 ^ 63 - 1"

definition minKey :: int where
  "minKey = - (2 ^ 63)"

lemma maxKey_next: "i64 (maxKey + 1) = minKey" "minKey < maxKey"
  by (simp_all add: maxKey_def minKey_def i64_def)

text \<open>An index with one empty segment \<open>n\<close> above all others, which are \<open>C\<close>.\<close>

definition holds_empty :: "('v, 't) btree \<Rightarrow> ('t \<Rightarrow> bool) \<Rightarrow> 't \<Rightarrow> 'v segment set \<Rightarrow> 'v segment \<Rightarrow> bool" where
  "holds_empty B ok t C n \<longleftrightarrow> ok t \<and> segs B t = insert n C \<and> seg_wf C \<and> Hi n \<le> Lo n \<and> (\<forall>x \<in> C. Hi x \<le> Lo n)"

lemma holds_empty_below:
  assumes "holds_empty B ok t C n" "x \<in> C"
  shows "Lo x < Hi x" "Hi x \<le> Lo n" "Lo x < Lo n" "x \<noteq> n"
proof -
  show "Lo x < Hi x" "Hi x \<le> Lo n" using assms seg_wfD(1) [of C x] by (auto simp: holds_empty_def)
  then show "Lo x < Lo n" "x \<noteq> n" by auto
qed

lemma Get_empty_segment:
  assumes L: "btree_laws B ok" and h: "holds_empty B ok t C n"
  shows "Get B t k = Some v \<longleftrightarrow> covers C k v"
proof -
  have ok: "ok t" and S: "segs B t = insert n C" and wf: "seg_wf C" and n: "Hi n \<le> Lo n" using h by (simp_all add: holds_empty_def)
  note below = holds_empty_below [OF h]
  show ?thesis
  proof (cases rule: descend_cases [OF L ok, of k])
    case 1
    then show ?thesis using S by (fastforce simp: Get_def findCovering_def covers_def)
  next
    case (2 s rest)
    have found: "Get B t k = (if k < Hi s then Some (Value s) else None)" using 2(1) by (simp add: Get_def findCovering_def)
    show ?thesis
    proof (cases "s = n")
      case True
      have "\<not> covers C k v" using below(2) 2(3) True by (fastforce simp: covers_def)
      then show ?thesis using found 2(3) True n by simp
    next
      case False
      then have s: "s \<in> C" using 2(2) S by blast
      have uniq: "x = s" if x: "x \<in> C" "Lo x \<le> k" "k < Hi x" for x
      proof (rule ccontr)
        assume "x \<noteq> s"
        then have "Lo x < Lo s" using 2(4) x S by blast
        then have "Hi x \<le> Lo s" by (rule seg_wf_Lo_less [OF wf x(1) s])
        then show False using 2(3) x(3) by simp
      qed
      have "covers C k v \<longleftrightarrow> k < Hi s \<and> Value s = v" unfolding covers_def using uniq s 2(3) by blast
      then show ?thesis using found by simp
    qed
  qed
qed

text \<open>Merging the empty segment with a neighbour takes the neighbour away.\<close>

lemma replace_empty:
  assumes L: "btree_laws B ok" and h: "holds_empty B ok t C n" and y: "y \<in> C" and n': "Lo n' = Lo y \<or> Lo n' = Lo n"
    and below: "Hi n' \<le> Lo n'" "\<forall>x \<in> C - {y}. Hi x \<le> Lo n'"
  shows "holds_empty B ok (ReplaceOrInsert B (bt_Delete B (bt_Delete B t y) n) n') (C - {y}) n'"
proof -
  have ok: "ok t" and S: "segs B t = insert n C" and wf: "seg_wf C" using h by (simp_all add: holds_empty_def)
  note o1 = btree_lawsD(4,5) [OF L ok]
  note o2 = btree_lawsD(4,5) [OF L o1(1)]
  note o3 = btree_lawsD(6,7) [OF L o2(1)]
  have wf': "seg_wf (C - {y})" by (rule seg_wf_subset [OF wf]) blast
  have "Lo x \<noteq> Lo y \<and> Lo x \<noteq> Lo n \<and> Lo x \<noteq> Lo n'" if "x \<in> C - {y}" for x
    using that seg_wf_Lo_inj [OF wf _ y, of x] holds_empty_below [OF h, of x] n' by fastforce
  then have "segs B (ReplaceOrInsert B (bt_Delete B (bt_Delete B t y) n) n') = insert n' (C - {y})"
    unfolding o3(2) o2(2) o1(2) S using n' by auto
  then show ?thesis using o3(1) wf' below by (simp add: holds_empty_def)
qed

lemma merge_left_empty:
  assumes L: "btree_laws B ok" and h: "holds_empty B ok t C n" and lt: "Hi n < Lo n" and lo: "\<forall>x \<in> C. Hi n \<le> Lo x"
  obtains t' n' where "merge_left B t n (DescendLessOrEqual B t (Lo n)) = (t', n')" "Hi n' = Hi n" "Value n' = Value n"
    "holds_empty B ok t' {x \<in> C. \<not> (Hi x = Lo n \<and> Value x = Value n)} n'"
proof -
  have ok: "ok t" and S: "segs B t = insert n C" and wf: "seg_wf C" using h by (simp_all add: holds_empty_def)
  note law = btree_lawsD [OF L ok]
  note below = holds_empty_below [OF h]
  have n: "n \<in> set (Ascend B t)" using S by (auto simp: segs_def)
  have D: "merge_left B t n (DescendLessOrEqual B t (Lo n)) = merge_left B t n (rev (filter (\<lambda>x. Lo x < Lo n) (Ascend B t)))"
    by (simp add: law(2) sorted_upto_self [OF law(1) n])
  let ?gone = "\<lambda>x. Hi x = Lo n \<and> Value x = Value n"
  show thesis
  proof (cases rule: rev_filter_cases [OF law(1), of "\<lambda>x. Lo x < Lo n"])
    case 1
    then have "C = {}" using below(3) S by (auto simp: segs_def)
    then show thesis using that [of t n] D 1 h by simp
  next
    case (2 y r)
    then have y: "y \<in> C" using S by (auto simp: segs_def)
    have others: "Hi x \<le> Lo y" if "x \<in> C" "x \<noteq> y" for x
    proof -
      have "Lo x < Lo y" using 2(4) that below(3) S by (auto simp: segs_def)
      then show ?thesis by (rule seg_wf_Lo_less [OF wf that(1) y])
    qed
    show thesis
    proof (cases "?gone y")
      case True
      have "{x \<in> C. \<not> ?gone x} = C - {y}" using others below(1) [OF y] True by force
      moreover have "holds_empty B ok (ReplaceOrInsert B (bt_Delete B (bt_Delete B t y) n) (n\<lparr>Lo := Lo y\<rparr>)) (C - {y}) (n\<lparr>Lo := Lo y\<rparr>)"
        by (rule replace_empty [OF L h y]) (use lo y others in simp_all)
      ultimately show thesis using that [of _ "n\<lparr>Lo := Lo y\<rparr>"] D 2 True by (simp add: Let_def)
    next
      case False
      have "{x \<in> C. \<not> ?gone x} = C" using others below(1) [OF y] below(2) [OF y] False by force
      then show thesis using that [of t n] D 2 False h by auto
    qed
  qed
qed

lemma merge_right_empty:
  assumes L: "btree_laws B ok" and h: "holds_empty B ok t C n" and lo: "\<forall>x \<in> C. Hi n \<le> Lo x"
  obtains t' n' where "merge_right B t n (AscendGreaterOrEqual B t (Hi n)) = (t', n')"
    "holds_empty B ok t' {x \<in> C. \<not> (Lo x = Hi n \<and> Value x = Value n)} n'"
proof -
  have ok: "ok t" and S: "segs B t = insert n C" and wf: "seg_wf C" and le: "Hi n \<le> Lo n" using h by (simp_all add: holds_empty_def)
  note law = btree_lawsD [OF L ok]
  note below = holds_empty_below [OF h]
  let ?gone = "\<lambda>x. Lo x = Hi n \<and> Value x = Value n"
  show thesis
  proof (cases rule: filter_cases [OF law(1), of "\<lambda>x. Hi n \<le> Lo x"])
    case 1
    then show thesis using le S by (auto simp: segs_def)
  next
    case (2 y r)
    show thesis
    proof (cases "y = n")
      case True
      have "C = {}" using 2(4) lo below(3) unfolding True using S by (fastforce simp: segs_def)
      moreover have "holds_empty B ok (ReplaceOrInsert B (bt_Delete B (bt_Delete B t n) n) n) {} n"
        using btree_lawsD(4,5) [OF L ok, of n] btree_lawsD(4,5) [OF L, of "bt_Delete B t n" n]
          btree_lawsD(6,7) [OF L, of "bt_Delete B (bt_Delete B t n) n" n] S le \<open>C = {}\<close> by (auto simp: holds_empty_def seg_wf_def)
      ultimately show thesis using that [of _ n] law(3) 2(1) h unfolding True by (cases "Lo n = Hi n") (simp_all add: Let_def)
    next
      case False
      then have y: "y \<in> C" using 2(2) S by (auto simp: segs_def)
      have others: "Lo y < Lo x" if "x \<in> C" "x \<noteq> y" for x using 2(4) that lo S by (auto simp: segs_def)
      show thesis
      proof (cases "?gone y")
        case True
        have "{x \<in> C. \<not> ?gone x} = C - {y}" using others True by force
        moreover have "holds_empty B ok (ReplaceOrInsert B (bt_Delete B (bt_Delete B t y) n) (n\<lparr>Hi := Hi y\<rparr>)) (C - {y}) (n\<lparr>Hi := Hi y\<rparr>)"
          by (rule replace_empty [OF L h y]) (use below(2) y in simp_all)
        ultimately show thesis using that [of _ "n\<lparr>Hi := Hi y\<rparr>"] law(3) 2 True by (simp add: Let_def)
      next
        case False
        have "{x \<in> C. \<not> ?gone x} = C" using others 2(3) False by force
        then show thesis using that [of t n] law(3) 2 False h by auto
      qed
    qed
  qed
qed

text \<open>The keys of the run of \<open>v\<close> that ends below the largest key, and of the one that starts at the smallest.\<close>

definition top_run :: "('v, 't) btree \<Rightarrow> 't \<Rightarrow> 'v \<Rightarrow> int \<Rightarrow> bool" where
  "top_run B t v k \<longleftrightarrow> k < maxKey \<and> (\<forall>j. k \<le> j \<and> j < maxKey \<longrightarrow> Get B t j = Some v)"

definition bottom_run :: "('v, 't) btree \<Rightarrow> 't \<Rightarrow> 'v \<Rightarrow> int \<Rightarrow> bool" where
  "bottom_run B t v k \<longleftrightarrow> minKey \<le> k \<and> (\<forall>j. minKey \<le> j \<and> j \<le> k \<longrightarrow> Get B t j = Some v)"

lemma run_segments:
  assumes L: "btree_laws B ok" and t: "index_ok B ok t" and keys: "\<forall>k. Get B t k \<noteq> None \<longrightarrow> minKey \<le> k \<and> k < maxKey"
    and x: "x \<in> segs B t" "Lo x \<le> k" "k < Hi x"
  shows "Hi x = maxKey \<and> Value x = v \<longleftrightarrow> top_run B t v k"
    and "Lo x = minKey \<and> Value x = v \<longleftrightarrow> bottom_run B t v k"
proof -
  have wf: "seg_wf (segs B t)" and mg: "merged (segs B t)" using t by (simp_all add: index_ok_def)
  have inside: "Get B t j = Some (Value x)" if "Lo x \<le> j" "j < Hi x" for j
    using Get_iff [OF L t] x(1) that by (auto simp: covers_def)
  have pos: "Lo x < Hi x" by (rule seg_wfD(1) [OF wf x(1)])
  have bound: "Hi x \<le> maxKey" "minKey \<le> Lo x" "minKey \<le> k" "k < maxKey"
    using keys inside [of "Hi x - 1"] inside [of "Lo x"] inside [of k] pos x(2,3) by force+
  have right: "Get B t (Hi x) \<noteq> Some (Value x)"
  proof
    assume "Get B t (Hi x) = Some (Value x)"
    then obtain y where y: "y \<in> segs B t" "Lo y \<le> Hi x" "Hi x < Hi y" "Value y = Value x" using Get_iff [OF L t] by (auto simp: covers_def)
    then have "Hi x \<le> Lo y" using seg_wfD(2) [OF wf x(1) y(1)] pos by force
    then show False using mg x(1) y unfolding merged_def by (metis antisym)
  qed
  have left: "Get B t (Lo x - 1) \<noteq> Some (Value x)"
  proof
    assume "Get B t (Lo x - 1) = Some (Value x)"
    then obtain y where y: "y \<in> segs B t" "Lo y \<le> Lo x - 1" "Lo x - 1 < Hi y" "Value y = Value x" using Get_iff [OF L t] by (auto simp: covers_def)
    moreover have "y \<noteq> x" using y(2) by auto
    ultimately have "Hi y = Lo x" using seg_wfD(2) [OF wf y(1) x(1)] seg_wfD(1) [OF wf x(1)] by linarith
    then show False using mg x(1) y(1,4) unfolding merged_def by metis
  qed
  show "Hi x = maxKey \<and> Value x = v \<longleftrightarrow> top_run B t v k"
  proof
    assume "Hi x = maxKey \<and> Value x = v"
    then show "top_run B t v k" using inside bound(4) x(2) by (auto simp: top_run_def)
  next
    assume r: "top_run B t v k"
    then have v: "Value x = v" using inside [OF x(2,3)] bound(4) by (auto simp: top_run_def)
    have "\<not> Hi x < maxKey" using r right x(3) unfolding v top_run_def by force
    then show "Hi x = maxKey \<and> Value x = v" using v bound(1) by simp
  qed
  show "Lo x = minKey \<and> Value x = v \<longleftrightarrow> bottom_run B t v k"
  proof
    assume "Lo x = minKey \<and> Value x = v"
    then show "bottom_run B t v k" using inside bound(3) x(3) by (auto simp: bottom_run_def)
  next
    assume r: "bottom_run B t v k"
    then have v: "Value x = v" using inside [OF x(2,3)] bound(3) by (auto simp: bottom_run_def)
    have "\<not> minKey < Lo x" using r left x(2) unfolding v bottom_run_def by force
    then show "Lo x = minKey \<and> Value x = v" using v bound(2) by simp
  qed
qed

lemma SetIfAbsent_top:
  assumes L: "btree_laws B ok" and t: "index_ok B ok t" and keys: "\<forall>k. Get B t k \<noteq> None \<longrightarrow> minKey \<le> k \<and> k < maxKey"
  obtains t' where "SetIfAbsent B t maxKey v = (True, t')"
    "\<And>k. Get B t' k = (if top_run B t v k \<or> bottom_run B t v k then None else Get B t k)"
proof -
  have ok: "ok t" and wf: "seg_wf (segs B t)" using t by (simp_all add: index_ok_def)
  have inside: "Get B t j \<noteq> None" if "x \<in> segs B t" "Lo x \<le> j" "j < Hi x" for x j
  proof -
    have "covers (segs B t) j (Value x)" using that by (auto simp: covers_def)
    then show ?thesis using Get_iff [OF L t] by (metis option.distinct(1))
  qed
  have bound: "minKey \<le> Lo x \<and> Hi x \<le> maxKey" if x: "x \<in> segs B t" for x
  proof -
    have "minKey \<le> Lo x" "Hi x - 1 < maxKey"
      using keys inside [OF x, of "Lo x"] inside [OF x, of "Hi x - 1"] seg_wfD(1) [OF wf x] by auto
    then show ?thesis by simp
  qed
  let ?n = "\<lparr>Lo = maxKey, Hi = minKey, Value = v\<rparr>"
  let ?t = "ReplaceOrInsert B t ?n"
  note R = btree_lawsD(6,7) [OF L ok, of ?n]
  have "{x \<in> segs B t. Lo x \<noteq> maxKey} = segs B t" using bound seg_wfD(1) [OF wf] by fastforce
  then have h0: "holds_empty B ok ?t (segs B t) ?n"
    using R wf bound maxKey_next(2) by (simp add: holds_empty_def)
  obtain t1 n1 where 1: "merge_left B ?t ?n (DescendLessOrEqual B ?t (Lo ?n)) = (t1, n1)" "Hi n1 = minKey" "Value n1 = v"
    "holds_empty B ok t1 {x \<in> segs B t. \<not> (Hi x = maxKey \<and> Value x = v)} n1"
    using merge_left_empty [OF L h0] maxKey_next(2) bound by auto
  have lo1: "\<forall>x \<in> {x \<in> segs B t. \<not> (Hi x = maxKey \<and> Value x = v)}. Hi n1 \<le> Lo x" using bound 1(2) by simp
  obtain t2 n2 where 2: "merge_right B t1 n1 (AscendGreaterOrEqual B t1 (Hi n1)) = (t2, n2)"
    "holds_empty B ok t2 {x \<in> {x \<in> segs B t. \<not> (Hi x = maxKey \<and> Value x = v)}. \<not> (Lo x = Hi n1 \<and> Value x = Value n1)} n2"
    by (rule merge_right_empty [OF L 1(4) lo1])
  have "fst (mergeNeighbors B ?t ?n) = t2" using 1(1) 2(1) by (simp add: mergeNeighbors_def)
  moreover have "findCovering B t maxKey = None"
  proof -
    have "Get B t maxKey = None" using keys by fastforce
    then show ?thesis by (simp add: Get_def split: option.splits)
  qed
  ultimately have s: "SetIfAbsent B t maxKey v = (True, t2)" by (simp add: SetIfAbsent_def maxKey_next(1))
  have get: "Get B t2 k = Some w \<longleftrightarrow> Get B t k = Some w \<and> \<not> top_run B t v k \<and> \<not> bottom_run B t v k" for k w
  proof -
    have key: "(Hi x = maxKey \<and> Value x = v \<longleftrightarrow> top_run B t v k) \<and> (Lo x = minKey \<and> Value x = v \<longleftrightarrow> bottom_run B t v k)"
      if "x \<in> segs B t" "Lo x \<le> k" "k < Hi x" for x using run_segments [OF L t keys that] by blast
    show ?thesis unfolding Get_empty_segment [OF L 2(2)] Get_iff [OF L t] covers_def 1(2,3) using key by blast
  qed
  have "Get B t2 k = (if top_run B t v k \<or> bottom_run B t v k then None else Get B t k)" for k
  proof (cases "Get B t2 k")
    case None
    then show ?thesis using get [of k "the (Get B t k)"] by (cases "Get B t k") auto
  next
    case (Some w)
    then show ?thesis using get [of k w] by auto
  qed
  with s show thesis by (rule that)
qed

text \<open>
  C22. The largest key cannot be stored, in any index that holds only smaller keys: \<open>key+1\<close> wraps to the smallest, so
  \<open>Set\<close> returns without doing anything. \<open>SetIfAbsent\<close> on it reports that the key was set, but the key is still
  absent and a second call reports the same; and when the value is that of the run that ends just below it,
  or of the run that starts at the smallest key, all keys of that run are lost. The other keys keep their values.
\<close>

theorem largest_key_corrupts:
  assumes "btree_laws B ok" and "index_ok B ok t" and "\<forall>k. Get B t k \<noteq> None \<longrightarrow> minKey \<le> k \<and> k < maxKey"
  shows "Set B t maxKey v = t \<and> Delete B t maxKey = t
    \<and> (\<exists>t'. SetIfAbsent B t maxKey v = (True, t') \<and> Get B t' maxKey = None \<and> fst (SetIfAbsent B t' maxKey v)
         \<and> (\<forall>k. Get B t' k = (if top_run B t v k \<or> bottom_run B t v k then None else Get B t k)))"
proof -
  have "Set B t maxKey v = t" "Delete B t maxKey = t"
    using maxKey_next by (simp_all add: Set_def internalSet_def Delete_def internalDelete_def)
  moreover obtain t' where t': "SetIfAbsent B t maxKey v = (True, t')"
    "\<And>k. Get B t' k = (if top_run B t v k \<or> bottom_run B t v k then None else Get B t k)"
    using SetIfAbsent_top [OF assms] by metis
  moreover have none: "Get B t' maxKey = None" using t'(2) [of maxKey] assms(3) by auto
  moreover have "fst (SetIfAbsent B t' maxKey v)" using none by (simp add: SetIfAbsent_def Get_def Let_def split: option.splits)
  ultimately show ?thesis by blast
qed

lemma largest_key_corrupts_witness:
  "\<exists>t'. SetIfAbsent list_btree [\<lparr>Lo = maxKey - 3, Hi = maxKey, Value = True\<rparr>] maxKey True = (True, t')
    \<and> Get list_btree [\<lparr>Lo = maxKey - 3, Hi = maxKey, Value = True\<rparr>] (maxKey - 2) = Some True \<and> Get list_btree t' (maxKey - 2) = None"
proof -
  let ?t = "[\<lparr>Lo = maxKey - 3, Hi = maxKey, Value = True\<rparr>]"
  have ok: "index_ok list_btree (sorted_wrt (\<lambda>a b. Lo a < Lo b)) ?t"
    by (simp add: index_ok_def list_btree_def segs_def seg_wf_def merged_def)
  have get: "Get list_btree ?t k = (if maxKey - 3 \<le> k \<and> k < maxKey then Some True else None)" for k
    by (simp add: Get_def findCovering_def list_btree_def)
  then have keys: "\<forall>k. Get list_btree ?t k \<noteq> None \<longrightarrow> minKey \<le> k \<and> k < maxKey" by (auto simp: minKey_def maxKey_def)
  have "top_run list_btree ?t True (maxKey - 2)" by (simp add: top_run_def get)
  then show ?thesis using largest_key_corrupts [OF list_btree_laws ok keys, of True] get [of "maxKey - 2"] by auto
qed

end
