(* ===== verification/Rounding.thy ===== *)
theory Rounding
  imports Prelude
begin

section \<open>Binary floating-point formats\<close>

text \<open>
  What \<^verbatim>\<open>float32\<close> and \<^verbatim>\<open>float64\<close> share. A format with \<open>h\<close> fraction bits numbers its
  non-negative values by their bit patterns: pattern \<open>b\<close> has exponent \<open>b div 2 ^ h\<close> and is
  worth \<open>fval h b\<close> units of the smallest subnormal. \<open>fround h lim p q\<close> is the pattern nearest
  to \<open>p / q\<close> units, with ties to even, and at most \<open>lim\<close> (the infinity).
\<close>

definition hidden :: "nat \<Rightarrow> nat" where
  "hidden h = 2 ^ h"

definition fval :: "nat \<Rightarrow> nat \<Rightarrow> nat" where
  "fval h b =
     (if b < hidden h then b
      else (hidden h + b mod hidden h) * 2 ^ (b div hidden h - 1))"

fun bit_length :: "nat \<Rightarrow> nat" where
  "bit_length n = (if n = 0 then 0 else Suc (bit_length (n div 2)))"

declare bit_length.simps [simp del]

definition round_half_even :: "nat \<Rightarrow> nat \<Rightarrow> nat" where
  "round_half_even p q =
     (let d = p div q; r = p mod q in
      if 2 * r < q then d else if q < 2 * r then d + 1 else if even d then d else d + 1)"

definition fexp :: "nat \<Rightarrow> nat \<Rightarrow> nat \<Rightarrow> nat" where
  "fexp h p q = bit_length (p div q) - Suc h"

definition fround :: "nat \<Rightarrow> nat \<Rightarrow> nat \<Rightarrow> nat \<Rightarrow> nat" where
  "fround h lim p q =
     min (fexp h p q * hidden h + round_half_even p (q * 2 ^ fexp h p q)) lim"

lemma hidden_pos: "0 < hidden h"
  by (simp add: hidden_def)

lemma fval_parts:
  "m < hidden h \<Longrightarrow> 0 < e \<Longrightarrow> fval h (e * hidden h + m) = (hidden h + m) * 2 ^ (e - 1)"
proof -
  assume a: "m < hidden h" "0 < e"
  then have "\<not> e * hidden h + m < hidden h" by (cases e) auto
  then show ?thesis using a by (simp add: fval_def)
qed

lemma fval_small: "b < hidden h \<Longrightarrow> fval h b = b"
  by (simp add: fval_def)

lemma fval_Suc: "fval h b < fval h (Suc b)"
proof -
  define e m where "e = b div hidden h" and "m = b mod hidden h"
  have b: "b = e * hidden h + m" and m: "m < hidden h"
    by (simp_all add: e_def m_def hidden_pos)
  consider "e = 0" "Suc m < hidden h" | "e = 0" "Suc m = hidden h"
    | "0 < e" "Suc m < hidden h" | "0 < e" "Suc m = hidden h"
    using m by (metis Suc_lessI neq0_conv)
  then show ?thesis
  proof cases
    case 1
    then show ?thesis using b by (simp add: fval_small)
  next
    case 2
    then have "Suc b = 1 * hidden h + 0" using b by simp
    then have "fval h (Suc b) = hidden h"
      using fval_parts [of 0 h 1] hidden_pos [of h] by simp
    then show ?thesis using 2 b m by (simp add: fval_small)
  next
    case 3
    have "Suc b = e * hidden h + Suc m" using b by simp
    then show ?thesis
      using 3 m b fval_parts [of m h e] fval_parts [of "Suc m" h e] by simp
  next
    case 4
    have "Suc b = Suc e * hidden h + 0" using b 4 by simp
    then have "fval h (Suc b) = hidden h * 2 ^ e"
      using fval_parts [of 0 h "Suc e"] hidden_pos [of h] by simp
    also have "\<dots> = (hidden h + hidden h) * 2 ^ (e - 1)"
      using 4 by (cases e) (simp_all add: algebra_simps)
    finally show ?thesis using b m 4 fval_parts [of m h e] by simp
  qed
qed

lemma fval_less: "a < b \<Longrightarrow> fval h a < fval h b"
  using fval_Suc by (rule lift_Suc_mono_less)

lemma fval_le_iff: "fval h a \<le> fval h b \<longleftrightarrow> a \<le> b"
  by (metis fval_less leD leI le_less)

lemma fval_0 [simp]: "fval h 0 = 0"
  by (simp add: fval_def hidden_def)

lemma bit_length_less: "n < 2 ^ bit_length n"
proof (induction n rule: bit_length.induct)
  case (1 n)
  then show ?case by (subst bit_length.simps) auto
qed

lemma bit_length_ge: "0 < n \<Longrightarrow> 2 ^ (bit_length n - 1) \<le> n"
proof (induction n rule: bit_length.induct)
  case (1 n)
  show ?case
  proof (cases "n div 2 = 0")
    case True
    then show ?thesis using "1.prems" by (simp add: bit_length.simps)
  next
    case False
    then have "2 ^ (bit_length (n div 2) - 1) \<le> n div 2" using "1.IH" "1.prems" by simp
    moreover have "0 < bit_length (n div 2)" using False by (subst bit_length.simps) simp
    ultimately have "2 ^ bit_length (n div 2) \<le> n"
      by (cases "bit_length (n div 2)") auto
    then show ?thesis using "1.prems" by (subst bit_length.simps) simp
  qed
qed

lemma bit_length_unique: "2 ^ k \<le> n \<Longrightarrow> n < 2 ^ Suc k \<Longrightarrow> bit_length n = Suc k"
proof -
  assume a: "2 ^ k \<le> n" "n < 2 ^ Suc k"
  then have "0 < n" by (metis gr0I le_zero_eq power_not_zero zero_neq_numeral)
  then have g: "2 ^ (bit_length n - 1) \<le> n" by (rule bit_length_ge)
  have "k < bit_length n"
    using a(1) bit_length_less [of n] by (metis le_less_trans one_less_numeral_iff power_less_imp_less_exp semiring_norm(76))
  moreover have "bit_length n - 1 < Suc k"
    using a(2) g by (metis le_less_trans one_less_numeral_iff power_less_imp_less_exp semiring_norm(76))
  ultimately show ?thesis by simp
qed

lemma bit_length_mono: "m \<le> n \<Longrightarrow> bit_length m \<le> bit_length n"
proof (cases "m = 0")
  case True
  then show ?thesis by (simp add: bit_length.simps)
next
  case False
  assume "m \<le> n"
  then have "2 ^ (bit_length m - 1) < (2::nat) ^ bit_length n"
    using bit_length_ge [of m] False bit_length_less [of n] by linarith
  then show ?thesis by (metis (full_types) Suc_leI diff_Suc_1 less_one linorder_not_le
    not0_implies_Suc numeral_1_eq_Suc_0 one_less_numeral_iff order_less_imp_le power_less_imp_less_exp semiring_norm(76) zero_less_iff_neq_zero)
qed

subsection \<open>Rounding is monotone and exact on representable values\<close>

lemma round_half_even_upper:
  assumes "0 < q"
  shows "2 * p \<le> (2 * round_half_even p q + 1) * q"
    and "2 * p = (2 * round_half_even p q + 1) * q \<Longrightarrow> even (round_half_even p q)"
proof -
  define d r where "d = p div q" and "r = p mod q"
  have p: "p = d * q + r" and r: "r < q" using assms by (simp_all add: d_def r_def)
  show "2 * p \<le> (2 * round_half_even p q + 1) * q"
    using p r by (auto simp: round_half_even_def Let_def d_def [symmetric] r_def [symmetric] algebra_simps)
  show "2 * p = (2 * round_half_even p q + 1) * q \<Longrightarrow> even (round_half_even p q)"
    using p r by (auto simp: round_half_even_def Let_def d_def [symmetric] r_def [symmetric]
      algebra_simps split: if_splits)
qed

lemma round_half_even_lower:
  assumes "0 < q"
  shows "2 * round_half_even p q * q \<le> 2 * p + q"
    and "2 * round_half_even p q * q = 2 * p + q \<Longrightarrow> even (round_half_even p q)"
proof -
  define d r where "d = p div q" and "r = p mod q"
  have p: "p = d * q + r" and r: "r < q" using assms by (simp_all add: d_def r_def)
  show "2 * round_half_even p q * q \<le> 2 * p + q"
    using p r by (auto simp: round_half_even_def Let_def d_def [symmetric] r_def [symmetric] algebra_simps)
  show "2 * round_half_even p q * q = 2 * p + q \<Longrightarrow> even (round_half_even p q)"
    using p r by (auto simp: round_half_even_def Let_def d_def [symmetric] r_def [symmetric]
      algebra_simps split: if_splits)
qed

lemma round_half_even_mono:
  assumes q: "0 < q1" "0 < q2" and le: "p1 * q2 \<le> p2 * q1"
  shows "round_half_even p1 q1 \<le> round_half_even p2 q2"
proof (rule ccontr)
  define a b where "a = round_half_even p1 q1" and "b = round_half_even p2 q2"
  assume "\<not> round_half_even p1 q1 \<le> round_half_even p2 q2"
  then have ba: "b + 1 \<le> a" by (simp add: a_def b_def)
  have lo: "2 * a * q1 \<le> 2 * p1 + q1" and hi: "2 * p2 \<le> (2 * b + 1) * q2"
    using round_half_even_lower(1) [OF q(1)] round_half_even_upper(1) [OF q(2)]
    by (simp_all add: a_def b_def)
  have "2 * a * q1 * q2 \<le> (2 * p1 + q1) * q2" using lo by (rule mult_le_mono1)
  also have l1: "(2 * p1 + q1) * q2 \<le> 2 * p2 * q1 + q1 * q2"
    using le by (simp add: algebra_simps)
  also have l2: "2 * p2 * q1 + q1 * q2 \<le> (2 * b + 1) * q2 * q1 + q1 * q2"
    using hi by (simp add: mult_le_mono1)
  also have l3: "\<dots> = 2 * (b + 1) * (q1 * q2)" by (simp add: algebra_simps)
  finally have "2 * a * (q1 * q2) \<le> 2 * (b + 1) * (q1 * q2)" by (simp add: mult.assoc)
  then have "a * (2 * (q1 * q2)) \<le> (b + 1) * (2 * (q1 * q2))" by (simp add: algebra_simps)
  then have "a \<le> b + 1" using q by (simp only: mult_le_cancel2) simp
  then have ab: "a = b + 1" using ba by simp
  have "2 * a * q1 = 2 * p1 + q1"
  proof (rule ccontr)
    assume "2 * a * q1 \<noteq> 2 * p1 + q1"
    then have "2 * a * q1 < 2 * p1 + q1" using lo by simp
    then have "2 * a * q1 * q2 < (2 * p1 + q1) * q2" using q by simp
    then have "2 * a * (q1 * q2) < 2 * (b + 1) * (q1 * q2)"
      using l1 l2 l3 by (simp only: mult.assoc)
    then show False using ab by simp
  qed
  then have "even a" using round_half_even_lower(2) [OF q(1)] by (simp add: a_def)
  have "2 * p2 = (2 * b + 1) * q2"
  proof (rule ccontr)
    assume "2 * p2 \<noteq> (2 * b + 1) * q2"
    then have "2 * p2 < (2 * b + 1) * q2" using hi by simp
    then have "2 * p2 * q1 < (2 * b + 1) * q2 * q1" using q by simp
    moreover have "2 * a * q1 * q2 \<le> 2 * p2 * q1 + q1 * q2"
      using mult_le_mono1 [OF lo, of q2] l1 by linarith
    ultimately have "2 * a * (q1 * q2) < 2 * (b + 1) * (q1 * q2)"
      using l3 by (simp only: mult.assoc)
    then show False using ab by simp
  qed
  then have "even b" using round_half_even_upper(2) [OF q(2)] by (simp add: b_def)
  then show False using \<open>even a\<close> ab by simp
qed

lemma round_half_even_exact [simp]: "0 < q \<Longrightarrow> round_half_even (k * q) q = k"
  by (simp add: round_half_even_def)

lemma round_half_even_le: "0 < q \<Longrightarrow> p \<le> k * q \<Longrightarrow> round_half_even p q \<le> k"
  using round_half_even_mono [of q q p "k * q"] by simp

lemma round_half_even_ge: "0 < q \<Longrightarrow> k * q \<le> p \<Longrightarrow> k \<le> round_half_even p q"
  using round_half_even_mono [of q q "k * q" p] by simp

lemma fexp_mono:
  assumes "0 < q1" "0 < q2" "p1 * q2 \<le> p2 * q1"
  shows "fexp h p1 q1 \<le> fexp h p2 q2"
proof -
  have "p1 div q1 * q1 \<le> p1" by simp
  then have "p1 div q1 * q1 * q2 \<le> p2 * q1" using assms(3) by (meson le_trans mult_le_mono1)
  then have "p1 div q1 * q2 \<le> p2" using assms(1) by (simp add: mult.commute mult.left_commute)
  then have "p1 div q1 \<le> p2 div q2" using assms(2) by (simp add: less_eq_div_iff_mult_less_eq)
  then show ?thesis unfolding fexp_def by (intro diff_le_mono bit_length_mono)
qed

lemma fexp_upper:
  assumes "0 < q"
  shows "p \<le> 2 * hidden h * (q * 2 ^ fexp h p q)"
proof -
  have "p div q < 2 ^ bit_length (p div q)" by (rule bit_length_less)
  also have "\<dots> \<le> 2 ^ (Suc h + fexp h p q)"
    by (rule power_increasing) (simp_all add: fexp_def)
  finally have "p < 2 ^ (Suc h + fexp h p q) * q" using assms by (simp add: div_less_iff_less_mult)
  also have "2 ^ (Suc h + fexp h p q) * q = 2 * hidden h * (q * 2 ^ fexp h p q)"
    by (simp add: power_add hidden_def)
  finally show ?thesis by simp
qed

lemma fexp_lower:
  assumes "0 < q" "0 < fexp h p q"
  shows "hidden h * (q * 2 ^ fexp h p q) \<le> p"
proof -
  have bl: "Suc h < bit_length (p div q)" using assms(2) by (simp add: fexp_def)
  then have "0 < p div q" by (metis bit_length.simps gr0I not_less_zero)
  then have "2 ^ (bit_length (p div q) - 1) \<le> p div q" by (rule bit_length_ge)
  moreover have "bit_length (p div q) - 1 = h + fexp h p q" using bl by (simp add: fexp_def)
  ultimately have "2 ^ (h + fexp h p q) * q \<le> p"
    using assms(1) by (metis less_eq_div_iff_mult_less_eq)
  then show ?thesis by (simp add: power_add hidden_def mult.assoc mult.left_commute mult.commute)
qed

lemma fround_mono:
  assumes q: "0 < q1" "0 < q2" and le: "p1 * q2 \<le> p2 * q1"
  shows "fround h lim p1 q1 \<le> fround h lim p2 q2"
proof -
  define a b where "a = fexp h p1 q1" and "b = fexp h p2 q2"
  have ab: "a \<le> b" using fexp_mono [OF q le] by (simp add: a_def b_def)
  have "a * hidden h + round_half_even p1 (q1 * 2 ^ a)
      \<le> b * hidden h + round_half_even p2 (q2 * 2 ^ b)"
  proof (cases "a = b")
    case True
    have "p1 * (q2 * 2 ^ b) \<le> p2 * (q1 * 2 ^ b)"
      using le by (simp only: mult.assoc [symmetric] mult_le_mono1)
    then show ?thesis using True q by (simp add: round_half_even_mono)
  next
    case False
    then have sb: "Suc a \<le> b" using ab by simp
    have "round_half_even p1 (q1 * 2 ^ a) \<le> 2 * hidden h"
      using q fexp_upper [of q1 p1 h] by (simp add: round_half_even_le a_def)
    moreover have "hidden h \<le> round_half_even p2 (q2 * 2 ^ b)"
      using q sb fexp_lower [of q2 h p2] by (simp add: round_half_even_ge b_def)
    moreover have "Suc a * hidden h \<le> b * hidden h" using sb by (rule mult_le_mono1)
    ultimately show ?thesis by simp
  qed
  then show ?thesis unfolding fround_def a_def b_def by (rule min.mono) simp
qed

lemma fround_exact:
  assumes q: "0 < q" and b: "b \<le> lim"
  shows "fround h lim (fval h b * q) q = b"
proof -
  define e m where "e = b div hidden h" and "m = b mod hidden h"
  have bb: "b = e * hidden h + m" and m: "m < hidden h"
    by (simp_all add: e_def m_def hidden_pos)
  show ?thesis
  proof (cases "e = 0")
    case True
    then have v: "fval h b = m" using bb m by (simp add: fval_small)
    have "bit_length m \<le> bit_length (2 ^ h)"
      using m by (intro bit_length_mono) (simp add: hidden_def)
    moreover have "bit_length (2 ^ h) = Suc h" by (rule bit_length_unique) simp_all
    ultimately have "fexp h (m * q) q = 0" using q by (simp add: fexp_def)
    then show ?thesis using True bb b q v by (simp add: fround_def)
  next
    case False
    then have v: "fval h b = (hidden h + m) * 2 ^ (e - 1)"
      using bb m by (simp add: fval_parts)
    have "bit_length (fval h b) = Suc (h + (e - 1))"
    proof (rule bit_length_unique)
      show "2 ^ (h + (e - 1)) \<le> fval h b"
        by (simp add: v power_add hidden_def)
      have "(hidden h + m) * 2 ^ (e - 1) < (2 * hidden h) * 2 ^ (e - 1)"
        using m by simp
      then show "fval h b < 2 ^ Suc (h + (e - 1))"
        by (simp add: v power_add hidden_def)
    qed
    then have x: "fexp h (fval h b * q) q = e - 1" using q False by (simp add: fexp_def)
    have "round_half_even (fval h b * q) (q * 2 ^ (e - 1)) = hidden h + m"
      using round_half_even_exact [of "q * 2 ^ (e - 1)" "hidden h + m"] q
      by (simp add: v mult.assoc mult.left_commute mult.commute)
    moreover have "(e - 1) * hidden h + (hidden h + m) = b"
      using bb False by (cases e) simp_all
    ultimately show ?thesis using b x by (simp add: fround_def)
  qed
qed

lemma fval_repr: "k < 2 * hidden h \<Longrightarrow> \<exists>b. fval h b = k * 2 ^ e"
proof (induction e arbitrary: k)
  case 0
  show ?case
  proof (cases "k < hidden h")
    case True
    then show ?thesis by (auto intro: exI [of _ k] simp: fval_small)
  next
    case False
    then have "fval h (1 * hidden h + (k - hidden h)) = k"
      using fval_parts [of "k - hidden h" h 1] 0 by simp
    then show ?thesis by auto
  qed
next
  case (Suc e)
  show ?case
  proof (cases "k < hidden h")
    case True
    then have "2 * k < 2 * hidden h" by simp
    then obtain b where "fval h b = 2 * k * 2 ^ e" using Suc.IH by blast
    then show ?thesis by (auto intro: exI [of _ b])
  next
    case False
    then have "fval h (Suc (Suc e) * hidden h + (k - hidden h)) = k * 2 ^ Suc e"
      using fval_parts [of "k - hidden h" h "Suc (Suc e)"] Suc.prems by simp
    then show ?thesis by blast
  qed
qed

lemma fround_le [simp]: "fround h lim p q \<le> lim"
  by (simp add: fround_def)

end
