(* ===== verification/Float64.thy ===== *)
theory Float64
  imports Rounding
begin

section \<open>Go's float64: IEEE-754 binary64 on its 64 bits\<close>

text \<open>
  A \<open>float64\<close> is its bit pattern, so \<open>math.Float64bits\<close> and
  \<open>math.Float64frombits\<close> are the selector and the constructor. The magnitude of a
  value is the low 63 bits; the magnitudes of the finite values, of the infinity and of
  the NaNs are ordered as numbers. A finite value is an integer multiple of
  \<open>2 ^ -1074\<close>, its \<open>sval\<close>; the arithmetic is the exact integer (or rational)
  result, rounded to nearest with ties to even, with overflow to infinity.
\<close>

datatype f64 = F64 (f64_bits: u64)

definition f64_neg :: "f64 \<Rightarrow> bool" where
  "f64_neg x \<longleftrightarrow> 2 ^ 63 \<le> unat (f64_bits x)"

definition f64_mag :: "f64 \<Rightarrow> nat" where
  "f64_mag x = unat (f64_bits x) mod 2 ^ 63"

definition hidden_bit :: nat where
  "hidden_bit = 2 ^ 52"

definition inf_mag :: nat where
  "inf_mag = 2047 * hidden_bit"

definition mk_f64 :: "bool \<Rightarrow> nat \<Rightarrow> f64" where
  "mk_f64 neg mag = F64 (of_nat (mag + (if neg then 2 ^ 63 else 0)))"

definition is_nan :: "f64 \<Rightarrow> bool" where
  "is_nan x \<longleftrightarrow> inf_mag < f64_mag x"

definition is_inf :: "f64 \<Rightarrow> bool" where
  "is_inf x \<longleftrightarrow> f64_mag x = inf_mag"

definition is_fin :: "f64 \<Rightarrow> bool" where
  "is_fin x \<longleftrightarrow> f64_mag x < inf_mag"

definition nan64 :: f64 where
  "nan64 = F64 0x7FF8000000000001"

definition inf64 :: "bool \<Rightarrow> f64" where
  "inf64 neg = mk_f64 neg inf_mag"

subsection \<open>Comparison\<close>

text \<open>
  The order of Go's \<open><\<close> and \<open><=\<close>: false when a NaN is compared, and the two zeros
  are equal. Go's \<open>==\<close> is \<open>f_eq\<close>; HOL's equality compares bit patterns.
\<close>

definition f64_key :: "f64 \<Rightarrow> int" where
  "f64_key x = (if f64_neg x then - int (f64_mag x) else int (f64_mag x))"

instantiation f64 :: ord
begin

definition less_f64 :: "f64 \<Rightarrow> f64 \<Rightarrow> bool" where
  "less_f64 x y \<longleftrightarrow> \<not> is_nan x \<and> \<not> is_nan y \<and> f64_key x < f64_key y"

definition less_eq_f64 :: "f64 \<Rightarrow> f64 \<Rightarrow> bool" where
  "less_eq_f64 x y \<longleftrightarrow> \<not> is_nan x \<and> \<not> is_nan y \<and> f64_key x \<le> f64_key y"

instance ..

end

definition f_eq :: "f64 \<Rightarrow> f64 \<Rightarrow> bool" where
  "f_eq x y \<longleftrightarrow> \<not> is_nan x \<and> \<not> is_nan y \<and> f64_key x = f64_key y"

subsection \<open>Values and rounding\<close>

text \<open>A finite value \<open>x\<close> is \<open>sval x / unit_scale\<close>.\<close>

definition unit_scale :: nat where
  "unit_scale = 2 ^ 1074"

definition mag_val :: "nat \<Rightarrow> nat" where
  "mag_val b =
     (if b < hidden_bit then b
      else (hidden_bit + b mod hidden_bit) * 2 ^ (b div hidden_bit - 1))"

definition sval :: "f64 \<Rightarrow> int" where
  "sval x = (if f64_neg x then - int (mag_val (f64_mag x)) else int (mag_val (f64_mag x)))"

text \<open>\<open>round_mag p q\<close>: the magnitude nearest to \<open>p / q\<close> units of \<open>2 ^ -1074\<close>.\<close>

definition round_exp :: "nat \<Rightarrow> nat \<Rightarrow> nat" where
  "round_exp p q = bit_length (p div q) - 53"

definition round_mag :: "nat \<Rightarrow> nat \<Rightarrow> nat" where
  "round_mag p q =
     min (round_exp p q * hidden_bit + round_half_even p (q * 2 ^ round_exp p q)) inf_mag"

definition round_f64 :: "int \<Rightarrow> nat \<Rightarrow> f64" where
  "round_f64 s q = mk_f64 (s < 0) (round_mag (nat \<bar>s\<bar>) q)"

subsection \<open>Arithmetic\<close>

definition f64_of_int :: "int \<Rightarrow> f64" where
  "f64_of_int n = round_f64 (n * int unit_scale) 1"

instantiation f64 :: "{plus, minus, uminus, times, inverse, zero, one}"
begin

definition zero_f64 :: f64 where
  "zero_f64 = F64 0"

definition one_f64 :: f64 where
  "one_f64 = F64 0x3FF0000000000000"

definition uminus_f64 :: "f64 \<Rightarrow> f64" where
  "uminus_f64 x = mk_f64 (\<not> f64_neg x) (f64_mag x)"

definition plus_f64 :: "f64 \<Rightarrow> f64 \<Rightarrow> f64" where
  "plus_f64 x y =
     (if is_nan x \<or> is_nan y then nan64
      else if is_inf x then (if is_inf y \<and> f64_neg x \<noteq> f64_neg y then nan64 else x)
      else if is_inf y then y
      else let s = sval x + sval y in
        if s = 0 then mk_f64 (f64_neg x \<and> f64_neg y) 0 else round_f64 s 1)"

definition minus_f64 :: "f64 \<Rightarrow> f64 \<Rightarrow> f64" where
  "minus_f64 x y = x + (- y)"

definition times_f64 :: "f64 \<Rightarrow> f64 \<Rightarrow> f64" where
  "times_f64 x y =
     (let neg = (f64_neg x \<noteq> f64_neg y) in
      if is_nan x \<or> is_nan y then nan64
      else if is_inf x \<or> is_inf y then
        (if f64_mag x = 0 \<or> f64_mag y = 0 then nan64 else inf64 neg)
      else mk_f64 neg (round_mag (mag_val (f64_mag x) * mag_val (f64_mag y)) unit_scale))"

definition divide_f64 :: "f64 \<Rightarrow> f64 \<Rightarrow> f64" where
  "divide_f64 x y =
     (let neg = (f64_neg x \<noteq> f64_neg y) in
      if is_nan x \<or> is_nan y then nan64
      else if is_inf x then (if is_inf y then nan64 else inf64 neg)
      else if is_inf y then mk_f64 neg 0
      else if f64_mag y = 0 then (if f64_mag x = 0 then nan64 else inf64 neg)
      else mk_f64 neg (round_mag (mag_val (f64_mag x) * unit_scale) (mag_val (f64_mag y))))"

definition inverse_f64 :: "f64 \<Rightarrow> f64" where
  "inverse_f64 x = divide 1 x"

instance ..

end

text \<open>
  \<open>int(math.Floor(x))\<close>. Go leaves the conversion of a NaN or of a value out of range to
  the machine; this is the amd64 result, the smallest \<open>int64\<close>.
\<close>

definition floor_int :: "f64 \<Rightarrow> int" where
  "floor_int x =
     (if is_fin x \<and> is_i64 (sval x div int unit_scale) then sval x div int unit_scale
      else - (2 ^ 63))"

subsection \<open>Facts on the representation\<close>


lemma f64_mag_bound: "f64_mag x < 2 ^ 63"
  by (simp add: f64_mag_def)

lemma inf_mag_bound: "inf_mag < 2 ^ 63"
  by (simp add: inf_mag_def hidden_bit_def)

lemma mk_f64_unat:
  assumes "mag < 2 ^ 63"
  shows "unat (f64_bits (mk_f64 neg mag)) = mag + (if neg then 2 ^ 63 else 0)"
proof -
  have "mag + (if neg then 2 ^ 63 else 0) < 2 ^ 64" using assms by simp
  then have "unat (of_nat (mag + (if neg then 2 ^ 63 else 0)) :: 64 word)
      = mag + (if neg then 2 ^ 63 else 0)"
    by (simp only: unat_of_nat take_bit_eq_mod) simp
  then show ?thesis by (simp only: mk_f64_def f64.sel)
qed

lemma f64_mag_mk_raw: "mag < 2 ^ 63 \<Longrightarrow> f64_mag (mk_f64 neg mag) = mag"
  by (simp add: f64_mag_def mk_f64_unat)

lemma f64_neg_mk_raw: "mag < 2 ^ 63 \<Longrightarrow> f64_neg (mk_f64 neg mag) = neg"
  by (simp add: f64_neg_def mk_f64_unat)

lemma f64_mag_mk [simp]: "mag \<le> inf_mag \<Longrightarrow> f64_mag (mk_f64 neg mag) = mag"
  using inf_mag_bound by (intro f64_mag_mk_raw) linarith

lemma f64_neg_mk [simp]: "mag \<le> inf_mag \<Longrightarrow> f64_neg (mk_f64 neg mag) = neg"
  using inf_mag_bound by (intro f64_neg_mk_raw) linarith

lemma f64_key_mk [simp]:
  "mag \<le> inf_mag \<Longrightarrow> f64_key (mk_f64 neg mag) = (if neg then - int mag else int mag)"
  by (simp add: f64_key_def)

lemma is_nan_mk [simp]: "mag \<le> inf_mag \<Longrightarrow> \<not> is_nan (mk_f64 neg mag)"
  by (simp add: is_nan_def)

lemma unit_scale_pos [simp]: "0 < unit_scale"
  by (simp add: unit_scale_def)

lemma abs_f64_key: "\<bar>f64_key x\<bar> = int (f64_mag x)"
  by (simp add: f64_key_def)

lemma nan64_is_nan [simp]: "is_nan nan64"
  by (simp add: is_nan_def nan64_def f64_mag_def inf_mag_def hidden_bit_def)

lemma is_fin_iff: "is_fin x \<longleftrightarrow> \<not> is_nan x \<and> \<not> is_inf x"
  by (auto simp: is_fin_def is_nan_def is_inf_def)

lemma is_fin_not_nan [simp, dest]: "is_fin x \<Longrightarrow> \<not> is_nan x"
  by (simp add: is_fin_iff)

lemma is_inf_not_nan [simp, dest]: "is_inf x \<Longrightarrow> \<not> is_nan x"
  by (simp add: is_inf_def is_nan_def)

lemma not_nan_key: "\<not> is_nan x \<Longrightarrow> \<bar>f64_key x\<bar> \<le> int inf_mag"
  by (simp add: abs_f64_key is_nan_def)

lemma f64_neg_uminus [simp]: "f64_neg (- x) = (\<not> f64_neg x)"
  and f64_mag_uminus [simp]: "f64_mag (- x) = f64_mag x"
  using f64_mag_mk_raw [OF f64_mag_bound] f64_neg_mk_raw [OF f64_mag_bound]
  by (simp_all only: uminus_f64_def)

lemma f64_key_uminus [simp]: "f64_key (- x) = - f64_key x"
  by (simp add: f64_key_def)

lemma sval_uminus [simp]: "sval (- x) = - sval x"
  by (simp add: sval_def)

lemma is_uminus [simp]: "is_nan (- x) = is_nan x" "is_inf (- x) = is_inf x" "is_fin (- x) = is_fin x"
  by (simp_all add: is_nan_def is_inf_def is_fin_def)

lemma f64_less_iff: "\<not> is_nan x \<Longrightarrow> \<not> is_nan y \<Longrightarrow> x < y \<longleftrightarrow> f64_key x < f64_key y"
  and f64_le_iff: "\<not> is_nan x \<Longrightarrow> \<not> is_nan y \<Longrightarrow> x \<le> y \<longleftrightarrow> f64_key x \<le> f64_key y"
  and f_eq_iff: "\<not> is_nan x \<Longrightarrow> \<not> is_nan y \<Longrightarrow> f_eq x y \<longleftrightarrow> f64_key x = f64_key y"
  by (simp_all add: less_f64_def less_eq_f64_def f_eq_def)

lemma f64_less_irrefl [simp]: "\<not> (x::f64) < x"
  by (simp add: less_f64_def)

lemma f64_less_asym: "(x::f64) < y \<Longrightarrow> \<not> y < x"
  by (simp add: less_f64_def)

lemma f64_not_less: "\<not> is_nan x \<Longrightarrow> \<not> is_nan y \<Longrightarrow> \<not> x < y \<longleftrightarrow> y \<le> x"
  by (auto simp: less_f64_def less_eq_f64_def)

lemma f64_le_trans: "(x::f64) \<le> y \<Longrightarrow> y \<le> z \<Longrightarrow> x \<le> z"
  by (auto simp: less_eq_f64_def)

lemma f64_nan_compare: "is_nan x \<Longrightarrow> \<not> x < y \<and> \<not> y < x \<and> \<not> x \<le> y \<and> \<not> y \<le> x"
  by (simp add: less_f64_def less_eq_f64_def)

lemma f64_le_refl: "\<not> is_nan x \<Longrightarrow> x \<le> x"
  by (simp add: less_eq_f64_def)

lemma hidden_bit_pos: "0 < hidden_bit"
  by (simp add: hidden_bit_def)

text \<open>The format with 52 fraction bits.\<close>

lemma hidden_52: "hidden 52 = hidden_bit"
  by (simp add: hidden_def hidden_bit_def)

lemma fval_52: "fval 52 = mag_val"
  by (rule ext) (simp add: fval_def mag_val_def hidden_52)

lemma fround_52: "fround 52 inf_mag = round_mag"
  by (intro ext) (simp add: fround_def round_mag_def round_exp_def fexp_def hidden_52)

lemmas mag_val_parts = fval_parts [where h = 52, unfolded hidden_52 fval_52]
  and mag_val_small = fval_small [where h = 52, unfolded hidden_52 fval_52]
  and mag_val_less = fval_less [where h = 52, unfolded fval_52]
  and mag_val_le_iff = fval_le_iff [where h = 52, unfolded fval_52]
  and round_mag_mono = fround_mono [where h = 52 and lim = inf_mag, unfolded fround_52]
  and round_mag_exact = fround_exact [where h = 52 and lim = inf_mag, unfolded fround_52 fval_52]
  and mag_val_repr = fval_repr [where h = 52, unfolded hidden_52 fval_52]

lemma mag_val_0 [simp]: "mag_val 0 = 0"
  by (simp add: fval_52 [symmetric])

subsection \<open>Arithmetic on keys\<close>

definition rkey :: "int \<Rightarrow> nat \<Rightarrow> int" where
  "rkey s q = sgn s * int (round_mag (nat \<bar>s\<bar>) q)"

lemma round_mag_le [simp]: "round_mag p q \<le> inf_mag"
  by (simp add: round_mag_def)

lemma round_mag_0 [simp]: "0 < q \<Longrightarrow> round_mag 0 q = 0"
  using round_mag_exact [of q 0] by simp

lemma rkey_0 [simp]: "rkey 0 q = 0"
  by (simp add: rkey_def)

lemma rkey_nonneg: "0 \<le> s \<Longrightarrow> rkey s q = (if s = 0 then 0 else int (round_mag (nat s) q))"
  by (simp add: rkey_def)

lemma rkey_minus: "rkey (- s) q = - rkey s q"
  by (simp add: rkey_def)

lemma round_f64_key: "0 < q \<Longrightarrow> f64_key (round_f64 s q) = rkey s q"
  by (auto simp: round_f64_def rkey_def sgn_if)

lemma round_f64_not_nan [simp]: "\<not> is_nan (round_f64 s q)"
  by (simp add: round_f64_def)

lemma rkey_mono_pos: "0 < q \<Longrightarrow> 0 \<le> s \<Longrightarrow> s \<le> t \<Longrightarrow> rkey s q \<le> rkey t q"
  by (auto simp: rkey_nonneg round_mag_mono)

lemma rkey_pos: "0 \<le> s \<Longrightarrow> 0 \<le> rkey s q"
  by (simp add: rkey_nonneg)

lemma rkey_mono:
  assumes q: "0 < q" and st: "s \<le> t"
  shows "rkey s q \<le> rkey t q"
proof -
  consider "0 \<le> s" | "s < 0" "0 \<le> t" | "t < 0" by linarith
  then show ?thesis
  proof cases
    case 1
    then show ?thesis using q st by (simp add: rkey_mono_pos)
  next
    case 2
    then have "rkey s q \<le> 0" using rkey_pos [of "- s" q] by (simp add: rkey_minus)
    then show ?thesis using rkey_pos [OF 2(2), of q] by linarith
  next
    case 3
    then have "rkey (- t) q \<le> rkey (- s) q" using q st by (intro rkey_mono_pos) auto
    then show ?thesis by (simp add: rkey_minus)
  qed
qed

lemma abs_sval: "\<bar>sval x\<bar> = int (mag_val (f64_mag x))"
  by (simp add: sval_def)

lemma rkey_sval_scaled:
  assumes "\<not> is_nan x" "0 < q"
  shows "rkey (sval x * int q) q = f64_key x"
proof -
  have b: "f64_mag x \<le> inf_mag" using assms(1) by (simp add: is_nan_def)
  have "nat \<bar>sval x * int q\<bar> = mag_val (f64_mag x) * q"
    by (simp add: abs_mult abs_sval nat_mult_distrib)
  then have r: "round_mag (nat \<bar>sval x * int q\<bar>) q = f64_mag x"
    using round_mag_exact [OF assms(2) b] by simp
  have "mag_val (f64_mag x) = 0 \<longleftrightarrow> f64_mag x = 0"
    using mag_val_le_iff [of "f64_mag x" 0] by simp
  then show ?thesis
    using r assms(2) by (auto simp: rkey_def f64_key_def sval_def sgn_mult sgn_if)
qed

lemma rkey_sval [simp]: "\<not> is_nan x \<Longrightarrow> rkey (sval x) (Suc 0) = f64_key x"
  using rkey_sval_scaled [of x 1] by simp

lemma sval_le_iff: "\<not> is_nan x \<Longrightarrow> \<not> is_nan y \<Longrightarrow> sval x \<le> sval y \<longleftrightarrow> f64_key x \<le> f64_key y"
proof
  assume n: "\<not> is_nan x" "\<not> is_nan y"
  show "sval x \<le> sval y \<Longrightarrow> f64_key x \<le> f64_key y"
    using rkey_mono [of 1 "sval x" "sval y"] n by simp
  have z: "a = 0 \<and> b = 0" if "int a \<le> - int b" for a b
    using that by simp
  show "f64_key x \<le> f64_key y \<Longrightarrow> sval x \<le> sval y"
    by (auto simp: f64_key_def sval_def mag_val_le_iff split: if_splits dest: z)
qed

lemma f64_add_fin:
  assumes "is_fin x" "is_fin y"
  shows "\<not> is_nan (x + y)" and "f64_key (x + y) = rkey (sval x + sval y) (Suc 0)"
proof -
  have n: "\<not> is_nan x" "\<not> is_inf x" "\<not> is_nan y" "\<not> is_inf y"
    using assms by (simp_all add: is_fin_iff)
  show "\<not> is_nan (x + y)"
    using n by (simp add: plus_f64_def Let_def)
  show "f64_key (x + y) = rkey (sval x + sval y) (Suc 0)"
    using n by (simp add: plus_f64_def Let_def round_f64_key)
qed

lemma f64_sub_fin:
  assumes "is_fin x" "is_fin y"
  shows "\<not> is_nan (x - y)" and "f64_key (x - y) = rkey (sval x - sval y) (Suc 0)"
  using f64_add_fin [of x "- y"] assms by (simp_all add: minus_f64_def)

lemma f64_mult_fin:
  assumes "is_fin x" "is_fin y"
  shows "\<not> is_nan (x * y)" and "f64_key (x * y) = rkey (sval x * sval y) unit_scale"
proof -
  have n: "\<not> is_nan x" "\<not> is_inf x" "\<not> is_nan y" "\<not> is_inf y"
    using assms by (simp_all add: is_fin_iff)
  define m where "m = mag_val (f64_mag x) * mag_val (f64_mag y)"
  have e: "x * y = mk_f64 (f64_neg x \<noteq> f64_neg y) (round_mag m unit_scale)"
    using n by (simp add: times_f64_def Let_def m_def)
  have m: "nat \<bar>sval x * sval y\<bar> = m"
    by (simp only: m_def abs_mult abs_sval of_nat_mult [symmetric] nat_int)
  show "\<not> is_nan (x * y)" unfolding e by simp
  have s: "sgn (sval x * sval y) = (if m = 0 then 0 else if f64_neg x \<noteq> f64_neg y then -1 else 1)"
    by (auto simp: m_def sgn_mult sval_def sgn_if mult_less_0_iff)
  show "f64_key (x * y) = rkey (sval x * sval y) unit_scale"
    unfolding rkey_def m s e by simp
qed

lemma f64_inf_key: "is_inf x \<Longrightarrow> f64_key x = (if f64_neg x then - int inf_mag else int inf_mag)"
  by (simp add: is_inf_def f64_key_def)

lemma inf64_simps [simp]: "f64_mag (inf64 b) = inf_mag" "f64_neg (inf64 b) = b" "is_inf (inf64 b)"
  "\<not> is_nan (inf64 b)" "f64_key (inf64 b) = (if b then - int inf_mag else int inf_mag)"
  by (simp_all add: inf64_def is_inf_def)

lemma inf_mag_pos: "0 < inf_mag"
  by (simp add: inf_mag_def hidden_bit_def)

lemma f64_square_inf: "is_inf x \<Longrightarrow> x * x = inf64 False"
  using inf_mag_pos by (simp add: times_f64_def is_inf_def is_nan_def)

lemma f64_square_nonneg:
  assumes "\<not> is_nan x"
  shows "\<not> is_nan (x * x)" and "0 \<le> f64_key (x * x)"
proof -
  have "\<not> is_nan (x * x) \<and> 0 \<le> f64_key (x * x)"
  proof (cases "is_inf x")
    case True
    then show ?thesis by (simp add: f64_square_inf)
  next
    case False
    then have "is_fin x" using assms by (simp add: is_fin_iff)
    then show ?thesis by (simp add: f64_mult_fin rkey_pos)
  qed
  then show "\<not> is_nan (x * x)" and "0 \<le> f64_key (x * x)" by simp_all
qed

lemma f64_square_mono:
  assumes n: "\<not> is_nan x" "\<not> is_nan y" and le: "\<bar>f64_key x\<bar> \<le> \<bar>f64_key y\<bar>"
  shows "f64_key (x * x) \<le> f64_key (y * y)"
proof (cases "is_inf y")
  case True
  then show ?thesis
    using not_nan_key [OF f64_square_nonneg(1) [OF n(1)]] by (simp add: f64_square_inf)
next
  case False
  then have fy: "is_fin y" using n by (simp add: is_fin_iff)
  have m: "f64_mag x \<le> f64_mag y" using le by (simp add: abs_f64_key)
  then have fx: "is_fin x" using fy by (simp add: is_fin_def)
  have "\<bar>sval x\<bar> \<le> \<bar>sval y\<bar>" using m by (simp add: abs_sval mag_val_le_iff)
  then have "sval x * sval x \<le> sval y * sval y"
    by (metis abs_le_square_iff power2_eq_square)
  then show ?thesis using fx fy by (simp only: f64_mult_fin) (intro rkey_mono, simp_all)
qed

lemma f64_add_nonneg:
  assumes n: "\<not> is_nan x" "\<not> is_nan y" and p: "0 \<le> f64_key x" "0 \<le> f64_key y"
  shows "\<not> is_nan (x + y)" and "f64_key x \<le> f64_key (x + y)" and "f64_key y \<le> f64_key (x + y)"
proof -
  have top: "f64_key z \<le> int inf_mag" if "\<not> is_nan z" for z
    using not_nan_key [OF that] by linarith
  have "\<not> is_nan (x + y) \<and> f64_key x \<le> f64_key (x + y) \<and> f64_key y \<le> f64_key (x + y)"
  proof (cases "is_inf x \<or> is_inf y")
    case True
    have s: "is_inf z \<Longrightarrow> 0 \<le> f64_key z \<Longrightarrow> \<not> f64_neg z \<and> f64_key z = int inf_mag" for z
      using inf_mag_pos by (auto simp: f64_inf_key split: if_splits)
    have "is_inf x \<Longrightarrow> x + y = x" using n s [OF _ p(1)] s [OF _ p(2)] by (auto simp: plus_f64_def)
    moreover have "\<not> is_inf x \<Longrightarrow> x + y = y" using n True by (auto simp: plus_f64_def)
    ultimately show ?thesis
      using True n s [OF _ p(1)] s [OF _ p(2)] top [OF n(1)] top [OF n(2)] by (cases "is_inf x") auto
  next
    case False
    then have f: "is_fin x" "is_fin y" using n by (simp_all add: is_fin_iff)
    have z: "0 \<le> f64_key z \<Longrightarrow> 0 \<le> sval z" for z
      by (auto simp: f64_key_def sval_def split: if_splits)
    have "rkey (sval x) (Suc 0) \<le> rkey (sval x + sval y) (Suc 0)" "rkey (sval y) (Suc 0) \<le> rkey (sval x + sval y) (Suc 0)"
      using z [OF p(1)] z [OF p(2)] by (auto intro: rkey_mono)
    then show ?thesis using f n by (simp add: f64_add_fin)
  qed
  then show "\<not> is_nan (x + y)" and "f64_key x \<le> f64_key (x + y)" and "f64_key y \<le> f64_key (x + y)"
    by simp_all
qed

subsection \<open>Integers of at most 53 bits are exact\<close>

lemma unit_scale_nz [simp]: "unit_scale \<noteq> 0"
  using unit_scale_pos by linarith

lemma mag_val_inf: "mag_val inf_mag = hidden_bit * 2 ^ 2046"
  using mag_val_parts [of 0 2047] hidden_bit_pos by (simp add: inf_mag_def)

lemma round_f64_exact:
  assumes "nat \<bar>s\<bar> = k * 2 ^ e" "k < 2 * hidden_bit" "e \<le> 2044" "0 < q"
  shows "sval (round_f64 (s * int q) q) = s" and "is_fin (round_f64 (s * int q) q)"
proof -
  obtain b where b: "mag_val b = nat \<bar>s\<bar>" using mag_val_repr [OF assms(2)] assms(1) by metis
  have "mag_val b < 2 * hidden_bit * 2 ^ 2044"
  proof -
    have "k * 2 ^ e \<le> k * 2 ^ 2044" using assms(3) by (intro mult_le_mono2 power_increasing) simp_all
    also have "\<dots> < 2 * hidden_bit * 2 ^ 2044" using assms(2) by (simp only: mult_less_cancel2) simp
    finally show ?thesis using b assms(1) by simp
  qed
  also have "2 * hidden_bit * 2 ^ 2044 \<le> hidden_bit * 2 ^ 2046"
  proof -
    have "2 * 2 ^ 2044 \<le> (2::nat) ^ 2046" using power_increasing [of 2045 2046 "2::nat"] by simp
    then have "hidden_bit * (2 * 2 ^ 2044) \<le> hidden_bit * 2 ^ 2046" by (rule mult_le_mono2)
    then show ?thesis by (simp only: mult.assoc mult.left_commute)
  qed
  finally have lt: "b < inf_mag" using mag_val_le_iff [of inf_mag b] by (simp add: mag_val_inf)
  have "round_mag (nat \<bar>s * int q\<bar>) q = b"
    using round_mag_exact [OF assms(4), of b] lt b by (simp add: abs_mult nat_mult_distrib)
  moreover have "(s * int q < 0) = (s < 0)" using assms(4) by (simp add: mult_less_0_iff)
  ultimately have r: "round_f64 (s * int q) q = mk_f64 (s < 0) b" by (simp add: round_f64_def)
  show "is_fin (round_f64 (s * int q) q)" using lt by (simp add: r is_fin_def)
  show "sval (round_f64 (s * int q) q) = s" using lt b by (simp add: r sval_def)
qed

text \<open>Integers of at most 53 bits are exact.\<close>

definition small_int :: "int \<Rightarrow> bool" where
  "small_int n \<longleftrightarrow> \<bar>n\<bar> < 2 ^ 53"

lemma small_int_exact:
  assumes "small_int n"
  shows "sval (f64_of_int n) = n * int unit_scale" and "is_fin (f64_of_int n)"
proof -
  have "nat \<bar>n * int unit_scale\<bar> = nat \<bar>n\<bar> * 2 ^ 1074"
    by (simp only: abs_mult nat_mult_distrib abs_ge_zero abs_of_nat nat_int unit_scale_def)
  moreover have "nat \<bar>n\<bar> < 2 * hidden_bit" using assms by (simp add: small_int_def hidden_bit_def)
  ultimately have "sval (round_f64 (n * int unit_scale * int 1) 1) = n * int unit_scale"
    and "is_fin (round_f64 (n * int unit_scale * int 1) 1)"
    using round_f64_exact [of "n * int unit_scale" "nat \<bar>n\<bar>" 1074 1] by simp_all
  then show "sval (f64_of_int n) = n * int unit_scale" and "is_fin (f64_of_int n)"
    by (simp_all add: f64_of_int_def)
qed

lemma f64_of_int_not_nan [simp]: "\<not> is_nan (f64_of_int n)"
  by (simp add: f64_of_int_def)

lemma f64_neg_of_int: "f64_neg (f64_of_int n) = (n < 0)"
  by (simp add: f64_of_int_def round_f64_def mult_less_0_iff)

lemma f64_of_int_zero: "f64_of_int 0 = 0"
  by (simp add: f64_of_int_def round_f64_def mk_f64_def zero_f64_def)

lemma f64_of_int_key: "f64_key (f64_of_int n) = rkey (n * int unit_scale) (Suc 0)"
  by (simp add: f64_of_int_def round_f64_key)

lemma f64_of_int_le_iff [simp]:
  assumes "small_int a" "small_int b"
  shows "f64_of_int a \<le> f64_of_int b \<longleftrightarrow> a \<le> b"
proof -
  have "f64_of_int a \<le> f64_of_int b \<longleftrightarrow> sval (f64_of_int a) \<le> sval (f64_of_int b)"
    by (simp add: f64_le_iff sval_le_iff)
  also have "\<dots> \<longleftrightarrow> a \<le> b" using assms by (simp add: small_int_exact)
  finally show ?thesis .
qed

lemma f64_of_int_less_iff [simp]:
  assumes "small_int a" "small_int b"
  shows "f64_of_int a < f64_of_int b \<longleftrightarrow> a < b"
  using f64_of_int_le_iff [OF assms(2,1)] f64_not_less [of "f64_of_int a" "f64_of_int b"] by auto

lemma f_eq_of_int_iff [simp]:
  assumes "small_int a" "small_int b"
  shows "f_eq (f64_of_int a) (f64_of_int b) \<longleftrightarrow> a = b"
  using f64_of_int_le_iff [OF assms] f64_of_int_le_iff [OF assms(2,1)]
  by (auto simp: f_eq_iff f64_le_iff)

lemma f64_of_int_add [simp]:
  assumes "small_int a" "small_int b"
  shows "f64_of_int a + f64_of_int b = f64_of_int (a + b)"
proof -
  have f: "is_fin (f64_of_int a)" "is_fin (f64_of_int b)" using assms by (simp_all add: small_int_exact)
  have s: "sval (f64_of_int a) + sval (f64_of_int b) = (a + b) * int unit_scale"
    using assms by (simp add: small_int_exact algebra_simps)
  show ?thesis
  proof (cases "a + b = 0")
    case True
    then have "\<not> (a < 0 \<and> b < 0)" by linarith
    then have "f64_of_int a + f64_of_int b = mk_f64 False 0"
      using True f s by (simp only: plus_f64_def is_fin_iff f64_neg_of_int Let_def) simp
    then show ?thesis using True by (simp add: f64_of_int_def round_f64_def)
  next
    case False
    then have "(a + b) * int unit_scale \<noteq> 0" using unit_scale_pos by simp
    then show ?thesis using f s by (simp add: plus_f64_def is_fin_iff f64_of_int_def)
  qed
qed

lemma f64_of_int_uminus: "a \<noteq> 0 \<Longrightarrow> - f64_of_int a = f64_of_int (- a)"
  by (auto simp: f64_of_int_def round_f64_def uminus_f64_def mult_less_0_iff zero_less_mult_iff
    intro: arg_cong [where f = "\<lambda>n. mk_f64 n _"])

lemma plus_zero_sign: "is_fin x \<Longrightarrow> sval x \<noteq> 0 \<or> \<not> f64_neg x \<Longrightarrow> x + mk_f64 True 0 = x + mk_f64 False 0"
  by (auto simp: plus_f64_def is_fin_iff is_inf_def is_nan_def sval_def inf_mag_pos)

lemma f64_of_int_diff [simp]:
  assumes "small_int a" "small_int b"
  shows "f64_of_int a - f64_of_int b = f64_of_int (a - b)"
proof (cases "b = 0")
  case False
  have "small_int (- b)" using assms(2) by (simp add: small_int_def)
  then show ?thesis using assms(1) False by (simp add: minus_f64_def f64_of_int_uminus)
next
  case True
  have z: "f64_of_int 0 = mk_f64 False 0" by (simp add: f64_of_int_def round_f64_def)
  have "- mk_f64 False 0 = mk_f64 True 0" by (simp add: uminus_f64_def)
  moreover have "sval (f64_of_int a) \<noteq> 0 \<or> \<not> f64_neg (f64_of_int a)"
    using assms(1) by (auto simp: small_int_exact f64_neg_of_int)
  ultimately have "f64_of_int a - f64_of_int 0 = f64_of_int a + f64_of_int 0"
    using small_int_exact [OF assms(1)] by (simp add: minus_f64_def z plus_zero_sign)
  then show ?thesis using True assms by simp
qed

lemma f64_of_int_mult [simp]:
  assumes s: "small_int a" "small_int b" "small_int (a * b)" and z: "a = 0 \<or> b = 0 \<longrightarrow> 0 \<le> a \<and> 0 \<le> b"
  shows "f64_of_int a * f64_of_int b = f64_of_int (a * b)"
proof -
  have f: "is_fin (f64_of_int a)" "is_fin (f64_of_int b)" using s by (simp_all add: small_int_exact)
  have v: "mag_val (f64_mag (f64_of_int n)) = nat \<bar>n\<bar> * unit_scale" if "small_int n" for n
    using small_int_exact(1) [OF that] abs_sval [of "f64_of_int n"]
    by (simp only: abs_mult abs_of_nat) (metis nat_int nat_mult_distrib abs_ge_zero)
  have "mag_val (f64_mag (f64_of_int a)) * mag_val (f64_mag (f64_of_int b))
      = mag_val (f64_mag (f64_of_int (a * b))) * unit_scale"
    using v [OF s(1)] v [OF s(2)] v [OF s(3)] by (simp add: abs_mult nat_mult_distrib)
  then have r: "round_mag (mag_val (f64_mag (f64_of_int a)) * mag_val (f64_mag (f64_of_int b))) unit_scale
      = f64_mag (f64_of_int (a * b))"
    using round_mag_exact [OF unit_scale_pos, of "f64_mag (f64_of_int (a * b))"]
      small_int_exact(2) [OF s(3)] by (simp add: is_fin_def)
  have "(a < 0) \<noteq> (b < 0) \<longleftrightarrow> a * b < 0"
    using z by (auto simp: mult_less_0_iff)
  then have "f64_of_int a * f64_of_int b = mk_f64 (a * b < 0) (f64_mag (f64_of_int (a * b)))"
    using f r by (simp add: times_f64_def is_fin_iff f64_neg_of_int)
  also have "\<dots> = f64_of_int (a * b)"
    by (simp add: f64_of_int_def round_f64_def mult_less_0_iff)
  finally show ?thesis .
qed

subsection \<open>Halving an integer\<close>

definition half_scale :: nat where
  "half_scale = 2 ^ 1073"

lemma half_scale_pos [simp]: "0 < half_scale"
  by (simp add: half_scale_def)

lemma unit_scale_half: "unit_scale = 2 * half_scale"
  by (simp add: unit_scale_def half_scale_def)

lemma f64_half_sval:
  assumes s: "small_int n"
  shows "is_fin (f64_of_int n / f64_of_int 2)"
    and "sval (f64_of_int n / f64_of_int 2) = n * int half_scale"
proof -
  have two: "small_int 2" by (simp add: small_int_def)
  have v: "mag_val (f64_mag (f64_of_int k)) = nat \<bar>k\<bar> * unit_scale" if "small_int k" for k
    using small_int_exact(1) [OF that] abs_sval [of "f64_of_int k"]
    by (simp only: abs_mult abs_of_nat) (metis nat_int nat_mult_distrib abs_ge_zero)
  have m2: "f64_mag (f64_of_int 2) \<noteq> 0"
    using v [OF two] by (metis mag_val_0 mult_is_0 unit_scale_nz nat_2 abs_numeral nat_numeral zero_neq_numeral)
  have nn: "nat \<bar>n * int half_scale\<bar> = nat \<bar>n\<bar> * 2 ^ 1073"
    by (simp only: abs_mult nat_mult_distrib abs_ge_zero abs_of_nat nat_int half_scale_def)
  have k: "nat \<bar>n\<bar> < 2 * hidden_bit" using s by (simp add: small_int_def hidden_bit_def)
  let ?r = "round_f64 (n * int half_scale * int 1) 1"
  have ex: "sval ?r = n * int half_scale" "is_fin ?r"
    using round_f64_exact [OF nn k, of 1] by simp_all
  let ?q = "2 * unit_scale"
  have eq: "nat \<bar>n\<bar> * unit_scale * unit_scale = mag_val (f64_mag ?r) * ?q"
  proof -
    have "mag_val (f64_mag ?r) = nat \<bar>n\<bar> * half_scale"
      using ex(1) abs_sval [of ?r]
      by (simp only: abs_mult abs_of_nat) (metis nat_int nat_mult_distrib abs_ge_zero)
    then show ?thesis by (simp add: unit_scale_half)
  qed
  then have r: "round_mag (nat \<bar>n\<bar> * unit_scale * unit_scale) ?q = f64_mag ?r"
    unfolding eq using ex(2) by (intro round_mag_exact) (simp_all add: is_fin_def)
  have f: "is_fin (f64_of_int n)" "is_fin (f64_of_int 2)" using s two by (simp_all add: small_int_exact)
  have "f64_of_int n / f64_of_int 2 = mk_f64 (n < 0) (f64_mag ?r)"
    using f m2 r v [OF s] v [OF two]
    by (simp add: divide_f64_def is_fin_iff f64_neg_of_int)
  moreover have "f64_neg ?r = (n < 0)" by (simp add: round_f64_def mult_less_0_iff)
  ultimately have "f64_of_int n / f64_of_int 2 = mk_f64 (f64_neg ?r) (f64_mag ?r)" by simp
  then show "is_fin (f64_of_int n / f64_of_int 2)"
    and "sval (f64_of_int n / f64_of_int 2) = n * int half_scale"
    using ex by (simp_all add: is_fin_def sval_def split: if_splits)
qed

lemma floor_half:
  assumes "small_int n"
  shows "floor_int (f64_of_int n / f64_of_int 2) = n div 2"
proof -
  have d: "(n * int half_scale) div int unit_scale = n div 2"
    by (simp add: unit_scale_half)
  have "is_i64 (n div 2)" using assms by (auto simp: small_int_def is_i64_def)
  then show ?thesis using f64_half_sval [OF assms] d by (simp add: floor_int_def)
qed

subsection \<open>Zero\<close>

lemma f64_zero_simps [simp]: "f64_key 0 = 0" "\<not> is_nan 0"
  by (simp_all add: zero_f64_def f64_key_def is_nan_def f64_mag_def)

lemma f64_nonneg_iff: "0 \<le> x \<longleftrightarrow> \<not> is_nan x \<and> 0 \<le> f64_key x"
  by (auto simp: less_eq_f64_def)

lemma f64_of_int_nonneg [simp]: "0 \<le> n \<Longrightarrow> 0 \<le> f64_of_int n"
  by (simp add: f64_nonneg_iff f64_of_int_key rkey_pos)

end
