(* ===== verification/BorderTree.thy ===== *)
theory BorderTree
  imports Float64
begin

section \<open>The border tree\<close>

text \<open>
  \<^verbatim>\<open>internal/bordertree/bordertree.go\<close>: polygons with a datum, and the query for one
  that contains a point. The bounding boxes are kept in a quadtree
  (\<^verbatim>\<open>github.com/tidwall/qtree\<close>) and the geometry is \<^verbatim>\<open>github.com/paulmach/orb\<close>; both are
  parameters. A search with a callback is the list of the items it would visit.
\<close>

type_synonym orb_point = "f64 \<times> f64"
type_synonym multi_polygon = "orb_point list list list"

record orb =
  Bound :: "multi_polygon \<Rightarrow> orb_point \<times> orb_point"
  DouglasPeucker :: "multi_polygon \<Rightarrow> multi_polygon"
  MultiPolygonContains :: "multi_polygon \<Rightarrow> orb_point \<Rightarrow> bool"

record 'q qtree =
  qt_new :: 'q
  qt_Insert :: "'q \<Rightarrow> orb_point \<Rightarrow> orb_point \<Rightarrow> u64 \<Rightarrow> 'q"
  qt_Search :: "'q \<Rightarrow> orb_point \<Rightarrow> orb_point \<Rightarrow> u64 list"

record 'd border =
  b_Data :: 'd
  b_Polygon :: multi_polygon

record ('d, 'q) border_tree =
  idCounter :: u64
  borders :: "'d border list"
  qt :: 'q

definition NewBorderTree :: "'q qtree \<Rightarrow> ('d, 'q) border_tree" where
  "NewBorderTree Q = \<lparr>idCounter = 0, borders = [], qt = qt_new Q\<rparr>"

definition InsertBorder :: "orb \<Rightarrow> 'q qtree \<Rightarrow> ('d, 'q) border_tree \<Rightarrow> 'd \<Rightarrow> multi_polygon \<Rightarrow> ('d, 'q) border_tree" where
  "InsertBorder G Q bt data b =
     (let bound = Bound G b in
      \<lparr>idCounter = idCounter bt + 1,
       borders = borders bt @ [\<lparr>b_Data = data, b_Polygon = DouglasPeucker G b\<rparr>],
       qt = qt_Insert Q (qt bt) (fst bound) (snd bound) (idCounter bt)\<rparr>)"

text \<open>The callback of the search: stop at the first border that contains the point.\<close>

fun query_ids :: "orb \<Rightarrow> 'd border list \<Rightarrow> orb_point \<Rightarrow> u64 list \<Rightarrow> 'd option option" where
  "query_ids G bs point [] = Some None"
| "query_ids G bs point (i # ids) =
     (case get bs (uint i) of
        None \<Rightarrow> None
      | Some b \<Rightarrow>
          if MultiPolygonContains G (b_Polygon b) point then Some (Some (b_Data b))
          else query_ids G bs point ids)"

definition QueryPoint :: "orb \<Rightarrow> 'q qtree \<Rightarrow> ('d, 'q) border_tree \<Rightarrow> orb_point \<Rightarrow> 'd option option" where
  "QueryPoint G Q bt point = query_ids G (borders bt) point (qt_Search Q (qt bt) point point)"

definition insert_all :: "orb \<Rightarrow> 'q qtree \<Rightarrow> ('d \<times> multi_polygon) list \<Rightarrow> ('d, 'q) border_tree \<Rightarrow> ('d, 'q) border_tree" where
  "insert_all G Q xs bt = fold (\<lambda>(d, b) bt. InsertBorder G Q bt d b) xs bt"

subsection \<open>The contract of the quadtree\<close>

definition in_rect :: "orb_point \<times> orb_point \<Rightarrow> orb_point \<Rightarrow> bool" where
  "in_rect r p \<longleftrightarrow> fst (fst r) \<le> fst p \<and> fst p \<le> fst (snd r) \<and> snd (fst r) \<le> snd p \<and> snd p \<le> snd (snd r)"

text \<open>\<open>items\<close> are the rectangles a tree holds with their data.\<close>

definition qtree_laws :: "'q qtree \<Rightarrow> ('q \<Rightarrow> ((orb_point \<times> orb_point) \<times> u64) set) \<Rightarrow> bool" where
  "qtree_laws Q items \<longleftrightarrow>
     items (qt_new Q) = {}
     \<and> (\<forall>q mn mx id. items (qt_Insert Q q mn mx id) = insert ((mn, mx), id) (items q))
     \<and> (\<forall>q p. set (qt_Search Q q p p) = {id. \<exists>r. (r, id) \<in> items q \<and> in_rect r p})"

text \<open>A list of rectangles is a quadtree in this sense.\<close>

definition list_qtree :: "((orb_point \<times> orb_point) \<times> u64) list qtree" where
  "list_qtree = \<lparr>qt_new = [], qt_Insert = \<lambda>q mn mx id. ((mn, mx), id) # q,
     qt_Search = \<lambda>q p _. map snd (filter (\<lambda>(r, id). in_rect r p) q)\<rparr>"

lemma list_qtree_laws: "qtree_laws list_qtree set"
  by (force simp: qtree_laws_def list_qtree_def)

subsection \<open>The tree after a sequence of insertions\<close>

definition border_inv :: "orb \<Rightarrow> 'q qtree \<Rightarrow> ('q \<Rightarrow> ((orb_point \<times> orb_point) \<times> u64) set)
    \<Rightarrow> ('d \<times> multi_polygon) list \<Rightarrow> ('d, 'q) border_tree \<Rightarrow> bool" where
  "border_inv G Q items xs bt \<longleftrightarrow>
     idCounter bt = of_nat (length xs)
     \<and> borders bt = map (\<lambda>(d, b). \<lparr>b_Data = d, b_Polygon = DouglasPeucker G b\<rparr>) xs
     \<and> items (qt bt) = (\<lambda>i. (Bound G (snd (xs ! i)), of_nat i)) ` {..<length xs}"

lemma border_inv_new: "qtree_laws Q items \<Longrightarrow> border_inv G Q items [] (NewBorderTree Q)"
  by (simp add: border_inv_def NewBorderTree_def qtree_laws_def)

lemma qtree_insert: "qtree_laws Q items \<Longrightarrow> items (qt_Insert Q q (fst r) (snd r) i) = insert (r, i) (items q)"
  unfolding qtree_laws_def by (metis prod.collapse)

lemma border_inv_insert:
  assumes "qtree_laws Q items" "border_inv G Q items xs bt"
  shows "border_inv G Q items (xs @ [(d, b)]) (InsertBorder G Q bt d b)"
proof -
  have "(\<lambda>i. (Bound G (snd ((xs @ [(d, b)]) ! i)), of_nat i)) ` {..<length xs}
      = (\<lambda>i. (Bound G (snd (xs ! i)), of_nat i :: u64)) ` {..<length xs}"
    by (rule image_cong) (simp_all add: nth_append)
  then show ?thesis using assms by (simp add: border_inv_def InsertBorder_def qtree_insert [OF assms(1)] lessThan_Suc Let_def add.commute)
qed

lemma border_inv_all:
  assumes "qtree_laws Q items" "border_inv G Q items xs bt"
  shows "border_inv G Q items (xs @ ys) (insert_all G Q ys bt)"
  using assms(2)
proof (induction ys arbitrary: xs bt)
  case (Cons y ys)
  obtain d b where y: "y = (d, b)" by (cases y)
  have "border_inv G Q items ((xs @ [(d, b)]) @ ys) (insert_all G Q ys (InsertBorder G Q bt d b))"
    by (rule Cons.IH [OF border_inv_insert [OF assms(1) Cons.prems]])
  then show ?case by (simp add: y insert_all_def)
qed (simp add: insert_all_def)

lemma query_ids_ok:
  assumes "\<forall>id \<in> set ids. unat id < length bs"
  shows "query_ids G bs point ids \<noteq> None"
    and "query_ids G bs point ids = Some (Some d) \<Longrightarrow>
      \<exists>id \<in> set ids. MultiPolygonContains G (b_Polygon (bs ! unat id)) point \<and> b_Data (bs ! unat id) = d"
    and "query_ids G bs point ids = Some None \<Longrightarrow>
      \<forall>id \<in> set ids. \<not> MultiPolygonContains G (b_Polygon (bs ! unat id)) point"
  using assms by (induction ids) (auto split: if_splits)

lemma QueryPoint_answer:
  assumes "qtree_laws Q items" and "length xs < 2 ^ 63" and "bt = insert_all G Q xs (NewBorderTree Q)"
  shows "\<exists>answer. QueryPoint G Q bt p = Some answer
    \<and> (\<forall>d. answer = Some d \<longrightarrow> (\<exists>b. (d, b) \<in> set xs \<and> in_rect (Bound G b) p \<and> MultiPolygonContains G (DouglasPeucker G b) p))
    \<and> (answer = None \<longrightarrow> (\<forall>(d, b) \<in> set xs. \<not> (in_rect (Bound G b) p \<and> MultiPolygonContains G (DouglasPeucker G b) p)))"
proof -
  have inv: "border_inv G Q items xs bt"
    using border_inv_all [OF assms(1) border_inv_new [OF assms(1)], of G xs] assms(3) by simp
  let ?ids = "qt_Search Q (qt bt) p p"
  have n: "unat (of_nat i :: u64) = i" if "i < length xs" for i
    using that assms(2) by (simp add: unat_of_nat)
  have ids: "set ?ids = {of_nat i | i. i < length xs \<and> in_rect (Bound G (snd (xs ! i))) p}"
  proof -
    have "set ?ids = {id. \<exists>r. (r, id) \<in> items (qt bt) \<and> in_rect r p}"
      using assms(1) unfolding qtree_laws_def by blast
    also have "items (qt bt) = (\<lambda>i. (Bound G (snd (xs ! i)), of_nat i)) ` {..<length xs}"
      using inv unfolding border_inv_def by blast
    finally show ?thesis by blast
  qed
  have bs: "borders bt = map (\<lambda>(d, b). \<lparr>b_Data = d, b_Polygon = DouglasPeucker G b\<rparr>) xs"
    using inv by (simp add: border_inv_def)
  have "\<forall>id \<in> set ?ids. unat id < length (borders bt)" using ids n bs by auto
  note Q = query_ids_ok [OF this, of G p]
  obtain answer where a: "QueryPoint G Q bt p = Some answer" using Q(1) by (auto simp: QueryPoint_def)
  have "\<exists>b. (d, b) \<in> set xs \<and> in_rect (Bound G b) p \<and> MultiPolygonContains G (DouglasPeucker G b) p" if found: "answer = Some d" for d
  proof -
    obtain k where k: "k \<in> set ?ids" "MultiPolygonContains G (b_Polygon (borders bt ! unat k)) p"
      "b_Data (borders bt ! unat k) = d"
      using Q(2) [of d] a found unfolding QueryPoint_def by blast
    then obtain i where "k = of_nat i" "i < length xs" "in_rect (Bound G (snd (xs ! i))) p" using ids by blast
    then have "i < length xs" "in_rect (Bound G (snd (xs ! i))) p"
      "MultiPolygonContains G (b_Polygon (borders bt ! i)) p" "b_Data (borders bt ! i) = d"
      using k n [of i] by simp_all
    then show ?thesis
      by (intro exI [of _ "snd (xs ! i)"]) (auto simp: bs in_set_conv_nth split: prod.splits intro!: exI [of _ i])
  qed
  moreover have "\<not> (in_rect (Bound G b) p \<and> MultiPolygonContains G (DouglasPeucker G b) p)"
    if none: "answer = None" and db: "(d, b) \<in> set xs" for d b
  proof
    assume c: "in_rect (Bound G b) p \<and> MultiPolygonContains G (DouglasPeucker G b) p"
    obtain i where i: "i < length xs" "xs ! i = (d, b)" using db by (auto simp: in_set_conv_nth)
    then have "of_nat i \<in> set ?ids" using ids c by auto
    then show False using Q(3) a none c i n by (fastforce simp: QueryPoint_def bs)
  qed
  ultimately show ?thesis using a by blast
qed

text \<open>A border whose simplification loses a point is not found there, although its polygon contains the point.\<close>

lemma simplified_away:
  assumes "qtree_laws Q items" and "MultiPolygonContains G b p" and "\<not> MultiPolygonContains G (DouglasPeucker G b) p"
  shows "QueryPoint G Q (InsertBorder G Q (NewBorderTree Q) d b) p = Some None"
proof -
  obtain answer where A: "QueryPoint G Q (insert_all G Q [(d, b)] (NewBorderTree Q)) p = Some answer"
    "\<forall>d'. answer = Some d' \<longrightarrow> (\<exists>b'. (d', b') \<in> set [(d, b)] \<and> in_rect (Bound G b') p \<and> MultiPolygonContains G (DouglasPeucker G b') p)"
    using QueryPoint_answer [OF assms(1) _ refl, of "[(d, b)]" G p] by auto
  have "answer = None" using A(2) assms(3) by (cases answer) simp_all
  then show ?thesis using A(1) by (simp add: insert_all_def)
qed

subsection \<open>Properties\<close>

text \<open>
  The tree answers with the simplified polygon. \<open>alike\<close> says of a point that the box and the
  simplified polygon decide about it as the polygon that was inserted.
\<close>

definition alike :: "orb \<Rightarrow> orb_point \<Rightarrow> multi_polygon \<Rightarrow> bool" where
  "alike G p b \<longleftrightarrow> (in_rect (Bound G b) p \<and> MultiPolygonContains G (DouglasPeucker G b) p \<longleftrightarrow> MultiPolygonContains G b p)"

text \<open>
  C20. After any sequence of insertions a query never fails: it answers with the datum of an
  inserted border whose bounding box and simplified polygon (\<^verbatim>\<open>DouglasPeucker(0.01)\<close>) contain the
  point, and answers that there is none only if no inserted border does. That is the answer
  for the polygons themselves at every point about which the simplified ones decide alike.
  \<^verbatim>\<open>FuzzSimpleBoundCheck\<close> of \<^verbatim>\<open>bordertree_test.go\<close> demands the answer of the polygon itself of a
  tree of one border: it is met at exactly these points, and at no point that the
  simplification moves out of the polygon or into it.
\<close>

theorem QueryPoint_finds_border:
  assumes "qtree_laws Q items" and "length xs < 2 ^ 63" and "bt = insert_all G Q xs (NewBorderTree Q)"
  shows "\<exists>answer. QueryPoint G Q bt p = Some answer
    \<and> (\<forall>d. answer = Some d \<longrightarrow> (\<exists>b. (d, b) \<in> set xs \<and> in_rect (Bound G b) p \<and> MultiPolygonContains G (DouglasPeucker G b) p))
    \<and> (answer = None \<longrightarrow> (\<forall>(d, b) \<in> set xs. \<not> (in_rect (Bound G b) p \<and> MultiPolygonContains G (DouglasPeucker G b) p)))
    \<and> ((\<forall>(d, b) \<in> set xs. alike G p b) \<longrightarrow>
        (\<forall>d. answer = Some d \<longrightarrow> (\<exists>b. (d, b) \<in> set xs \<and> MultiPolygonContains G b p))
        \<and> (answer = None \<longrightarrow> (\<forall>(d, b) \<in> set xs. \<not> MultiPolygonContains G b p)))
    \<and> (\<forall>d b. xs = [(d, b)] \<longrightarrow> ((answer = Some d \<longleftrightarrow> MultiPolygonContains G b p) \<longleftrightarrow> alike G p b))"
proof -
  obtain answer where A: "QueryPoint G Q bt p = Some answer"
    "\<forall>d. answer = Some d \<longrightarrow> (\<exists>b. (d, b) \<in> set xs \<and> in_rect (Bound G b) p \<and> MultiPolygonContains G (DouglasPeucker G b) p)"
    "answer = None \<longrightarrow> (\<forall>(d, b) \<in> set xs. \<not> (in_rect (Bound G b) p \<and> MultiPolygonContains G (DouglasPeucker G b) p))"
    using QueryPoint_answer [OF assms, of p] by blast
  have "answer = Some d \<longleftrightarrow> in_rect (Bound G b) p \<and> MultiPolygonContains G (DouglasPeucker G b) p" if "xs = [(d, b)]" for d b
    using A(2,3) that by (cases answer) auto
  then have "\<forall>d b. xs = [(d, b)] \<longrightarrow> ((answer = Some d \<longleftrightarrow> MultiPolygonContains G b p) \<longleftrightarrow> alike G p b)"
    unfolding alike_def by blast
  moreover have "(\<forall>d. answer = Some d \<longrightarrow> (\<exists>b. (d, b) \<in> set xs \<and> MultiPolygonContains G b p))
      \<and> (answer = None \<longrightarrow> (\<forall>(d, b) \<in> set xs. \<not> MultiPolygonContains G b p))" if "\<forall>(d, b) \<in> set xs. alike G p b"
    using A(2,3) that unfolding alike_def by blast
  ultimately show ?thesis using A by blast
qed

definition sample_orb :: orb where
  "sample_orb = \<lparr>Bound = \<lambda>m. (m ! 0 ! 0 ! 0, m ! 0 ! 0 ! 1), DouglasPeucker = \<lambda>m. m, MultiPolygonContains = \<lambda>_ _. True\<rparr>"

definition sample_borders :: "(string \<times> multi_polygon) list" where
  "sample_borders = [(''a'', [[[(f64_of_int 0, f64_of_int 0), (f64_of_int 2, f64_of_int 2)]]]),
     (''b'', [[[(f64_of_int 5, f64_of_int 5), (f64_of_int 9, f64_of_int 9)]]])]"

lemma sample_in_rect:
  "(d, b) \<in> set sample_borders \<Longrightarrow> in_rect (Bound sample_orb b) (f64_of_int 6, f64_of_int 7) \<longleftrightarrow> d = ''b''"
  "(''b'', [[[(f64_of_int 5, f64_of_int 5), (f64_of_int 9, f64_of_int 9)]]]) \<in> set sample_borders"
  by (auto simp: sample_borders_def sample_orb_def in_rect_def small_int_def)

lemma QueryPoint_finds_border_witness:
  "QueryPoint sample_orb list_qtree (insert_all sample_orb list_qtree sample_borders (NewBorderTree list_qtree))
     (f64_of_int 6, f64_of_int 7) = Some (Some ''b'')"
proof -
  have "length sample_borders < 2 ^ 63" by (simp add: sample_borders_def)
  from QueryPoint_finds_border [OF list_qtree_laws this refl, of sample_orb "(f64_of_int 6, f64_of_int 7)"]
  obtain answer where A: "QueryPoint sample_orb list_qtree (insert_all sample_orb list_qtree sample_borders (NewBorderTree list_qtree))
      (f64_of_int 6, f64_of_int 7) = Some answer"
    "\<forall>d. answer = Some d \<longrightarrow> (\<exists>b. (d, b) \<in> set sample_borders \<and> in_rect (Bound sample_orb b) (f64_of_int 6, f64_of_int 7)
       \<and> MultiPolygonContains sample_orb (DouglasPeucker sample_orb b) (f64_of_int 6, f64_of_int 7))"
    "answer = None \<longrightarrow> (\<forall>(d, b) \<in> set sample_borders. \<not> (in_rect (Bound sample_orb b) (f64_of_int 6, f64_of_int 7)
       \<and> MultiPolygonContains sample_orb (DouglasPeucker sample_orb b) (f64_of_int 6, f64_of_int 7)))"
    by (elim exE conjE)
  have "answer \<noteq> None"
    using A(3) sample_in_rect(2) sample_in_rect(1) [OF sample_in_rect(2)] by (auto simp: sample_orb_def)
  then show ?thesis using A(1,2) sample_in_rect(1) by blast
qed

end
