(* ===== verification/Float32.thy ===== *)
theory Float32
  imports Float64
begin

section \<open>Go's float32 and the conversions from and to float64\<close>

text \<open>
  A \<open>float32\<close> is its bit pattern. The cache files keep zone polygons as \<open>float32\<close>:
  \<open>float32(x)\<close> rounds to nearest with ties to even and overflows to infinity,
  \<open>float64(y)\<close> is exact. Both make one NaN of every NaN; Go leaves its payload open.
\<close>

datatype f32 = F32 (f32_bits: u32)

definition f32_neg :: "f32 \<Rightarrow> bool" where
  "f32_neg y \<longleftrightarrow> 2 ^ 31 \<le> unat (f32_bits y)"

definition f32_mag :: "f32 \<Rightarrow> nat" where
  "f32_mag y = unat (f32_bits y) mod 2 ^ 31"

definition inf32_mag :: nat where
  "inf32_mag = 255 * 2 ^ 23"

definition mk_f32 :: "bool \<Rightarrow> nat \<Rightarrow> f32" where
  "mk_f32 neg mag = F32 (of_nat (mag + (if neg then 2 ^ 31 else 0)))"

definition is_nan32 :: "f32 \<Rightarrow> bool" where
  "is_nan32 y \<longleftrightarrow> inf32_mag < f32_mag y"

text \<open>The smallest \<open>float32\<close> is \<open>2 ^ 925\<close> times the smallest \<open>float64\<close>.\<close>

definition scale32 :: nat where
  "scale32 = 2 ^ 925"

definition mag32_of :: "nat \<Rightarrow> nat" where
  "mag32_of a = fround 23 inf32_mag (mag_val a) scale32"

definition mag64_of :: "nat \<Rightarrow> nat" where
  "mag64_of m = (if m = inf32_mag then inf_mag else round_mag (fval 23 m * scale32) 1)"

definition float32 :: "f64 \<Rightarrow> f32" where
  "float32 x = (if is_nan x then F32 0x7FC00000 else mk_f32 (f64_neg x) (mag32_of (f64_mag x)))"

definition float64 :: "f32 \<Rightarrow> f64" where
  "float64 y = (if is_nan32 y then nan64 else mk_f64 (f32_neg y) (mag64_of (f32_mag y)))"

subsection \<open>Exactness and rounding\<close>

lemma unat_mk_f32: "mag < 2 ^ 31 \<Longrightarrow> unat (f32_bits (mk_f32 neg mag)) = mag + (if neg then 2 ^ 31 else 0)"
proof -
  assume a: "mag < 2 ^ 31"
  then have "mag + (if neg then 2 ^ 31 else 0) < 2 ^ 32" by simp
  then have "unat (of_nat (mag + (if neg then 2 ^ 31 else 0)) :: u32) = mag + (if neg then 2 ^ 31 else 0)"
    by (simp only: unat_of_nat take_bit_eq_mod) simp
  then show ?thesis by (simp only: mk_f32_def f32.sel)
qed

lemma mk_f32_parts [simp]:
  assumes "mag \<le> inf32_mag"
  shows "f32_mag (mk_f32 neg mag) = mag" and "f32_neg (mk_f32 neg mag) = neg"
proof -
  have "mag < 2 ^ 31" using assms by (simp add: inf32_mag_def)
  then show "f32_mag (mk_f32 neg mag) = mag" "f32_neg (mk_f32 neg mag) = neg"
    using unat_mk_f32 [of mag neg] by (auto simp: f32_mag_def f32_neg_def)
qed

lemma mk_f32_collapse: "mk_f32 (f32_neg y) (f32_mag y) = y"
proof -
  have lt: "unat (f32_bits y) < 2 ^ 32" by (rule order_less_le_trans [OF unsigned_less]) simp
  have "f32_mag y + (if f32_neg y then 2 ^ 31 else 0) = unat (f32_bits y)"
    using lt by (auto simp: f32_mag_def f32_neg_def mod_if)
  then show ?thesis by (simp add: mk_f32_def)
qed

lemma mag32_of_le [simp]: "mag32_of a \<le> inf32_mag"
  by (simp add: mag32_of_def)

lemma scale32_pos [simp]: "0 < scale32"
  by (simp add: scale32_def)

lemma fval23_inf: "fval 23 inf32_mag = 2 ^ 277"
  using fval_parts [of 0 23 255] by (simp add: inf32_mag_def hidden_def)

lemma mag_val_mag64_of:
  assumes "m < inf32_mag"
  shows "mag_val (mag64_of m) = fval 23 m * scale32" and "mag64_of m \<le> inf_mag"
proof -
  have "\<exists>k e. fval 23 m = k * 2 ^ e \<and> k < 2 ^ 24"
  proof (cases "m < hidden 23")
    case True
    then show ?thesis by (intro exI [of _ m] exI [of _ 0]) (simp add: fval_def hidden_def)
  next
    case False
    then show ?thesis
      by (intro exI [of _ "hidden 23 + m mod hidden 23"] exI [of _ "m div hidden 23 - 1"]) (simp add: fval_def hidden_def)
  qed
  then obtain k e where k: "fval 23 m = k * 2 ^ e" "k < 2 ^ 24" by blast
  have "fval 23 m * scale32 = k * 2 ^ (e + 925)" by (simp only: k scale32_def power_add mult.assoc)
  moreover have "k < 2 * hidden_bit" using k(2) by (simp add: hidden_bit_def)
  ultimately obtain b where b: "mag_val b = fval 23 m * scale32" using mag_val_repr by metis
  have "fval 23 m < 2 ^ 277" using fval_less [OF assms, of 23] by (simp only: fval23_inf)
  then have "fval 23 m * scale32 \<le> 2 ^ 277 * scale32" by simp
  also have "\<dots> = 2 ^ (277 + 925)" by (simp only: scale32_def power_add)
  also have "\<dots> \<le> (2::nat) ^ (52 + 2046)" by (rule power_increasing) simp_all
  also have "\<dots> = mag_val inf_mag" by (simp only: mag_val_inf hidden_bit_def power_add)
  finally have "b \<le> inf_mag" using b mag_val_le_iff by metis
  then have "round_mag (mag_val b * 1) 1 = b" by (intro round_mag_exact) simp_all
  then have "mag64_of m = b" using assms b by (simp add: mag64_of_def)
  then show "mag_val (mag64_of m) = fval 23 m * scale32" "mag64_of m \<le> inf_mag" using b \<open>b \<le> inf_mag\<close> by simp_all
qed

lemma mag64_of_le [simp]: "m \<le> inf32_mag \<Longrightarrow> mag64_of m \<le> inf_mag"
  using mag_val_mag64_of(2) [of m] by (cases "m = inf32_mag") (auto simp: mag64_of_def)

lemma mag32_of_mono: "a \<le> b \<Longrightarrow> mag32_of a \<le> mag32_of b"
  unfolding mag32_of_def by (rule fround_mono) (simp_all add: mag_val_le_iff)

lemma mag32_of_mag64_of:
  assumes "m \<le> inf32_mag"
  shows "mag32_of (mag64_of m) = m"
proof (cases "m = inf32_mag")
  case False
  then show ?thesis
    using assms mag_val_mag64_of(1) [of m] fround_exact [of scale32 m inf32_mag 23] by (simp add: mag32_of_def)
next
  case True
  have "fval 23 inf32_mag * scale32 = 2 ^ (277 + 925)" by (simp only: fval23_inf scale32_def power_add)
  also have "\<dots> \<le> (2::nat) ^ (52 + 2046)" by (rule power_increasing) simp_all
  also have "\<dots> = mag_val inf_mag" by (simp only: mag_val_inf hidden_bit_def power_add)
  finally have "fround 23 inf32_mag (fval 23 inf32_mag * scale32) scale32 \<le> mag32_of inf_mag"
    unfolding mag32_of_def by (intro fround_mono) simp_all
  then have "inf32_mag \<le> mag32_of inf_mag" using fround_exact [of scale32 inf32_mag inf32_mag 23] by simp
  then show ?thesis using True by (simp add: mag64_of_def le_antisym)
qed

lemma mag64_of_mono:
  assumes "m \<le> n" "n \<le> inf32_mag"
  shows "mag64_of m \<le> mag64_of n"
proof (cases "n = inf32_mag")
  case True
  then show ?thesis using assms mag64_of_le [of m] by (simp add: mag64_of_def)
next
  case False
  then have "mag_val (mag64_of m) \<le> mag_val (mag64_of n)"
    using assms by (simp add: mag_val_mag64_of fval_le_iff)
  then show ?thesis by (simp only: mag_val_le_iff)
qed

lemma mag_0 [simp]: "mag64_of 0 = 0" "mag32_of 0 = 0"
proof -
  have z: "fval 23 0 = 0" by (simp add: fval_def hidden_def)
  then show "mag64_of 0 = 0" by (simp add: mag64_of_def inf32_mag_def)
  show "mag32_of 0 = 0" using mag32_of_mag64_of [of 0] \<open>mag64_of 0 = 0\<close> by simp
qed

text \<open>Widening is exact: converting back gives the same bits.\<close>

lemma float32_float64: "\<not> is_nan32 y \<Longrightarrow> float32 (float64 y) = y"
  by (simp add: float32_def float64_def is_nan32_def mag32_of_mag64_of mk_f32_collapse)

lemma is_nan32_float32: "is_nan32 (float32 x) = is_nan x"
proof -
  have "is_nan32 (F32 0x7FC00000)" by (simp add: is_nan32_def f32_mag_def inf32_mag_def)
  then show ?thesis by (simp add: float32_def is_nan32_def not_less)
qed

text \<open>What a coordinate is after it was stored as a \<open>float32\<close>.\<close>

definition stored32 :: "f64 \<Rightarrow> f64" where
  "stored32 x = float64 (float32 x)"

lemma stored32_nan [simp]: "is_nan (stored32 x) = is_nan x"
  using is_nan32_float32 [of x] by (auto simp: stored32_def float64_def is_nan32_def not_less)

lemma stored32_idem: "stored32 (stored32 x) = stored32 x"
proof (cases "is_nan x")
  case True
  then have "stored32 x = nan64" "stored32 nan64 = nan64"
    using is_nan32_float32 [of x] is_nan32_float32 [of nan64] by (simp_all add: stored32_def float64_def)
  then show ?thesis by simp
next
  case False
  then show ?thesis using float32_float64 [of "float32 x"] is_nan32_float32 [of x] by (simp add: stored32_def)
qed

lemma stored32_key:
  assumes "\<not> is_nan x"
  shows "f64_key (stored32 x) = (if f64_neg x then - int (mag64_of (mag32_of (f64_mag x))) else int (mag64_of (mag32_of (f64_mag x))))"
proof -
  have "\<not> is_nan32 (mk_f32 (f64_neg x) (mag32_of (f64_mag x)))" by (simp add: is_nan32_def not_less)
  then show ?thesis using assms by (simp add: stored32_def float32_def float64_def)
qed

lemma stored32_mono:
  assumes "x \<le> y"
  shows "stored32 x \<le> stored32 y"
proof -
  have n: "\<not> is_nan x" "\<not> is_nan y" and k: "f64_key x \<le> f64_key y" using assms by (simp_all add: less_eq_f64_def)
  have m: "mag64_of (mag32_of a) \<le> mag64_of (mag32_of b)" if "a \<le> b" for a b
    using that by (simp add: mag64_of_mono mag32_of_mono)
  have "f64_key (stored32 x) \<le> f64_key (stored32 y)"
  proof (cases "f64_neg x \<noteq> f64_neg y")
    case True
    then have "f64_neg x \<or> f64_mag x = 0 \<and> f64_mag y = 0" using k by (auto simp: f64_key_def split: if_splits)
    then show ?thesis using True n by (auto simp: stored32_key)
  next
    case False
    then have "if f64_neg x then f64_mag y \<le> f64_mag x else f64_mag x \<le> f64_mag y"
      using k by (simp add: f64_key_def split: if_splits)
    then show ?thesis using False m n by (simp add: stored32_key split: if_splits)
  qed
  then show ?thesis using n by (simp add: less_eq_f64_def)
qed

end
