(* ===== verification/Binary.thy ===== *)
theory Binary
  imports Prelude
begin

section \<open>Bytes, errors, readers and writers\<close>

text \<open>
  Little-endian integers (\<^verbatim>\<open>encoding/binary\<close>'s \<open>LittleEndian\<close>), Go's \<open>error\<close> values, an
  \<open>io.Writer\<close> and a memory-mapped file. A writer and a reader are parameters of the code
  that uses them; \<open>writer_ok\<close> and \<open>reads_file\<close> state their documented behaviour.
\<close>

subsection \<open>Little-endian integers\<close>

fun put_le :: "nat \<Rightarrow> nat \<Rightarrow> byte list" where
  "put_le 0 x = []"
| "put_le (Suc n) x = of_nat (x mod 256) # put_le n (x div 256)"

fun get_le :: "byte list \<Rightarrow> nat" where
  "get_le [] = 0"
| "get_le (b # bs) = unat b + 256 * get_le bs"

definition put_u32 :: "u32 \<Rightarrow> byte list" where
  "put_u32 w = put_le 4 (unat w)"

definition put_u64 :: "u64 \<Rightarrow> byte list" where
  "put_u64 w = put_le 8 (unat w)"

text \<open>\<open>Uint32\<close> and \<open>Uint64\<close> panic on a slice that is too short.\<close>

definition Uint32 :: "byte list \<Rightarrow> u32 option" where
  "Uint32 bs = (if length bs < 4 then None else Some (of_nat (get_le (take 4 bs))))"

definition Uint64 :: "byte list \<Rightarrow> u64 option" where
  "Uint64 bs = (if length bs < 8 then None else Some (of_nat (get_le (take 8 bs))))"

lemma length_put_le [simp]: "length (put_le n x) = n"
  by (induction n arbitrary: x) auto

lemma length_put [simp]: "length (put_u32 w) = 4" "length (put_u64 v) = 8"
  by (simp_all add: put_u32_def put_u64_def)

lemma get_put_le: "get_le (put_le n x) = x mod 256 ^ n"
proof (induction n arbitrary: x)
  case (Suc n)
  have "unat (of_nat (x mod 256) :: byte) = x mod 256"
    by (simp add: unat_of_nat)
  then show ?case using Suc by (simp add: mod_mult2_eq)
qed simp

lemma Uint32_put [simp]: "Uint32 (put_u32 w @ bs) = Some w"
proof -
  have "unat w < 256 ^ 4" by (rule order_less_le_trans [OF unsigned_less]) simp
  then show ?thesis by (simp add: Uint32_def put_u32_def get_put_le)
qed

lemma Uint64_put [simp]: "Uint64 (put_u64 w @ bs) = Some w"
proof -
  have "unat w < 256 ^ 8" by (rule order_less_le_trans [OF unsigned_less]) simp
  then show ?thesis by (simp add: Uint64_def put_u64_def get_put_le)
qed

lemmas Uint_put_exact [simp] = Uint32_put [where bs = "[]", simplified] Uint64_put [where bs = "[]", simplified]

lemma sint_u64 [simp]: "sint (word_of_int x :: u64) = i64 x"
  by (simp add: int_word_sint i64_def)

subsection \<open>Errors\<close>

text \<open>An error is a message, or a message that wraps another error (\<open>%w\<close>).\<close>

datatype error = Err string | Wrap string error

type_synonym 'a result = "error + 'a"

definition wrap_err :: "string \<Rightarrow> 'a result \<Rightarrow> 'a result" where
  "wrap_err msg x = (case x of Inl e \<Rightarrow> Inl (Wrap msg e) | Inr v \<Rightarrow> Inr v)"

definition bind_result :: "'a result \<Rightarrow> ('a \<Rightarrow> 'b result) \<Rightarrow> 'b result" where
  "bind_result x f = (case x of Inl e \<Rightarrow> Inl e | Inr v \<Rightarrow> f v)"

subsection \<open>Writers\<close>

text \<open>\<open>Write\<close> returns how many bytes it took and an error or none.\<close>

type_synonym 'w writer = "byte list \<Rightarrow> 'w \<Rightarrow> (int \<times> error option) \<times> 'w"

definition writer_ok :: "'w writer \<Rightarrow> ('w \<Rightarrow> byte list) \<Rightarrow> bool" where
  "writer_ok w out \<longleftrightarrow>
     (\<forall>buf s. fst (w buf s) = (int (length buf), None) \<and> out (snd (w buf s)) = out s @ buf)"

lemma writer_okD:
  "writer_ok w out \<Longrightarrow> \<exists>s'. w buf s = ((int (length buf), None), s') \<and> out s' = out s @ buf"
  unfolding writer_ok_def by (metis prod.collapse)

text \<open>A byte buffer is such a writer.\<close>

definition buffer_write :: "byte list writer" where
  "buffer_write buf s = ((int (length buf), None), s @ buf)"

lemma buffer_write_ok: "writer_ok buffer_write (\<lambda>s. s)"
  by (simp add: writer_ok_def buffer_write_def)

subsection \<open>Memory-mapped files\<close>

text \<open>
  \<open>ReadAt(buf, off)\<close> with \<open>len(buf) = n\<close>: the bytes it stored at the front of the buffer,
  and an error or none. \<open>fill n\<close> is the zeroed buffer afterwards.
\<close>

type_synonym reader = "int \<Rightarrow> nat \<Rightarrow> byte list \<times> error option"

definition fill :: "nat \<Rightarrow> byte list \<Rightarrow> byte list" where
  "fill n bs = take n (bs @ replicate n 0)"

definition read_full :: "reader \<Rightarrow> int \<Rightarrow> nat \<Rightarrow> byte list result" where
  "read_full r off n = (case r off n of (bs, Some e) \<Rightarrow> Inl e | (bs, None) \<Rightarrow> Inr (fill n bs))"

text \<open>
  The contract of \<open>io.ReaderAt\<close> on a file: a range that lies in the file is read in full
  without an error, one that runs past its end gives what there is and an error.
\<close>

definition reads_file :: "reader \<Rightarrow> byte list \<Rightarrow> bool" where
  "reads_file r file \<longleftrightarrow>
     (\<forall>off n. 0 \<le> off \<and> off + int n \<le> int (length file)
        \<longrightarrow> r off n = (take n (drop (nat off) file), None))
     \<and> (\<forall>off n. 0 \<le> off \<and> off \<le> int (length file) \<and> int (length file) < off + int n
        \<longrightarrow> fst (r off n) = drop (nat off) file \<and> snd (r off n) \<noteq> None)"

definition file_reader :: "byte list \<Rightarrow> reader" where
  "file_reader file off n =
     (if off < 0 \<or> int (length file) < off then ([], Some (Err ''invalid offset''))
      else let bs = take n (drop (nat off) file) in
        (bs, if length bs < n then Some (Err ''EOF'') else None))"

lemma file_reader_ok: "reads_file (file_reader file) file"
  by (auto simp: reads_file_def file_reader_def Let_def)

lemma length_fill [simp]: "length (fill n bs) = n"
  by (simp add: fill_def)

lemma fill_exact [simp]: "length bs = n \<Longrightarrow> fill n bs = bs"
  by (simp add: fill_def)

lemma read_full_file:
  assumes "reads_file r file" "0 \<le> off" "off + int n \<le> int (length file)"
  shows "read_full r off n = Inr (take n (drop (nat off) file))"
proof -
  have "r off n = (take n (drop (nat off) file), None)" using assms by (simp add: reads_file_def)
  moreover have "length (take n (drop (nat off) file)) = n" using assms by (simp add: min_def) linarith
  ultimately show ?thesis by (simp add: read_full_def)
qed

lemma read_full_at:
  assumes "reads_file r file" "file = pre @ mid @ post" "off = int (length pre)" "n = length mid"
  shows "read_full r off n = Inr mid"
  using read_full_file [OF assms(1), of off n] assms(2-4) by simp

end
