(* ===== verification/StringTable.thy ===== *)
theory StringTable
  imports Binary
begin

section \<open>String tables\<close>

text \<open>
  Both cache formats store every string once. \<^verbatim>\<open>cachesaver/save/v1/dedupemap.go\<close> numbers
  strings with an \<^verbatim>\<open>int\<close>, \<^verbatim>\<open>cachesaver/save/v2/strings.go\<close> with a \<^verbatim>\<open>uint32\<close>, and writes
  the v2 table as an index of offsets into a block of NUL-terminated strings that
  \<open>readStrByID\<close> (\<^verbatim>\<open>save/v2/load.go\<close>) reads. A Go map is the list of its entries, the
  newest first; the order in which a loop visits it is a parameter.
\<close>

type_synonym gostring = "byte list"

subsection \<open>The v1 map\<close>

record unique_map =
  um_m :: "(gostring \<times> int) list"
  um_i :: int

definition newUniqueMap :: unique_map where
  "newUniqueMap = \<lparr>um_m = [([], 0)], um_i = 0\<rparr>"

definition um_Add :: "gostring \<Rightarrow> unique_map \<Rightarrow> int \<times> unique_map" where
  "um_Add val uq =
     (case map_of (um_m uq) val of
        None \<Rightarrow> (let i = i64 (um_i uq + 1) in (i, \<lparr>um_m = (val, i) # um_m uq, um_i = i\<rparr>))
      | Some i \<Rightarrow> (i, uq))"

definition um_Get :: "unique_map \<Rightarrow> gostring \<Rightarrow> int" where
  "um_Get uq val = (case map_of (um_m uq) val of Some i \<Rightarrow> i | None \<Rightarrow> - 1)"

definition um_Slice :: "(gostring \<times> int) list \<Rightarrow> unique_map \<Rightarrow> gostring list option" where
  "um_Slice order uq = for_each (\<lambda>(v, i) s. put s i v) order (replicate (nat (um_i uq + 1)) [])"

subsection \<open>The v2 map\<close>

record dedup_map =
  dm_m :: "(gostring \<times> u32) list"
  nextID :: u32

definition newDedupMap :: dedup_map where
  "newDedupMap = \<lparr>dm_m = [([], 0)], nextID = 1\<rparr>"

definition dm_Add :: "gostring \<Rightarrow> dedup_map \<Rightarrow> u32 \<times> dedup_map" where
  "dm_Add val d =
     (case map_of (dm_m d) val of
        Some i \<Rightarrow> (i, d)
      | None \<Rightarrow> (nextID d, \<lparr>dm_m = (val, nextID d) # dm_m d, nextID = nextID d + 1\<rparr>))"

definition dm_Len :: "dedup_map \<Rightarrow> nat" where
  "dm_Len d = length (dm_m d)"

text \<open>The five fields of \<open>stringsDedup\<close> are the same pointer, so the struct is that one map.\<close>

type_synonym strings_dedup = dedup_map

definition newStringsDedup :: strings_dedup where
  "newStringsDedup = newDedupMap"

subsection \<open>The v2 string block\<close>

fun string_offsets :: "gostring list \<Rightarrow> u32 \<Rightarrow> u32 list \<times> u32" where
  "string_offsets [] pos = ([], pos)"
| "string_offsets (s # ss) pos =
     (let (offsets, end_pos) = string_offsets ss (pos + (of_nat (length s) + 1)) in (pos # offsets, end_pos))"

text \<open>\<open>copy(buf[off:], s)\<close>, and a slice expression \<open>buf[lo:hi]\<close>.\<close>

definition copy_at :: "byte list \<Rightarrow> nat \<Rightarrow> byte list \<Rightarrow> byte list option" where
  "copy_at buf off s =
     (if off \<le> length buf then Some (take off buf @ take (length buf - off) s @ drop (off + length s) buf) else None)"

definition slice :: "'a list \<Rightarrow> nat \<Rightarrow> nat \<Rightarrow> 'a list option" where
  "slice xs lo hi = (if lo \<le> hi \<and> hi \<le> length xs then Some (take (hi - lo) (drop lo xs)) else None)"

definition place_string :: "gostring \<times> u32 \<Rightarrow> byte list \<Rightarrow> byte list option" where
  "place_string = (\<lambda>(s, off) buf. do {
     buf \<leftarrow> copy_at buf (unat off) s;
     put buf (uint (off + of_nat (length s))) 0
   })"

definition buildStringIndex :: "(gostring \<times> u32) list \<Rightarrow> strings_dedup \<Rightarrow> (u32 list \<times> byte list) option" where
  "buildStringIndex order dedup = do {
     byID \<leftarrow> for_each (\<lambda>(s, i) a. put a (uint i) s) order (replicate (dm_Len dedup) []);
     let (offsetIndex, pos) = string_offsets byID 0;
     dataBlock \<leftarrow> for_each place_string (zip byID offsetIndex) (replicate (unat pos) 0);
     Some (offsetIndex, dataBlock)
   }"

definition IndexByte :: "byte list \<Rightarrow> byte \<Rightarrow> nat option" where
  "IndexByte bs c = (let k = length (takeWhile (\<lambda>b. b \<noteq> c) bs) in if k < length bs then Some k else None)"

definition readStrByID :: "u32 list \<Rightarrow> byte list \<Rightarrow> u32 \<Rightarrow> gostring option" where
  "readStrByID index dataBlock sid =
     (if sid = 0 then Some []
      else
        (case get index (uint sid) of
           None \<Rightarrow> None
         | Some start \<Rightarrow>
             if length dataBlock \<le> unat start then Some []
             else
               (case IndexByte (drop (unat start) dataBlock) 0 of
                  None \<Rightarrow> Some (drop (unat start) dataBlock)
                | Some e \<Rightarrow> slice dataBlock (unat start) (unat (start + of_nat e)))))"

subsection \<open>What both maps promise\<close>

text \<open>
  \<open>ok n m\<close>: the map is well formed and there is room for \<open>n\<close> more strings. Strings are
  numbered in the order of their first insertion, and a string keeps its number.
\<close>

locale interner =
  fixes entries :: "'m \<Rightarrow> (gostring \<times> 'i) list"
    and add :: "gostring \<Rightarrow> 'm \<Rightarrow> 'i \<times> 'm"
    and idx :: "'i \<Rightarrow> int"
    and ok :: "nat \<Rightarrow> 'm \<Rightarrow> bool"
  assumes numbered: "ok n m \<Longrightarrow> map (\<lambda>e. idx (snd e)) (rev (entries m)) = map int [0..<length (entries m)]"
    and keys: "ok n m \<Longrightarrow> distinct (map fst (entries m))"
    and ok_less: "ok (Suc n) m \<Longrightarrow> ok n m"
    and hit: "ok n m \<Longrightarrow> map_of (entries m) s = Some i \<Longrightarrow> add s m = (i, m)"
    and miss: "ok (Suc n) m \<Longrightarrow> map_of (entries m) s = None \<Longrightarrow>
      \<exists>i m'. add s m = (i, m') \<and> entries m' = (s, i) # entries m \<and> ok n m'"
begin

definition names :: "'m \<Rightarrow> gostring list" where
  "names m = map fst (rev (entries m))"

lemma length_names [simp]: "length (names m) = length (entries m)"
  by (simp add: names_def)

lemma ok_mono: "ok n m \<Longrightarrow> k \<le> n \<Longrightarrow> ok k m"
  by (induction n) (auto simp: le_Suc_eq dest: ok_less)

lemma rev_entry:
  assumes "ok n m" "k < length (entries m)"
  shows "rev (entries m) ! k = (names m ! k, snd (rev (entries m) ! k))" and "idx (snd (rev (entries m) ! k)) = int k"
proof -
  show "rev (entries m) ! k = (names m ! k, snd (rev (entries m) ! k))" using assms(2) by (simp add: names_def prod_eq_iff)
  have "map (\<lambda>e. idx (snd e)) (rev (entries m)) ! k = map int [0..<length (entries m)] ! k"
    using numbered [OF assms(1)] by simp
  then show "idx (snd (rev (entries m) ! k)) = int k" using assms(2) by simp
qed

lemma entry_name:
  assumes "ok n m" "(s, i) \<in> set (entries m)"
  shows "0 \<le> idx i" "idx i < int (length (entries m))" "names m ! nat (idx i) = s"
proof -
  obtain k where k: "k < length (entries m)" "rev (entries m) ! k = (s, i)"
    using assms(2) by (metis in_set_conv_nth length_rev set_rev)
  then show "0 \<le> idx i" "idx i < int (length (entries m))" "names m ! nat (idx i) = s"
    using rev_entry [OF assms(1) k(1)] by auto
qed

lemma lookup_name:
  assumes "ok n m" "map_of (entries m) s = Some i"
  shows "0 \<le> idx i" "idx i < int (length (entries m))" "names m ! nat (idx i) = s"
  using entry_name [OF assms(1) map_of_SomeD [OF assms(2)]] by blast+

lemma add_ok:
  assumes "ok (Suc n) m" "add s m = (i, m')"
  shows "ok n m'" and "map_of (entries m') s = Some i" and "map_of (entries m) \<subseteq>\<^sub>m map_of (entries m')"
    and "set (names m') = insert s (set (names m))"
proof -
  have "ok n m' \<and> map_of (entries m') s = Some i \<and> map_of (entries m) \<subseteq>\<^sub>m map_of (entries m')
      \<and> set (names m') = insert s (set (names m))"
  proof (cases "map_of (entries m) s")
    case None
    then obtain j m'' where j: "add s m = (j, m'')" "entries m'' = (s, j) # entries m" "ok n m''"
      using miss [OF assms(1)] by blast
    then show ?thesis using assms(2) None by (auto simp: names_def map_le_def)
  next
    case (Some j)
    then have "add s m = (j, m)" using hit assms(1) by blast
    moreover have "s \<in> set (names m)" using map_of_SomeD [OF Some] by (auto simp: names_def image_iff intro: rev_bexI)
    ultimately show ?thesis using assms Some ok_less by auto
  qed
  then show "ok n m'" "map_of (entries m') s = Some i" "map_of (entries m) \<subseteq>\<^sub>m map_of (entries m')"
    "set (names m') = insert s (set (names m))" by blast+
qed

lemma add_known:
  assumes "ok n m" "s \<in> set (names m)"
  obtains i where "add s m = (i, m)" "map_of (entries m) s = Some i"
proof -
  have "s \<in> fst ` set (entries m)" using assms(2) by (simp add: names_def)
  then obtain i where "map_of (entries m) s = Some i" by (metis domD dom_map_of_conv_image_fst)
  then show ?thesis using that hit [OF assms(1)] by blast
qed

lemma add_all_ok:
  assumes "ok (length ss + n) m"
  shows "ok n (fold (\<lambda>s m. snd (add s m)) ss m)"
    and "set (names (fold (\<lambda>s m. snd (add s m)) ss m)) = set ss \<union> set (names m)"
    and "map_of (entries m) \<subseteq>\<^sub>m map_of (entries (fold (\<lambda>s m. snd (add s m)) ss m))"
  using assms
proof (induction ss arbitrary: m)
  case (Cons s ss)
  case 1
  then show ?case using Cons.IH(1) add_ok(1) [of "length ss + n" m s] by (simp add: prod_eq_iff)
next
  case (Cons s ss)
  case 2
  then show ?case using Cons.IH(2) add_ok(1,4) [of "length ss + n" m s "fst (add s m)" "snd (add s m)"] by simp
next
  case (Cons s ss)
  case 3
  then show ?case using Cons.IH(3) add_ok(1,3) [of "length ss + n" m s "fst (add s m)" "snd (add s m)"]
    by (simp add: map_le_trans)
qed simp_all

text \<open>A loop over the map in any order fills the table of names.\<close>

lemma put_entries:
  assumes "distinct (map fst kvs)" "\<forall>(i, v) \<in> set kvs. i < length a"
  shows "for_each (\<lambda>(i, v) a. put a (int i) v) kvs a = Some (map (\<lambda>i. case map_of kvs i of Some v \<Rightarrow> v | None \<Rightarrow> a ! i) [0..<length a])"
  using assms
proof (induction kvs arbitrary: a)
  case Nil
  show ?case by (simp add: map_nth)
next
  case (Cons kv kvs)
  obtain i v where kv: "kv = (i, v)" by (cases kv)
  have "map_of kvs i = None" using Cons.prems(1) kv by (simp add: map_of_eq_None_iff)
  then show ?case using Cons kv by (auto intro!: map_cong split: option.splits)
qed

lemma nat_entries:
  assumes "\<forall>(s, i) \<in> set order. 0 \<le> idx i"
  shows "for_each (\<lambda>(s, i) a. put a (idx i) s) order a
    = for_each (\<lambda>(i, v) a. put a (int i) v) (map (\<lambda>(s, i). (nat (idx i), s)) order) a"
  using assms by (induction order arbitrary: a) (auto split: option.splits)

lemma fill_names:
  assumes "ok n m" "mset order = mset (entries m)"
  shows "for_each (\<lambda>(s, i) a. put a (idx i) s) order (replicate (length (entries m)) []) = Some (names m)"
proof -
  let ?kvs = "map (\<lambda>(s, i). (nat (idx i), s)) order"
  have in_order: "(s, i) \<in> set order \<longleftrightarrow> (s, i) \<in> set (entries m)" for s i
    using assms(2) by (metis set_mset_mset)
  have "mset (map (\<lambda>(s, i). nat (idx i)) order) = mset (map (\<lambda>(s, i). nat (idx i)) (entries m))"
    using assms(2) by (metis mset_map)
  moreover have "distinct (map (\<lambda>(s, i). nat (idx i)) (entries m))"
  proof -
    have "map nat (map (\<lambda>e. idx (snd e)) (rev (entries m))) = [0..<length (entries m)]"
      unfolding numbered [OF assms(1)] by (simp add: comp_def)
    then have "distinct (rev (map (\<lambda>(s, i). nat (idx i)) (entries m)))"
      by (simp add: rev_map comp_def split_def)
    then show ?thesis by simp
  qed
  ultimately have d: "distinct (map fst ?kvs)"
    using mset_eq_imp_distinct_iff by (fastforce simp: comp_def split_def)
  have loop: "for_each (\<lambda>(s, i) a. put a (idx i) s) order a = for_each (\<lambda>(i, v) a. put a (int i) v) ?kvs a" for a
    by (rule nat_entries) (use in_order entry_name(1) [OF assms(1)] in blast)
  have bound: "\<forall>(i, v) \<in> set ?kvs. i < length (replicate (length (entries m)) ([]::gostring))"
    using entry_name(1,2) [OF assms(1)] in_order by fastforce
  have at: "map_of ?kvs k = Some (names m ! k)" if k: "k < length (entries m)" for k
  proof -
    have "(names m ! k, snd (rev (entries m) ! k)) \<in> set order"
      using in_order rev_entry(1) [OF assms(1) k] k by (metis length_rev nth_mem set_rev)
    then have "(k, names m ! k) \<in> set ?kvs" using rev_entry(2) [OF assms(1) k] by force
    then show ?thesis using d by simp
  qed
  show ?thesis unfolding loop put_entries [OF d bound] using at by (auto intro!: nth_equalityI)
qed

end

definition um_ok :: "nat \<Rightarrow> unique_map \<Rightarrow> bool" where
  "um_ok n uq \<longleftrightarrow> map snd (rev (um_m uq)) = map int [0..<length (um_m uq)] \<and> distinct (map fst (um_m uq))
     \<and> um_i uq = int (length (um_m uq)) - 1 \<and> length (um_m uq) + n \<le> 2 ^ 63"

definition dm_ok :: "nat \<Rightarrow> dedup_map \<Rightarrow> bool" where
  "dm_ok n d \<longleftrightarrow> map (\<lambda>e. uint (snd e)) (rev (dm_m d)) = map int [0..<length (dm_m d)] \<and> distinct (map fst (dm_m d))
     \<and> nextID d = of_nat (length (dm_m d)) \<and> length (dm_m d) + n \<le> 2 ^ 32"

lemma um_miss:
  assumes "um_ok (Suc n) m" "map_of (um_m m) s = None"
  shows "\<exists>i m'. um_Add s m = (i, m') \<and> um_m m' = (s, i) # um_m m \<and> um_ok n m'"
proof -
  have i: "i64 (um_i m + 1) = int (length (um_m m))"
    using assms(1) by (simp add: um_ok_def i64_def)
  then have "um_Add s m = (int (length (um_m m)), \<lparr>um_m = (s, int (length (um_m m))) # um_m m, um_i = int (length (um_m m))\<rparr>)"
    using assms(2) by (simp add: um_Add_def Let_def)
  moreover have "um_ok n \<lparr>um_m = (s, int (length (um_m m))) # um_m m, um_i = int (length (um_m m))\<rparr>"
    using assms by (simp add: um_ok_def map_of_eq_None_iff)
  ultimately show ?thesis by auto
qed

interpretation um: interner um_m um_Add "\<lambda>i. i" um_ok
  by unfold_locales (use um_miss in \<open>auto simp: um_ok_def um_Add_def\<close>)

lemma dm_miss:
  assumes "dm_ok (Suc n) m" "map_of (dm_m m) s = None"
  shows "\<exists>i m'. dm_Add s m = (i, m') \<and> dm_m m' = (s, i) # dm_m m \<and> dm_ok n m'"
proof -
  have "dm_Add s m = (nextID m, \<lparr>dm_m = (s, nextID m) # dm_m m, nextID = nextID m + 1\<rparr>)"
    using assms(2) by (simp add: dm_Add_def)
  moreover have "dm_ok n \<lparr>dm_m = (s, nextID m) # dm_m m, nextID = nextID m + 1\<rparr>"
  proof -
    have "uint (nextID m) = int (length (dm_m m))"
      using assms(1) by (simp add: dm_ok_def unsigned_of_nat take_bit_eq_mod)
    then show ?thesis using assms by (simp add: dm_ok_def map_of_eq_None_iff)
  qed
  ultimately show ?thesis by auto
qed

interpretation dm: interner dm_m dm_Add uint dm_ok
  by unfold_locales (use dm_miss in \<open>auto simp: dm_ok_def dm_Add_def\<close>)

lemma um_ok_new: "n < 2 ^ 63 \<Longrightarrow> um_ok n newUniqueMap"
  by (simp add: um_ok_def newUniqueMap_def)

lemma dm_ok_new: "n < 2 ^ 32 \<Longrightarrow> dm_ok n newDedupMap"
  by (simp add: dm_ok_def newDedupMap_def)

subsection \<open>The string block\<close>

definition nul_block :: "gostring list \<Rightarrow> byte list" where
  "nul_block ss = concat (map (\<lambda>s. s @ [0]) ss)"

lemma nul_block_simps [simp]:
  "nul_block [] = []" "nul_block (s # ss) = s @ 0 # nul_block ss" "nul_block (ss @ ts) = nul_block ss @ nul_block ts"
  by (simp_all add: nul_block_def)

definition nul_offset :: "gostring list \<Rightarrow> nat \<Rightarrow> nat" where
  "nul_offset ss k = length (nul_block (take k ss))"

lemma string_offsets_block:
  "string_offsets ss (of_nat n) = (map (\<lambda>k. of_nat (n + nul_offset ss k)) [0..<length ss], of_nat (n + length (nul_block ss)))"
proof (induction ss arbitrary: n)
  case (Cons s ss)
  have "of_nat n + (of_nat (length s) + 1) = (of_nat (n + length s + 1) :: u32)" by simp
  then have "string_offsets (s # ss) (of_nat n)
      = (of_nat n # map (\<lambda>k. of_nat (n + length s + 1 + nul_offset ss k)) [0..<length ss],
         of_nat (n + length s + 1 + length (nul_block ss)))"
    by (simp only: string_offsets.simps Cons.IH prod.case Let_def)
  moreover have "map (\<lambda>k. of_nat (n + nul_offset (s # ss) k) :: u32) [0..<length (s # ss)]
      = of_nat n # map (\<lambda>k. of_nat (n + length s + 1 + nul_offset ss k)) [0..<length ss]"
    by (simp add: map_upt_Suc nul_offset_def add.assoc del: upt_Suc)
  ultimately show ?case by (simp add: add.assoc)
qed simp

lemma place_string_at:
  assumes "length pre + length s < 2 ^ 32"
  shows "place_string (s, of_nat (length pre)) (pre @ replicate (Suc (length s + r)) 0) = Some (pre @ s @ 0 # replicate r 0)"
proof -
  have u: "unat (of_nat (length pre) :: u32) = length pre" "uint (of_nat (length pre) + of_nat (length s) :: u32) = int (length pre + length s)"
    using assms by (simp_all add: unat_of_nat take_bit_eq_mod unsigned_of_nat flip: of_nat_add)
  have "copy_at (pre @ replicate (Suc (length s + r)) 0) (length pre) s = Some (pre @ s @ replicate (Suc r) 0)"
    by (simp add: copy_at_def del: replicate_Suc)
  moreover have "put ((pre @ s) @ 0 # replicate r 0) (int (length (pre @ s))) 0 = Some ((pre @ s) @ 0 # replicate r 0)"
    by (simp only: put_def nat_int list_update_append length_append) simp
  ultimately show ?thesis unfolding place_string_def prod.case by (simp only: u length_append) simp
qed

lemma place_all:
  assumes "length pre + length (nul_block ss) < 2 ^ 32"
  shows "for_each place_string (zip ss (fst (string_offsets ss (of_nat (length pre))))) (pre @ replicate (length (nul_block ss)) 0)
    = Some (pre @ nul_block ss)"
  using assms
proof (induction ss arbitrary: pre)
  case (Cons s ss)
  have "of_nat (length pre) + (of_nat (length s) + 1) = (of_nat (length (pre @ s @ [0])) :: u32)" by simp
  then have o: "fst (string_offsets (s # ss) (of_nat (length pre)))
      = of_nat (length pre) # fst (string_offsets ss (of_nat (length (pre @ s @ [0]))))"
    by (simp only: string_offsets.simps split_def Let_def fst_conv)
  have "length pre + length s < 2 ^ 32" "length (pre @ s @ [0]) + length (nul_block ss) < 2 ^ 32"
    using Cons.prems by simp_all
  then show ?case using Cons.IH [of "pre @ s @ [0]"] place_string_at [of pre s "length (nul_block ss)"]
    unfolding o by (simp del: of_nat_add of_nat_Suc)
qed simp

lemma drop_nul_offset: "k < length ss \<Longrightarrow> drop (nul_offset ss k) (nul_block ss) = ss ! k @ 0 # nul_block (drop (Suc k) ss)"
proof -
  assume k: "k < length ss"
  have "nul_block ss = nul_block (take k ss) @ nul_block (drop k ss)"
    by (simp flip: nul_block_simps(3))
  moreover have "nul_block (drop k ss) = ss ! k @ 0 # nul_block (drop (Suc k) ss)"
    using k by (simp flip: Cons_nth_drop_Suc)
  ultimately show ?thesis by (simp add: nul_offset_def)
qed

lemma IndexByte_nul: "IndexByte (s @ 0 # rest) 0 = Some (length (takeWhile (\<lambda>b. b \<noteq> 0) s))"
proof -
  have "takeWhile (\<lambda>b. b \<noteq> (0::byte)) (s @ 0 # rest) = takeWhile (\<lambda>b. b \<noteq> 0) s" by (induction s) auto
  moreover have "length (takeWhile (\<lambda>b. b \<noteq> 0) s) \<le> length s" by (rule length_takeWhile_le)
  ultimately show ?thesis by (simp add: IndexByte_def Let_def)
qed

lemma take_until_nul: "take (length (takeWhile P s)) s = takeWhile P s"
  by (induction s) auto

lemma nul_offset_less:
  assumes "k < length ss"
  shows "nul_offset ss k + length (ss ! k) < length (nul_block ss)"
proof -
  have "length (nul_block ss) - nul_offset ss k = Suc (length (ss ! k) + length (nul_block (drop (Suc k) ss)))"
    using arg_cong [OF drop_nul_offset [OF assms], of length] by simp
  then show ?thesis by linarith
qed

text \<open>The offsets and the block of a list of strings, and what is read from them.\<close>

definition string_block :: "gostring list \<Rightarrow> u32 list \<times> byte list" where
  "string_block ss = (map (\<lambda>k. of_nat (nul_offset ss k)) [0..<length ss], nul_block ss)"

lemma readStrByID_block:
  assumes "string_block ss = (index, data)" "length data < 2 ^ 32" "unat i < length ss" "ss ! 0 = []"
  shows "readStrByID index data i = Some (takeWhile (\<lambda>b. b \<noteq> 0) (ss ! unat i))"
proof (cases "i = 0")
  case False
  let ?off = "nul_offset ss (unat i)" and ?n = "length (takeWhile (\<lambda>b. b \<noteq> 0) (ss ! unat i))"
  have data: "data = nul_block ss" and idx: "get index (uint i) = Some (of_nat ?off)"
    using assms by (auto simp: string_block_def)
  have n: "?n \<le> length (ss ! unat i)" by (rule length_takeWhile_le)
  have lt: "?off + length (ss ! unat i) < length data" using nul_offset_less [OF assms(3)] data by simp
  have u: "unat (of_nat ?off :: u32) = ?off" "unat (of_nat ?off + of_nat ?n :: u32) = ?off + ?n"
    using lt n assms(2) by (simp_all add: unat_of_nat take_bit_eq_mod flip: of_nat_add)
  have d: "drop ?off data = ss ! unat i @ 0 # nul_block (drop (Suc (unat i)) ss)"
    using drop_nul_offset [OF assms(3)] data by simp
  show ?thesis using False lt n
    by (simp add: readStrByID_def idx u d IndexByte_nul slice_def take_until_nul)
qed (use assms(4) in \<open>simp add: readStrByID_def\<close>)

lemma first_name:
  assumes "dm_ok n m" "map_of (dm_m newDedupMap) \<subseteq>\<^sub>m map_of (dm_m m)"
  shows "dm.names m ! 0 = []"
proof -
  have "map_of (dm_m m) [] = Some 0" using assms(2) by (simp add: newDedupMap_def map_le_def)
  then show ?thesis using dm.lookup_name(3) [OF assms(1)] by fastforce
qed

lemma buildStringIndex_block:
  assumes "dm_ok n m" "mset order = mset (dm_m m)" "length (nul_block (dm.names m)) < 2 ^ 32"
  shows "buildStringIndex order m = Some (string_block (dm.names m))"
proof -
  have "for_each (\<lambda>(s, i) a. put a (uint i) s) order (replicate (dm_Len m) []) = Some (dm.names m)"
    unfolding dm_Len_def by (rule dm.fill_names [OF assms(1,2)])
  then show ?thesis
    using place_all [of "[]" "dm.names m"] string_offsets_block [of "dm.names m" 0] assms(3)
    by (simp add: buildStringIndex_def string_block_def unat_of_nat take_bit_eq_mod)
qed

subsection \<open>Properties\<close>

text \<open>
  C24. After any strings were registered in a new v2 map, the string block that is built from
  it, in whatever order the map is visited, gives every string back under its number, up to
  its first NUL byte: a string that contains a NUL comes back truncated. Different strings
  have different numbers, and asking again for a number does not change the map.
\<close>

theorem strings_read_back:
  assumes "m = fold (\<lambda>s m. snd (dm_Add s m)) ss newStringsDedup" and "length ss + 1 < 2 ^ 32"
    and "mset order = mset (dm_m m)" and "sum_list (map (\<lambda>(s, i). length s + 1) (dm_m m)) < 2 ^ 32"
    and "s \<in> set ss"
  shows "\<exists>index data i. buildStringIndex order m = Some (index, data) \<and> dm_Add s m = (i, m)
    \<and> readStrByID index data i = Some (takeWhile (\<lambda>b. b \<noteq> 0) s)
    \<and> (\<forall>t \<in> set ss. fst (dm_Add t m) = i \<longrightarrow> t = s)"
proof -
  have ok0: "dm_ok (length ss + 0) newDedupMap" using assms(2) by (intro dm_ok_new) simp
  note all = dm.add_all_ok [OF ok0]
  have m: "dm_ok 0 m" "set (dm.names m) = set ss \<union> set (dm.names newDedupMap)"
    "map_of (dm_m newDedupMap) \<subseteq>\<^sub>m map_of (dm_m m)"
    using all assms(1) by (simp_all add: newStringsDedup_def)
  have size: "length (nul_block (dm.names m)) < 2 ^ 32"
  proof -
    have "length (nul_block (map fst (rev kvs))) = sum_list (map (\<lambda>(s, i). length s + 1) kvs)" for kvs :: "(gostring \<times> u32) list"
      by (induction kvs) auto
    then show ?thesis using assms(4) by (simp add: dm.names_def)
  qed
  have known: "\<exists>i. dm_Add t m = (i, m) \<and> unat i < length (dm.names m) \<and> dm.names m ! unat i = t" if t: "t \<in> set ss" for t
  proof -
    have "t \<in> set (dm.names m)" using m(2) t by blast
    then obtain i where i: "dm_Add t m = (i, m)" "map_of (dm_m m) t = Some i"
      by (rule dm.add_known [OF m(1)])
    note at = dm.lookup_name [OF m(1) i(2)]
    have "nat (uint i) < length (dm_m m)" using at(1,2) by linarith
    then show ?thesis using i(1) at(3) by (intro exI [of _ i]) (simp only: nat_uint_eq dm.length_names simp_thms)
  qed
  obtain i where i: "dm_Add s m = (i, m)" "unat i < length (dm.names m)" "dm.names m ! unat i = s"
    using known [OF assms(5)] by blast
  obtain index data where block: "string_block (dm.names m) = (index, data)" by fastforce
  then have "length data < 2 ^ 32" using size by (simp add: string_block_def split: prod.splits)
  then have "readStrByID index data i = Some (takeWhile (\<lambda>b. b \<noteq> 0) s)"
    using readStrByID_block [OF block _ i(2) first_name [OF m(1,3)]] i(3) by simp
  moreover have "buildStringIndex order m = Some (index, data)"
    using buildStringIndex_block [OF m(1) assms(3) size] block by simp
  moreover have "\<forall>t \<in> set ss. fst (dm_Add t m) = i \<longrightarrow> t = s" using known i(3) by fastforce
  ultimately show ?thesis using i(1) by blast
qed

definition sample_strings :: "gostring list" where
  "sample_strings = [[65, 66], [], [67, 0, 68], [65, 66]]"

lemma sample_table:
  "fold (\<lambda>s m. snd (dm_Add s m)) sample_strings newStringsDedup
     = \<lparr>dm_m = [([67, 0, 68], 2), ([65, 66], 1), ([], 0)], nextID = 3\<rparr>"
  by (simp add: sample_strings_def dm_Add_def newStringsDedup_def newDedupMap_def)

lemma strings_read_back_witness:
  "\<exists>index data i. buildStringIndex [([], 0), ([67, 0, 68], 2), ([65, 66], 1)] \<lparr>dm_m = [([67, 0, 68], 2), ([65, 66], 1), ([], 0)], nextID = 3\<rparr>
       = Some (index, data)
     \<and> dm_Add [67, 0, 68] \<lparr>dm_m = [([67, 0, 68], 2), ([65, 66], 1), ([], 0)], nextID = 3\<rparr>
       = (i, \<lparr>dm_m = [([67, 0, 68], 2), ([65, 66], 1), ([], 0)], nextID = 3\<rparr>)
     \<and> readStrByID index data i = Some [67]"
  using strings_read_back [OF sample_table [symmetric], of "[([], 0), ([67, 0, 68], 2), ([65, 66], 1)]" "[67, 0, 68]"]
  by (auto simp: sample_strings_def)

text \<open>
  The v1 table: after any strings were added to a new map, \<open>Slice\<close>, in whatever order the
  map is visited, is a table in which every added string stands at the number that \<open>Add\<close> and
  \<open>Get\<close> give for it, and the empty string stands at 0; \<open>Get\<close> of any other string is -1.
\<close>

theorem v1_table_indexes:
  assumes "m = fold (\<lambda>s m. snd (um_Add s m)) ss newUniqueMap" and "length ss < 2 ^ 63"
    and "mset order = mset (um_m m)"
  shows "\<exists>table. um_Slice order m = Some table
    \<and> (\<forall>s \<in> insert [] (set ss). um_Add s m = (um_Get m s, m) \<and> get table (um_Get m s) = Some s)
    \<and> um_Get m [] = 0 \<and> (\<forall>s. s \<noteq> [] \<longrightarrow> s \<notin> set ss \<longrightarrow> um_Get m s = - 1)"
proof -
  have ok0: "um_ok (length ss + 0) newUniqueMap" using assms(2) by (intro um_ok_new) simp
  have m: "um_ok 0 m" "set (um.names m) = insert [] (set ss)" "map_of (um_m newUniqueMap) \<subseteq>\<^sub>m map_of (um_m m)"
    using um.add_all_ok [OF ok0] assms(1) by (simp_all add: newUniqueMap_def um.names_def)
  have "nat (um_i m + 1) = length (um_m m)" using m(1) by (simp add: um_ok_def)
  then have "um_Slice order m = Some (um.names m)"
    using um.fill_names [OF m(1) assms(3)] by (simp add: um_Slice_def)
  have known: "um_Add s m = (um_Get m s, m) \<and> get (um.names m) (um_Get m s) = Some s" if s: "s \<in> insert [] (set ss)" for s
  proof -
    have "s \<in> set (um.names m)" using m(2) s by blast
    then obtain i where i: "um_Add s m = (i, m)" "map_of (um_m m) s = Some i"
      by (rule um.add_known [OF m(1)])
    moreover have "um_Get m s = i" using i(2) by (simp add: um_Get_def)
    ultimately show ?thesis using um.lookup_name [OF m(1) i(2)] by (simp add: get_def)
  qed
  have "map_of (um_m m) [] = Some 0" using m(3) by (simp add: newUniqueMap_def map_le_def)
  moreover have "map_of (um_m m) s = None" if "s \<noteq> []" "s \<notin> set ss" for s
  proof -
    have "s \<notin> set (um.names m)" using m(2) that by blast
    then show ?thesis by (simp add: um.names_def map_of_eq_None_iff)
  qed
  ultimately have "um_Get m [] = 0" "\<And>s. s \<noteq> [] \<Longrightarrow> s \<notin> set ss \<Longrightarrow> um_Get m s = - 1"
    by (simp_all add: um_Get_def)
  with \<open>um_Slice order m = _\<close> known show ?thesis by blast
qed

lemma v1_table_indexes_witness:
  "\<exists>table. um_Slice [([66], 2), ([], 0), ([65], 1)] (fold (\<lambda>s m. snd (um_Add s m)) [[65], [], [66], [65]] newUniqueMap) = Some table
     \<and> get table (um_Get (fold (\<lambda>s m. snd (um_Add s m)) [[65], [], [66], [65]] newUniqueMap) [66]) = Some [66]"
proof -
  have "mset [([66], 2), ([], 0), ([65], 1)] = mset (um_m (fold (\<lambda>s m. snd (um_Add s m)) [[65], [], [66], [65]] newUniqueMap))"
    by (simp add: um_Add_def newUniqueMap_def Let_def i64_def)
  then show ?thesis using v1_table_indexes [OF refl, of "[[65], [], [66], [65]]" "[([66], 2), ([], 0), ([65], 1)]"] by auto
qed

end
