(* ===== verification/Stream.thy ===== *)
theory Stream
  imports StringTable
begin

section \<open>Sequential readers and messages\<close>

text \<open>
  An \<open>io.Reader\<close> is what its successive calls of \<open>Read\<close> will deliver: chunks of bytes, of
  any lengths, and the error after the last one (\<open>io.EOF\<close> at the end of a file). A decoder's
  chunks need not have the lengths the caller asks for, so \<open>Read\<close> may return less than was
  asked; \<open>io.ReadFull\<close> and \<open>io.CopyN\<close> go on until they have enough.

  A protobuf message type is a pair of functions, \<open>proto.Marshal\<close> and \<open>proto.Unmarshal\<close>, and
  a calendar formats and parses a \<open>time.Time\<close>; both are parameters of the code.
\<close>

record stream =
  st_chunks :: "byte list list"
  st_end :: error

definition EOF :: error where
  "EOF = Err ''EOF''"

definition ErrUnexpectedEOF :: error where
  "ErrUnexpectedEOF = Err ''unexpected EOF''"

definition bytes_of :: "stream \<Rightarrow> byte list" where
  "bytes_of st = concat (st_chunks st)"

definition Read :: "nat \<Rightarrow> stream \<Rightarrow> (byte list \<times> error option) \<times> stream" where
  "Read n st =
     (case st_chunks st of
        [] \<Rightarrow> (([], Some (st_end st)), st)
      | c # cs \<Rightarrow> ((take n c, None), st\<lparr>st_chunks := (if length c \<le> n then cs else drop n c # cs)\<rparr>))"

fun read_chunks :: "nat \<Rightarrow> byte list list \<Rightarrow> byte list \<times> byte list list" where
  "read_chunks n [] = ([], [])"
| "read_chunks n (c # cs) =
     (if n = 0 then ([], c # cs)
      else if length c \<le> n then (let (bs, rest) = read_chunks (n - length c) cs in (c @ bs, rest))
      else (take n c, drop n c # cs))"

definition ReadFull :: "nat \<Rightarrow> stream \<Rightarrow> byte list result \<times> stream" where
  "ReadFull n st =
     (let (bs, rest) = read_chunks n (st_chunks st) in
      (if length bs = n then Inr bs
       else Inl (if bs \<noteq> [] \<and> st_end st = EOF then ErrUnexpectedEOF else st_end st),
       st\<lparr>st_chunks := rest\<rparr>))"

definition CopyN_discard :: "int \<Rightarrow> stream \<Rightarrow> error option \<times> stream" where
  "CopyN_discard n st =
     (let (bs, rest) = read_chunks (nat n) (st_chunks st) in
      (if int (length bs) < n then Some (st_end st) else None, st\<lparr>st_chunks := rest\<rparr>))"

text \<open>A failed read ends the function that called it, with a message around the error.\<close>

definition read_step :: "string \<Rightarrow> 'a result \<times> 's \<Rightarrow> ('a \<Rightarrow> 's \<Rightarrow> ('b result \<times> 's) option) \<Rightarrow> ('b result \<times> 's) option" where
  "read_step msg r f = (case r of (Inl e, s) \<Rightarrow> Some (Inl (Wrap msg e), s) | (Inr v, s) \<Rightarrow> f v s)"

lemma read_step_simps [simp]:
  "read_step msg (Inr v, s) f = f v s" "read_step msg (Inl e, s) f = Some (Inl (Wrap msg e), s)"
  by (simp_all add: read_step_def)

lemma wrap_err_simps [simp]: "wrap_err msg (Inr v) = Inr v" "wrap_err msg (Inl e) = Inl (Wrap msg e)"
  by (simp_all add: wrap_err_def)

text \<open>
  \<open>make\<close> panics on a negative length and, on amd64, on more than \<open>2 ^ 48\<close> bytes.
\<close>

definition make_ok :: "int \<Rightarrow> int \<Rightarrow> bool" where
  "make_ok n sz \<longleftrightarrow> 0 \<le> n \<and> n * sz \<le> 2 ^ 48"

text \<open>Only the bytes matter to \<open>ReadFull\<close>, not how they are cut into chunks.\<close>

lemma read_chunks_bytes:
  "fst (read_chunks n cs) = take n (concat cs) \<and> concat (snd (read_chunks n cs)) = drop n (concat cs)"
proof (induction n cs rule: read_chunks.induct)
  case (2 n c cs)
  then show ?case by (auto simp: split_def Let_def)
qed simp

definition stream_at :: "byte list \<Rightarrow> stream \<Rightarrow> bool" where
  "stream_at bs st \<longleftrightarrow> bytes_of st = bs"

lemma ReadFull_at:
  assumes "stream_at (bs @ rest) st" "length bs = n"
  obtains st' where "ReadFull n st = (Inr bs, st')" "stream_at rest st'" "st_end st' = st_end st"
proof -
  have "fst (read_chunks n (st_chunks st)) = bs" "concat (snd (read_chunks n (st_chunks st))) = rest"
    using read_chunks_bytes [of n "st_chunks st"] assms by (simp_all add: stream_at_def bytes_of_def)
  then show thesis using that assms(2)
    by (simp add: ReadFull_def split_def Let_def stream_at_def bytes_of_def)
qed

lemma ReadFull_short:
  assumes "length (bytes_of st) < n"
  obtains e st' where "ReadFull n st = (Inl e, st')"
  using read_chunks_bytes [of n "st_chunks st"] assms that
  by (simp add: ReadFull_def split_def Let_def bytes_of_def)

lemma CopyN_at:
  assumes "stream_at (bs @ rest) st" "int (length bs) = n"
  obtains st' where "CopyN_discard n st = (None, st')" "stream_at rest st'" "st_end st' = st_end st"
proof -
  have "fst (read_chunks (nat n) (st_chunks st)) = bs" "concat (snd (read_chunks (nat n) (st_chunks st))) = rest"
    using read_chunks_bytes [of "nat n" "st_chunks st"] assms by (auto simp: stream_at_def bytes_of_def)
  then show thesis using that assms(2)
    by (simp add: CopyN_discard_def split_def Let_def stream_at_def bytes_of_def)
qed

subsection \<open>Messages and times\<close>

record 'm proto =
  Marshal :: "'m \<Rightarrow> byte list result"
  Unmarshal :: "byte list \<Rightarrow> 'm result"

definition proto_ok :: "'m proto \<Rightarrow> bool" where
  "proto_ok P \<longleftrightarrow> (\<forall>m bs. Marshal P m = Inr bs \<longrightarrow> Unmarshal P bs = Inr m)"

lemma proto_okD: "proto_ok P \<Longrightarrow> Marshal P m = Inr bs \<Longrightarrow> Unmarshal P bs = Inr m"
  by (simp add: proto_ok_def)

text \<open>A codec for a given list of messages is one: a message is its position.\<close>

definition table_proto :: "'m list \<Rightarrow> 'm proto" where
  "table_proto ms =
     \<lparr>Marshal = \<lambda>m. (let k = length (takeWhile (\<lambda>x. x \<noteq> m) ms) in
          if k < length ms then Inr (put_le 1 k) else Inl (Err ''unknown message'')),
      Unmarshal = \<lambda>bs. (if get_le bs < length ms then Inr (ms ! get_le bs) else Inl (Err ''bad encoding''))\<rparr>"

lemma table_proto_ok: "length ms \<le> 256 \<Longrightarrow> proto_ok (table_proto ms)"
proof -
  assume small: "length ms \<le> 256"
  have "ms ! length (takeWhile (\<lambda>x. x \<noteq> m) ms) = m" if "length (takeWhile (\<lambda>x. x \<noteq> m) ms) < length ms" for m
    using nth_length_takeWhile [OF that] by simp
  then show ?thesis using small
    by (auto simp: proto_ok_def table_proto_def Let_def unat_of_nat split: if_splits)
qed

text \<open>\<open>readProto\<close> and \<open>readToProto\<close>: a message of a given sz.\<close>

definition readProto :: "'m proto \<Rightarrow> u32 \<Rightarrow> stream \<Rightarrow> 'm result \<times> stream" where
  "readProto P sz st =
     (case ReadFull (unat sz) st of
        (Inl e, st) \<Rightarrow> (Inl e, st)
      | (Inr buf, st) \<Rightarrow> (Unmarshal P buf, st))"

lemma readProto_at:
  assumes "proto_ok P" "Marshal P m = Inr bs" "stream_at (bs @ rest) st" "unat sz = length bs"
  obtains st' where "readProto P sz st = (Inr m, st')" "stream_at rest st'" "st_end st' = st_end st"
proof (rule ReadFull_at [OF assms(3) refl])
  fix st' assume a: "ReadFull (length bs) st = (Inr bs, st')" "stream_at rest st'" "st_end st' = st_end st"
  then show thesis using that proto_okD [OF assms(1,2)] assms(4) by (simp add: readProto_def)
qed

record 't calendar =
  FormatRFC3339 :: "'t \<Rightarrow> gostring"
  ParseRFC3339 :: "gostring \<Rightarrow> 't result"

text \<open>
  \<open>time.Parse\<close> reads what \<open>Format\<close> wrote, but the layout has no fractions of a second: the time
  that is read may differ from the one that was written. It is the same for whole seconds.
\<close>

definition reads_time :: "'t calendar \<Rightarrow> 't \<Rightarrow> 't \<Rightarrow> bool" where
  "reads_time T t t' \<longleftrightarrow> ParseRFC3339 T (FormatRFC3339 T t) = Inr t'"

definition readable_time :: "'t calendar \<Rightarrow> 't \<Rightarrow> bool" where
  "readable_time T t \<longleftrightarrow> \<not> isl (ParseRFC3339 T (FormatRFC3339 T t))"

lemma readable_timeE:
  assumes "readable_time T t"
  obtains t' where "reads_time T t t'"
  using assms by (cases "ParseRFC3339 T (FormatRFC3339 T t)") (auto simp: readable_time_def reads_time_def)

end
