(* ===== verification/KDBush.thy ===== *)
theory KDBush
  imports Float64
begin

section \<open>The in-memory k-d tree: building the index\<close>

text \<open>
  \<^verbatim>\<open>kdbush/kdbush.go\<close>, the construction half: the two parallel arrays, the swaps, the
  Floyd-Rivest selection and the recursive sort. A slice access out of range is
  \<^const>\<open>None\<close>. The selection takes \<^verbatim>\<open>math.Log\<close>, \<^verbatim>\<open>math.Exp\<close> and
  \<^verbatim>\<open>math.Sqrt\<close> as a parameter: they only choose the window it samples.
\<close>

definition DefaultNodeSize :: nat where
  "DefaultNodeSize = 64"

record 'a point =
  pX :: f64
  pY :: f64
  pData :: 'a

record kd_arrays =
  idxs :: "int list"
  coords :: "f64 list"

record 'a kdbush =
  nodeSize :: nat
  points :: "'a point list"
  arrays :: kd_arrays

record mathlib =
  m_log :: "f64 \<Rightarrow> f64"
  m_exp :: "f64 \<Rightarrow> f64"
  m_sqrt :: "f64 \<Rightarrow> f64"

subsection \<open>Small helpers\<close>

definition iMax :: "int \<Rightarrow> int \<Rightarrow> int" where
  "iMax a b = (if a > b then a else b)"

definition iMin :: "int \<Rightarrow> int \<Rightarrow> int" where
  "iMin a b = (if a < b then a else b)"

text \<open>
  \<open>floor(float64(left+right) / 2.0)\<close>; \<open>floor_half\<close> shows that the floating-point
  expression is this integer division while the sum has at most 53 bits.
\<close>

definition midpoint :: "int \<Rightarrow> int \<Rightarrow> int" where
  "midpoint left right = (left + right) div 2"

definition sqrtDist :: "f64 \<Rightarrow> f64 \<Rightarrow> f64 \<Rightarrow> f64 \<Rightarrow> f64" where
  "sqrtDist ax ay bx b_y = (let dx = ax - bx; dy = ay - b_y in dx * dx + dy * dy)"

definition swapi :: "'b list \<Rightarrow> int \<Rightarrow> int \<Rightarrow> 'b list option" where
  "swapi a i j = do { t \<leftarrow> get a i; v \<leftarrow> get a j; a \<leftarrow> put a i v; put a j t }"

definition swapf :: "f64 list \<Rightarrow> int \<Rightarrow> int \<Rightarrow> f64 list option" where
  "swapf a i j = do { t \<leftarrow> get a i; v \<leftarrow> get a j; a \<leftarrow> put a i v; put a j t }"

definition swapItem :: "kd_arrays \<Rightarrow> int \<Rightarrow> int \<Rightarrow> kd_arrays option" where
  "swapItem a i j = do {
     is \<leftarrow> swapi (idxs a) i j;
     cs \<leftarrow> swapf (coords a) (2 * i) (2 * j);
     cs \<leftarrow> swapf cs (2 * i + 1) (2 * j + 1);
     Some \<lparr>idxs = is, coords = cs\<rparr>
   }"

subsection \<open>Selection\<close>

text \<open>The two inner scans of the partition: \<open>for coords[2*i+inc] < t { i += 1 }\<close> and its mirror.\<close>

function scan_up :: "f64 list \<Rightarrow> int \<Rightarrow> f64 \<Rightarrow> int \<Rightarrow> int option" where
  "scan_up cs inc t i =
     (case get cs (2 * i + inc) of
        None \<Rightarrow> None
      | Some c \<Rightarrow> if c < t then scan_up cs inc t (i + 1) else Some i)"
  by pat_completeness auto
termination
  by (relation "measure (\<lambda>(cs, inc, t, i). nat (int (length cs) - (2 * i + inc)))")
     (auto dest: get_SomeD)

function scan_down :: "f64 list \<Rightarrow> int \<Rightarrow> f64 \<Rightarrow> int \<Rightarrow> int option" where
  "scan_down cs inc t j =
     (case get cs (2 * j + inc) of
        None \<Rightarrow> None
      | Some c \<Rightarrow> if c > t then scan_down cs inc t (j - 1) else Some j)"
  by pat_completeness auto
termination
  by (relation "measure (\<lambda>(cs, inc, t, j). nat (2 * j + inc + 1))")
     (auto dest: get_SomeD)

declare scan_up.simps [simp del] scan_down.simps [simp del]

lemma scan_up_ge: "scan_up cs inc t i = Some i' \<Longrightarrow> i \<le> i'"
proof (induction cs inc t i rule: scan_up.induct)
  case (1 cs inc t i)
  then show ?case
    by (subst (asm) (2) scan_up.simps) (force split: option.splits if_splits)
qed

lemma scan_down_le: "scan_down cs inc t j = Some j' \<Longrightarrow> j' \<le> j"
proof (induction cs inc t j rule: scan_down.induct)
  case (1 cs inc t j)
  then show ?case
    by (subst (asm) (2) scan_down.simps) (force split: option.splits if_splits)
qed

function partition_loop :: "f64 \<Rightarrow> int \<Rightarrow> kd_arrays \<Rightarrow> int \<Rightarrow> int \<Rightarrow> (kd_arrays \<times> int \<times> int) option" where
  "partition_loop t inc a i j =
     (if i < j then do {
        a \<leftarrow> swapItem a i j;
        i' \<leftarrow> scan_up (coords a) inc t (i + 1);
        j' \<leftarrow> scan_down (coords a) inc t (j - 1);
        partition_loop t inc a i' j'
      } else Some (a, i, j))"
  by pat_completeness auto
termination
  by (relation "measure (\<lambda>(t, inc, a, i, j). nat (j - i))")
     (auto dest!: scan_up_ge scan_down_le)

declare partition_loop.simps [simp del]

text \<open>One round of the selection loop: move the pivot, partition, put the pivot at \<open>j\<close>.\<close>

definition select_round :: "kd_arrays \<Rightarrow> int \<Rightarrow> int \<Rightarrow> int \<Rightarrow> int \<Rightarrow> (kd_arrays \<times> int) option" where
  "select_round a k left right inc = do {
     t \<leftarrow> get (coords a) (2 * k + inc);
     a \<leftarrow> swapItem a left k;
     c \<leftarrow> get (coords a) (2 * right + inc);
     a \<leftarrow> (if c > t then swapItem a left right else Some a);
     (a, i, j) \<leftarrow> partition_loop t inc a left right;
     c \<leftarrow> get (coords a) (2 * left + inc);
     (if f_eq c t then do { a \<leftarrow> swapItem a left j; Some (a, j) }
      else do { a \<leftarrow> swapItem a (j + 1) right; Some (a, j + 1) })
   }"

definition half64 :: f64 where
  "half64 = F64 0x3FE0000000000000"

definition sample_window :: "mathlib \<Rightarrow> int \<Rightarrow> int \<Rightarrow> int \<Rightarrow> int \<times> int" where
  "sample_window M k left right =
     (let n = right - left + 1;
          m = k - left + 1;
          z = m_log M (f64_of_int n);
          s = half64 * m_exp M (f64_of_int 2 * z / f64_of_int 3);
          sds = (if f64_of_int m - f64_of_int n / f64_of_int 2 < 0 then - 1 else 1);
          n_s = f64_of_int n - s;
          sd = half64 * m_sqrt M (z * s * n_s / f64_of_int n) * sds
      in (iMax left (floor_int (f64_of_int k - f64_of_int m * s / f64_of_int n + sd)),
          iMin right (floor_int (f64_of_int k + f64_of_int (n - m) * s / f64_of_int n + sd))))"

text \<open>
  \<open>sselect\<close>'s loop and its recursive call, with fuel: every round and every call uses
  one unit. \<open>nat (right - left) + 1\<close> units are enough (\<open>sselect_total\<close>).
\<close>

fun sselect_fuel :: "nat \<Rightarrow> mathlib \<Rightarrow> kd_arrays \<Rightarrow> int \<Rightarrow> int \<Rightarrow> int \<Rightarrow> int \<Rightarrow> kd_arrays option" where
  "sselect_fuel 0 M a k left right inc = None"
| "sselect_fuel (Suc fuel) M a k left right inc =
     (if right > left then do {
        a \<leftarrow> (if right - left > 600
              then (case sample_window M k left right of
                      (newLeft, newRight) \<Rightarrow> sselect_fuel fuel M a k newLeft newRight inc)
              else Some a);
        (a, j) \<leftarrow> select_round a k left right inc;
        sselect_fuel fuel M a k (if j \<le> k then j + 1 else left) (if k \<le> j then j - 1 else right) inc
      } else Some a)"

definition sselect :: "mathlib \<Rightarrow> kd_arrays \<Rightarrow> int \<Rightarrow> int \<Rightarrow> int \<Rightarrow> int \<Rightarrow> kd_arrays option" where
  "sselect M a k left right inc = sselect_fuel (nat (right - left) + 1) M a k left right inc"

subsection \<open>Sorting and building\<close>

function kd_sort :: "mathlib \<Rightarrow> kd_arrays \<Rightarrow> nat \<Rightarrow> int \<Rightarrow> int \<Rightarrow> int \<Rightarrow> kd_arrays option" where
  "kd_sort M a node_size left right depth =
     (if right - left \<le> int node_size then Some a
      else do {
        a \<leftarrow> sselect M a (midpoint left right) left right (depth mod 2);
        a \<leftarrow> kd_sort M a node_size left (midpoint left right - 1) (depth + 1);
        kd_sort M a node_size (midpoint left right + 1) right (depth + 1)
      })"
  by pat_completeness auto
termination
  by (relation "measure (\<lambda>(M, a, ns, left, right, depth). nat (right - left + 1))")
     (auto simp: midpoint_def)

declare kd_sort.simps [simp del]

definition initial_arrays :: "'a point list \<Rightarrow> kd_arrays" where
  "initial_arrays ps =
     \<lparr>idxs = map int [0..<length ps], coords = concat (map (\<lambda>v. [pX v, pY v]) ps)\<rparr>"

definition buildIndex :: "mathlib \<Rightarrow> 'a point list \<Rightarrow> nat \<Rightarrow> 'a kdbush option" where
  "buildIndex M ps node_size = do {
     a \<leftarrow> kd_sort M (initial_arrays ps) node_size 0 (int (length ps) - 1) 0;
     Some \<lparr>nodeSize = node_size, points = ps, arrays = a\<rparr>
   }"

definition NewBush :: "mathlib \<Rightarrow> 'a point list \<Rightarrow> nat \<Rightarrow> 'a kdbush option" where
  "NewBush M ps node_size = buildIndex M ps node_size"

subsection \<open>The arrays as a list of items\<close>

definition kd_wf :: "kd_arrays \<Rightarrow> bool" where
  "kd_wf a \<longleftrightarrow> length (coords a) = 2 * length (idxs a)"

definition item :: "kd_arrays \<Rightarrow> nat \<Rightarrow> int \<times> f64 \<times> f64" where
  "item a i = (idxs a ! i, coords a ! (2 * i), coords a ! (2 * i + 1))"

definition items :: "kd_arrays \<Rightarrow> (int \<times> f64 \<times> f64) list" where
  "items a = map (item a) [0..<length (idxs a)]"

definition axis_of :: "int \<Rightarrow> int \<times> f64 \<times> f64 \<Rightarrow> f64" where
  "axis_of inc t = (if inc = 0 then fst (snd t) else snd (snd t))"

definition is_axis :: "int \<Rightarrow> bool" where
  "is_axis inc \<longleftrightarrow> inc = 0 \<or> inc = 1"

lemma length_items [simp]: "length (items a) = length (idxs a)"
  by (simp add: items_def)

lemma items_nth [simp]: "i < length (idxs a) \<Longrightarrow> items a ! i = item a i"
  by (simp add: items_def)

lemma swapi_in_range:
  assumes "0 \<le> i" "i < int (length xs)" "0 \<le> j" "j < int (length xs)"
  shows "swapi xs i j = Some (xs[nat i := xs ! nat j, nat j := xs ! nat i])"
  using assms by (simp add: swapi_def)

lemma swapf_in_range:
  assumes "0 \<le> i" "i < int (length xs)" "0 \<le> j" "j < int (length xs)"
  shows "swapf xs i j = Some (xs[nat i := xs ! nat j, nat j := xs ! nat i])"
  using assms by (simp add: swapf_def)

lemma swapItem_items:
  assumes wf: "kd_wf a" and r: "0 \<le> i" "i < int (length (idxs a))" "0 \<le> j" "j < int (length (idxs a))"
  obtains a' where "swapItem a i j = Some a'" "kd_wf a'" "length (idxs a') = length (idxs a)"
    "items a' = (items a)[nat i := items a ! nat j, nat j := items a ! nat i]"
proof -
  define n m where "n = nat i" and "m = nat j"
  have i: "i = int n" "j = int m" and nm: "n < length (idxs a)" "m < length (idxs a)"
    using r by (simp_all add: n_def m_def)
  define cs where "cs = (coords a)[2 * n := coords a ! (2 * m), 2 * m := coords a ! (2 * n)]"
  define cs' where "cs' = cs[2 * n + 1 := cs ! (2 * m + 1), 2 * m + 1 := cs ! (2 * n + 1)]"
  define is' where "is' = (idxs a)[n := idxs a ! m, m := idxs a ! n]"
  let ?a = "\<lparr>idxs = is', coords = cs'\<rparr>"
  have len: "length cs = 2 * length (idxs a)" "length (coords a) = 2 * length (idxs a)"
    using wf by (simp_all add: cs_def kd_wf_def)
  have nat2: "nat (2 * int k) = 2 * k" "nat (2 * int k + 1) = 2 * k + 1" for k by simp_all
  have "swapi (idxs a) i j = Some is'"
    using r by (simp add: swapi_in_range is'_def n_def m_def)
  moreover have "swapf (coords a) (2 * i) (2 * j) = Some cs"
    using nm len by (simp add: i swapf_in_range cs_def nat2)
  moreover have "swapf cs (2 * i + 1) (2 * j + 1) = Some cs'"
    using nm len by (simp add: i swapf_in_range cs'_def nat2)
  ultimately have s: "swapItem a i j = Some ?a" by (simp add: swapItem_def)
  have wf': "kd_wf ?a" using len by (simp add: kd_wf_def cs'_def is'_def)
  have odd: "2 * x \<noteq> Suc (2 * y)" "Suc (2 * y) \<noteq> 2 * x" for x y :: nat by presburger+
  have "items ?a = (items a)[n := items a ! m, m := items a ! n]"
  proof (rule nth_equalityI)
    show "length (items ?a) = length ((items a)[n := items a ! m, m := items a ! n])"
      by (simp add: is'_def)
    fix p assume "p < length (items ?a)"
    then have p: "p < length (idxs a)" by (simp add: is'_def)
    then show "items ?a ! p = (items a)[n := items a ! m, m := items a ! n] ! p"
      using nm len by (auto simp: is'_def cs'_def cs_def item_def nth_list_update odd)
  qed
  then show thesis using that s wf' by (simp add: n_def m_def is'_def)
qed

lemma get_coord:
  assumes "kd_wf a" "is_axis inc" "0 \<le> i" "i < int (length (idxs a))"
  shows "get (coords a) (2 * i + inc) = Some (axis_of inc (items a ! nat i))"
proof -
  have "nat i < length (idxs a)" "nat (2 * i) = 2 * nat i" "nat (2 * i + 1) = 2 * nat i + 1"
    using assms by simp_all
  then show ?thesis using assms by (auto simp: is_axis_def kd_wf_def axis_of_def item_def)
qed

lemma scan_up_stops:
  assumes wf: "kd_wf a" and inc: "is_axis inc" and i: "0 \<le> i" "i \<le> s" and s: "s < int (length (idxs a))"
    and stop: "\<not> axis_of inc (items a ! nat s) < t"
  shows "\<exists>i'. scan_up (coords a) inc t i = Some i' \<and> i \<le> i' \<and> i' \<le> s
    \<and> \<not> axis_of inc (items a ! nat i') < t
    \<and> (\<forall>p. i \<le> p \<longrightarrow> p < i' \<longrightarrow> axis_of inc (items a ! nat p) < t)"
  using i
proof (induction "nat (s - i)" arbitrary: i rule: less_induct)
  case less
  have g: "get (coords a) (2 * i + inc) = Some (axis_of inc (items a ! nat i))"
    using wf inc less.prems s by (simp add: get_coord)
  show ?case
  proof (cases "axis_of inc (items a ! nat i) < t")
    case False
    then show ?thesis using g less.prems by (subst scan_up.simps) auto
  next
    case True
    then have "i \<noteq> s" using stop by auto
    then have i1: "i + 1 \<le> s" using less.prems by simp
    then obtain i' where i': "scan_up (coords a) inc t (i + 1) = Some i'" "i + 1 \<le> i'" "i' \<le> s"
      "\<not> axis_of inc (items a ! nat i') < t"
      "\<forall>p. i + 1 \<le> p \<longrightarrow> p < i' \<longrightarrow> axis_of inc (items a ! nat p) < t"
      using less.hyps [of "i + 1"] less.prems by auto
    have "\<forall>p. i \<le> p \<longrightarrow> p < i' \<longrightarrow> axis_of inc (items a ! nat p) < t"
      using i'(5) True by (metis add1_zle_eq le_less)
    then show ?thesis using g True i' by (subst scan_up.simps) auto
  qed
qed

lemma scan_down_stops:
  assumes wf: "kd_wf a" and inc: "is_axis inc" and j: "0 \<le> s" "s \<le> j" "j < int (length (idxs a))"
    and stop: "\<not> t < axis_of inc (items a ! nat s)"
  shows "\<exists>j'. scan_down (coords a) inc t j = Some j' \<and> s \<le> j' \<and> j' \<le> j
    \<and> \<not> t < axis_of inc (items a ! nat j')
    \<and> (\<forall>p. j' < p \<longrightarrow> p \<le> j \<longrightarrow> t < axis_of inc (items a ! nat p))"
  using j
proof (induction "nat (j - s)" arbitrary: j rule: less_induct)
  case less
  have g: "get (coords a) (2 * j + inc) = Some (axis_of inc (items a ! nat j))"
    using wf inc less.prems by (simp add: get_coord)
  show ?case
  proof (cases "t < axis_of inc (items a ! nat j)")
    case False
    then show ?thesis using g less.prems by (subst scan_down.simps) auto
  next
    case True
    then have "j \<noteq> s" using stop by auto
    then have j1: "s \<le> j - 1" using less.prems by simp
    then obtain j' where j': "scan_down (coords a) inc t (j - 1) = Some j'" "s \<le> j'" "j' \<le> j - 1"
      "\<not> t < axis_of inc (items a ! nat j')"
      "\<forall>p. j' < p \<longrightarrow> p \<le> j - 1 \<longrightarrow> t < axis_of inc (items a ! nat p)"
      using less.hyps [of "j - 1"] less.prems by auto
    have "\<forall>p. j' < p \<longrightarrow> p \<le> j \<longrightarrow> t < axis_of inc (items a ! nat p)"
      using j'(5) True by (metis zle_diff1_eq le_less)
    then show ?thesis using g True j' by (subst scan_down.simps) auto
  qed
qed

subsection \<open>The partition and one round of the selection\<close>

text \<open>
  The loop invariant of the partition: nothing before \<open>i\<close> is above the pivot value,
  nothing after \<open>j\<close> is below it, and the two positions themselves are stops of the scans.
  It is stated with negated comparisons, so it holds for NaN coordinates too.
\<close>

definition part_inv :: "f64 \<Rightarrow> int \<Rightarrow> int \<Rightarrow> int \<Rightarrow> (int \<times> f64 \<times> f64) list \<Rightarrow> int \<Rightarrow> int \<Rightarrow> bool" where
  "part_inv t inc l r xs i j \<longleftrightarrow>
     l \<le> i \<and> i \<le> r \<and> l \<le> j \<and> j \<le> r
     \<and> (\<forall>p. l \<le> p \<longrightarrow> p < i \<longrightarrow> \<not> t < axis_of inc (xs ! nat p))
     \<and> (\<forall>p. j < p \<longrightarrow> p \<le> r \<longrightarrow> \<not> axis_of inc (xs ! nat p) < t)
     \<and> \<not> axis_of inc (xs ! nat i) < t \<and> \<not> t < axis_of inc (xs ! nat j)"

text \<open>One step of the loop, from \<open>i < j\<close>: both scans stop and the invariant is kept.\<close>

lemma partition_step:
  assumes wf: "kd_wf a" and inc: "is_axis inc" and lr: "0 \<le> l" "r < int (length (idxs a))"
    and inv: "part_inv t inc l r (items a) i j" and ij: "i < j"
  obtains a' i' j' where "swapItem a i j = Some a'" "kd_wf a'" "length (idxs a') = length (idxs a)"
    "items a' = (items a)[nat i := items a ! nat j, nat j := items a ! nat i]"
    "scan_up (coords a') inc t (i + 1) = Some i'" "scan_down (coords a') inc t (j - 1) = Some j'"
    "i < i'" "i' \<le> j" "i \<le> j'" "j' < j" "i' - 1 \<le> j'" "part_inv t inc l r (items a') i' j'"
proof -
  let ?c = "\<lambda>a p. axis_of inc (items a ! nat p)"
  have b: "l \<le> i" "i \<le> r" "l \<le> j" "j \<le> r" using inv by (simp_all add: part_inv_def)
  obtain a' where a': "swapItem a i j = Some a'" "kd_wf a'" "length (idxs a') = length (idxs a)"
    and it: "items a' = (items a)[nat i := items a ! nat j, nat j := items a ! nat i]"
    using swapItem_items [OF wf, of i j] b lr by auto
  have ci: "?c a' i = ?c a j" and cj: "?c a' j = ?c a i"
    and other: "\<And>p. 0 \<le> p \<Longrightarrow> p \<noteq> i \<Longrightarrow> p \<noteq> j \<Longrightarrow> ?c a' p = ?c a p"
    using it b lr ij by (auto simp: nth_list_update)
  have ni: "\<not> t < ?c a' i" and nj: "\<not> ?c a' j < t"
    using inv by (simp_all add: part_inv_def ci cj)
  obtain i' where i': "scan_up (coords a') inc t (i + 1) = Some i'" "i + 1 \<le> i'" "i' \<le> j"
    "\<not> ?c a' i' < t" "\<forall>p. i + 1 \<le> p \<longrightarrow> p < i' \<longrightarrow> ?c a' p < t"
    using scan_up_stops [OF a'(2) inc, of "i + 1" j t] ij b lr nj a'(3) by auto
  have low: "\<not> t < ?c a' p" if "l \<le> p" "p < i'" for p
  proof -
    consider "p < i" | "p = i" | "i + 1 \<le> p" by linarith
    then show ?thesis
    proof cases
      case 1
      then show ?thesis using inv other [of p] that b lr ij by (simp add: part_inv_def)
    next
      case 2
      then show ?thesis using ni by simp
    next
      case 3
      then show ?thesis using i'(5) that f64_less_asym by blast
    qed
  qed
  have "\<not> t < ?c a' (i' - 1)" using low [of "i' - 1"] i'(2) b by simp
  then obtain j' where j': "scan_down (coords a') inc t (j - 1) = Some j'" "i' - 1 \<le> j'" "j' \<le> j - 1"
    "\<not> t < ?c a' j'" "\<forall>p. j' < p \<longrightarrow> p \<le> j - 1 \<longrightarrow> t < ?c a' p"
    using scan_down_stops [OF a'(2) inc, of "i' - 1" "j - 1" t] i'(2,3) b lr a'(3) by auto
  have high: "\<not> ?c a' p < t" if "j' < p" "p \<le> r" for p
  proof -
    consider "j < p" | "p = j" | "p \<le> j - 1" by linarith
    then show ?thesis
    proof cases
      case 1
      then show ?thesis using inv other [of p] that b lr ij by (simp add: part_inv_def)
    next
      case 2
      then show ?thesis using nj by simp
    next
      case 3
      then show ?thesis using j'(5) that f64_less_asym by blast
    qed
  qed
  have "part_inv t inc l r (items a') i' j'"
    using low high i'(2,3,4) j'(2,3,4) b by (simp add: part_inv_def)
  then show thesis using that [OF a'(1,2,3) it i'(1) j'(1)] i'(2,3) j'(2,3) by simp
qed

lemma partition_loop_correct:
  assumes wf: "kd_wf a" and inc: "is_axis inc" and lr: "0 \<le> l" "r < int (length (idxs a))"
    and inv: "part_inv t inc l r (items a) i j" and ij: "i < j"
  shows "\<exists>a' i' j'. partition_loop t inc a i j = Some (a', i', j') \<and> kd_wf a'
    \<and> length (idxs a') = length (idxs a) \<and> reordered i j (items a) (items a')
    \<and> items a' ! nat i = items a ! nat j \<and> items a' ! nat j = items a ! nat i
    \<and> i < i' \<and> j' < j \<and> i \<le> j' \<and> i' \<le> j \<and> (j' = i' \<or> j' = i' - 1)
    \<and> part_inv t inc l r (items a') i' j'"
  using wf lr inv ij
proof (induction "nat (j - i)" arbitrary: a i j rule: less_induct)
  case less
  obtain a1 i1 j1 where s: "swapItem a i j = Some a1" "kd_wf a1" "length (idxs a1) = length (idxs a)"
    and it: "items a1 = (items a)[nat i := items a ! nat j, nat j := items a ! nat i]"
    and sc: "scan_up (coords a1) inc t (i + 1) = Some i1" "scan_down (coords a1) inc t (j - 1) = Some j1"
    and b: "i < i1" "i1 \<le> j" "i \<le> j1" "j1 < j" "i1 - 1 \<le> j1"
    and inv1: "part_inv t inc l r (items a1) i1 j1"
    using partition_step [OF less.prems(1) inc less.prems(2,3,4,5)] by metis
  have lij: "l \<le> i" "j \<le> r" using less.prems(4) by (simp_all add: part_inv_def)
  have u: "partition_loop t inc a i j = partition_loop t inc a1 i1 j1"
    using s(1) sc less.prems(5) by (subst partition_loop.simps) simp
  have sw: "reordered i j (items a) (items a1)"
    unfolding it by (rule reordered_swap) (use lij less.prems in auto)
  have ends: "items a1 ! nat i = items a ! nat j" "items a1 ! nat j = items a ! nat i"
    using it lij less.prems by (auto simp: nth_list_update)
  show ?case
  proof (cases "i1 < j1")
    case False
    then have "partition_loop t inc a1 i1 j1 = Some (a1, i1, j1)" by (subst partition_loop.simps) simp
    then show ?thesis using u s sw ends b inv1 False by auto
  next
    case True
    then obtain a2 i2 j2 where r: "partition_loop t inc a1 i1 j1 = Some (a2, i2, j2)" "kd_wf a2"
      "length (idxs a2) = length (idxs a)" "reordered i1 j1 (items a1) (items a2)"
      "i1 < i2" "j2 < j1" "i1 \<le> j2" "i2 \<le> j1" "j2 = i2 \<or> j2 = i2 - 1"
      "part_inv t inc l r (items a2) i2 j2"
      using less.hyps [of j1 i1 a1] b s inv1 less.prems by auto
    have "items a2 ! nat i = items a1 ! nat i" "items a2 ! nat j = items a1 ! nat j"
      using reordered_outside [OF r(4)] b lij less.prems s(3) by auto
    moreover have "reordered i j (items a1) (items a2)"
      by (rule reordered_mono [OF r(4)]) (use b in auto)
    ultimately have re: "reordered i j (items a) (items a2)"
      and e: "items a2 ! nat i = items a ! nat j" "items a2 ! nat j = items a ! nat i"
      using reordered_trans [OF sw] ends by auto
    have b2: "i < i2" "j2 < j" "i \<le> j2" "i2 \<le> j" using b r(5-8) by simp_all
    have u2: "partition_loop t inc a i j = Some (a2, i2, j2)" using u r(1) by simp
    have n2: "length (idxs a2) = length (idxs a)" using r(3) s(3) by simp
    show ?thesis
      by (rule exI [of _ a2], rule exI [of _ i2], rule exI [of _ j2])
        (intro conjI u2 n2 re e b2 r(2) r(9) r(10))
  qed
qed

lemma f_eq_refl_if_less: "x < y \<Longrightarrow> f_eq x x"
  by (simp add: f_eq_def less_f64_def)

text \<open>The pivot goes to the left end, or to the right end when the item there is larger.\<close>

lemma swap_if_larger:
  assumes wf: "kd_wf a" and lr: "0 \<le> l" "l < r" "r < int (length (idxs a))" and t: "axis_of inc (items a ! nat l) = t"
  obtains b where "(if axis_of inc (items a ! nat r) > t then swapItem a l r else Some a) = Some b" "kd_wf b" "length (idxs b) = length (idxs a)"
    "reordered l r (items a) (items b)"
    "(t < axis_of inc (items b ! nat l) \<and> axis_of inc (items b ! nat r) = t)
      \<or> (axis_of inc (items b ! nat l) = t \<and> \<not> t < axis_of inc (items b ! nat r))"
proof (cases "axis_of inc (items a ! nat r) > t")
  case True
  obtain b where b: "swapItem a l r = Some b" "kd_wf b" "length (idxs b) = length (idxs a)"
    and it: "items b = (items a)[nat l := items a ! nat r, nat r := items a ! nat l]"
    using swapItem_items [OF wf, of l r] lr by auto
  have "reordered l r (items a) (items b)"
    unfolding it by (rule reordered_swap) (use lr in auto)
  moreover have "axis_of inc (items b ! nat l) = axis_of inc (items a ! nat r)" "axis_of inc (items b ! nat r) = t"
    using it t lr by (auto simp: nth_list_update)
  ultimately show thesis using that [of b] True b by simp
next
  case False
  then show thesis using that [of a] wf t by simp
qed

text \<open>
  After the partition the pivot, which is at one end, changes places with the item at the border \<open>q\<close>:
  all before it are not larger, all after it not smaller.
\<close>

lemma place_pivot:
  assumes wf: "kd_wf a" and lr: "0 \<le> l" "l \<le> q" "q \<le> r" "r < int (length (idxs a))"
    and e: "e = l \<and> low = q \<or> e = r \<and> low = q - 1" and p: "p1 = e \<and> p2 = q \<or> p1 = q \<and> p2 = e"
    and below: "\<And>p. l \<le> p \<Longrightarrow> p \<le> low \<Longrightarrow> \<not> t < axis_of inc (items a ! nat p)"
    and above: "\<And>p. low < p \<Longrightarrow> p \<le> r \<Longrightarrow> \<not> axis_of inc (items a ! nat p) < t"
  obtains b where "swapItem a p1 p2 = Some b" "kd_wf b" "length (idxs b) = length (idxs a)" "reordered l r (items a) (items b)"
    "axis_of inc (items b ! nat q) = axis_of inc (items a ! nat e)"
    "\<forall>p. l \<le> p \<longrightarrow> p < q \<longrightarrow> \<not> t < axis_of inc (items b ! nat p)" "\<forall>p. q < p \<longrightarrow> p \<le> r \<longrightarrow> \<not> axis_of inc (items b ! nat p) < t"
proof -
  let ?c = "\<lambda>a p. axis_of inc (items a ! nat p)"
  have re: "l \<le> e" "e \<le> r" using e lr by auto
  obtain b where b: "swapItem a p1 p2 = Some b" "kd_wf b" "length (idxs b) = length (idxs a)"
    and it: "items b = (items a)[nat p1 := items a ! nat p2, nat p2 := items a ! nat p1]"
    by (rule swapItem_items [OF wf, of p1 p2]) (use p re lr in auto)
  have swap: "reordered l r (items a) (items b)"
    unfolding it by (rule reordered_swap) (use p re lr in auto)
  have cq: "?c b q = ?c a e" and ce: "q \<noteq> e \<Longrightarrow> ?c b e = ?c a q"
    and co: "\<And>p. l \<le> p \<Longrightarrow> p \<noteq> q \<Longrightarrow> p \<noteq> e \<Longrightarrow> ?c b p = ?c a p"
    using it p re lr by (auto simp: nth_list_update)
  have "\<not> t < ?c b p" if "l \<le> p" "p < q" for p
    using that e ce co [of p] below [of p] below [of q] lr by (cases "p = e") auto
  moreover have "\<not> ?c b p < t" if "q < p" "p \<le> r" for p
    using that e ce co [of p] above [of p] above [of q] lr by (cases "p = e") auto
  ultimately show thesis using that [OF b swap cq] by blast
qed

lemma select_round_correct:
  assumes wf: "kd_wf a" and inc: "is_axis inc" and lr: "0 \<le> l" "r < int (length (idxs a))"
    and lt: "l < r" and k: "0 \<le> k" "k < int (length (idxs a))"
  obtains a' j x where "select_round a k l r inc = Some (a', j)" "kd_wf a'"
    "length (idxs a') = length (idxs a)" "l \<le> j" "j \<le> r"
    "reordered (min l k) (max r k) (items a) (items a')"
    "\<forall>p. l \<le> p \<longrightarrow> p < j \<longrightarrow> \<not> x < axis_of inc (items a' ! nat p)"
    "\<forall>p. j < p \<longrightarrow> p \<le> r \<longrightarrow> \<not> axis_of inc (items a' ! nat p) < x"
    "axis_of inc (items a' ! nat j) = x \<or> f_eq (axis_of inc (items a' ! nat j)) x"
proof -
  let ?n = "int (length (idxs a))"
  let ?c = "\<lambda>a p. axis_of inc (items a ! nat p)"
  define t where "t = ?c a k"
  have gt: "get (coords a) (2 * k + inc) = Some t" using wf inc k by (simp add: get_coord t_def)
  obtain a1 where s1: "swapItem a l k = Some a1" "kd_wf a1" "length (idxs a1) = length (idxs a)"
    and it1: "items a1 = (items a)[nat l := items a ! nat k, nat k := items a ! nat l]"
    using swapItem_items [OF wf, of l k] lr lt k by auto
  have c1: "?c a1 l = t" using it1 lr lt k by (auto simp: t_def nth_list_update)
  have re1: "reordered (min l k) (max r k) (items a) (items a1)"
    unfolding it1 by (rule reordered_swap) (use lr lt k in auto)
  have gr: "get (coords a1) (2 * r + inc) = Some (?c a1 r)"
    using s1 inc lr lt by (simp add: get_coord)
  obtain a2 where s2: "(if ?c a1 r > t then swapItem a1 l r else Some a1) = Some a2" "kd_wf a2"
      "length (idxs a2) = length (idxs a)"
    and re2: "reordered l r (items a1) (items a2)"
    and c2: "(t < ?c a2 l \<and> ?c a2 r = t) \<or> (?c a2 l = t \<and> \<not> t < ?c a2 r)"
    by (rule swap_if_larger [OF s1(2) lr(1) lt _ c1]) (use s1(3) lr(2) in auto)
  have inv: "part_inv t inc l r (items a2) l r"
    using c2 lt f64_less_asym by (auto simp: part_inv_def)
  obtain a3 i j where L: "partition_loop t inc a2 l r = Some (a3, i, j)" "kd_wf a3"
      "length (idxs a3) = length (idxs a2)" "reordered l r (items a2) (items a3)"
      "items a3 ! nat l = items a2 ! nat r" "items a3 ! nat r = items a2 ! nat l"
      "l < i" "j < r" "l \<le> j" "i \<le> r" "j = i \<or> j = i - 1" "part_inv t inc l r (items a3) i j"
    using partition_loop_correct [OF s2(2) inc lr(1) _ inv lt] lr(2) s2(3) by auto
  have len3: "length (idxs a3) = length (idxs a)" using L(3) s2(3) by simp
  have low: "\<not> t < ?c a3 p" if "l \<le> p" "p \<le> j" for p
    using L(11,12) that by (cases "p = j") (auto simp: part_inv_def)
  have high: "\<not> ?c a3 p < t" if "j < p" "p \<le> r" for p
    using L(12) that by (simp add: part_inv_def)
  have gl: "get (coords a3) (2 * l + inc) = Some (?c a3 l)"
    using L(2) inc lr lt len3 by (simp add: get_coord)
  define q where "q = (if f_eq (?c a3 l) t then j else j + 1)"
  define p1 where "p1 = (if f_eq (?c a3 l) t then l else j + 1)"
  define p2 where "p2 = (if f_eq (?c a3 l) t then j else r)"
  define e where "e = (if f_eq (?c a3 l) t then l else r)"
  have qe: "l \<le> q" "q \<le> r" using L(8,9) lt by (simp_all add: q_def)
  have piv: "?c a3 e = t \<or> f_eq (?c a3 e) t"
    using c2 L(5,6) f_eq_refl_if_less [of t "?c a2 l"] by (auto simp: e_def)
  obtain a4 where s4: "swapItem a3 p1 p2 = Some a4" "kd_wf a4" "length (idxs a4) = length (idxs a3)"
    and re4: "reordered l r (items a3) (items a4)" and cq: "?c a4 q = ?c a3 e"
    and below: "\<forall>p. l \<le> p \<longrightarrow> p < q \<longrightarrow> \<not> t < ?c a4 p" and above: "\<forall>p. q < p \<longrightarrow> p \<le> r \<longrightarrow> \<not> ?c a4 p < t"
    by (rule place_pivot [OF L(2) lr(1) qe, where e = e and low = j and ?p1.0 = p1 and ?p2.0 = p2 and t = t and inc = inc])
      (use low high lr len3 in \<open>auto simp: p1_def p2_def q_def e_def\<close>)
  have round: "select_round a k l r inc = Some (a4, q)"
    using s4(1) by (cases "f_eq (?c a3 l) t")
      (simp_all add: select_round_def gt s1(1) gr s2(1) L(1) gl q_def p1_def p2_def)
  have "reordered l r (items a1) (items a4)"
    using re2 L(4) re4 by (meson reordered_trans)
  then have "reordered (min l k) (max r k) (items a1) (items a4)"
    by (rule reordered_mono) auto
  with re1 have re: "reordered (min l k) (max r k) (items a) (items a4)" by (rule reordered_trans)
  show thesis
    using that [OF round s4(2) _ qe(1,2) re, of t] below above cq piv s4(3) len3 by simp
qed

subsection \<open>The selection\<close>

text \<open>
  The only thing asked of \<^verbatim>\<open>math.Log/Exp/Sqrt\<close>: the sampling window, which the code
  clamps to \<open>[left, right]\<close>, is not the whole segment again. (It has about
  \<open>n powr (2/3) / 2\<close> positions out of \<open>n > 600\<close>.) Without it the recursive call would
  never end.
\<close>

definition window_narrows :: "mathlib \<Rightarrow> nat \<Rightarrow> bool" where
  "window_narrows M n \<longleftrightarrow>
     (\<forall>k l r. 0 \<le> k \<longrightarrow> k < int n \<longrightarrow> 0 \<le> l \<longrightarrow> r < int n \<longrightarrow> r - l > 600 \<longrightarrow>
        sample_window M k l r \<noteq> (l, r))"

definition nan_free :: "int \<Rightarrow> (int \<times> f64 \<times> f64) list \<Rightarrow> bool" where
  "nan_free inc xs \<longleftrightarrow> (\<forall>t \<in> set xs. \<not> is_nan (axis_of inc t))"

definition selected :: "int \<Rightarrow> (int \<times> f64 \<times> f64) list \<Rightarrow> int \<Rightarrow> int \<Rightarrow> int \<Rightarrow> bool" where
  "selected inc xs k l r \<longleftrightarrow>
     (\<forall>p. l \<le> p \<longrightarrow> p < k \<longrightarrow> axis_of inc (xs ! nat p) \<le> axis_of inc (xs ! nat k))
     \<and> (\<forall>p. k < p \<longrightarrow> p \<le> r \<longrightarrow> axis_of inc (xs ! nat k) \<le> axis_of inc (xs ! nat p))"

lemma sample_window_clamped: "sample_window M k l r = (nl, nr) \<Longrightarrow> l \<le> nl \<and> nr \<le> r"
  by (auto simp: sample_window_def Let_def iMax_def iMin_def split: if_splits)

lemma small_window_narrows: "n \<le> 601 \<Longrightarrow> window_narrows M n"
  by (auto simp: window_narrows_def)

lemma nan_freeD: "nan_free inc xs \<Longrightarrow> 0 \<le> p \<Longrightarrow> p < int (length xs) \<Longrightarrow> \<not> is_nan (axis_of inc (xs ! nat p))"
  unfolding nan_free_def by (metis nat_less_iff nth_mem)

lemma nan_free_reordered: "reordered l r xs ys \<Longrightarrow> nan_free inc ys = nan_free inc xs"
  using reordered_set by (fastforce simp: nan_free_def)

text \<open>A round gives the pivot its place; the selection inside one side gives the whole segment.\<close>

lemma selected_from_right:
  assumes len: "length ys = length xs" and nan: "nan_free inc xs" and b: "0 \<le> l" "r < int (length xs)"
    and j: "l \<le> j" "j < k" "k \<le> r" and re: "reordered (j + 1) r xs ys"
    and below: "\<forall>p. l \<le> p \<longrightarrow> p < j \<longrightarrow> \<not> x < axis_of inc (xs ! nat p)"
    and above: "\<forall>p. j < p \<longrightarrow> p \<le> r \<longrightarrow> \<not> axis_of inc (xs ! nat p) < x"
    and piv: "axis_of inc (xs ! nat j) = x \<or> f_eq (axis_of inc (xs ! nat j)) x"
    and sel: "selected inc ys k (j + 1) r"
  shows "selected inc ys k l r"
proof -
  have xn: "\<not> is_nan x" using piv nan_freeD [OF nan, of j] b j by (auto simp: f_eq_def)
  have "axis_of inc (ys ! nat p) \<le> axis_of inc (ys ! nat k)" if p: "l \<le> p" "p < k" for p
  proof (cases "p \<le> j")
    case True
    have "ys ! nat p = xs ! nat p" using reordered_outside [OF re] p True b j by auto
    moreover have "axis_of inc (xs ! nat p) \<le> x"
    proof (cases "p = j")
      case True
      then show ?thesis using piv xn by (auto simp: f_eq_def less_eq_f64_def)
    next
      case False
      then show ?thesis
        using below p True nan_freeD [OF nan, of p] xn b j f64_not_less by auto
    qed
    moreover obtain q where q: "j + 1 \<le> q" "q \<le> r" "ys ! nat k = xs ! nat q"
      using reordered_inside [OF re _ b(2), of k] b j by auto
    moreover have "x \<le> axis_of inc (xs ! nat q)"
      using above q nan_freeD [OF nan, of q] xn b j f64_not_less [of "axis_of inc (xs ! nat q)" x] by auto
    ultimately show ?thesis using f64_le_trans by metis
  next
    case False
    then show ?thesis using sel p by (simp add: selected_def)
  qed
  then show ?thesis using sel by (simp add: selected_def)
qed

lemma selected_from_left:
  assumes len: "length ys = length xs" and nan: "nan_free inc xs" and b: "0 \<le> l" "r < int (length xs)"
    and j: "l \<le> k" "k < j" "j \<le> r" and re: "reordered l (j - 1) xs ys"
    and below: "\<forall>p. l \<le> p \<longrightarrow> p < j \<longrightarrow> \<not> x < axis_of inc (xs ! nat p)"
    and above: "\<forall>p. j < p \<longrightarrow> p \<le> r \<longrightarrow> \<not> axis_of inc (xs ! nat p) < x"
    and piv: "axis_of inc (xs ! nat j) = x \<or> f_eq (axis_of inc (xs ! nat j)) x"
    and sel: "selected inc ys k l (j - 1)"
  shows "selected inc ys k l r"
proof -
  have xn: "\<not> is_nan x" using piv nan_freeD [OF nan, of j] b j by (auto simp: f_eq_def)
  have "axis_of inc (ys ! nat k) \<le> axis_of inc (ys ! nat p)" if p: "k < p" "p \<le> r" for p
  proof (cases "j \<le> p")
    case True
    have "ys ! nat p = xs ! nat p" using reordered_outside [OF re] p True b j by auto
    moreover have "x \<le> axis_of inc (xs ! nat p)"
    proof (cases "p = j")
      case True
      then show ?thesis using piv xn by (auto simp: f_eq_def less_eq_f64_def)
    next
      case False
      then show ?thesis
        using above p True False nan_freeD [OF nan, of p] xn b j
          f64_not_less [of "axis_of inc (xs ! nat p)" x] by auto
    qed
    moreover obtain q where q: "l \<le> q" "q \<le> j - 1" "ys ! nat k = xs ! nat q"
      using reordered_inside [OF re b(1), of k] b j by auto
    moreover have "axis_of inc (xs ! nat q) \<le> x"
      using below q nan_freeD [OF nan, of q] xn b j f64_not_less by auto
    ultimately show ?thesis using f64_le_trans by metis
  next
    case False
    then show ?thesis using sel p by (simp add: selected_def)
  qed
  then show ?thesis using sel by (simp add: selected_def)
qed

lemma selected_at_pivot:
  assumes nan: "nan_free inc xs" and b: "0 \<le> l" "r < int (length xs)" and j: "l \<le> j" "j \<le> r"
    and below: "\<forall>p. l \<le> p \<longrightarrow> p < j \<longrightarrow> \<not> x < axis_of inc (xs ! nat p)"
    and above: "\<forall>p. j < p \<longrightarrow> p \<le> r \<longrightarrow> \<not> axis_of inc (xs ! nat p) < x"
    and piv: "axis_of inc (xs ! nat j) = x \<or> f_eq (axis_of inc (xs ! nat j)) x"
  shows "selected inc xs j l r"
proof -
  let ?c = "\<lambda>p. axis_of inc (xs ! nat p)"
  have n: "\<not> is_nan (?c p)" if "l \<le> p" "p \<le> r" for p using nan_freeD [OF nan, of p] that b by simp
  have "f64_key (?c j) = f64_key x" "\<not> is_nan x" using piv n [OF j] by (auto simp: f_eq_def)
  then show ?thesis
    using below above n j by (auto simp: selected_def less_f64_def less_eq_f64_def not_less)
qed

text \<open>With one unit of fuel per position the selection returns and has done its job.\<close>

text \<open>Selecting in the half that has \<open>k\<close>, or nothing when the pivot is at \<open>k\<close>.\<close>

lemma selected_around:
  assumes len: "length ys = length xs" and nan: "nan_free inc xs" and lr: "0 \<le> l" "r < int (length xs)" "l \<le> j" "j \<le> r" "l \<le> k" "k \<le> r"
    and re: "reordered (min l' k) (max r' k) xs ys" and sel: "l' \<le> k \<Longrightarrow> k \<le> r' \<Longrightarrow> selected inc ys k l' r'"
    and l': "l' = (if j \<le> k then j + 1 else l)" and r': "r' = (if k \<le> j then j - 1 else r)" and same: "j = k \<Longrightarrow> ys = xs"
    and post: "\<forall>p. l \<le> p \<longrightarrow> p < j \<longrightarrow> \<not> x < axis_of inc (xs ! nat p)" "\<forall>p. j < p \<longrightarrow> p \<le> r \<longrightarrow> \<not> axis_of inc (xs ! nat p) < x"
      "axis_of inc (xs ! nat j) = x \<or> f_eq (axis_of inc (xs ! nat j)) x"
  shows "selected inc ys k l r"
proof -
  consider "j < k" | "k < j" | "j = k" by linarith
  then show ?thesis
  proof cases
    case 1
    then have e: "l' = j + 1" "r' = r" by (simp_all add: l' r')
    show ?thesis
      by (rule selected_from_right [OF len nan lr(1,2,3) 1 lr(6) _ post]) (use re sel e 1 lr in auto)
  next
    case 2
    then have e: "l' = l" "r' = j - 1" by (simp_all add: l' r')
    show ?thesis
      by (rule selected_from_left [OF len nan lr(1,2,5) 2 lr(4) _ post]) (use re sel e 2 lr in auto)
  next
    case 3
    then show ?thesis using selected_at_pivot [OF nan lr(1-4) post] same by simp
  qed
qed

lemma sselect_fuel_correct:
  assumes "kd_wf a" "is_axis inc" "window_narrows M (length (idxs a))"
    and "0 \<le> l" "r < int (length (idxs a))" "0 \<le> k" "k < int (length (idxs a))" "nat (r - l) < fuel"
  shows "\<exists>a'. sselect_fuel fuel M a k l r inc = Some a' \<and> kd_wf a' \<and> length (idxs a') = length (idxs a)
    \<and> reordered (min l k) (max r k) (items a) (items a')
    \<and> (l \<le> k \<longrightarrow> k \<le> r \<longrightarrow> nan_free inc (items a) \<longrightarrow> selected inc (items a') k l r)"
  using assms
proof (induction fuel arbitrary: a l r)
  case 0
  then show ?case by simp
next
  case (Suc fuel)
  note inc = Suc.prems(2)
  show ?case
  proof (cases "r > l")
    case False
    then show ?thesis using Suc.prems by (auto simp: selected_def)
  next
    case True
    obtain a1 where a1: "(if r - l > 600
        then (case sample_window M k l r of (nl, nr) \<Rightarrow> sselect_fuel fuel M a k nl nr inc)
        else Some a) = Some a1" "kd_wf a1" "length (idxs a1) = length (idxs a)"
      "reordered (min l k) (max r k) (items a) (items a1)"
    proof (cases "r - l > 600")
      case False
      then show thesis using that [of a] Suc.prems by simp
    next
      case big: True
      obtain nl nr where w: "sample_window M k l r = (nl, nr)" by (cases "sample_window M k l r")
      have c: "l \<le> nl" "nr \<le> r" using sample_window_clamped [OF w] by auto
      have "(nl, nr) \<noteq> (l, r)" using Suc.prems(3,4,5,6,7) big w by (auto simp: window_narrows_def)
      then have "nat (nr - nl) < fuel" using c Suc.prems(8) True by auto
      then obtain a' where a': "sselect_fuel fuel M a k nl nr inc = Some a'" "kd_wf a'"
        "length (idxs a') = length (idxs a)" "reordered (min nl k) (max nr k) (items a) (items a')"
        using Suc.IH [OF Suc.prems(1-3), of nl nr] Suc.prems(4-7) c by auto
      have "reordered (min l k) (max r k) (items a) (items a')"
        by (rule reordered_mono [OF a'(4)]) (use c in auto)
      then show thesis using that [of a'] a' w big by simp
    qed
    obtain a2 j x where s: "select_round a1 k l r inc = Some (a2, j)" "kd_wf a2"
      "length (idxs a2) = length (idxs a1)" "l \<le> j" "j \<le> r"
      "reordered (min l k) (max r k) (items a1) (items a2)"
      and post: "\<forall>p. l \<le> p \<longrightarrow> p < j \<longrightarrow> \<not> x < axis_of inc (items a2 ! nat p)"
      "\<forall>p. j < p \<longrightarrow> p \<le> r \<longrightarrow> \<not> axis_of inc (items a2 ! nat p) < x"
      "axis_of inc (items a2 ! nat j) = x \<or> f_eq (axis_of inc (items a2 ! nat j)) x"
      using select_round_correct [OF a1(2) inc Suc.prems(4) _ True Suc.prems(6)]
        Suc.prems(5,7) a1(3) by metis
    define l' where "l' = (if j \<le> k then j + 1 else l)"
    define r' where "r' = (if k \<le> j then j - 1 else r)"
    have lr': "l \<le> l'" "r' \<le> r" "nat (r' - l') < fuel"
      using s(4,5) Suc.prems(8) True by (auto simp: l'_def r'_def)
    have n2: "length (idxs a2) = length (idxs a)" using s(3) a1(3) by simp
    obtain a3 where a3: "sselect_fuel fuel M a2 k l' r' inc = Some a3" "kd_wf a3"
      "length (idxs a3) = length (idxs a2)" "reordered (min l' k) (max r' k) (items a2) (items a3)"
      and sel: "l' \<le> k \<Longrightarrow> k \<le> r' \<Longrightarrow> nan_free inc (items a2) \<Longrightarrow> selected inc (items a3) k l' r'"
      using Suc.IH [of a2 l' r'] s(2) n2 inc lr' Suc.prems(3-7) by auto
    have run: "sselect_fuel (Suc fuel) M a k l r inc = Some a3"
      using True a1(1) s(1) a3(1) by (simp add: l'_def r'_def)
    have "reordered (min l k) (max r k) (items a2) (items a3)"
      by (rule reordered_mono [OF a3(4)]) (use lr' in auto)
    then have re: "reordered (min l k) (max r k) (items a) (items a3)"
      using a1(4) s(6) by (meson reordered_trans)
    have "selected inc (items a3) k l r" if k: "l \<le> k" "k \<le> r" and nan: "nan_free inc (items a)"
    proof (rule selected_around [OF _ _ Suc.prems(4) _ s(4,5) k a3(4) _ l'_def r'_def _ post])
      show nan2: "nan_free inc (items a2)"
        using nan nan_free_reordered [OF a1(4)] nan_free_reordered [OF s(6)] by simp
      show "selected inc (items a3) k l' r'" if "l' \<le> k" "k \<le> r'" using sel that nan2 by blast
      show "items a3 = items a2" if "j = k" using that a3(1) by (cases fuel) (auto simp: l'_def r'_def)
    qed (use a3(3) Suc.prems(5) n2 in simp_all)
    then show ?thesis using run a3(2,3) n2 re by simp
  qed
qed

subsection \<open>The sorted index\<close>

text \<open>
  What the sort establishes: a segment of at most \<open>node_size + 1\<close> items is in any order, a
  longer one has its middle item split it along the axis of its depth, and both halves
  are k-d trees on the other axis.
\<close>

function kd_tree :: "nat \<Rightarrow> (int \<times> f64 \<times> f64) list \<Rightarrow> int \<Rightarrow> int \<Rightarrow> int \<Rightarrow> bool" where
  "kd_tree node_size xs l r depth =
     (if r - l \<le> int node_size then True
      else selected (depth mod 2) xs (midpoint l r) l r
        \<and> kd_tree node_size xs l (midpoint l r - 1) (depth + 1)
        \<and> kd_tree node_size xs (midpoint l r + 1) r (depth + 1))"
  by pat_completeness auto
termination
  by (relation "measure (\<lambda>(ns, xs, l, r, depth). nat (r - l + 1))") (auto simp: midpoint_def)

declare kd_tree.simps [simp del]

text \<open>The points as items, in the order of the input.\<close>

definition item_of :: "'a point list \<Rightarrow> nat \<Rightarrow> int \<times> f64 \<times> f64" where
  "item_of ps i = (int i, pX (ps ! i), pY (ps ! i))"

definition bush_items :: "'a point list \<Rightarrow> (int \<times> f64 \<times> f64) list" where
  "bush_items ps = map (item_of ps) [0..<length ps]"

definition no_nan :: "'a point list \<Rightarrow> bool" where
  "no_nan ps \<longleftrightarrow> (\<forall>p \<in> set ps. \<not> is_nan (pX p) \<and> \<not> is_nan (pY p))"

text \<open>The invariant of a built index: its items are the points, each exactly once.\<close>

definition bush_ok :: "'a kdbush \<Rightarrow> bool" where
  "bush_ok b \<longleftrightarrow> kd_wf (arrays b) \<and> mset (items (arrays b)) = mset (bush_items (points b))"

definition bush_sorted :: "'a kdbush \<Rightarrow> bool" where
  "bush_sorted b \<longleftrightarrow> kd_tree (nodeSize b) (items (arrays b)) 0 (int (length (idxs (arrays b))) - 1) 0"

lemma midpoint_between: "l < r \<Longrightarrow> l \<le> midpoint l r \<and> midpoint l r < r"
  by (auto simp: midpoint_def)

lemma axis_mod [simp]: "is_axis (d mod 2)"
  by (auto simp: is_axis_def)

lemma kd_tree_cong:
  assumes "\<And>p. l \<le> p \<Longrightarrow> p \<le> r \<Longrightarrow> ys ! nat p = xs ! nat p"
  shows "kd_tree ns ys l r d = kd_tree ns xs l r d"
  using assms
proof (induction ns xs l r d rule: kd_tree.induct)
  case (1 ns xs l r d)
  show ?case
  proof (cases "r - l \<le> int ns")
    case True
    then show ?thesis by (simp add: kd_tree.simps [of ns _ l r])
  next
    case False
    then have m: "l \<le> midpoint l r" "midpoint l r < r" using midpoint_between [of l r] by auto
    have "selected (d mod 2) ys (midpoint l r) l r = selected (d mod 2) xs (midpoint l r) l r"
      unfolding selected_def using 1(3) m by auto
    moreover have "kd_tree ns ys l (midpoint l r - 1) (d + 1) = kd_tree ns xs l (midpoint l r - 1) (d + 1)"
      by (rule 1(1) [OF False]) (use 1(3) m in auto)
    moreover have "kd_tree ns ys (midpoint l r + 1) r (d + 1) = kd_tree ns xs (midpoint l r + 1) r (d + 1)"
      by (rule 1(2) [OF False]) (use 1(3) m in auto)
    ultimately show ?thesis using False by (simp add: kd_tree.simps [of ns _ l r])
  qed
qed

lemma selected_reordered:
  assumes sel: "selected inc xs k l r" and b: "0 \<le> l" "r < int (length xs)" and k: "l \<le> k" "k \<le> r"
    and re: "reordered l (k - 1) xs ys \<or> reordered (k + 1) r xs ys"
  shows "selected inc ys k l r"
proof -
  have "ys ! nat k = xs ! nat k"
    using re reordered_outside [of _ _ xs ys k] b k by auto
  moreover have "\<exists>q. l \<le> q \<and> q < k \<and> ys ! nat p = xs ! nat q" if "l \<le> p" "p < k" for p
    using re
  proof
    assume R: "reordered l (k - 1) xs ys"
    show ?thesis using reordered_inside [OF R, of p] that b k by force
  next
    assume R: "reordered (k + 1) r xs ys"
    show ?thesis using reordered_outside [OF R, of p] that b k by force
  qed
  moreover have "\<exists>q. k < q \<and> q \<le> r \<and> ys ! nat p = xs ! nat q" if p: "k < p" "p \<le> r" for p
    using re
  proof
    assume R: "reordered l (k - 1) xs ys"
    show ?thesis using reordered_outside [OF R, of p] p b k by force
  next
    assume R: "reordered (k + 1) r xs ys"
    obtain q where "k + 1 \<le> q" "q \<le> r" "ys ! nat p = xs ! nat q"
      using reordered_inside [OF R _ b(2), of p] p b k by auto
    then show ?thesis by (intro exI [of _ q]) auto
  qed
  ultimately show ?thesis using sel unfolding selected_def by metis
qed

lemma kd_sort_correct:
  assumes "kd_wf a" "window_narrows M (length (idxs a))" "0 \<le> l" "r < int (length (idxs a))"
  shows "\<exists>a'. kd_sort M a ns l r d = Some a' \<and> kd_wf a' \<and> length (idxs a') = length (idxs a)
    \<and> reordered l r (items a) (items a')
    \<and> (nan_free 0 (items a) \<longrightarrow> nan_free 1 (items a) \<longrightarrow> kd_tree ns (items a') l r d)"
  using assms
proof (induction "nat (r - l + 1)" arbitrary: a l r d rule: less_induct)
  case less
  note prems = less.prems
  show ?case
  proof (cases "r - l \<le> int ns")
    case True
    then show ?thesis using prems by (simp add: kd_sort.simps [of M a] kd_tree.simps [of ns _ l r])
  next
    case False
    define m where "m = midpoint l r"
    have m: "l \<le> m" "m < r" using midpoint_between [of l r] False by (auto simp: m_def)
    obtain a1 where a1: "sselect M a m l r (d mod 2) = Some a1" "kd_wf a1" "length (idxs a1) = length (idxs a)"
      "reordered l r (items a) (items a1)"
      "nan_free (d mod 2) (items a) \<Longrightarrow> selected (d mod 2) (items a1) m l r"
      using sselect_fuel_correct [OF prems(1) axis_mod [of d] prems(2-4), of m "nat (r - l) + 1"] m prems
      by (auto simp: sselect_def)
    obtain a2 where a2: "kd_sort M a1 ns l (m - 1) (d + 1) = Some a2" "kd_wf a2"
      "length (idxs a2) = length (idxs a1)" "reordered l (m - 1) (items a1) (items a2)"
      "nan_free 0 (items a1) \<Longrightarrow> nan_free 1 (items a1) \<Longrightarrow> kd_tree ns (items a2) l (m - 1) (d + 1)"
      using less.hyps [of "m - 1" l a1 "d + 1"] a1(2,3) m prems by auto
    obtain a3 where a3: "kd_sort M a2 ns (m + 1) r (d + 1) = Some a3" "kd_wf a3"
      "length (idxs a3) = length (idxs a2)" "reordered (m + 1) r (items a2) (items a3)"
      "nan_free 0 (items a2) \<Longrightarrow> nan_free 1 (items a2) \<Longrightarrow> kd_tree ns (items a3) (m + 1) r (d + 1)"
      using less.hyps [of r "m + 1" a2 "d + 1"] a2(2,3) a1(3) m prems by auto
    have run: "kd_sort M a ns l r d = Some a3"
      using False a1(1) a2(1) a3(1) by (simp add: kd_sort.simps [of M a] m_def)
    have "reordered l r (items a1) (items a2)"
      by (rule reordered_mono [OF a2(4)]) (use m in auto)
    moreover have "reordered l r (items a2) (items a3)"
      by (rule reordered_mono [OF a3(4)]) (use m in auto)
    ultimately have re: "reordered l r (items a) (items a3)" using a1(4) by (meson reordered_trans)
    have "kd_tree ns (items a3) l r d" if nan: "nan_free 0 (items a)" "nan_free 1 (items a)"
    proof -
      have nan1: "nan_free i (items a1) = nan_free i (items a)" "nan_free i (items a2) = nan_free i (items a)" for i
        using nan_free_reordered [OF a1(4)] nan_free_reordered [OF a2(4)] by auto
      have ax: "nan_free (d mod 2) (items a)" using nan by (cases "d mod 2 = 0") auto
      have "selected (d mod 2) (items a2) m l r"
        by (rule selected_reordered [OF a1(5) [OF ax]]) (use m prems a1(3) a2(4) in auto)
      then have s: "selected (d mod 2) (items a3) m l r"
        by (rule selected_reordered) (use m prems a1(3) a2(3) a3(4) in auto)
      have "kd_tree ns (items a3) l (m - 1) (d + 1)"
        using a2(5) nan nan1 kd_tree_cong [of l "m - 1" "items a3" "items a2"]
          reordered_outside [OF a3(4)] prems m a1(3) a2(3) by simp
      then show ?thesis using False s a3(5) nan nan1 by (simp add: kd_tree.simps [of ns _ l r] m_def)
    qed
    then show ?thesis using run a3(2,3) a2(3) a1(3) re by simp
  qed
qed

lemma initial_coords:
  "length (concat (map (\<lambda>v. [pX v, pY v]) ps)) = 2 * length ps"
  "i < length ps \<Longrightarrow> concat (map (\<lambda>v. [pX v, pY v]) ps) ! (2 * i) = pX (ps ! i)"
  "i < length ps \<Longrightarrow> concat (map (\<lambda>v. [pX v, pY v]) ps) ! Suc (2 * i) = pY (ps ! i)"
proof (induction ps arbitrary: i)
  case (Cons p ps)
  { case 1 show ?case using Cons(1) by simp }
  { case 2 then show ?case using Cons(2) by (cases i) auto }
  { case 3 then show ?case using Cons(3) by (cases i) auto }
qed auto

lemma initial_arrays_ok: "kd_wf (initial_arrays ps)" "items (initial_arrays ps) = bush_items ps"
  "length (idxs (initial_arrays ps)) = length ps"
  by (auto simp: kd_wf_def initial_arrays_def initial_coords items_def bush_items_def item_def item_of_def
      intro!: map_cong)

lemma nan_free_bush_items: "no_nan ps \<Longrightarrow> nan_free i (bush_items ps)"
  by (auto simp: no_nan_def nan_free_def bush_items_def item_of_def axis_of_def)

lemma NewBush_ok:
  assumes "window_narrows M (length ps)"
  obtains b where "NewBush M ps ns = Some b" "nodeSize b = ns" "points b = ps" "bush_ok b"
    "no_nan ps \<Longrightarrow> bush_sorted b"
proof -
  obtain a where a: "kd_sort M (initial_arrays ps) ns 0 (int (length ps) - 1) 0 = Some a" "kd_wf a"
    "length (idxs a) = length ps" "reordered 0 (int (length ps) - 1) (bush_items ps) (items a)"
    "nan_free 0 (bush_items ps) \<Longrightarrow> nan_free 1 (bush_items ps) \<Longrightarrow> kd_tree ns (items a) 0 (int (length ps) - 1) 0"
    using kd_sort_correct [of "initial_arrays ps" M 0 "int (length ps) - 1" ns 0] assms
    by (auto simp: initial_arrays_ok)
  show thesis
    by (rule that [of "\<lparr>nodeSize = ns, points = ps, arrays = a\<rparr>"])
      (use a in \<open>auto simp: NewBush_def buildIndex_def bush_ok_def reordered_def bush_sorted_def nan_free_bush_items\<close>)
qed

subsection \<open>Properties\<close>

text \<open>
  C21. The selection moves the item that belongs at position \<open>k\<close> of the segment there: it
  always returns, permutes only the segment, and with no NaN among the coordinates every
  item before \<open>k\<close> is at most, every item after \<open>k\<close> at least, the item at \<open>k\<close>.
\<close>

theorem sselect_selects:
  assumes "kd_wf a" and "is_axis inc" and "window_narrows M (length (idxs a))"
    and "0 \<le> left" and "left \<le> k" and "k \<le> right" and "right < int (length (idxs a))"
  shows "\<exists>a'. sselect M a k left right inc = Some a' \<and> kd_wf a' \<and> reordered left right (items a) (items a')
    \<and> (nan_free inc (items a) \<longrightarrow>
        (\<forall>p. left \<le> p \<and> p < k \<longrightarrow> axis_of inc (items a' ! nat p) \<le> axis_of inc (items a' ! nat k))
        \<and> (\<forall>p. k < p \<and> p \<le> right \<longrightarrow> axis_of inc (items a' ! nat k) \<le> axis_of inc (items a' ! nat p)))"
  using sselect_fuel_correct [of a inc M left right k "nat (right - left) + 1"] assms
  by (auto simp: sselect_def selected_def)

definition sample_lib :: mathlib where
  "sample_lib = \<lparr>m_log = \<lambda>_. nan64, m_exp = \<lambda>_. nan64, m_sqrt = \<lambda>_. nan64\<rparr>"

definition sample_arrays :: kd_arrays where
  "sample_arrays = \<lparr>idxs = [0, 1, 2], coords = [f64_of_int 5, f64_of_int 1, f64_of_int 3, f64_of_int 2, f64_of_int 9, f64_of_int 4]\<rparr>"

lemma sselect_selects_witness:
  "\<exists>a'. sselect sample_lib sample_arrays 1 0 2 0 = Some a' \<and> kd_wf a'
    \<and> axis_of 0 (items a' ! 0) \<le> axis_of 0 (items a' ! 1)"
proof -
  have "kd_wf sample_arrays" "nan_free 0 (items sample_arrays)" "length (idxs sample_arrays) = 3"
    by (simp_all add: sample_arrays_def kd_wf_def nan_free_def items_def item_def axis_of_def upt_rec)
  then show ?thesis
    using sselect_selects [of sample_arrays 0 sample_lib 0 1 2]
    by (auto simp: is_axis_def small_window_narrows)
qed

end
