(* ===== verification/CacheModel.thy ===== *)
theory CacheModel
  imports BorderTree Float32 Stream KDBush
begin

section \<open>What a cache file holds\<close>

text \<open>
  The points, zones and metadata of \<^verbatim>\<open>cachesaver/model/models.go\<close>, the \<^verbatim>\<open>geomodel\<close> types, the
  protobuf messages of the two formats and the conversions of zone geometry
  (\<^verbatim>\<open>save/v1/polygon.go\<close> and \<^verbatim>\<open>save/v2/polygon.go\<close>). A \<open>unique.Handle\<close> of a string is the
  string. A message behind a pointer that may be nil is an option.
\<close>

record cache_info =
  ci_Name :: gostring
  ci_Street :: gostring
  ci_HouseNumber :: gostring
  ci_City :: gostring
  ci_Region :: gostring
  ci_Weight :: byte

type_synonym cache_point = "cache_info point"

text \<open>\<open>orb.Bound\<close> is its corners \<open>Min\<close> and \<open>Max\<close>; an \<open>orb.Point\<close> is longitude, latitude.\<close>

type_synonym orb_bound = "orb_point \<times> orb_point"

definition ZoneRegion :: byte where
  "ZoneRegion = 1"

definition ZoneCountry :: byte where
  "ZoneCountry = 2"

record zone =
  z_Type :: byte
  z_Name :: gostring
  z_Bounds :: orb_bound
  z_Polygon :: multi_polygon

record 't metadata =
  md_Version :: u32
  md_Locale :: gostring
  md_DateCreated :: 't

record geo_model_info =
  Name :: gostring
  Street :: gostring
  HouseNumber :: gostring
  City :: gostring
  Region :: gostring
  Country :: gostring
  gm_Weight :: byte

definition empty_info :: geo_model_info where
  "empty_info = \<lparr>Name = [], Street = [], HouseNumber = [], City = [], Region = [], Country = [], gm_Weight = 0\<rparr>"

subsection \<open>Messages\<close>

record lat_lon =
  Lat :: f32
  Lon :: f32

record pb_bounds =
  pb_Max :: "lat_lon option"
  pb_Min :: "lat_lon option"

type_synonym pb_multi_polygon = "lat_lon list list list"

record cache_metadata =
  cm_Version :: u32
  cm_DateCreated :: gostring
  cm_Locale :: gostring

subsection \<open>Conversions, v2\<close>

definition lat_lon_of :: "orb_point \<Rightarrow> lat_lon" where
  "lat_lon_of p = \<lparr>Lat = float32 (snd p), Lon = float32 (fst p)\<rparr>"

definition orb_of :: "lat_lon \<Rightarrow> orb_point" where
  "orb_of l = (float64 (Lon l), float64 (Lat l))"

definition mapBoundsToV2 :: "orb_bound \<Rightarrow> pb_bounds" where
  "mapBoundsToV2 bounds = \<lparr>pb_Max = Some (lat_lon_of (snd bounds)), pb_Min = Some (lat_lon_of (fst bounds))\<rparr>"

definition zero_bound :: orb_bound where
  "zero_bound = ((0, 0), (0, 0))"

definition mapBoundsFromV2 :: "pb_bounds option \<Rightarrow> orb_bound option" where
  "mapBoundsFromV2 bounds =
     (case bounds of
        None \<Rightarrow> Some zero_bound
      | Some b \<Rightarrow>
          (case (pb_Min b, pb_Max b) of
             (Some mn, Some mx) \<Rightarrow> Some (orb_of mn, orb_of mx)
           | _ \<Rightarrow> None))"

definition mapMultiPolygonToV2 :: "multi_polygon \<Rightarrow> pb_multi_polygon" where
  "mapMultiPolygonToV2 mpolygon = map (map (map (\<lambda>point. \<lparr>Lat = float32 (snd point), Lon = float32 (fst point)\<rparr>))) mpolygon"

definition mapMultiPolygonFromV2 :: "pb_multi_polygon option \<Rightarrow> multi_polygon" where
  "mapMultiPolygonFromV2 mpolygon =
     (case mpolygon of
        None \<Rightarrow> []
      | Some polys \<Rightarrow> map (map (map (\<lambda>point. (float64 (Lon point), float64 (Lat point))))) polys)"

subsection \<open>Conversions, v1\<close>

definition mapBoundsFromOrb :: "orb_bound \<Rightarrow> pb_bounds" where
  "mapBoundsFromOrb bounds = \<lparr>pb_Max = Some (lat_lon_of (snd bounds)), pb_Min = Some (lat_lon_of (fst bounds))\<rparr>"

text \<open>A nil message panics.\<close>

definition mapBoundsToOrb :: "pb_bounds option \<Rightarrow> orb_bound option" where
  "mapBoundsToOrb bounds = do {
     b \<leftarrow> bounds;
     mn \<leftarrow> pb_Min b;
     mx \<leftarrow> pb_Max b;
     Some (orb_of mn, orb_of mx)
   }"

definition mapMultiPolygonFromOrb :: "multi_polygon \<Rightarrow> pb_multi_polygon" where
  "mapMultiPolygonFromOrb mpolygon = map (map (map (\<lambda>point. \<lparr>Lat = float32 (snd point), Lon = float32 (fst point)\<rparr>))) mpolygon"

definition mapMultiPolygonToOrb :: "pb_multi_polygon option \<Rightarrow> multi_polygon option" where
  "mapMultiPolygonToOrb mpolygon =
     map_option (map (map (map (\<lambda>point. (float64 (Lon point), float64 (Lat point)))))) mpolygon"

subsection \<open>Geometry after a round trip\<close>

text \<open>
  Every coordinate becomes the nearest \<open>float32\<close>; the shape of the polygons is kept, and
  since rounding is monotone every vertex in the stored box stays in the stored box.
\<close>

definition stored_point :: "orb_point \<Rightarrow> orb_point" where
  "stored_point p = (stored32 (fst p), stored32 (snd p))"

definition stored_bound :: "orb_bound \<Rightarrow> orb_bound" where
  "stored_bound b = (stored_point (fst b), stored_point (snd b))"

definition stored_polygon :: "multi_polygon \<Rightarrow> multi_polygon" where
  "stored_polygon = map (map (map stored_point))"

definition stored_zone :: "zone \<Rightarrow> zone" where
  "stored_zone z = z\<lparr>z_Bounds := stored_bound (z_Bounds z), z_Polygon := stored_polygon (z_Polygon z)\<rparr>"

lemma orb_of_lat_lon [simp]: "orb_of (lat_lon_of p) = stored_point p"
  by (simp add: orb_of_def lat_lon_of_def stored_point_def stored32_def)

lemma bounds_v2 [simp]: "mapBoundsFromV2 (Some (mapBoundsToV2 b)) = Some (stored_bound b)"
  by (simp add: mapBoundsFromV2_def mapBoundsToV2_def stored_bound_def)

lemma bounds_v1 [simp]: "mapBoundsToOrb (Some (mapBoundsFromOrb b)) = Some (stored_bound b)"
  by (simp add: mapBoundsToOrb_def mapBoundsFromOrb_def stored_bound_def)

lemma polygon_v2 [simp]: "mapMultiPolygonFromV2 (Some (mapMultiPolygonToV2 m)) = stored_polygon m"
  by (simp add: mapMultiPolygonFromV2_def mapMultiPolygonToV2_def stored_polygon_def stored_point_def stored32_def)

lemma polygon_v1 [simp]: "mapMultiPolygonToOrb (Some (mapMultiPolygonFromOrb m)) = Some (stored_polygon m)"
  by (simp add: mapMultiPolygonToOrb_def mapMultiPolygonFromOrb_def stored_polygon_def stored_point_def stored32_def)

lemma stored_polygon_idem: "stored_polygon (stored_polygon m) = stored_polygon m"
  by (simp add: stored_polygon_def stored_point_def stored32_idem)

lemma stored_in_rect: "in_rect b p \<Longrightarrow> in_rect (stored_bound b) (stored_point p)"
  by (simp add: in_rect_def stored_bound_def stored_point_def stored32_mono)

end
