(* ===== verification/KDBush_Query.thy ===== *)
theory KDBush_Query
  imports KDBush
begin

section \<open>The in-memory k-d tree: queries\<close>

text \<open>
  \<^verbatim>\<open>kdbush/kdbush.go\<close>, \<open>Range\<close> and \<open>Within\<close>. Both walk the tree with an explicit
  stack of \<open>(left, right, axis)\<close> frames, three integers each in the code; the head of
  the list is the top. \<open>visit\<close> is the recursive traversal they implement, shared with
  the on-disk queries.
\<close>

subsection \<open>Range\<close>

record box =
  q_minX :: f64
  q_minY :: f64
  q_maxX :: f64
  q_maxY :: f64

definition in_box :: "box \<Rightarrow> f64 \<Rightarrow> f64 \<Rightarrow> bool" where
  "in_box q x y \<longleftrightarrow> x \<ge> q_minX q \<and> x \<le> q_maxX q \<and> y \<ge> q_minY q \<and> y \<le> q_maxY q"

definition range_leaf :: "'a kdbush \<Rightarrow> box \<Rightarrow> int \<Rightarrow> int \<Rightarrow> int list \<Rightarrow> int list option" where
  "range_leaf b q left right result =
     for_each (\<lambda>i result. do {
         x \<leftarrow> get (coords (arrays b)) (2 * i);
         y \<leftarrow> get (coords (arrays b)) (2 * i + 1);
         (if in_box q x y then do { ix \<leftarrow> get (idxs (arrays b)) i; Some (result @ [ix]) }
          else Some result)
       }) [left..right] result"

text \<open>The work left on a stack: every iteration pops a frame and pushes smaller ones.\<close>

definition frame_weight :: "int \<times> int \<times> int \<Rightarrow> nat" where
  "frame_weight f = (case f of (left, right, axis) \<Rightarrow> 2 * nat (right - left + 1) + 1)"

lemma frame_weight_halves:
  assumes "l \<le> r"
  shows "frame_weight (l, midpoint l r - 1, a) + frame_weight (midpoint l r + 1, r, a') < frame_weight (l, r, a'')
    \<and> frame_weight (l, midpoint l r - 1, a) < frame_weight (l, r, a'')
    \<and> frame_weight (midpoint l r + 1, r, a') < frame_weight (l, r, a'')
    \<and> 0 < frame_weight (l, r, a'')"
proof -
  have "l \<le> midpoint l r" "midpoint l r \<le> r" using assms by (auto simp: midpoint_def)
  then show ?thesis by (auto simp: frame_weight_def)
qed

lemma frame_weight_pos: "0 < frame_weight f"
  by (simp add: frame_weight_def split: prod.splits)

function range_loop :: "'a kdbush \<Rightarrow> box \<Rightarrow> (int \<times> int \<times> int) list \<Rightarrow> int list \<Rightarrow> int list option" where
  "range_loop b q [] result = Some result"
| "range_loop b q ((left, right, axis) # stack) result =
     (if right - left \<le> int (nodeSize b)
      then (case range_leaf b q left right result of
              None \<Rightarrow> None
            | Some result \<Rightarrow> range_loop b q stack result)
      else
        let m = midpoint left right; nextAxis = (axis + 1) mod 2 in
        (case (get (coords (arrays b)) (2 * m), get (coords (arrays b)) (2 * m + 1)) of
           (Some x, Some y) \<Rightarrow>
             (case (if in_box q x y then do { ix \<leftarrow> get (idxs (arrays b)) m; Some (result @ [ix]) }
                    else Some result) of
                None \<Rightarrow> None
              | Some result \<Rightarrow>
                  range_loop b q
                    ((if (axis = 0 \<and> q_maxX q \<ge> x) \<or> (axis \<noteq> 0 \<and> q_maxY q \<ge> y)
                      then [(m + 1, right, nextAxis)] else [])
                     @ (if (axis = 0 \<and> q_minX q \<le> x) \<or> (axis \<noteq> 0 \<and> q_minY q \<le> y)
                        then [(left, m - 1, nextAxis)] else [])
                     @ stack) result)
         | _ \<Rightarrow> None))"
  by pat_completeness auto
termination
proof (relation "measure (\<lambda>(b, q, stack, result). sum_list (map frame_weight stack))", goal_cases)
  case (3 b q left right axis stack result m nextAxis)
  then have "left \<le> right" by simp
  from frame_weight_halves [OF this, of nextAxis nextAxis axis] show ?case using 3 by (auto simp: add_strict_mono)
qed (auto simp: frame_weight_pos)

declare range_loop.simps [simp del]

definition Range :: "'a kdbush \<Rightarrow> f64 \<Rightarrow> f64 \<Rightarrow> f64 \<Rightarrow> f64 \<Rightarrow> int list option" where
  "Range b minX minY maxX maxY =
     range_loop b \<lparr>q_minX = minX, q_minY = minY, q_maxX = maxX, q_maxY = maxY\<rparr>
       [(0, int (length (idxs (arrays b))) - 1, 0)] []"

subsection \<open>Within\<close>

text \<open>
  The handler is a state transformer that says whether to go on. A leaf returns the state
  and whether the query goes on.
\<close>

type_synonym ('a, 's) handler = "'a point \<Rightarrow> 's \<Rightarrow> 's \<times> bool"

record circle =
  c_x :: f64
  c_y :: f64
  c_r :: f64
  c_r2 :: f64

function within_leaf :: "'a kdbush \<Rightarrow> circle \<Rightarrow> ('a, 's) handler \<Rightarrow> int \<Rightarrow> int \<Rightarrow> 's \<Rightarrow> ('s \<times> bool) option" where
  "within_leaf b q h i right s =
     (if i \<le> right then
        (case (get (coords (arrays b)) (2 * i), get (coords (arrays b)) (2 * i + 1)) of
           (Some x, Some y) \<Rightarrow>
             (if sqrtDist x y (c_x q) (c_y q) \<le> c_r2 q then
                (case do { ix \<leftarrow> get (idxs (arrays b)) i; get (points b) ix } of
                   None \<Rightarrow> None
                 | Some p \<Rightarrow>
                     (case h p s of (s, go) \<Rightarrow>
                        if go then within_leaf b q h (i + 1) right s else Some (s, False)))
              else within_leaf b q h (i + 1) right s)
         | _ \<Rightarrow> None)
      else Some (s, True))"
  by pat_completeness auto
termination
  by (relation "measure (\<lambda>(b, q, h, i, right, s). nat (right - i + 1))") auto

declare within_leaf.simps [simp del]

function within_loop :: "'a kdbush \<Rightarrow> circle \<Rightarrow> ('a, 's) handler \<Rightarrow> (int \<times> int \<times> int) list \<Rightarrow> 's \<Rightarrow> 's option" where
  "within_loop b q h [] s = Some s"
| "within_loop b q h ((left, right, axis) # stack) s =
     (if right - left \<le> int (nodeSize b)
      then (case within_leaf b q h left right s of
              None \<Rightarrow> None
            | Some (s, go) \<Rightarrow> if go then within_loop b q h stack s else Some s)
      else
        let m = midpoint left right; nextAxis = (axis + 1) mod 2 in
        (case (get (coords (arrays b)) (2 * m), get (coords (arrays b)) (2 * m + 1)) of
           (Some x, Some y) \<Rightarrow>
             (case (if sqrtDist x y (c_x q) (c_y q) \<le> c_r2 q
                    then do { ix \<leftarrow> get (idxs (arrays b)) m; p \<leftarrow> get (points b) ix; Some (h p s) }
                    else Some (s, True)) of
                None \<Rightarrow> None
              | Some (s, go) \<Rightarrow>
                  if go then
                    within_loop b q h
                      ((if (axis = 0 \<and> c_x q + c_r q \<ge> x) \<or> (axis \<noteq> 0 \<and> c_y q + c_r q \<ge> y)
                        then [(m + 1, right, nextAxis)] else [])
                       @ (if (axis = 0 \<and> c_x q - c_r q \<le> x) \<or> (axis \<noteq> 0 \<and> c_y q - c_r q \<le> y)
                          then [(left, m - 1, nextAxis)] else [])
                       @ stack) s
                  else Some s)
         | _ \<Rightarrow> None))"
  by pat_completeness auto
termination
proof (relation "measure (\<lambda>(b, q, h, stack, s). sum_list (map frame_weight stack))", goal_cases)
  case (3 b q h left right axis stack s m nextAxis)
  then have "left \<le> right" by simp
  from frame_weight_halves [OF this, of nextAxis nextAxis axis] show ?case using 3 by (auto simp: add_strict_mono)
qed (auto simp: frame_weight_pos)

declare within_loop.simps [simp del]

definition Within :: "'a kdbush \<Rightarrow> f64 \<Rightarrow> f64 \<Rightarrow> f64 \<Rightarrow> ('a, 's) handler \<Rightarrow> 's \<Rightarrow> 's option" where
  "Within b qx qy radius h s =
     within_loop b \<lparr>c_x = qx, c_y = qy, c_r = radius, c_r2 = radius * radius\<rparr> h
       [(0, int (length (idxs (arrays b))) - 1, 0)] s"

subsection \<open>The traversal\<close>

text \<open>
  The traversal without a stack: \<open>hit\<close> selects an item, \<open>gl\<close> and \<open>gr\<close> say whether the
  left and the right half are entered, from the axis and the item in the middle.
\<close>

type_synonym item = "int \<times> f64 \<times> f64"

definition seg :: "item list \<Rightarrow> int \<Rightarrow> int \<Rightarrow> item list" where
  "seg xs l r = map (\<lambda>p. xs ! nat p) [l..r]"

function visit :: "nat \<Rightarrow> (item \<Rightarrow> bool) \<Rightarrow> (int \<Rightarrow> item \<Rightarrow> bool) \<Rightarrow> (int \<Rightarrow> item \<Rightarrow> bool)
    \<Rightarrow> item list \<Rightarrow> int \<Rightarrow> int \<Rightarrow> int \<Rightarrow> item list" where
  "visit ns hit gl gr xs l r axis =
     (if r - l \<le> int ns then filter hit (seg xs l r)
      else filter hit [xs ! nat (midpoint l r)]
        @ (if gr axis (xs ! nat (midpoint l r)) then visit ns hit gl gr xs (midpoint l r + 1) r ((axis + 1) mod 2) else [])
        @ (if gl axis (xs ! nat (midpoint l r)) then visit ns hit gl gr xs l (midpoint l r - 1) ((axis + 1) mod 2) else []))"
  by pat_completeness auto
termination
  by (relation "measure (\<lambda>(ns, hit, gl, gr, xs, l, r, axis). nat (r - l + 1))") (auto simp: midpoint_def)

declare visit.simps [simp del]

lemma seg_empty: "r < l \<Longrightarrow> seg xs l r = []"
  by (simp add: seg_def)

lemma seg_Cons: "l \<le> r \<Longrightarrow> seg xs l r = xs ! nat l # seg xs (l + 1) r"
  by (simp add: seg_def upto_rec1)

lemma seg_split: "l \<le> m \<Longrightarrow> m \<le> r \<Longrightarrow> seg xs l r = seg xs l (m - 1) @ xs ! nat m # seg xs (m + 1) r"
  by (simp add: seg_def upto_split3)

lemma seg_all: "seg xs 0 (int (length xs) - 1) = xs"
proof (rule nth_equalityI)
  show "length (seg xs 0 (int (length xs) - 1)) = length xs" by (simp add: seg_def)
  fix i assume "i < length (seg xs 0 (int (length xs) - 1))"
  then show "seg xs 0 (int (length xs) - 1) ! i = xs ! i" by (simp add: seg_def nth_upto)
qed

text \<open>The traversal visits each item of its segment at most once, and only hits.\<close>

lemma visit_sound: "mset (visit ns hit gl gr xs l r axis) \<subseteq># filter_mset hit (mset (seg xs l r))"
proof (induction ns hit gl gr xs l r axis rule: visit.induct)
  case (1 ns hit gl gr xs l r axis)
  show ?case
  proof (cases "r - l \<le> int ns")
    case True
    then show ?thesis by (subst visit.simps) simp
  next
    case False
    let ?m = "midpoint l r"
    have m: "l \<le> ?m" "?m \<le> r" using midpoint_between [of l r] False by auto
    have L: "mset (if gl axis (xs ! nat ?m) then visit ns hit gl gr xs l (?m - 1) ((axis + 1) mod 2) else [])
      \<subseteq># filter_mset hit (mset (seg xs l (?m - 1)))"
      using 1(2) [OF False] by simp
    have R: "mset (if gr axis (xs ! nat ?m) then visit ns hit gl gr xs (?m + 1) r ((axis + 1) mod 2) else [])
      \<subseteq># filter_mset hit (mset (seg xs (?m + 1) r))"
      using 1(1) [OF False] by simp
    have "filter_mset hit (mset (seg xs l r)) = mset (filter hit [xs ! nat ?m])
      + (filter_mset hit (mset (seg xs (?m + 1) r)) + filter_mset hit (mset (seg xs l (?m - 1))))"
      unfolding seg_split [OF m] by simp
    moreover have "mset (visit ns hit gl gr xs l r axis) = mset (filter hit [xs ! nat ?m])
      + (mset (if gr axis (xs ! nat ?m) then visit ns hit gl gr xs (?m + 1) r ((axis + 1) mod 2) else [])
       + mset (if gl axis (xs ! nat ?m) then visit ns hit gl gr xs l (?m - 1) ((axis + 1) mod 2) else []))"
      using False by (subst visit.simps) simp
    ultimately show ?thesis using subset_mset.add_mono [OF subset_mset.order_refl subset_mset.add_mono [OF R L]] by metis
  qed
qed

text \<open>
  What a query owes its traversal: a target is a hit, and a half that is not entered has no
  target. The items considered satisfy \<open>ok\<close>.
\<close>

locale kd_search =
  fixes ok hit target :: "item \<Rightarrow> bool" and gl gr :: "int \<Rightarrow> item \<Rightarrow> bool"
  assumes target_hit: "ok t \<Longrightarrow> target t \<Longrightarrow> hit t"
    and prune_left: "ok t \<Longrightarrow> ok c \<Longrightarrow> axis_of axis t \<le> axis_of axis c \<Longrightarrow> target t \<Longrightarrow> gl axis c"
    and prune_right: "ok t \<Longrightarrow> ok c \<Longrightarrow> axis_of axis c \<le> axis_of axis t \<Longrightarrow> target t \<Longrightarrow> gr axis c"
begin

lemma no_target: "(\<And>t. t \<in> set ts \<Longrightarrow> \<not> target t) \<Longrightarrow> filter_mset target (mset ts) = {#}"
  by (simp add: mset_filter [symmetric] filter_False del: mset_filter)

lemma visit_complete:
  assumes "kd_tree ns xs l r d" "0 \<le> l" "r < int (length xs)" "\<forall>t \<in> set xs. ok t"
  shows "filter_mset target (mset (seg xs l r)) \<subseteq># mset (visit ns hit gl gr xs l r (d mod 2))"
  using assms
proof (induction ns xs l r d rule: kd_tree.induct)
  case (1 ns xs l r d)
  have okp: "ok (xs ! nat p)" if "l \<le> p" "p \<le> r" for p
    using 1(4,5,6) that by (simp add: nat_less_iff)
  show ?case
  proof (cases "r - l \<le> int ns")
    case True
    have "ok t" if "t \<in> set (seg xs l r)" for t using that okp by (auto simp: seg_def)
    then have "t \<in> set (seg xs l r) \<Longrightarrow> target t \<Longrightarrow> hit t" for t by (metis target_hit)
    then have "filter_mset target (mset (seg xs l r)) \<subseteq># filter_mset hit (mset (seg xs l r))"
      by (intro filter_mset_mono_strong) auto
    then show ?thesis using True by (subst visit.simps) simp
  next
    case False
    let ?m = "midpoint l r"
    let ?c = "xs ! nat ?m"
    have m: "l \<le> ?m" "?m \<le> r" using midpoint_between [of l r] False by auto
    have sel: "selected (d mod 2) xs ?m l r" and tl: "kd_tree ns xs l (?m - 1) (d + 1)"
      and tr: "kd_tree ns xs (?m + 1) r (d + 1)"
      using 1(3) False by (simp_all add: kd_tree.simps [of ns xs l r])
    have ax: "(d mod 2 + 1) mod 2 = (d + 1) mod 2" by (simp add: mod_simps)
    have L: "filter_mset target (mset (seg xs l (?m - 1)))
      \<subseteq># mset (if gl (d mod 2) ?c then visit ns hit gl gr xs l (?m - 1) ((d + 1) mod 2) else [])"
    proof (cases "gl (d mod 2) ?c")
      case True
      then show ?thesis using 1(1) [OF False tl 1(4)] 1(5,6) m by simp
    next
      case f: False
      have "\<not> target t" if t: "t \<in> set (seg xs l (?m - 1))" for t
      proof -
        obtain p where p: "l \<le> p" "p < ?m" "t = xs ! nat p" using t by (auto simp: seg_def)
        then have "axis_of (d mod 2) t \<le> axis_of (d mod 2) ?c" using sel by (simp add: selected_def)
        then show ?thesis using f prune_left okp [of p] okp [OF m] p m by fastforce
      qed
      then show ?thesis by (simp add: no_target)
    qed
    have R: "filter_mset target (mset (seg xs (?m + 1) r))
      \<subseteq># mset (if gr (d mod 2) ?c then visit ns hit gl gr xs (?m + 1) r ((d + 1) mod 2) else [])"
    proof (cases "gr (d mod 2) ?c")
      case True
      then show ?thesis using 1(2) [OF False tr] 1(4,5,6) m by simp
    next
      case f: False
      have "\<not> target t" if t: "t \<in> set (seg xs (?m + 1) r)" for t
      proof -
        obtain p where p: "?m + 1 \<le> p" "p \<le> r" "t = xs ! nat p" using t by (auto simp: seg_def)
        then have "axis_of (d mod 2) ?c \<le> axis_of (d mod 2) t" using sel by (simp add: selected_def)
        then show ?thesis using f prune_right okp [of p] okp [OF m] p m by fastforce
      qed
      then show ?thesis by (simp add: no_target)
    qed
    have C: "filter_mset target {#?c#} \<subseteq># mset (filter hit [?c])"
      using target_hit okp m by auto
    have "filter_mset target (mset (seg xs l r)) = filter_mset target {#?c#}
      + (filter_mset target (mset (seg xs (?m + 1) r)) + filter_mset target (mset (seg xs l (?m - 1))))"
      unfolding seg_split [OF m] by simp
    moreover have "mset (visit ns hit gl gr xs l r (d mod 2)) = mset (filter hit [?c])
      + (mset (if gr (d mod 2) ?c then visit ns hit gl gr xs (?m + 1) r ((d + 1) mod 2) else [])
       + mset (if gl (d mod 2) ?c then visit ns hit gl gr xs l (?m - 1) ((d + 1) mod 2) else []))"
      using False ax by (subst visit.simps) simp
    ultimately show ?thesis using subset_mset.add_mono [OF C subset_mset.add_mono [OF R L]] by metis
  qed
qed

end

lemma for_each_append_list:
  assumes "\<And>x s. x \<in> set xs \<Longrightarrow> f x s = Some (s @ g x)"
  shows "for_each f xs s = Some (s @ concat (map g xs))"
  using for_each_total [of xs f "\<lambda>x s. s @ g x"] assms by (simp add: fold_append_if)

lemma concat_map_filter: "concat (map (\<lambda>i. if P (f i) then [g (f i)] else []) is) = map g (filter P (map f is))"
  by (induction "is") auto

definition tx :: "item \<Rightarrow> f64" where "tx t = fst (snd t)"
definition ty :: "item \<Rightarrow> f64" where "ty t = snd (snd t)"

lemma axis_of_xy: "axis_of axis t = (if axis = 0 then tx t else ty t)"
  by (simp add: axis_of_def tx_def ty_def)

lemma get_item:
  assumes "kd_wf a" "0 \<le> i" "i < int (length (idxs a))"
  shows "get (coords a) (2 * i) = Some (tx (items a ! nat i))"
    and "get (coords a) (2 * i + 1) = Some (ty (items a ! nat i))"
    and "get (idxs a) i = Some (fst (items a ! nat i))"
  using get_coord [OF assms(1) _ assms(2,3), of 0] get_coord [OF assms(1) _ assms(2,3), of 1] assms
  by (simp_all add: is_axis_def axis_of_xy item_def)

lemma bush_okD:
  assumes "bush_ok b"
  shows "kd_wf (arrays b)" "length (idxs (arrays b)) = length (points b)"
    "set (items (arrays b)) = item_of (points b) ` {..<length (points b)}"
proof -
  have m: "mset (items (arrays b)) = mset (bush_items (points b))" and "kd_wf (arrays b)"
    using assms by (simp_all add: bush_ok_def)
  then show "kd_wf (arrays b)" by simp
  have "length (items (arrays b)) = length (bush_items (points b))" using m by (metis size_mset)
  then show "length (idxs (arrays b)) = length (points b)" by (simp add: bush_items_def)
  have "set (items (arrays b)) = set (bush_items (points b))" using m by (metis set_mset_mset)
  then show "set (items (arrays b)) = item_of (points b) ` {..<length (points b)}"
    by (auto simp: bush_items_def)
qed

lemma item_of_xy [simp]: "tx (item_of ps i) = pX (ps ! i)" "ty (item_of ps i) = pY (ps ! i)"
  "fst (item_of ps i) = int i"
  by (simp_all add: item_of_def tx_def ty_def)

definition in_rows :: "'a kdbush \<Rightarrow> (int \<times> int \<times> int) list \<Rightarrow> bool" where
  "in_rows b stack \<longleftrightarrow> (\<forall>(l, r, axis) \<in> set stack. 0 \<le> l \<and> r < int (length (idxs (arrays b))))"

subsection \<open>Range implements the traversal\<close>

definition box_hit :: "box \<Rightarrow> item \<Rightarrow> bool" where
  "box_hit q t = in_box q (tx t) (ty t)"

definition box_left :: "box \<Rightarrow> int \<Rightarrow> item \<Rightarrow> bool" where
  "box_left q axis c \<longleftrightarrow> (axis = 0 \<and> q_minX q \<le> tx c) \<or> (axis \<noteq> 0 \<and> q_minY q \<le> ty c)"

definition box_right :: "box \<Rightarrow> int \<Rightarrow> item \<Rightarrow> bool" where
  "box_right q axis c \<longleftrightarrow> (axis = 0 \<and> q_maxX q \<ge> tx c) \<or> (axis \<noteq> 0 \<and> q_maxY q \<ge> ty c)"

interpretation box: kd_search "\<lambda>_. True" "box_hit q" "box_hit q" "box_left q" "box_right q" for q
  by unfold_locales
    (auto simp: box_hit_def box_left_def box_right_def in_box_def axis_of_xy split: if_splits intro: f64_le_trans)

abbreviation box_visit :: "'a kdbush \<Rightarrow> box \<Rightarrow> int \<times> int \<times> int \<Rightarrow> item list" where
  "box_visit b q f \<equiv> (case f of (l, r, axis) \<Rightarrow>
     visit (nodeSize b) (box_hit q) (box_left q) (box_right q) (items (arrays b)) l r axis)"

lemma range_leaf_visit:
  assumes wf: "kd_wf (arrays b)" and lr: "0 \<le> l" "r < int (length (idxs (arrays b)))"
  shows "range_leaf b q l r res = Some (res @ map fst (filter (box_hit q) (seg (items (arrays b)) l r)))"
proof -
  let ?xs = "items (arrays b)"
  have "range_leaf b q l r res
      = Some (res @ concat (map (\<lambda>i. if box_hit q (?xs ! nat i) then [fst (?xs ! nat i)] else []) [l..r]))"
    unfolding range_leaf_def
    by (rule for_each_append_list) (use lr in \<open>auto simp: get_item [OF wf] box_hit_def simp del: items_nth get_in_range\<close>)
  then show ?thesis by (simp add: concat_map_filter [where f = "\<lambda>i. ?xs ! nat i" and g = fst] seg_def)
qed

lemma range_loop_visit:
  assumes "kd_wf (arrays b)" "in_rows b stack"
  shows "range_loop b q stack res = Some (res @ map fst (concat (map (box_visit b q) stack)))"
  using assms
proof (induction b q stack res rule: range_loop.induct)
  case (1 b q res)
  then show ?case by (simp add: range_loop.simps)
next
  case (2 b q left right axis stack res)
  have lr: "0 \<le> left" "right < int (length (idxs (arrays b)))" and rows: "in_rows b stack"
    using 2(4) by (auto simp: in_rows_def)
  show ?case
  proof (cases "right - left \<le> int (nodeSize b)")
    case True
    then show ?thesis using 2(1) 2(3) rows range_leaf_visit [OF 2(3) lr]
      by (simp add: range_loop.simps visit.simps [of _ _ _ _ _ left right])
  next
    case False
    let ?m = "midpoint left right"
    let ?t = "items (arrays b) ! nat ?m"
    have m: "left \<le> ?m" "?m < right" using midpoint_between [of left right] False by auto
    have g: "get (coords (arrays b)) (2 * ?m) = Some (tx ?t)" "get (coords (arrays b)) (2 * ?m + 1) = Some (ty ?t)"
      "get (idxs (arrays b)) ?m = Some (fst ?t)"
      using get_item [OF 2(3), of ?m] m lr by auto
    have h: "(if in_box q (tx ?t) (ty ?t) then do { ix \<leftarrow> get (idxs (arrays b)) ?m; Some (res @ [ix]) } else Some res)
      = Some (res @ map fst (filter (box_hit q) [?t]))"
      using g by (simp add: box_hit_def)
    let ?stack = "(if box_right q axis ?t then [(?m + 1, right, (axis + 1) mod 2)] else [])
      @ (if box_left q axis ?t then [(left, ?m - 1, (axis + 1) mod 2)] else []) @ stack"
    have rows': "in_rows b ?stack" using rows lr m by (auto simp: in_rows_def)
    have IH: "range_loop b q ?stack (res @ map fst (filter (box_hit q) [?t]))
      = Some ((res @ map fst (filter (box_hit q) [?t])) @ map fst (concat (map (box_visit b q) ?stack)))"
      by (rule 2(2) [OF False refl refl refl g(1,2) h 2(3), folded box_left_def box_right_def, OF rows'])
    then have "range_loop b q ((left, right, axis) # stack) res
      = Some ((res @ map fst (filter (box_hit q) [?t])) @ map fst (concat (map (box_visit b q) ?stack)))"
      using False g h by (simp add: range_loop.simps Let_def box_left_def box_right_def del: get_in_range items_nth)
    then show ?thesis using False by (simp add: visit.simps [of _ _ _ _ _ left right])
  qed
qed

subsection \<open>Within implements the traversal\<close>

text \<open>Running the handler over a sequence of points, until it asks to stop.\<close>

fun run_handler :: "('p \<Rightarrow> 's \<Rightarrow> 's \<times> bool) \<Rightarrow> 'p list \<Rightarrow> 's \<Rightarrow> 's \<times> bool" where
  "run_handler h [] s = (s, True)"
| "run_handler h (p # ps) s = (case h p s of (s, go) \<Rightarrow> if go then run_handler h ps s else (s, False))"

lemma run_handler_append:
  "run_handler h (ps @ ps') s = (case run_handler h ps s of (s, go) \<Rightarrow> if go then run_handler h ps' s else (s, False))"
  by (induction ps arbitrary: s) (auto split: prod.splits)

definition point_at :: "'a kdbush \<Rightarrow> item \<Rightarrow> 'a point" where
  "point_at b t = points b ! nat (fst t)"

definition sq_dist :: "circle \<Rightarrow> f64 \<Rightarrow> f64 \<Rightarrow> f64" where
  "sq_dist q x y = sqrtDist x y (c_x q) (c_y q)"

definition circle_hit :: "circle \<Rightarrow> item \<Rightarrow> bool" where
  "circle_hit q t \<longleftrightarrow> sq_dist q (tx t) (ty t) \<le> c_r2 q"

definition circle_inside :: "circle \<Rightarrow> item \<Rightarrow> bool" where
  "circle_inside q t \<longleftrightarrow> sq_dist q (tx t) (ty t) < c_r2 q"

definition circle_left :: "circle \<Rightarrow> int \<Rightarrow> item \<Rightarrow> bool" where
  "circle_left q axis c \<longleftrightarrow> (axis = 0 \<and> c_x q - c_r q \<le> tx c) \<or> (axis \<noteq> 0 \<and> c_y q - c_r q \<le> ty c)"

definition circle_right :: "circle \<Rightarrow> int \<Rightarrow> item \<Rightarrow> bool" where
  "circle_right q axis c \<longleftrightarrow> (axis = 0 \<and> c_x q + c_r q \<ge> tx c) \<or> (axis \<noteq> 0 \<and> c_y q + c_r q \<ge> ty c)"

abbreviation circle_visit :: "'a kdbush \<Rightarrow> circle \<Rightarrow> int \<times> int \<times> int \<Rightarrow> item list" where
  "circle_visit b q f \<equiv> (case f of (l, r, axis) \<Rightarrow>
     visit (nodeSize b) (circle_hit q) (circle_left q) (circle_right q) (items (arrays b)) l r axis)"

lemma get_point:
  assumes "bush_ok b" "0 \<le> i" "i < int (length (idxs (arrays b)))"
  shows "get (points b) (fst (items (arrays b) ! nat i)) = Some (point_at b (items (arrays b) ! nat i))"
proof -
  have "items (arrays b) ! nat i \<in> set (items (arrays b))"
    using assms(2,3) by (intro nth_mem) simp
  then obtain k where "k < length (points b)" "items (arrays b) ! nat i = item_of (points b) k"
    using bush_okD(3) [OF assms(1)] by auto
  then show ?thesis by (simp add: point_at_def del: items_nth)
qed

lemma within_leaf_visit:
  assumes ok: "bush_ok b" and lr: "0 \<le> i" "r < int (length (idxs (arrays b)))"
  shows "within_leaf b q h i r s
    = Some (run_handler h (map (point_at b) (filter (circle_hit q) (seg (items (arrays b)) i r))) s)"
  using lr
proof (induction "nat (r - i + 1)" arbitrary: i s rule: less_induct)
  case less
  show ?case
  proof (cases "i \<le> r")
    case False
    then show ?thesis by (simp add: within_leaf.simps [of b q h i] seg_empty)
  next
    case True
    let ?t = "items (arrays b) ! nat i"
    have g: "get (coords (arrays b)) (2 * i) = Some (tx ?t)" "get (coords (arrays b)) (2 * i + 1) = Some (ty ?t)"
      "get (idxs (arrays b)) i = Some (fst ?t)" "get (points b) (fst ?t) = Some (point_at b ?t)"
      using get_item [OF bush_okD(1) [OF ok], of i] get_point [OF ok, of i] True less.prems by auto
    have IH: "within_leaf b q h (i + 1) r s
        = Some (run_handler h (map (point_at b) (filter (circle_hit q) (seg (items (arrays b)) (i + 1) r))) s)" for s
      using less.hyps [of "i + 1"] True less.prems by simp
    show ?thesis
      using True g IH by (simp add: within_leaf.simps [of b q h i] seg_Cons circle_hit_def sq_dist_def
        del: items_nth get_in_range split: prod.splits)
  qed
qed

lemma within_loop_visit:
  assumes "bush_ok b" "in_rows b stack"
  shows "within_loop b q h stack s
    = Some (fst (run_handler h (map (point_at b) (concat (map (circle_visit b q) stack))) s))"
  using assms
proof (induction b q h stack s rule: within_loop.induct)
  case (1 b q h s)
  then show ?case by (simp add: within_loop.simps)
next
  case (2 b q h left right axis stack s)
  have lr: "0 \<le> left" "right < int (length (idxs (arrays b)))" and rows: "in_rows b stack"
    using 2(4) by (auto simp: in_rows_def)
  show ?case
  proof (cases "right - left \<le> int (nodeSize b)")
    case True
    then show ?thesis using 2(1) 2(3) rows within_leaf_visit [OF 2(3) lr, of q h s]
      by (auto simp: within_loop.simps visit.simps [of _ _ _ _ _ left right] run_handler_append split: prod.splits)
  next
    case False
    let ?m = "midpoint left right"
    let ?t = "items (arrays b) ! nat ?m"
    have m: "left \<le> ?m" "?m < right" using midpoint_between [of left right] False by auto
    have g: "get (coords (arrays b)) (2 * ?m) = Some (tx ?t)" "get (coords (arrays b)) (2 * ?m + 1) = Some (ty ?t)"
      "get (idxs (arrays b)) ?m = Some (fst ?t)" "get (points b) (fst ?t) = Some (point_at b ?t)"
      using get_item [OF bush_okD(1) [OF 2(3)], of ?m] get_point [OF 2(3), of ?m] m lr by auto
    obtain s' go where s': "run_handler h (map (point_at b) (filter (circle_hit q) [?t])) s = (s', go)"
      by (cases "run_handler h (map (point_at b) (filter (circle_hit q) [?t])) s")
    have hd: "(if sqrtDist (tx ?t) (ty ?t) (c_x q) (c_y q) \<le> c_r2 q
        then do { ix \<leftarrow> get (idxs (arrays b)) ?m; p \<leftarrow> get (points b) ix; Some (h p s) }
        else Some (s, True)) = Some (s', go)"
      using g s' by (auto simp: circle_hit_def sq_dist_def simp del: items_nth get_in_range split: prod.splits if_splits)
    let ?stack = "(if circle_right q axis ?t then [(?m + 1, right, (axis + 1) mod 2)] else [])
      @ (if circle_left q axis ?t then [(left, ?m - 1, (axis + 1) mod 2)] else []) @ stack"
    have rows': "in_rows b ?stack" using rows lr m by (auto simp: in_rows_def)
    have "go \<Longrightarrow> within_loop b q h ?stack s'
      = Some (fst (run_handler h (map (point_at b) (concat (map (circle_visit b q) ?stack))) s'))"
      by (rule 2(2) [OF False refl refl refl g(1,2) hd refl, folded circle_left_def circle_right_def, OF _ 2(3) rows'])
    then have "within_loop b q h ((left, right, axis) # stack) s = (if go then
      Some (fst (run_handler h (map (point_at b) (concat (map (circle_visit b q) ?stack))) s')) else Some s')"
      using False g hd by (simp add: within_loop.simps Let_def circle_left_def circle_right_def del: get_in_range items_nth)
    moreover have "concat (map (circle_visit b q) ((left, right, axis) # stack))
      = filter (circle_hit q) [?t] @ concat (map (circle_visit b q) ?stack)"
      using False by (simp add: visit.simps [of _ _ _ _ _ left right])
    ultimately show ?thesis using s' by (simp only: map_append run_handler_append) simp
  qed
qed

text \<open>Rounding does not lose a point that is strictly inside the circle.\<close>

lemma far_left:
  assumes f: "is_fin t" "is_fin q" "is_fin R" and c: "t \<le> c" "\<not> is_nan c" "\<not> q - R \<le> c"
  shows "f64_key (t - q) \<le> - f64_key R"
proof -
  have "f64_key t < f64_key (q - R)"
    using c f64_sub_fin(1) [OF f(2,3)] by (auto simp: less_eq_f64_def)
  then have "\<not> sval q - sval R \<le> sval t"
    using rkey_mono [of 1 "sval q - sval R" "sval t"] f by (auto simp: f64_sub_fin)
  then have "rkey (sval t - sval q) (Suc 0) \<le> rkey (- sval R) (Suc 0)" by (intro rkey_mono) auto
  then show ?thesis using f by (simp add: f64_sub_fin rkey_minus)
qed

lemma far_right:
  assumes f: "is_fin t" "is_fin q" "is_fin R" and c: "c \<le> t" "\<not> is_nan c" "\<not> c \<le> q + R"
  shows "f64_key R \<le> f64_key (t - q)"
proof -
  have "f64_key (q + R) < f64_key t"
    using c f64_add_fin(1) [OF f(2,3)] by (auto simp: less_eq_f64_def)
  then have "\<not> sval t \<le> sval q + sval R"
    using rkey_mono [of 1 "sval t" "sval q + sval R"] f by (auto simp: f64_add_fin)
  then have "rkey (sval R) (Suc 0) \<le> rkey (sval t - sval q) (Suc 0)" by (intro rkey_mono) auto
  then show ?thesis using f by (simp add: f64_sub_fin)
qed

lemma far_distance:
  assumes f: "is_fin x" "is_fin y" "is_fin a" "is_fin b" "is_fin R"
    and far: "f64_key R \<le> \<bar>f64_key (x - a)\<bar> \<or> f64_key R \<le> \<bar>f64_key (y - b)\<bar>" and R: "0 \<le> f64_key R"
  shows "\<not> sqrtDist x y a b < R * R"
proof -
  let ?dx = "x - a" and ?dy = "y - b"
  have n: "\<not> is_nan ?dx" "\<not> is_nan ?dy" using f by (simp_all add: f64_sub_fin)
  have s: "\<not> is_nan (?dx * ?dx + ?dy * ?dy)" "f64_key (?dx * ?dx) \<le> f64_key (?dx * ?dx + ?dy * ?dy)"
    "f64_key (?dy * ?dy) \<le> f64_key (?dx * ?dx + ?dy * ?dy)"
    using f64_add_nonneg f64_square_nonneg n by metis+
  have "f64_key (R * R) \<le> f64_key (?dx * ?dx) \<or> f64_key (R * R) \<le> f64_key (?dy * ?dy)"
    using far f64_square_mono [of R ?dx] f64_square_mono [of R ?dy] n R f(5) by auto
  then have "f64_key (R * R) \<le> f64_key (?dx * ?dx + ?dy * ?dy)" using s by linarith
  then show ?thesis by (simp add: sqrtDist_def Let_def less_f64_def)
qed

definition fin_item :: "item \<Rightarrow> bool" where
  "fin_item t \<longleftrightarrow> is_fin (tx t) \<and> is_fin (ty t)"

definition circle_ok :: "circle \<Rightarrow> bool" where
  "circle_ok q \<longleftrightarrow> is_fin (c_x q) \<and> is_fin (c_y q) \<and> is_fin (c_r q) \<and> 0 \<le> f64_key (c_r q) \<and> c_r2 q = c_r q * c_r q"

lemma circle_prunes:
  assumes q: "circle_ok q" and t: "fin_item t" "circle_inside q t" and c: "fin_item c"
  shows "axis_of axis t \<le> axis_of axis c \<Longrightarrow> circle_left q axis c"
    and "axis_of axis c \<le> axis_of axis t \<Longrightarrow> circle_right q axis c"
proof -
  note q = q [unfolded circle_ok_def]
  have d: "\<not> sq_dist q (tx t) (ty t) < c_r2 q" if "f64_key (c_r q) \<le> \<bar>f64_key (tx t - c_x q)\<bar> \<or> f64_key (c_r q) \<le> \<bar>f64_key (ty t - c_y q)\<bar>"
    using far_distance [OF _ _ _ _ _ that] t q by (simp add: fin_item_def sq_dist_def)
  show "circle_left q axis c" if "axis_of axis t \<le> axis_of axis c"
  proof (rule ccontr)
    assume "\<not> circle_left q axis c"
    then have "f64_key (tx t - c_x q) \<le> - f64_key (c_r q) \<or> f64_key (ty t - c_y q) \<le> - f64_key (c_r q)"
      using that t c q far_left by (auto simp: circle_left_def axis_of_xy fin_item_def split: if_splits)
    then have "f64_key (c_r q) \<le> \<bar>f64_key (tx t - c_x q)\<bar> \<or> f64_key (c_r q) \<le> \<bar>f64_key (ty t - c_y q)\<bar>"
      by linarith
    then show False using d t by (simp add: circle_inside_def)
  qed
  show "circle_right q axis c" if "axis_of axis c \<le> axis_of axis t"
  proof (rule ccontr)
    assume "\<not> circle_right q axis c"
    then have "f64_key (c_r q) \<le> f64_key (tx t - c_x q) \<or> f64_key (c_r q) \<le> f64_key (ty t - c_y q)"
      using that t c q far_right by (auto simp: circle_right_def axis_of_xy fin_item_def split: if_splits)
    then have "f64_key (c_r q) \<le> \<bar>f64_key (tx t - c_x q)\<bar> \<or> f64_key (c_r q) \<le> \<bar>f64_key (ty t - c_y q)\<bar>"
      by linarith
    then show False using d t by (simp add: circle_inside_def)
  qed
qed

interpretation circle: kd_search "\<lambda>t. circle_ok q \<and> fin_item t" "circle_hit q" "circle_inside q"
  "circle_left q" "circle_right q" for q
  by unfold_locales
    (auto simp: circle_hit_def circle_inside_def less_f64_def less_eq_f64_def intro: circle_prunes)

subsection \<open>What the queries find\<close>

lemma Range_visit:
  assumes "bush_ok b"
  shows "Range b x0 y0 x1 y1 = Some (map fst (box_visit b \<lparr>q_minX = x0, q_minY = y0, q_maxX = x1, q_maxY = y1\<rparr>
    (0, int (length (points b)) - 1, 0)))"
  using range_loop_visit [OF bush_okD(1) [OF assms]] bush_okD(2) [OF assms]
  by (simp add: Range_def in_rows_def)

lemma Within_visit:
  assumes "bush_ok b"
  shows "Within b x y r h s = Some (fst (run_handler h (map (point_at b)
    (circle_visit b \<lparr>c_x = x, c_y = y, c_r = r, c_r2 = r * r\<rparr> (0, int (length (points b)) - 1, 0))) s))"
  using within_loop_visit [OF assms, of "[(0, int (length (points b)) - 1, 0)]" _ h s] bush_okD(2) [OF assms]
  by (simp add: Within_def in_rows_def)

lemma seg_bush: "bush_ok b \<Longrightarrow> mset (seg (items (arrays b)) 0 (int (length (points b)) - 1)) = mset (bush_items (points b))"
  using seg_all [of "items (arrays b)"] bush_okD(2) [of b] by (simp add: bush_ok_def)

lemma point_at_items: "map (point_at b) (bush_items (points b)) = points b"
  by (rule nth_equalityI) (simp_all add: bush_items_def point_at_def item_of_def)

lemma map_fst_bush: "map fst (filter (\<lambda>t. P (tx t) (ty t)) (bush_items ps))
  = map int (filter (\<lambda>i. P (pX (ps ! i)) (pY (ps ! i))) [0..<length ps])"
  by (simp add: bush_items_def filter_map comp_def)

lemma Range_indices:
  assumes "bush_ok b" "bush_sorted b"
  obtains res where "Range b x0 y0 x1 y1 = Some res" "mset res = mset (map int (filter
    (\<lambda>i. in_box \<lparr>q_minX = x0, q_minY = y0, q_maxX = x1, q_maxY = y1\<rparr> (pX (points b ! i)) (pY (points b ! i)))
    [0..<length (points b)]))"
proof -
  let ?q = "\<lparr>q_minX = x0, q_minY = y0, q_maxX = x1, q_maxY = y1\<rparr>" and ?n = "int (length (points b))"
  let ?v = "box_visit b ?q (0, ?n - 1, 0)"
  have "mset ?v \<subseteq># filter_mset (box_hit ?q) (mset (seg (items (arrays b)) 0 (?n - 1)))"
    using visit_sound by simp
  moreover have "filter_mset (box_hit ?q) (mset (seg (items (arrays b)) 0 (?n - 1))) \<subseteq># mset ?v"
    using box.visit_complete [of "nodeSize b" "items (arrays b)" 0 "?n - 1" 0] assms bush_okD(2) [OF assms(1)]
    by (simp add: bush_sorted_def)
  ultimately have "mset ?v = filter_mset (box_hit ?q) (mset (bush_items (points b)))"
    using seg_bush [OF assms(1)] subset_mset.antisym by metis
  then have "mset (map fst ?v) = mset (map fst (filter (\<lambda>t. in_box ?q (tx t) (ty t)) (bush_items (points b))))"
    by (simp add: box_hit_def [abs_def])
  then show thesis using that Range_visit [OF assms(1)] unfolding map_fst_bush by blast
qed

lemma Within_points:
  assumes ok: "bush_ok b" and sorted: "bush_sorted b" and fin: "\<forall>p \<in> set (points b). is_fin (pX p) \<and> is_fin (pY p)"
    and q: "is_fin x" "is_fin y" "is_fin r" "0 \<le> f64_key r"
  obtains ps where "mset ps \<subseteq># filter_mset (\<lambda>p. sqrtDist (pX p) (pY p) x y \<le> r * r) (mset (points b))"
    "filter_mset (\<lambda>p. sqrtDist (pX p) (pY p) x y < r * r) (mset (points b)) \<subseteq># mset ps"
    "\<And>(h :: ('a, 's) handler) s. Within b x y r h s = Some (fst (run_handler h ps s))"
proof -
  let ?q = "\<lparr>c_x = x, c_y = y, c_r = r, c_r2 = r * r\<rparr>" and ?n = "int (length (points b))"
  let ?v = "circle_visit b ?q (0, ?n - 1, 0)"
  let ?xs = "items (arrays b)"
  have t: "fin_item t \<and> pX (point_at b t) = tx t \<and> pY (point_at b t) = ty t" if "t \<in> set ?xs" for t
    using that fin bush_okD(3) [OF ok] by (auto simp: fin_item_def point_at_def)
  have im: "image_mset (point_at b) (filter_mset (\<lambda>t. P (sqrtDist (tx t) (ty t) x y)) (mset ?xs))
    = filter_mset (\<lambda>p. P (sqrtDist (pX p) (pY p) x y)) (mset (points b))" for P
  proof -
    have "image_mset (point_at b) (mset ?xs) = mset (points b)"
      using ok point_at_items [of b] by (simp add: bush_ok_def mset_map [symmetric] del: mset_map)
    moreover have "filter_mset (\<lambda>t. P (sqrtDist (tx t) (ty t) x y)) (mset ?xs)
        = filter_mset (\<lambda>t. P (sqrtDist (pX (point_at b t)) (pY (point_at b t)) x y)) (mset ?xs)"
      by (rule filter_mset_cong) (use t in auto)
    ultimately show ?thesis
      using image_mset_filter_mset_swap [of "point_at b" "\<lambda>p. P (sqrtDist (pX p) (pY p) x y)"] by simp
  qed
  have all: "seg ?xs 0 (?n - 1) = ?xs" using seg_all [of ?xs] bush_okD(2) [OF ok] by simp
  have V: "mset ?v \<subseteq># filter_mset (circle_hit ?q) (mset ?xs)"
    using visit_sound [of "nodeSize b" "circle_hit ?q" "circle_left ?q" "circle_right ?q" ?xs 0 "?n - 1" 0] all by simp
  have A: "mset (map (point_at b) ?v) \<subseteq># filter_mset (\<lambda>p. sqrtDist (pX p) (pY p) x y \<le> r * r) (mset (points b))"
    using image_mset_subseteq_mono [OF V, of "point_at b"]
    by (simp add: circle_hit_def [abs_def] sq_dist_def im [of "\<lambda>d. d \<le> r * r"])
  have I: "filter_mset (circle_inside ?q) (mset ?xs) \<subseteq># mset ?v"
    using circle.visit_complete [of "nodeSize b" ?xs 0 "?n - 1" 0 ?q] sorted bush_okD(2) [OF ok] t q all
    by (simp add: bush_sorted_def circle_ok_def)
  have B: "filter_mset (\<lambda>p. sqrtDist (pX p) (pY p) x y < r * r) (mset (points b)) \<subseteq># mset (map (point_at b) ?v)"
    using image_mset_subseteq_mono [OF I, of "point_at b"]
    by (simp add: circle_inside_def [abs_def] sq_dist_def im [of "\<lambda>d. d < r * r"])
  show thesis by (rule that [OF A B]) (simp only: Within_visit [OF ok])
qed

subsection \<open>Properties\<close>

definition sample_points :: "nat point list" where
  "sample_points = [\<lparr>pX = f64_of_int 5, pY = f64_of_int 1, pData = 10\<rparr>, \<lparr>pX = f64_of_int 3, pY = f64_of_int 2, pData = 11\<rparr>,
     \<lparr>pX = f64_of_int 9, pY = f64_of_int 4, pData = 12\<rparr>, \<lparr>pX = f64_of_int 3, pY = f64_of_int 7, pData = 13\<rparr>]"

lemma sample_points_fin: "\<forall>p \<in> set sample_points. is_fin (pX p) \<and> is_fin (pY p)"
  by (simp add: sample_points_def small_int_exact small_int_def)

lemma fin_no_nan: "\<forall>p \<in> set ps. is_fin (pX p) \<and> is_fin (pY p) \<Longrightarrow> no_nan ps"
  by (auto simp: no_nan_def)

text \<open>
  C8. Building the index never fails and keeps every point exactly once: position for
  position the two arrays hold a permutation of the points' numbers with their
  coordinates, the points themselves are stored unchanged, and with no NaN coordinate the
  arrays form a k-d tree of the given node size.
\<close>

theorem NewBush_builds_index:
  assumes "window_narrows M (length ps)"
  shows "\<exists>b. NewBush M ps ns = Some b \<and> nodeSize b = ns \<and> points b = ps
    \<and> mset (idxs (arrays b)) = mset (map int [0..<length ps])
    \<and> length (coords (arrays b)) = 2 * length ps
    \<and> (\<forall>p < length ps. coords (arrays b) ! (2 * p) = pX (ps ! nat (idxs (arrays b) ! p))
         \<and> coords (arrays b) ! (2 * p + 1) = pY (ps ! nat (idxs (arrays b) ! p)))
    \<and> (no_nan ps \<longrightarrow> kd_tree ns (items (arrays b)) 0 (int (length ps) - 1) 0)"
proof -
  obtain b where b: "NewBush M ps ns = Some b" "nodeSize b = ns" "points b = ps" "bush_ok b"
    "no_nan ps \<Longrightarrow> bush_sorted b"
    using NewBush_ok [OF assms] by metis
  note ok = bush_okD [OF b(4)]
  have "map fst (items (arrays b)) = idxs (arrays b)"
    by (rule nth_equalityI) (simp_all add: item_def)
  then have perm: "mset (idxs (arrays b)) = image_mset fst (mset (bush_items ps))"
    using b(3,4) by (metis bush_ok_def mset_map)
  have "coords (arrays b) ! (2 * p) = pX (ps ! nat (idxs (arrays b) ! p))
      \<and> coords (arrays b) ! (2 * p + 1) = pY (ps ! nat (idxs (arrays b) ! p))" if "p < length ps" for p
  proof -
    have "items (arrays b) ! p \<in> set (items (arrays b))" using that ok(2) b(3) by (intro nth_mem) simp
    then obtain k where "items (arrays b) ! p = item_of ps k" using ok(3) b(3) by auto
    then show ?thesis using that ok(2) b(3) by (simp add: item_def item_of_def)
  qed
  then show ?thesis
    using b ok perm by (auto simp: bush_sorted_def kd_wf_def bush_items_def item_of_def comp_def
        mset_map [symmetric] simp del: mset_map)
qed

lemma NewBush_builds_index_witness:
  "\<exists>b. NewBush sample_lib sample_points 1 = Some b \<and> kd_tree 1 (items (arrays b)) 0 3 0
    \<and> mset (idxs (arrays b)) = {#0, 1, 2, 3#}"
  using NewBush_builds_index [of sample_lib sample_points 1] sample_points_fin
  by (auto simp: small_window_narrows fin_no_nan sample_points_def upt_rec)

text \<open>
  C9. A range query on a built index returns, each exactly once, the numbers of the points
  in the closed box, whatever the box (NaN and infinite bounds included).
\<close>

theorem Range_finds_box:
  assumes "window_narrows M (length ps)" and "no_nan ps"
  shows "\<exists>b res. NewBush M ps ns = Some b \<and> Range b minX minY maxX maxY = Some res \<and> distinct res
    \<and> set res = {int i | i. i < length ps \<and> pX (ps ! i) \<ge> minX \<and> pX (ps ! i) \<le> maxX
                          \<and> pY (ps ! i) \<ge> minY \<and> pY (ps ! i) \<le> maxY}"
proof -
  obtain b where b: "NewBush M ps ns = Some b" "points b = ps" "bush_ok b" "bush_sorted b"
    using NewBush_ok [OF assms(1), of ns] assms(2) by metis
  obtain res where res: "Range b minX minY maxX maxY = Some res" "mset res = mset (map int (filter
    (\<lambda>i. in_box \<lparr>q_minX = minX, q_minY = minY, q_maxX = maxX, q_maxY = maxY\<rparr> (pX (ps ! i)) (pY (ps ! i)))
    [0..<length ps]))"
    using Range_indices [OF b(3,4)] b(2) by metis
  have "distinct res" using mset_eq_imp_distinct_iff [OF res(2)] by (simp add: distinct_map inj_on_def)
  moreover have "set res = {int i | i. i < length ps \<and> pX (ps ! i) \<ge> minX \<and> pX (ps ! i) \<le> maxX
      \<and> pY (ps ! i) \<ge> minY \<and> pY (ps ! i) \<le> maxY}"
    using mset_eq_setD [OF res(2)] by (auto simp: in_box_def)
  ultimately show ?thesis using b(1) res(1) by blast
qed

lemma Range_finds_box_witness:
  "\<exists>b res. NewBush sample_lib sample_points 1 = Some b
    \<and> Range b (f64_of_int 2) (f64_of_int 2) (f64_of_int 5) (f64_of_int 7) = Some res
    \<and> distinct res \<and> set res = {1, 3}"
proof -
  have "{int i | i. i < length sample_points \<and> pX (sample_points ! i) \<ge> f64_of_int 2
      \<and> pX (sample_points ! i) \<le> f64_of_int 5 \<and> pY (sample_points ! i) \<ge> f64_of_int 2
      \<and> pY (sample_points ! i) \<le> f64_of_int 7} = {1, 3}"
    by (auto simp: sample_points_def small_int_def less_Suc_eq numeral_nat)
  then show ?thesis
    using Range_finds_box [of sample_lib sample_points 1 "f64_of_int 2" "f64_of_int 2" "f64_of_int 5" "f64_of_int 7"]
      sample_points_fin by (simp add: small_window_narrows fin_no_nan sample_points_def)
qed

text \<open>
  C10. A radius query runs the handler over a sequence of points that depends on the query
  only: each point occurs at most as often as in the input, all have a computed squared
  distance of at most \<open>r\<^sup>2\<close>, and every point whose computed squared distance is less is among
  them. The handler decides when to stop; the result is its last state.
\<close>

theorem Within_visits_circle:
  fixes ps :: "'a point list"
  assumes "window_narrows M (length ps)" and "\<forall>p \<in> set ps. is_fin (pX p) \<and> is_fin (pY p)"
    and "is_fin qx" and "is_fin qy" and "is_fin radius" and "0 \<le> radius"
  shows "\<exists>b found. NewBush M ps ns = Some b
    \<and> mset found \<subseteq># filter_mset (\<lambda>p. sqrtDist (pX p) (pY p) qx qy \<le> radius * radius) (mset ps)
    \<and> filter_mset (\<lambda>p. sqrtDist (pX p) (pY p) qx qy < radius * radius) (mset ps) \<subseteq># mset found
    \<and> (\<forall>(h :: ('a, 's) handler) s. Within b qx qy radius h s = Some (fst (run_handler h found s)))"
proof -
  obtain b where b: "NewBush M ps ns = Some b" "points b = ps" "bush_ok b" "bush_sorted b"
    using NewBush_ok [OF assms(1), of ns] fin_no_nan [OF assms(2)] by metis
  have "0 \<le> f64_key radius" using assms(6) by (simp add: f64_nonneg_iff)
  moreover have "\<forall>p \<in> set (points b). is_fin (pX p) \<and> is_fin (pY p)" using assms(2) b(2) by simp
  ultimately obtain found where
    "mset found \<subseteq># filter_mset (\<lambda>p. sqrtDist (pX p) (pY p) qx qy \<le> radius * radius) (mset ps)"
    "filter_mset (\<lambda>p. sqrtDist (pX p) (pY p) qx qy < radius * radius) (mset ps) \<subseteq># mset found"
    "\<And>(h :: ('a, 's) handler) s. Within b qx qy radius h s = Some (fst (run_handler h found s))"
    using Within_points [OF b(3,4) _ assms(3-5)] unfolding b(2) by blast
  then show ?thesis using b(1) by (intro exI [of _ b] exI [of _ found] conjI allI)
qed

lemma Within_visits_circle_witness:
  "\<exists>b found. NewBush sample_lib sample_points 1 = Some b
    \<and> filter_mset (\<lambda>p. sqrtDist (pX p) (pY p) (f64_of_int 4) (f64_of_int 2) < f64_of_int 2 * f64_of_int 2) (mset sample_points)
       = mset (take 2 sample_points)
    \<and> mset (take 2 sample_points) \<subseteq># mset found
    \<and> (\<forall>(h :: (nat, nat list) handler) s. Within b (f64_of_int 4) (f64_of_int 2) (f64_of_int 2) h s
          = Some (fst (run_handler h found s)))"
proof -
  have F: "filter_mset (\<lambda>p. sqrtDist (pX p) (pY p) (f64_of_int 4) (f64_of_int 2) < f64_of_int 2 * f64_of_int 2) (mset sample_points)
       = mset (take 2 sample_points)"
    by (simp add: sample_points_def sqrtDist_def Let_def small_int_def)
  have n: "window_narrows sample_lib (length sample_points)"
    by (simp add: small_window_narrows sample_points_def)
  have f: "is_fin (f64_of_int 4)" "is_fin (f64_of_int 2)" "0 \<le> f64_of_int 2"
    by (simp_all add: small_int_exact small_int_def)
  show ?thesis
    using Within_visits_circle [OF n sample_points_fin f(1,2,2,3), of 1, where 's = "nat list"]
    unfolding F by (elim exE conjE) (intro exI conjI; (rule refl | assumption))
qed

end
