(* ===== verification/KDBush_Disk.thy ===== *)
theory KDBush_Disk
  imports KDBush_Query Binary
begin

section \<open>The on-disk k-d tree\<close>

text \<open>
  \<^verbatim>\<open>kdbush/kdbush_disk.go\<close>: \<open>BuildDisk\<close> writes the index and the marshalled points to an
  \<open>io.Writer\<close>, \<open>OpenDisk\<close> reads the header of a memory-mapped file, and \<open>Range\<close> and
  \<open>Within\<close> read indices, coordinates and points as they need them. How a point's data is
  marshalled is a parameter (\<open>binaryData\<close>); offsets are \<^verbatim>\<open>int64\<close> and wrap (\<open>i64\<close>).
\<close>

record 'v binaryData =
  MarshalBinary :: "'v \<Rightarrow> byte list result"
  UnmarshalBinary :: "byte list \<Rightarrow> 'v result"
  zero_value :: 'v

definition diskMagic :: "byte list" where
  "diskMagic = [0x4B, 0x44, 0x42, 0x48]"

definition diskVersion :: u32 where
  "diskVersion = 1"

definition diskHeaderSize :: int where
  "diskHeaderSize = 32"

definition diskWriteChunkSize :: nat where
  "diskWriteChunkSize = 4096"

record disk_bush =
  d_r :: reader
  d_nodeSize :: int
  d_numPoints :: int
  idxsOffset :: int
  coordsOffset :: int
  dataOffsetsOff :: int
  dataBlobsOff :: int

definition NumPoints :: "disk_bush \<Rightarrow> int" where
  "NumPoints d = d_numPoints d"

definition NodeSize :: "disk_bush \<Rightarrow> int" where
  "NodeSize d = d_nodeSize d"

text \<open>Decoding from an array that is long enough.\<close>

definition u32_of :: "byte list \<Rightarrow> u32" where
  "u32_of bs = of_nat (get_le (take 4 bs))"

definition u64_of :: "byte list \<Rightarrow> u64" where
  "u64_of bs = of_nat (get_le (take 8 bs))"

subsection \<open>Writing\<close>

text \<open>The loop of the three \<open>diskWrite\<close> functions: at most 4096 numbers per call of \<open>Write\<close>.\<close>

function write_chunks :: "'w writer \<Rightarrow> ('x \<Rightarrow> u64) \<Rightarrow> 'x list \<Rightarrow> int \<Rightarrow> 'w \<Rightarrow> (int \<times> error option) \<times> 'w" where
  "write_chunks w enc xs written s =
     (if xs = [] then ((written, None), s)
      else
        (case w (concat (map (\<lambda>x. put_u64 (enc x)) (take diskWriteChunkSize xs))) s of
           ((nn, Some e), s) \<Rightarrow> ((written + nn, Some e), s)
         | ((nn, None), s) \<Rightarrow> write_chunks w enc (drop diskWriteChunkSize xs) (written + nn) s))"
  by pat_completeness auto
termination
  by (relation "measure (\<lambda>(w, enc, xs, written, s). length xs)") (auto simp: diskWriteChunkSize_def)

declare write_chunks.simps [simp del]

definition diskWriteInts :: "'w writer \<Rightarrow> int list \<Rightarrow> 'w \<Rightarrow> (int \<times> error option) \<times> 'w" where
  "diskWriteInts w ints s = write_chunks w word_of_int ints 0 s"

definition diskWriteFloat64s :: "'w writer \<Rightarrow> f64 list \<Rightarrow> 'w \<Rightarrow> (int \<times> error option) \<times> 'w" where
  "diskWriteFloat64s w floats s = write_chunks w f64_bits floats 0 s"

definition diskWriteInt64s :: "'w writer \<Rightarrow> int list \<Rightarrow> 'w \<Rightarrow> (int \<times> error option) \<times> 'w" where
  "diskWriteInt64s w ints s = write_chunks w word_of_int ints 0 s"

fun write_blobs :: "'w writer \<Rightarrow> byte list list \<Rightarrow> byte list \<Rightarrow> int \<Rightarrow> 'w \<Rightarrow> (int \<times> error option) \<times> 'w" where
  "write_blobs w [] buf written s =
     (if length buf > 0 then (case w buf s of ((nn, e), s) \<Rightarrow> ((written + nn, e), s))
      else ((written, None), s))"
| "write_blobs w (blob # blobs) buf written s =
     (if length (buf @ blob) \<ge> 64 * 1024 then
        (case w (buf @ blob) s of
           ((nn, Some e), s) \<Rightarrow> ((written + nn, Some e), s)
         | ((nn, None), s) \<Rightarrow> write_blobs w blobs [] (written + nn) s)
      else write_blobs w blobs (buf @ blob) written s)"

definition diskWriteBlobs :: "'w writer \<Rightarrow> byte list list \<Rightarrow> 'w \<Rightarrow> (int \<times> error option) \<times> 'w" where
  "diskWriteBlobs w blobs s = write_blobs w blobs [] 0 s"

text \<open>The points' blobs and their cumulative offsets, the total length last.\<close>

fun marshal_points :: "'v binaryData \<Rightarrow> 'v point list \<Rightarrow> int \<Rightarrow> (byte list list \<times> int list) result" where
  "marshal_points C [] cumOffset = Inr ([], [cumOffset])"
| "marshal_points C (p # ps) cumOffset =
     (case MarshalBinary C (pData p) of
        Inl e \<Rightarrow> Inl (Wrap ''kdbush: marshal point'' e)
      | Inr data \<Rightarrow>
          (case marshal_points C ps (cumOffset + int (length data)) of
             Inl e \<Rightarrow> Inl e
           | Inr (blobs, offsets) \<Rightarrow> Inr (data # blobs, cumOffset # offsets)))"

text \<open>One of the writes in sequence: after an error nothing more is written.\<close>

definition write_step :: "string \<Rightarrow> ('w \<Rightarrow> (int \<times> error option) \<times> 'w) \<Rightarrow> (int \<times> error option) \<times> 'w
    \<Rightarrow> (int \<times> error option) \<times> 'w" where
  "write_step msg f acc =
     (case acc of
        ((written, Some e), s) \<Rightarrow> ((written, Some e), s)
      | ((written, None), s) \<Rightarrow>
          (case f s of
             ((n, Some e), s) \<Rightarrow> ((written + n, Some (Wrap msg e)), s)
           | ((n, None), s) \<Rightarrow> ((written + n, None), s)))"

definition disk_header :: "nat \<Rightarrow> nat \<Rightarrow> byte list" where
  "disk_header node_size n =
     diskMagic @ put_u32 diskVersion @ put_u64 (of_nat node_size) @ put_u64 (of_nat n) @ replicate 8 0"

definition BuildDisk :: "mathlib \<Rightarrow> 'v binaryData \<Rightarrow> 'v point list \<Rightarrow> nat \<Rightarrow> 'w writer \<Rightarrow> 'w
    \<Rightarrow> ((int \<times> error option) \<times> 'w) option" where
  "BuildDisk M C ps node_size w s = do {
     a \<leftarrow> (if length ps > 0
           then kd_sort M (initial_arrays ps) node_size 0 (int (length ps) - 1) 0
           else Some (initial_arrays ps));
     Some (case marshal_points C ps 0 of
         Inl e \<Rightarrow> ((0, Some e), s)
       | Inr (blobs, offsets) \<Rightarrow>
           write_step ''kdbush: writing data blobs'' (diskWriteBlobs w blobs)
           (write_step ''kdbush: writing data offsets'' (diskWriteInt64s w offsets)
           (write_step ''kdbush: writing coords'' (diskWriteFloat64s w (coords a))
           (write_step ''kdbush: writing indices'' (diskWriteInts w (idxs a))
           (write_step ''kdbush: writing header'' (w (disk_header node_size (length ps)))
              ((0, None), s))))))
   }"

subsection \<open>Opening\<close>

definition OpenDisk :: "reader \<Rightarrow> int \<Rightarrow> disk_bush result" where
  "OpenDisk r offset =
     (case read_full r offset (nat diskHeaderSize) of
        Inl e \<Rightarrow> Inl (Wrap ''kdbush: reading header'' e)
      | Inr header \<Rightarrow>
          if take 4 header \<noteq> diskMagic then Inl (Err ''kdbush: invalid magic bytes'')
          else if u32_of (drop 4 header) \<noteq> diskVersion then Inl (Err ''kdbush: unsupported version'')
          else
            let node_size = sint (u64_of (drop 8 header));
                numPoints = sint (u64_of (drop 16 header));
                idxsOff = i64 (offset + diskHeaderSize);
                coordsOff = i64 (idxsOff + numPoints * 8);
                dataOffsets = i64 (coordsOff + numPoints * 16);
                dataBlobs = i64 (dataOffsets + (numPoints + 1) * 8)
            in Inr \<lparr>d_r = r, d_nodeSize = node_size, d_numPoints = numPoints, idxsOffset = idxsOff,
                 coordsOffset = coordsOff, dataOffsetsOff = dataOffsets, dataBlobsOff = dataBlobs\<rparr>)"

subsection \<open>Reading\<close>

definition readIdx :: "disk_bush \<Rightarrow> int \<Rightarrow> int result" where
  "readIdx d i =
     (case read_full (d_r d) (i64 (idxsOffset d + i * 8)) 8 of
        Inl e \<Rightarrow> Inl (Wrap ''kdbush: reading idx'' e)
      | Inr buf \<Rightarrow> Inr (sint (u64_of buf)))"

definition readCoord :: "disk_bush \<Rightarrow> int \<Rightarrow> (f64 \<times> f64) result" where
  "readCoord d i =
     (case read_full (d_r d) (i64 (coordsOffset d + i * 16)) 16 of
        Inl e \<Rightarrow> Inl (Wrap ''kdbush: reading coord'' e)
      | Inr buf \<Rightarrow> Inr (F64 (u64_of buf), F64 (u64_of (drop 8 buf))))"

definition readLeaf :: "disk_bush \<Rightarrow> int \<Rightarrow> int \<Rightarrow> (int list \<times> f64 list) result" where
  "readLeaf d left right =
     (let cnt = nat (right - left + 1) in
      if right - left + 1 \<le> 0 then Inr ([], [])
      else
        (case read_full (d_r d) (i64 (idxsOffset d + left * 8)) (cnt * 8) of
           Inl e \<Rightarrow> Inl (Wrap ''kdbush: reading idxs'' e)
         | Inr ibuf \<Rightarrow>
             (case read_full (d_r d) (i64 (coordsOffset d + left * 16)) (cnt * 16) of
                Inl e \<Rightarrow> Inl (Wrap ''kdbush: reading coords'' e)
              | Inr cbuf \<Rightarrow>
                  Inr (map (\<lambda>i. sint (u64_of (drop (i * 8) ibuf))) [0..<cnt],
                       map (\<lambda>i. F64 (u64_of (drop (i * 8) cbuf))) [0..<cnt * 2]))))"

text \<open>A negative blob length makes \<open>slices.Grow\<close> panic.\<close>

definition readPointData :: "'v binaryData \<Rightarrow> disk_bush \<Rightarrow> int \<Rightarrow> 'v result option" where
  "readPointData C d origIdx =
     (case read_full (d_r d) (i64 (dataOffsetsOff d + origIdx * 8)) 16 of
        Inl e \<Rightarrow> Some (Inl (Wrap ''kdbush: reading data offset'' e))
      | Inr obuf \<Rightarrow>
          let blobStart = sint (u64_of obuf);
              blobEnd = sint (u64_of (drop 8 obuf));
              blobLen = i64 (blobEnd - blobStart)
          in if blobLen = 0 then Some (Inr (zero_value C))
             else if blobLen < 0 then None
             else
               (case read_full (d_r d) (i64 (dataBlobsOff d + blobStart)) (nat blobLen) of
                  Inl e \<Rightarrow> Some (Inl (Wrap ''kdbush: reading data blob'' e))
                | Inr buf \<Rightarrow>
                    (case UnmarshalBinary C buf of
                       Inl e \<Rightarrow> Some (Inl (Wrap ''kdbush: unmarshal point'' e))
                     | Inr v \<Rightarrow> Some (Inr v))))"

subsection \<open>Range\<close>

text \<open>A leaf as the list of its items \<open>(index, x, y)\<close>, read by position.\<close>

definition leaf_items :: "int list \<Rightarrow> f64 list \<Rightarrow> nat \<Rightarrow> item list" where
  "leaf_items is cs cnt = map (\<lambda>i. (is ! i, cs ! (2 * i), cs ! (2 * i + 1))) [0..<cnt]"

function disk_range_loop :: "disk_bush \<Rightarrow> box \<Rightarrow> (int \<times> int \<times> int) list \<Rightarrow> item list \<Rightarrow> item list result" where
  "disk_range_loop d q [] matches = Inr matches"
| "disk_range_loop d q ((left, right, axis) # stack) matches =
     (if left > right then disk_range_loop d q stack matches
      else if right - left \<le> d_nodeSize d then
        (case readLeaf d left right of
           Inl e \<Rightarrow> Inl e
         | Inr (is, cs) \<Rightarrow>
             disk_range_loop d q stack
               (matches @ filter (\<lambda>t. in_box q (tx t) (ty t)) (leaf_items is cs (nat (right - left + 1)))))
      else
        let m = midpoint left right; nextAxis = (axis + 1) mod 2 in
        (case readCoord d m of
           Inl e \<Rightarrow> Inl e
         | Inr (x, y) \<Rightarrow>
             (case (if in_box q x y
                    then (case readIdx d m of Inl e \<Rightarrow> Inl e | Inr idx \<Rightarrow> Inr (matches @ [(idx, x, y)]))
                    else Inr matches) of
                Inl e \<Rightarrow> Inl e
              | Inr matches \<Rightarrow>
                  disk_range_loop d q
                    ((if (axis = 0 \<and> q_maxX q \<ge> x) \<or> (axis \<noteq> 0 \<and> q_maxY q \<ge> y)
                      then [(m + 1, right, nextAxis)] else [])
                     @ (if (axis = 0 \<and> q_minX q \<le> x) \<or> (axis \<noteq> 0 \<and> q_minY q \<le> y)
                        then [(left, m - 1, nextAxis)] else [])
                     @ stack) matches)))"
  by pat_completeness auto
termination
proof (relation "measure (\<lambda>(d, q, stack, matches). sum_list (map frame_weight stack))", goal_cases)
  case (4 d q left right axis stack matches m nextAxis)
  then show ?case using frame_weight_halves [of left right nextAxis nextAxis axis] by auto
qed (auto simp: frame_weight_pos)

declare disk_range_loop.simps [simp del]

text \<open>The data of the matched points is read at the end.\<close>

fun read_matches :: "'v binaryData \<Rightarrow> disk_bush \<Rightarrow> item list \<Rightarrow> 'v point list result option" where
  "read_matches C d [] = Some (Inr [])"
| "read_matches C d ((origIdx, x, y) # matches) =
     (case readPointData C d origIdx of
        None \<Rightarrow> None
      | Some (Inl e) \<Rightarrow> Some (Inl e)
      | Some (Inr data) \<Rightarrow>
          (case read_matches C d matches of
             None \<Rightarrow> None
           | Some (Inl e) \<Rightarrow> Some (Inl e)
           | Some (Inr ps) \<Rightarrow> Some (Inr (\<lparr>pX = x, pY = y, pData = data\<rparr> # ps))))"

definition disk_Range :: "'v binaryData \<Rightarrow> disk_bush \<Rightarrow> f64 \<Rightarrow> f64 \<Rightarrow> f64 \<Rightarrow> f64 \<Rightarrow> 'v point list result option" where
  "disk_Range C d minX minY maxX maxY =
     (if d_numPoints d = 0 then Some (Inr [])
      else
        (case disk_range_loop d \<lparr>q_minX = minX, q_minY = minY, q_maxX = maxX, q_maxY = maxY\<rparr>
                [(0, d_numPoints d - 1, 0)] [] of
           Inl e \<Rightarrow> Some (Inl e)
         | Inr matches \<Rightarrow> read_matches C d matches))"

subsection \<open>Within\<close>

text \<open>
  The outcome is the handler's state, the error and whether the query goes on: an error
  returns early and leaves the handler's effects in place.
\<close>

fun disk_within_leaf :: "'v binaryData \<Rightarrow> disk_bush \<Rightarrow> circle \<Rightarrow> ('v, 's) handler \<Rightarrow> item list \<Rightarrow> 's
    \<Rightarrow> ('s \<times> error option \<times> bool) option" where
  "disk_within_leaf C d q h [] s = Some (s, None, True)"
| "disk_within_leaf C d q h ((idx, x, y) # ts) s =
     (if sqrtDist x y (c_x q) (c_y q) \<le> c_r2 q then
        (case readPointData C d idx of
           None \<Rightarrow> None
         | Some (Inl e) \<Rightarrow> Some (s, Some e, False)
         | Some (Inr data) \<Rightarrow>
             (case h \<lparr>pX = x, pY = y, pData = data\<rparr> s of (s, go) \<Rightarrow>
                if go then disk_within_leaf C d q h ts s else Some (s, None, False)))
      else disk_within_leaf C d q h ts s)"

function disk_within_loop :: "'v binaryData \<Rightarrow> disk_bush \<Rightarrow> circle \<Rightarrow> ('v, 's) handler
    \<Rightarrow> (int \<times> int \<times> int) list \<Rightarrow> 's \<Rightarrow> ('s \<times> error option) option" where
  "disk_within_loop C d q h [] s = Some (s, None)"
| "disk_within_loop C d q h ((left, right, axis) # stack) s =
     (if left > right then disk_within_loop C d q h stack s
      else if right - left \<le> d_nodeSize d then
        (case readLeaf d left right of
           Inl e \<Rightarrow> Some (s, Some e)
         | Inr (is, cs) \<Rightarrow>
             (case disk_within_leaf C d q h (leaf_items is cs (nat (right - left + 1))) s of
                None \<Rightarrow> None
              | Some (s, e, go) \<Rightarrow> if go then disk_within_loop C d q h stack s else Some (s, e)))
      else
        let m = midpoint left right; nextAxis = (axis + 1) mod 2 in
        (case readCoord d m of
           Inl e \<Rightarrow> Some (s, Some e)
         | Inr (x, y) \<Rightarrow>
             (case (if sqrtDist x y (c_x q) (c_y q) \<le> c_r2 q
                    then (case readIdx d m of
                            Inl e \<Rightarrow> Some (s, Some e, False)
                          | Inr idx \<Rightarrow>
                              (case readPointData C d idx of
                                 None \<Rightarrow> None
                               | Some (Inl e) \<Rightarrow> Some (s, Some e, False)
                               | Some (Inr data) \<Rightarrow>
                                   (case h \<lparr>pX = x, pY = y, pData = data\<rparr> s of (s, go) \<Rightarrow> Some (s, None, go))))
                    else Some (s, None, True)) of
                None \<Rightarrow> None
              | Some (s, e, go) \<Rightarrow>
                  if go then
                    disk_within_loop C d q h
                      ((if (axis = 0 \<and> c_x q + c_r q \<ge> x) \<or> (axis \<noteq> 0 \<and> c_y q + c_r q \<ge> y)
                        then [(m + 1, right, nextAxis)] else [])
                       @ (if (axis = 0 \<and> c_x q - c_r q \<le> x) \<or> (axis \<noteq> 0 \<and> c_y q - c_r q \<le> y)
                          then [(left, m - 1, nextAxis)] else [])
                       @ stack) s
                  else Some (s, e))))"
  by pat_completeness auto
termination
proof (relation "measure (\<lambda>(C, d, q, h, stack, s). sum_list (map frame_weight stack))", goal_cases)
  case (4 C d q h left right axis stack s m nextAxis)
  then show ?case using frame_weight_halves [of left right nextAxis nextAxis axis] by auto
qed (auto simp: frame_weight_pos)

declare disk_within_loop.simps [simp del]

definition disk_Within :: "'v binaryData \<Rightarrow> disk_bush \<Rightarrow> f64 \<Rightarrow> f64 \<Rightarrow> f64 \<Rightarrow> ('v, 's) handler \<Rightarrow> 's
    \<Rightarrow> ('s \<times> error option) option" where
  "disk_Within C d qx qy radius h s =
     (if d_numPoints d = 0 then Some (s, None)
      else disk_within_loop C d \<lparr>c_x = qx, c_y = qy, c_r = radius, c_r2 = radius * radius\<rparr> h
             [(0, d_numPoints d - 1, 0)] s)"

subsection \<open>A disk index that represents a memory index\<close>

definition disk_rep :: "'v binaryData \<Rightarrow> disk_bush \<Rightarrow> 'v kdbush \<Rightarrow> bool" where
  "disk_rep C d b \<longleftrightarrow>
     d_numPoints d = int (length (points b)) \<and> d_nodeSize d = int (nodeSize b)
     \<and> (\<forall>i. 0 \<le> i \<and> i < int (length (points b)) \<longrightarrow>
          readIdx d i = Inr (fst (items (arrays b) ! nat i))
          \<and> readCoord d i = Inr (tx (items (arrays b) ! nat i), ty (items (arrays b) ! nat i)))
     \<and> (\<forall>l r. 0 \<le> l \<and> l \<le> r \<and> r < int (length (points b)) \<longrightarrow>
          (\<exists>is cs. readLeaf d l r = Inr (is, cs) \<and> leaf_items is cs (nat (r - l + 1)) = seg (items (arrays b)) l r))
     \<and> (\<forall>t \<in> set (items (arrays b)). readPointData C d (fst t) = Some (Inr (pData (point_at b t))))"

lemma disk_repD:
  assumes "disk_rep C d b" "bush_ok b"
  shows "d_numPoints d = int (length (points b))" "d_nodeSize d = int (nodeSize b)"
    and "0 \<le> i \<Longrightarrow> i < int (length (points b)) \<Longrightarrow> readIdx d i = Inr (fst (items (arrays b) ! nat i))"
    and "0 \<le> i \<Longrightarrow> i < int (length (points b)) \<Longrightarrow>
      readCoord d i = Inr (tx (items (arrays b) ! nat i), ty (items (arrays b) ! nat i))"
    and "0 \<le> l \<Longrightarrow> l \<le> r \<Longrightarrow> r < int (length (points b)) \<Longrightarrow>
      \<exists>is cs. readLeaf d l r = Inr (is, cs) \<and> leaf_items is cs (nat (r - l + 1)) = seg (items (arrays b)) l r"
    and "t \<in> set (items (arrays b)) \<Longrightarrow> readPointData C d (fst t) = Some (Inr (pData (point_at b t)))"
    and "t \<in> set (items (arrays b)) \<Longrightarrow> \<lparr>pX = tx t, pY = ty t, pData = pData (point_at b t)\<rparr> = point_at b t"
proof -
  show "\<lparr>pX = tx t, pY = ty t, pData = pData (point_at b t)\<rparr> = point_at b t" if t: "t \<in> set (items (arrays b))"
  proof -
    obtain k where "t = item_of (points b) k" using t bush_okD(3) [OF assms(2)] by auto
    then have "tx t = pX (point_at b t)" "ty t = pY (point_at b t)" by (simp_all add: point_at_def)
    then show ?thesis by simp
  qed
qed (use assms in \<open>auto simp: disk_rep_def\<close>)

lemma seg_in_items:
  assumes "0 \<le> l" "r < int (length xs)" "t \<in> set (seg xs l r)"
  shows "t \<in> set xs"
  using assms by (auto simp: seg_def nat_less_iff)

lemma in_rows_tl: "in_rows b (f # stack) \<Longrightarrow> in_rows b stack"
  by (simp add: in_rows_def)

lemma disk_range_loop_visit:
  assumes "disk_rep C d b" "bush_ok b" "in_rows b stack"
  shows "disk_range_loop d q stack ms = Inr (ms @ concat (map (box_visit b q) stack))"
  using assms
proof (induction d q stack ms rule: disk_range_loop.induct)
  case (1 d q ms)
  then show ?case by (simp add: disk_range_loop.simps)
next
  case (2 d q left right axis stack ms)
  note rep = disk_repD [OF 2(4,5)]
  have n: "length (idxs (arrays b)) = length (points b)" by (rule bush_okD(2) [OF 2(5)])
  have lr: "0 \<le> left" "right < int (length (points b))" and rows: "in_rows b stack"
    using 2(6) n by (auto simp: in_rows_def)
  let ?V = "\<lambda>f. box_visit b q f"
  consider "left > right" | "left \<le> right" "right - left \<le> d_nodeSize d"
    | "left \<le> right" "\<not> right - left \<le> d_nodeSize d" by linarith
  then show ?case
  proof cases
    case 1
    then show ?thesis using 2(1) 2(4,5) rows
      by (simp add: disk_range_loop.simps visit.simps [of _ _ _ _ _ left right] seg_empty)
  next
    case leaf: 2
    obtain "is" cs where L: "readLeaf d left right = Inr (is, cs)"
      "leaf_items is cs (nat (right - left + 1)) = seg (items (arrays b)) left right"
      using rep(5) [OF lr(1) leaf(1) lr(2)] by blast
    have V: "?V (left, right, axis) = filter (\<lambda>t. in_box q (tx t) (ty t)) (seg (items (arrays b)) left right)"
      using leaf(2) rep(2) by (simp add: visit.simps [of _ _ _ _ _ left right] box_hit_def [abs_def])
    have "disk_range_loop d q stack (ms @ ?V (left, right, axis)) = Inr ((ms @ ?V (left, right, axis)) @ concat (map ?V stack))"
      unfolding V using leaf L rows 2(4,5) by (intro 2(2) [of "(is, cs)" "is" cs, simplified L(2)]) auto
    then show ?thesis using leaf L V by (simp add: disk_range_loop.simps)
  next
    case node: 3
    let ?m = "midpoint left right"
    let ?t = "items (arrays b) ! nat ?m"
    have m: "left \<le> ?m" "?m \<le> right" using node by (auto simp: midpoint_def)
    have g: "readCoord d ?m = Inr (tx ?t, ty ?t)" "readIdx d ?m = Inr (fst ?t)"
      using rep(3,4) [of ?m] m lr by auto
    have h: "(if in_box q (tx ?t) (ty ?t)
        then (case readIdx d ?m of Inl e \<Rightarrow> Inl e | Inr idx \<Rightarrow> Inr (ms @ [(idx, tx ?t, ty ?t)]))
        else Inr ms) = Inr (ms @ filter (box_hit q) [?t])"
      using g by (simp add: box_hit_def tx_def ty_def)
    let ?stack = "(if box_right q axis ?t then [(?m + 1, right, (axis + 1) mod 2)] else [])
      @ (if box_left q axis ?t then [(left, ?m - 1, (axis + 1) mod 2)] else []) @ stack"
    have rows': "in_rows b ?stack" using rows lr m n by (auto simp: in_rows_def)
    have IH: "disk_range_loop d q ?stack (ms @ filter (box_hit q) [?t])
      = Inr ((ms @ filter (box_hit q) [?t]) @ concat (map ?V ?stack))"
      using node by (intro 2(3) [OF _ node(2) refl refl g(1) refl h, folded box_left_def box_right_def, OF _ 2(4,5) rows']) simp
    have "disk_range_loop d q ((left, right, axis) # stack) ms
      = disk_range_loop d q ?stack (ms @ filter (box_hit q) [?t])"
      using node g h by (simp add: disk_range_loop.simps(2) [of d q left right axis stack] Let_def box_left_def box_right_def del: items_nth)
    moreover have "?V (left, right, axis) = filter (box_hit q) [?t]
        @ (if box_right q axis ?t then ?V (?m + 1, right, (axis + 1) mod 2) else [])
        @ (if box_left q axis ?t then ?V (left, ?m - 1, (axis + 1) mod 2) else [])"
      using node rep(2) by (simp add: visit.simps [of _ _ _ _ _ left right])
    ultimately show ?thesis using IH by simp
  qed
qed

lemma disk_within_leaf_visit:
  assumes "disk_rep C d b" "bush_ok b" "set ts \<subseteq> set (items (arrays b))"
  shows "disk_within_leaf C d q h ts s =
    (case run_handler h (map (point_at b) (filter (circle_hit q) ts)) s of (s, go) \<Rightarrow> Some (s, None, go))"
  using assms(3)
proof (induction ts arbitrary: s)
  case (Cons t ts)
  obtain idx x y where t: "t = (idx, x, y)" by (cases t)
  have "readPointData C d idx = Some (Inr (pData (point_at b t)))" "\<lparr>pX = x, pY = y, pData = pData (point_at b t)\<rparr> = point_at b t"
    using disk_repD(6,7) [OF assms(1,2), of t] Cons.prems by (simp_all add: t tx_def ty_def)
  then show ?case using Cons by (auto simp: t circle_hit_def sq_dist_def tx_def ty_def split: prod.splits)
qed simp

lemma disk_within_loop_visit:
  assumes "disk_rep C d b" "bush_ok b" "in_rows b stack"
  shows "disk_within_loop C d q h stack s
    = Some (fst (run_handler h (map (point_at b) (concat (map (circle_visit b q) stack))) s), None)"
  using assms
proof (induction C d q h stack s rule: disk_within_loop.induct)
  case (1 C d q h s)
  then show ?case by (simp add: disk_within_loop.simps)
next
  case (2 C d q h left right axis stack s)
  note rep = disk_repD [OF 2(4,5)]
  have n: "length (idxs (arrays b)) = length (points b)" by (rule bush_okD(2) [OF 2(5)])
  have lr: "0 \<le> left" "right < int (length (points b))" and rows: "in_rows b stack"
    using 2(6) n by (auto simp: in_rows_def)
  let ?V = "\<lambda>f. circle_visit b q f"
  consider "left > right" | "left \<le> right" "right - left \<le> d_nodeSize d"
    | "left \<le> right" "\<not> right - left \<le> d_nodeSize d" by linarith
  then show ?case
  proof cases
    case 1
    then show ?thesis using 2(1) 2(4,5) rows
      by (simp add: disk_within_loop.simps visit.simps [of _ _ _ _ _ left right] seg_empty)
  next
    case leaf: 2
    obtain "is" cs where L: "readLeaf d left right = Inr (is, cs)"
      "leaf_items is cs (nat (right - left + 1)) = seg (items (arrays b)) left right"
      using rep(5) [OF lr(1) leaf(1) lr(2)] by blast
    have V: "?V (left, right, axis) = filter (circle_hit q) (seg (items (arrays b)) left right)"
      using leaf(2) rep(2) by (simp add: visit.simps [of _ _ _ _ _ left right])
    have "set (seg (items (arrays b)) left right) \<subseteq> set (items (arrays b))"
      using seg_in_items lr n by fastforce
    note W = disk_within_leaf_visit [OF 2(4,5) this, of q h s]
    obtain s' go where s': "run_handler h (map (point_at b) (?V (left, right, axis))) s = (s', go)"
      by (cases "run_handler h (map (point_at b) (?V (left, right, axis))) s")
    have IH: "go \<Longrightarrow> disk_within_loop C d q h stack s' = Some (fst (run_handler h (map (point_at b) (concat (map ?V stack))) s'), None)"
      using leaf L rows 2(4,5) W s' V by (intro 2(2) [of "(is, cs)" "is" cs "(s', None, go)" s' "(None, go)" None go]) auto
    show ?thesis
      using leaf L V W s' IH by (simp add: disk_within_loop.simps(2) [of C d q h left right axis stack] run_handler_append)
  next
    case node: 3
    let ?m = "midpoint left right"
    let ?t = "items (arrays b) ! nat ?m"
    have m: "left \<le> ?m" "?m \<le> right" using node by (auto simp: midpoint_def)
    have tm: "?t \<in> set (items (arrays b))" using m lr n by (intro nth_mem) simp
    have g: "readCoord d ?m = Inr (tx ?t, ty ?t)" "readIdx d ?m = Inr (fst ?t)"
      "readPointData C d (fst ?t) = Some (Inr (pData (point_at b ?t)))"
      using rep(3,4) [of ?m] rep(6) [OF tm] m lr by auto
    obtain s' go where s': "run_handler h (map (point_at b) (filter (circle_hit q) [?t])) s = (s', go)"
      by (cases "run_handler h (map (point_at b) (filter (circle_hit q) [?t])) s")
    have hd: "(if sqrtDist (tx ?t) (ty ?t) (c_x q) (c_y q) \<le> c_r2 q
        then (case readIdx d ?m of
                Inl e \<Rightarrow> Some (s, Some e, False)
              | Inr idx \<Rightarrow>
                  (case readPointData C d idx of
                     None \<Rightarrow> None
                   | Some (Inl e) \<Rightarrow> Some (s, Some e, False)
                   | Some (Inr data) \<Rightarrow>
                       (case h \<lparr>pX = tx ?t, pY = ty ?t, pData = data\<rparr> s of (s, go) \<Rightarrow> Some (s, None, go))))
        else Some (s, None, True)) = Some (s', None, go)"
      using g s' rep(7) [OF tm]
      by (auto simp: circle_hit_def sq_dist_def simp del: items_nth split: prod.splits if_splits)
    let ?stack = "(if circle_right q axis ?t then [(?m + 1, right, (axis + 1) mod 2)] else [])
      @ (if circle_left q axis ?t then [(left, ?m - 1, (axis + 1) mod 2)] else []) @ stack"
    have rows': "in_rows b ?stack" using rows lr m n by (auto simp: in_rows_def)
    have IH: "go \<Longrightarrow> disk_within_loop C d q h ?stack s'
      = Some (fst (run_handler h (map (point_at b) (concat (map ?V ?stack))) s'), None)"
      using node by (intro 2(3) [OF _ node(2) refl refl g(1) refl hd refl refl, folded circle_left_def circle_right_def, OF _ _ 2(4,5) rows']) simp_all
    have "disk_within_loop C d q h ((left, right, axis) # stack) s
      = (if go then disk_within_loop C d q h ?stack s' else Some (s', None))"
      using node g(1) hd by (simp add: disk_within_loop.simps(2) [of C d q h left right axis stack] Let_def
        circle_left_def circle_right_def del: items_nth)
    moreover have "concat (map ?V ((left, right, axis) # stack)) = filter (circle_hit q) [?t] @ concat (map ?V ?stack)"
      using node rep(2) by (simp add: visit.simps [of _ _ _ _ _ left right])
    ultimately show ?thesis using s' IH by (simp only: map_append run_handler_append) simp
  qed
qed

lemma read_matches_rep:
  assumes "disk_rep C d b" "bush_ok b" "set ts \<subseteq> set (items (arrays b))"
  shows "read_matches C d ts = Some (Inr (map (point_at b) ts))"
  using assms(3)
proof (induction ts)
  case (Cons t ts)
  obtain idx x y where t: "t = (idx, x, y)" by (cases t)
  have "readPointData C d idx = Some (Inr (pData (point_at b t)))" "\<lparr>pX = x, pY = y, pData = pData (point_at b t)\<rparr> = point_at b t"
    using disk_repD(6,7) [OF assms(1,2), of t] Cons.prems by (simp_all add: t tx_def ty_def)
  then show ?case using Cons by (simp add: t)
qed simp

lemma visit_subset:
  assumes "0 \<le> l" "r < int (length xs)"
  shows "set (visit ns hit gl gr xs l r axis) \<subseteq> set xs"
proof -
  have "set_mset (mset (visit ns hit gl gr xs l r axis)) \<subseteq> set_mset (filter_mset hit (mset (seg xs l r)))"
    by (rule set_mset_mono [OF visit_sound])
  then show ?thesis using seg_in_items [OF assms] by auto
qed

text \<open>Both queries give what the memory index gives.\<close>

lemma disk_Range_memory:
  assumes "disk_rep C d b" "bush_ok b"
  obtains res where "Range b x0 y0 x1 y1 = Some res"
    "disk_Range C d x0 y0 x1 y1 = Some (Inr (map (\<lambda>i. points b ! nat i) res))"
proof -
  let ?q = "\<lparr>q_minX = x0, q_minY = y0, q_maxX = x1, q_maxY = y1\<rparr>" and ?n = "int (length (points b))"
  let ?v = "box_visit b ?q (0, ?n - 1, 0)"
  note n = bush_okD(2) [OF assms(2)] and rep = disk_repD [OF assms]
  have "set ?v \<subseteq> set (items (arrays b))" using visit_subset [of 0 "?n - 1" "items (arrays b)"] n by simp
  then have "read_matches C d ?v = Some (Inr (map (point_at b) ?v))" by (rule read_matches_rep [OF assms])
  moreover have "disk_range_loop d ?q [(0, ?n - 1, 0)] [] = Inr ?v"
    using disk_range_loop_visit [OF assms, of "[(0, ?n - 1, 0)]" ?q "[]"] n by (simp add: in_rows_def)
  moreover have "?n = 0 \<Longrightarrow> ?v = []"
    by (simp add: visit.simps [of _ _ _ _ _ 0] seg_empty)
  ultimately have "disk_Range C d x0 y0 x1 y1 = Some (Inr (map (point_at b) ?v))"
    using rep(1) by (cases "?n = 0") (simp_all add: disk_Range_def)
  then show thesis using that Range_visit [OF assms(2), of x0 y0 x1 y1] by (simp add: point_at_def [abs_def] comp_def)
qed

lemma disk_Within_memory:
  assumes "disk_rep C d b" "bush_ok b"
  obtains s' where "Within b x y r h s = Some s'" "disk_Within C d x y r h s = Some (s', None)"
proof -
  let ?q = "\<lparr>c_x = x, c_y = y, c_r = r, c_r2 = r * r\<rparr>" and ?n = "int (length (points b))"
  let ?v = "circle_visit b ?q (0, ?n - 1, 0)"
  note n = bush_okD(2) [OF assms(2)] and rep = disk_repD [OF assms]
  have "disk_within_loop C d ?q h [(0, ?n - 1, 0)] s = Some (fst (run_handler h (map (point_at b) ?v) s), None)"
    using disk_within_loop_visit [OF assms, of "[(0, ?n - 1, 0)]" ?q h s] n by (simp add: in_rows_def)
  moreover have "?n = 0 \<Longrightarrow> ?v = []"
    by (simp add: visit.simps [of _ _ _ _ _ 0] seg_empty)
  ultimately have "disk_Within C d x y r h s = Some (fst (run_handler h (map (point_at b) ?v) s), None)"
    using rep(1) by (cases "?n = 0") (simp_all add: disk_Within_def)
  then show thesis using that Within_visit [OF assms(2), of x y r h s] by simp
qed

subsection \<open>The layout that is written\<close>

definition u64s :: "u64 list \<Rightarrow> byte list" where
  "u64s ws = concat (map put_u64 ws)"

lemma u64s_simps [simp]: "u64s [] = []" "u64s (w # ws) = put_u64 w @ u64s ws" "u64s (ws @ vs) = u64s ws @ u64s vs"
  by (simp_all add: u64s_def)

lemma length_u64s [simp]: "length (u64s ws) = 8 * length ws"
  by (induction ws) auto

lemma drop_u64s: "drop (8 * i) (u64s ws) = u64s (drop i ws)"
proof (induction i arbitrary: ws)
  case (Suc i)
  then show ?case by (cases ws) simp_all
qed simp

lemma take_u64s: "take (8 * i) (u64s ws) = u64s (take i ws)"
proof (induction i arbitrary: ws)
  case (Suc i)
  then show ?case by (cases ws) simp_all
qed simp

lemma u64_of_put [simp]: "u64_of (put_u64 w @ bs) = w"
  using Uint64_put [of w bs] by (simp add: Uint64_def u64_of_def)

lemma u64_of_put_exact [simp]: "u64_of (put_u64 w) = w"
  using u64_of_put [of w "[]"] by simp

lemma u64_of_drop: "i < length ws \<Longrightarrow> u64_of (drop (i * 8) (u64s ws)) = ws ! i"
  using drop_u64s [of i ws] by (simp add: Cons_nth_drop_Suc [symmetric] mult.commute)

lemma u32_of_put [simp]: "u32_of (put_u32 w @ bs) = w"
  using Uint32_put [of w bs] by (simp add: Uint32_def u32_of_def)

definition kdbh_file :: "'v kdbush \<Rightarrow> byte list list \<Rightarrow> int list \<Rightarrow> byte list" where
  "kdbh_file b blobs offsets =
     disk_header (nodeSize b) (length (points b)) @ u64s (map word_of_int (idxs (arrays b)))
     @ u64s (map f64_bits (coords (arrays b))) @ u64s (map word_of_int offsets) @ concat blobs"

lemma length_disk_header [simp]: "length (disk_header ns n) = 32"
  by (simp add: disk_header_def diskMagic_def)

lemma write_chunks_ok:
  assumes "writer_ok w out"
  shows "\<exists>s'. write_chunks w enc xs written s = ((written + int (8 * length xs), None), s')
    \<and> out s' = out s @ u64s (map enc xs)"
proof (induction xs arbitrary: written s rule: length_induct)
  case (1 xs)
  show ?case
  proof (cases "xs = []")
    case True
    then show ?thesis by (simp add: write_chunks.simps)
  next
    case False
    define hd where "hd = take diskWriteChunkSize xs"
    define tl where "tl = drop diskWriteChunkSize xs"
    have xs: "xs = hd @ tl" by (simp add: hd_def tl_def)
    have "length tl < length xs" using False by (simp add: tl_def diskWriteChunkSize_def)
    moreover obtain s1 where s1: "w (u64s (map enc hd)) s = ((int (8 * length hd), None), s1)"
      "out s1 = out s @ u64s (map enc hd)"
      using writer_okD [OF assms, of "u64s (map enc hd)" s] by auto
    ultimately obtain s2 where s2: "write_chunks w enc tl (written + int (8 * length hd)) s1
        = ((written + int (8 * length hd) + int (8 * length tl), None), s2)"
      "out s2 = out s1 @ u64s (map enc tl)"
      using 1 by blast
    have "u64s (map enc hd) = concat (map (\<lambda>x. put_u64 (enc x)) hd)" by (simp add: u64s_def comp_def)
    then have "write_chunks w enc xs written s = write_chunks w enc tl (written + int (8 * length hd)) s1"
      using False s1(1) by (simp add: write_chunks.simps [of w enc xs] hd_def tl_def)
    then have "write_chunks w enc xs written s = ((written + int (8 * length xs), None), s2)"
      using s2(1) arg_cong [OF xs, of length] by simp
    moreover have "out s2 = out s @ u64s (map enc xs)" using s1(2) s2(2) by (simp add: xs)
    ultimately show ?thesis by blast
  qed
qed

lemma write_blobs_ok:
  assumes "writer_ok w out"
  shows "\<exists>s'. write_blobs w blobs buf written s = ((written + int (length buf + length (concat blobs)), None), s')
    \<and> out s' = out s @ buf @ concat blobs"
proof (induction blobs arbitrary: buf written s)
  case Nil
  obtain s1 where "w buf s = ((int (length buf), None), s1)" "out s1 = out s @ buf"
    using writer_okD [OF assms] by blast
  then show ?case by auto
next
  case (Cons blob blobs)
  obtain s1 where s1: "w (buf @ blob) s = ((int (length (buf @ blob)), None), s1)" "out s1 = out s @ buf @ blob"
    using writer_okD [OF assms] by blast
  show ?case
  proof (cases "length (buf @ blob) \<ge> 64 * 1024")
    case True
    then show ?thesis using s1 Cons [of "[]" "written + int (length (buf @ blob))" s1] by auto
  next
    case False
    then show ?thesis using Cons [of "buf @ blob" written s] by auto
  qed
qed

lemma write_step_ok:
  assumes "f s = ((k, None), s')"
  shows "write_step msg f ((n, None), s) = ((n + k, None), s')"
  using assms by (simp add: write_step_def)

lemma kd_sort_empty: "kd_sort M a ns 0 (- 1) d = Some a"
  by (simp add: kd_sort.simps)

text \<open>With a sound writer and marshallable points the whole file is written, and its length returned.\<close>

lemma BuildDisk_writes:
  assumes w: "writer_ok w out" and b: "NewBush M ps ns = Some b" and mp: "marshal_points C ps 0 = Inr (blobs, offsets)"
  obtains s' where "BuildDisk M C ps ns w s = Some ((int (length (kdbh_file b blobs offsets)), None), s')"
    "out s' = out s @ kdbh_file b blobs offsets"
proof -
  have srt: "(if length ps > 0 then kd_sort M (initial_arrays ps) ns 0 (int (length ps) - 1) 0
    else Some (initial_arrays ps)) = Some (arrays b)" and bb: "nodeSize b = ns" "points b = ps"
    using b by (auto simp: NewBush_def buildIndex_def kd_sort_empty bind_eq_Some_conv split: if_splits)
  let ?h = "disk_header ns (length ps)" and ?i = "u64s (map word_of_int (idxs (arrays b)))"
    and ?c = "u64s (map f64_bits (coords (arrays b)))" and ?o = "u64s (map word_of_int offsets)"
  obtain s1 where s1: "w ?h s = ((int (length ?h), None), s1)" "out s1 = out s @ ?h"
    using writer_okD [OF w] by blast
  obtain s2 where s2: "diskWriteInts w (idxs (arrays b)) s1 = ((int (length ?i), None), s2)" "out s2 = out s1 @ ?i"
    using write_chunks_ok [OF w, of word_of_int "idxs (arrays b)" 0 s1] by (auto simp: diskWriteInts_def)
  obtain s3 where s3: "diskWriteFloat64s w (coords (arrays b)) s2 = ((int (length ?c), None), s3)" "out s3 = out s2 @ ?c"
    using write_chunks_ok [OF w, of f64_bits "coords (arrays b)" 0 s2] by (auto simp: diskWriteFloat64s_def)
  obtain s4 where s4: "diskWriteInt64s w offsets s3 = ((int (length ?o), None), s4)" "out s4 = out s3 @ ?o"
    using write_chunks_ok [OF w, of word_of_int offsets 0 s3] by (auto simp: diskWriteInt64s_def)
  obtain s5 where s5: "diskWriteBlobs w blobs s4 = ((int (length (concat blobs)), None), s5)" "out s5 = out s4 @ concat blobs"
    using write_blobs_ok [OF w, of blobs "[]" 0 s4] by (auto simp: diskWriteBlobs_def)
  have "BuildDisk M C ps ns w s = Some ((int (length (kdbh_file b blobs offsets)), None), s5)"
    unfolding BuildDisk_def srt
    by (simp add: mp write_step_ok s1(1) s2(1) s3(1) s4(1) s5(1) kdbh_file_def bb
        del: length_u64s length_disk_header)
  moreover have "out s5 = out s @ kdbh_file b blobs offsets"
    using s1(2) s2(2) s3(2) s4(2) s5(2) by (simp add: kdbh_file_def bb)
  ultimately show thesis by (rule that)
qed

lemma marshal_points_nth:
  assumes "marshal_points C ps cum = Inr (blobs, offsets)"
  shows "length blobs = length ps" "length offsets = length ps + 1"
    and "i < length ps \<Longrightarrow> MarshalBinary C (pData (ps ! i)) = Inr (blobs ! i)"
    and "i \<le> length ps \<Longrightarrow> offsets ! i = cum + int (length (concat (take i blobs)))"
proof -
  have "length blobs = length ps \<and> length offsets = length ps + 1
    \<and> (\<forall>i < length ps. MarshalBinary C (pData (ps ! i)) = Inr (blobs ! i))
    \<and> (\<forall>i \<le> length ps. offsets ! i = cum + int (length (concat (take i blobs))))"
    using assms
  proof (induction ps arbitrary: cum blobs offsets)
    case (Cons p ps)
    then obtain data blobs' offsets' where d: "MarshalBinary C (pData p) = Inr data"
      "marshal_points C ps (cum + int (length data)) = Inr (blobs', offsets')"
      "blobs = data # blobs'" "offsets = cum # offsets'"
      by (auto split: sum.splits)
    show ?case using Cons.IH [OF d(2)] d by (auto simp: nth_Cons take_Cons' split: nat.splits)
  qed simp
  then show "length blobs = length ps" "length offsets = length ps + 1"
    "i < length ps \<Longrightarrow> MarshalBinary C (pData (ps ! i)) = Inr (blobs ! i)"
    "i \<le> length ps \<Longrightarrow> offsets ! i = cum + int (length (concat (take i blobs)))" by auto
qed

lemma marshal_points_total:
  "\<forall>p \<in> set ps. \<exists>bs. MarshalBinary C (pData p) = Inr bs \<Longrightarrow> \<exists>blobs offsets. marshal_points C ps cum = Inr (blobs, offsets)"
proof (induction ps arbitrary: cum)
  case (Cons p ps)
  obtain bs where bs: "MarshalBinary C (pData p) = Inr bs" using Cons.prems by auto
  obtain blobs offsets where "marshal_points C ps (cum + int (length bs)) = Inr (blobs, offsets)"
    using Cons.IH Cons.prems by fastforce
  then show ?case using bs by simp
qed simp

subsection \<open>Reading the layout back\<close>

text \<open>What \<open>BuildDisk\<close> and the queries need of a point's marshalling.\<close>

locale codec =
  fixes C :: "'v binaryData"
  assumes unmarshal_marshal: "MarshalBinary C v = Inr bs \<Longrightarrow> bs \<noteq> [] \<Longrightarrow> UnmarshalBinary C bs = Inr v"
    and marshal_empty: "MarshalBinary C v = Inr [] \<Longrightarrow> v = zero_value C"

lemma i64_small [simp]: "0 \<le> x \<Longrightarrow> x < 9223372036854775808 \<Longrightarrow> i64 x = x"
  by (simp add: i64_id is_i64_def)

lemma read_u64s:
  assumes r: "reads_file r file" and f: "file = A @ u64s ws @ Z" and small: "length file < 2 ^ 63"
    and off: "off = int (length A) + int (8 * i)" and n: "n = 8 * c" and c: "i + c \<le> length ws"
  shows "read_full r (i64 off) n = Inr (u64s (take c (drop i ws)))"
proof -
  have "length A + 8 * length ws \<le> length file" by (simp add: f)
  then have b: "0 \<le> off" "off < 9223372036854775808" "off + int n \<le> int (length file)"
    using small c by (simp_all add: off n)
  have "drop (nat off) file = drop (8 * i) (u64s ws) @ Z"
    using c by (simp add: f off nat_add_distrib nat_mult_distrib)
  then have "take n (drop (nat off) file) = u64s (take c (drop i ws))"
    using c by (simp add: n drop_u64s take_u64s)
  then show ?thesis using read_full_file [OF r b(1,3)] b by simp
qed

lemma items_coords:
  assumes "kd_wf a" "p < length (idxs a)"
  shows "items a ! p = (idxs a ! p, coords a ! (2 * p), coords a ! (2 * p + 1))"
  using assms by (simp add: item_def)

lemma f64_of_bits [simp]: "F64 (f64_bits x) = x"
  by simp

lemma nth_map_drop_take: "j < c \<Longrightarrow> i + c \<le> length ws \<Longrightarrow> map f (take c (drop i ws)) ! j = f (ws ! (i + j))"
  by simp

text \<open>The parts of an opened file, as the offsets in the header point to them.\<close>

definition disk_at :: "disk_bush \<Rightarrow> byte list \<Rightarrow> byte list \<Rightarrow> byte list \<Rightarrow> 'v kdbush \<Rightarrow> byte list list \<Rightarrow> int list \<Rightarrow> bool" where
  "disk_at d file pre post b blobs offsets \<longleftrightarrow>
     file = pre @ kdbh_file b blobs offsets @ post \<and> length file < 2 ^ 63 \<and> reads_file (d_r d) file
     \<and> idxsOffset d = int (length pre) + 32
     \<and> coordsOffset d = int (length pre) + 32 + 8 * int (length (points b))
     \<and> dataOffsetsOff d = int (length pre) + 32 + 24 * int (length (points b))
     \<and> dataBlobsOff d = int (length pre) + 32 + 24 * int (length (points b)) + 8 * (int (length (points b)) + 1)"

lemma OpenDisk_file:
  assumes b: "bush_ok b" and ns: "nodeSize b < 2 ^ 63" and off: "length offsets = length (points b) + 1"
    and f: "file = pre @ kdbh_file b blobs offsets @ post" and small: "length file < 2 ^ 63" and r: "reads_file r file"
  obtains d where "OpenDisk r (int (length pre)) = Inr d" "disk_at d file pre post b blobs offsets"
    "d_numPoints d = int (length (points b))" "d_nodeSize d = int (nodeSize b)"
proof -
  let ?n = "length (points b)"
  note n = bush_okD [OF b]
  have "length (kdbh_file b blobs offsets) \<le> length file" by (simp add: f)
  then have sz: "length pre + 32 + 8 * ?n + 16 * ?n + 8 * (?n + 1) < 2 ^ 63"
    using small n off by (simp add: f kdbh_file_def kd_wf_def)
  have h: "read_full r (int (length pre)) 32 = Inr (disk_header (nodeSize b) ?n)"
    by (rule read_full_at [OF r, of pre _ "u64s (map word_of_int (idxs (arrays b)))
     @ u64s (map f64_bits (coords (arrays b))) @ u64s (map word_of_int offsets) @ concat blobs @ post"])
      (simp_all add: f kdbh_file_def)
  have hd: "take 4 (disk_header (nodeSize b) ?n) = diskMagic" "u32_of (drop 4 (disk_header (nodeSize b) ?n)) = diskVersion"
    "sint (u64_of (drop 8 (disk_header (nodeSize b) ?n))) = int (nodeSize b)"
    "sint (u64_of (drop 16 (disk_header (nodeSize b) ?n))) = int ?n"
    using sint_u64 [of "int (nodeSize b)"] sint_u64 [of "int ?n"] ns sz
    by (simp_all add: disk_header_def diskMagic_def)
  show thesis
  proof (rule that)
    show "OpenDisk r (int (length pre)) = Inr \<lparr>d_r = r, d_nodeSize = int (nodeSize b), d_numPoints = int ?n,
        idxsOffset = int (length pre) + 32, coordsOffset = int (length pre) + 32 + 8 * int ?n,
        dataOffsetsOff = int (length pre) + 32 + 24 * int ?n,
        dataBlobsOff = int (length pre) + 32 + 24 * int ?n + 8 * (int ?n + 1)\<rparr>"
      using h hd sz by (simp add: OpenDisk_def diskHeaderSize_def Let_def algebra_simps)
  qed (use f small r in \<open>simp_all add: disk_at_def\<close>)
qed

lemma disk_at_tree:
  assumes at: "disk_at d file pre post b blobs offsets" and b: "bush_ok b"
    and lr: "0 \<le> l" "l \<le> r" "r < int (length (points b))"
  defines "c \<equiv> nat (r - l + 1)"
  shows "read_full (d_r d) (i64 (idxsOffset d + l * 8)) (c * 8) = Inr (u64s (map word_of_int (take c (drop (nat l) (idxs (arrays b))))))"
    and "read_full (d_r d) (i64 (coordsOffset d + l * 16)) (c * 16)
      = Inr (u64s (map f64_bits (take (2 * c) (drop (2 * nat l) (coords (arrays b))))))"
proof -
  note n = bush_okD [OF b]
  let ?ws = "map word_of_int (idxs (arrays b)) :: u64 list" and ?vs = "map f64_bits (coords (arrays b))"
  let ?H = "pre @ disk_header (nodeSize b) (length (points b))"
  have f: "file = ?H @ u64s ?ws @ (u64s ?vs @ u64s (map word_of_int offsets) @ concat blobs @ post)"
    "file = (?H @ u64s ?ws) @ u64s ?vs @ (u64s (map word_of_int offsets) @ concat blobs @ post)"
    using at by (simp_all add: disk_at_def kdbh_file_def)
  have small: "length file < 2 ^ 63" and r: "reads_file (d_r d) file" using at unfolding disk_at_def by blast+
  have c: "nat l + c \<le> length (idxs (arrays b))" "2 * nat l + 2 * c \<le> length (coords (arrays b))"
    using lr n by (simp_all add: c_def kd_wf_def)
  have "read_full (d_r d) (i64 (idxsOffset d + l * 8)) (c * 8) = Inr (u64s (take c (drop (nat l) ?ws)))"
    by (rule read_u64s [OF r f(1) small]) (use at c lr in \<open>simp_all add: disk_at_def\<close>)
  then show "read_full (d_r d) (i64 (idxsOffset d + l * 8)) (c * 8)
      = Inr (u64s (map word_of_int (take c (drop (nat l) (idxs (arrays b))))))"
    by (simp add: take_map drop_map)
  have "read_full (d_r d) (i64 (coordsOffset d + l * 16)) (c * 16) = Inr (u64s (take (2 * c) (drop (2 * nat l) ?vs)))"
    by (rule read_u64s [OF r f(2) small]) (use at c lr n in \<open>simp_all add: disk_at_def kd_wf_def\<close>)
  then show "read_full (d_r d) (i64 (coordsOffset d + l * 16)) (c * 16)
      = Inr (u64s (map f64_bits (take (2 * c) (drop (2 * nat l) (coords (arrays b))))))"
    by (simp add: take_map drop_map)
qed

lemma disk_at_blob:
  assumes at: "disk_at d file pre post b blobs offsets" and b: "bush_ok b"
    and mp: "marshal_points C (points b) 0 = Inr (blobs, offsets)" and k: "k < length (points b)"
  shows "read_full (d_r d) (i64 (dataOffsetsOff d + int k * 8)) 16
      = Inr (u64s [word_of_int (offsets ! k), word_of_int (offsets ! Suc k)])"
    and "read_full (d_r d) (i64 (dataBlobsOff d + offsets ! k)) (length (blobs ! k)) = Inr (blobs ! k)"
    and "0 \<le> offsets ! k" and "offsets ! Suc k = offsets ! k + int (length (blobs ! k))"
    and "offsets ! Suc k < 2 ^ 63"
proof -
  note n = bush_okD [OF b] and m = marshal_points_nth [OF mp]
  let ?H = "pre @ disk_header (nodeSize b) (length (points b)) @ u64s (map word_of_int (idxs (arrays b)))
    @ u64s (map f64_bits (coords (arrays b)))"
  have f: "file = ?H @ u64s (map word_of_int offsets) @ (concat blobs @ post)"
    using at by (simp add: disk_at_def kdbh_file_def)
  have small: "length file < 2 ^ 63" and r: "reads_file (d_r d) file" using at unfolding disk_at_def by blast+
  have sp: "concat blobs = concat (take k blobs) @ blobs ! k @ concat (drop (Suc k) blobs)"
    using k m(1) by (metis concat_append concat.simps(2) id_take_nth_drop)
  have tk: "take (Suc k) blobs = take k blobs @ [blobs ! k]" using k m(1) by (simp add: take_Suc_conv_app_nth)
  show o: "0 \<le> offsets ! k" "offsets ! Suc k = offsets ! k + int (length (blobs ! k))"
    using m(4) [of k] m(4) [of "Suc k"] k by (simp_all add: tk)
  have "offsets ! Suc k \<le> int (length (concat blobs))"
    using m(4) [of "Suc k"] k sp by (simp add: tk)
  also have "\<dots> \<le> int (length file)" by (simp add: f)
  finally show top: "offsets ! Suc k < 2 ^ 63" using small by simp
  have "drop k offsets = offsets ! k # offsets ! Suc k # drop (Suc (Suc k)) offsets"
    using k m(2) by (simp add: Cons_nth_drop_Suc)
  then have "take 2 (drop k (map word_of_int offsets)) = [word_of_int (offsets ! k), word_of_int (offsets ! Suc k) :: u64]"
    by (simp add: drop_map numeral_2_eq_2)
  moreover have "read_full (d_r d) (i64 (dataOffsetsOff d + int k * 8)) 16 = Inr (u64s (take 2 (drop k (map word_of_int offsets))))"
    by (rule read_u64s [OF r f small]) (use at k n m in \<open>simp_all add: disk_at_def kd_wf_def\<close>)
  ultimately show "read_full (d_r d) (i64 (dataOffsetsOff d + int k * 8)) 16
      = Inr (u64s [word_of_int (offsets ! k), word_of_int (offsets ! Suc k)])" by simp
  have off: "offsets ! k = int (length (concat (take k blobs)))" using m(4) [of k] k by simp
  have f2: "file = (?H @ u64s (map word_of_int offsets) @ concat (take k blobs)) @ blobs ! k @ (concat (drop (Suc k) blobs) @ post)"
    using f sp by simp
  have pos: "dataBlobsOff d + offsets ! k = int (length (?H @ u64s (map word_of_int offsets) @ concat (take k blobs)))"
    using at n m off by (simp add: disk_at_def kd_wf_def)
  have "length (?H @ u64s (map word_of_int offsets) @ concat (take k blobs)) \<le> length file"
    by (subst f2) simp
  then have "i64 (dataBlobsOff d + offsets ! k) = dataBlobsOff d + offsets ! k"
    unfolding pos using small by simp
  then show "read_full (d_r d) (i64 (dataBlobsOff d + offsets ! k)) (length (blobs ! k)) = Inr (blobs ! k)"
    using read_full_at [OF r f2 pos refl] by simp
qed

lemma idx_int:
  assumes "bush_ok b" "p < length (points b)" "length (points b) < 2 ^ 63"
  shows "i64 (idxs (arrays b) ! p) = idxs (arrays b) ! p"
proof -
  have "items (arrays b) ! p \<in> set (items (arrays b))"
    using assms bush_okD(2) [OF assms(1)] by (intro nth_mem) simp
  then obtain k where "k < length (points b)" "items (arrays b) ! p = item_of (points b) k"
    using bush_okD(3) [OF assms(1)] by auto
  then have "idxs (arrays b) ! p = int k" "k < 2 ^ 63"
    using assms bush_okD(2) [OF assms(1)] by (simp_all add: item_def item_of_def)
  then show ?thesis by simp
qed

lemma take2_drop: "Suc j < length xs \<Longrightarrow> take 2 (drop j xs) = [xs ! j, xs ! Suc j]"
  by (simp add: numeral_2_eq_2 Cons_nth_drop_Suc [symmetric])

lemma take1_drop: "j < length xs \<Longrightarrow> take (Suc 0) (drop j xs) = [xs ! j]"
  by (simp add: Cons_nth_drop_Suc [symmetric])

lemma leaf_items_u64s:
  assumes "i + c \<le> length is" "2 * i + 2 * c \<le> length cs" "\<And>p. p < length is \<Longrightarrow> i64 (is ! p) = is ! p"
  shows "leaf_items (map (\<lambda>j. sint (u64_of (drop (j * 8) (u64s (map word_of_int (take c (drop i is))))))) [0..<c])
      (map (\<lambda>j. F64 (u64_of (drop (j * 8) (u64s (map f64_bits (take (2 * c) (drop (2 * i) cs))))))) [0..<c * 2]) c
    = map (\<lambda>j. (is ! (i + j), cs ! (2 * (i + j)), cs ! (2 * (i + j) + 1))) [0..<c]"
proof -
  have w: "sint (u64_of (drop (j * 8) (u64s (map word_of_int (take c (drop i is)))))) = is ! (i + j)" if "j < c" for j
    using assms that by (simp add: u64_of_drop)
  have v: "F64 (u64_of (drop (j * 8) (u64s (map f64_bits (take (2 * c) (drop (2 * i) cs)))))) = cs ! (2 * i + j)"
    if "j < 2 * c" for j
    using assms that by (simp add: u64_of_drop)
  have "F64 (u64_of (drop (16 * j) (u64s (map f64_bits (take (2 * c) (drop (2 * i) cs)))))) = cs ! (2 * i + 2 * j)
    \<and> F64 (u64_of (drop (8 + 16 * j) (u64s (map f64_bits (take (2 * c) (drop (2 * i) cs)))))) = cs ! Suc (2 * i + 2 * j)"
    if "j < c" for j
    using v [of "2 * j"] v [of "2 * j + 1"] that by simp
  then show ?thesis using w by (simp add: leaf_items_def)
qed

lemma seg_nth: "0 \<le> l \<Longrightarrow> seg xs l r = map (\<lambda>j. xs ! (nat l + j)) [0..<nat (r - l + 1)]"
  by (rule nth_equalityI) (auto simp: seg_def nth_upto nat_add_distrib simp del: upt_Suc nat_plus_as_int)

context codec
begin

lemma readPointData_at:
  assumes at: "disk_at d file pre post b blobs offsets" and b: "bush_ok b"
    and mp: "marshal_points C (points b) 0 = Inr (blobs, offsets)" and k: "k < length (points b)"
  shows "readPointData C d (int k) = Some (Inr (pData (points b ! k)))"
proof -
  note B = disk_at_blob [OF at b mp k]
  have mk: "MarshalBinary C (pData (points b ! k)) = Inr (blobs ! k)" using marshal_points_nth(3) [OF mp k] .
  have o: "i64 (offsets ! k) = offsets ! k" "i64 (offsets ! Suc k) = offsets ! Suc k"
    using B(3,4,5) by simp_all
  have len: "i64 (offsets ! Suc k - offsets ! k) = int (length (blobs ! k))"
    using B(3,4,5) by simp
  show ?thesis
  proof (cases "blobs ! k = []")
    case True
    then show ?thesis using B(1) o len mk marshal_empty by (simp add: readPointData_def Let_def)
  next
    case False
    then show ?thesis using B(1,2) o len mk unmarshal_marshal by (simp add: readPointData_def Let_def)
  qed
qed

lemma disk_rep_at:
  assumes at: "disk_at d file pre post b blobs offsets" and b: "bush_ok b"
    and mp: "marshal_points C (points b) 0 = Inr (blobs, offsets)"
    and d: "d_numPoints d = int (length (points b))" "d_nodeSize d = int (nodeSize b)"
  shows "disk_rep C d b"
proof -
  note n = bush_okD [OF b]
  have small: "length (points b) < 2 ^ 63"
  proof -
    have "length (u64s (map word_of_int (idxs (arrays b)))) \<le> length file"
      using at by (simp add: disk_at_def kdbh_file_def del: length_u64s)
    moreover have "length file < 2 ^ 63" using at unfolding disk_at_def by blast
    ultimately show ?thesis using n(2) by simp
  qed
  note idx = idx_int [OF b _ small]
  have one: "readIdx d i = Inr (fst (items (arrays b) ! nat i))
      \<and> readCoord d i = Inr (tx (items (arrays b) ! nat i), ty (items (arrays b) ! nat i))"
    if i: "0 \<le> i" "i < int (length (points b))" for i
  proof -
    have p: "nat i < length (points b)" using i by simp
    have "Suc (2 * nat i) < length (coords (arrays b))" using p n by (simp add: kd_wf_def)
    then show ?thesis
      using disk_at_tree [OF at b i(1) order_refl i(2)] n(2) p idx [OF p]
      by (simp add: readIdx_def readCoord_def take1_drop take2_drop item_def tx_def ty_def)
  qed
  have leaf: "\<exists>is cs. readLeaf d l r = Inr (is, cs) \<and> leaf_items is cs (nat (r - l + 1)) = seg (items (arrays b)) l r"
    if lr: "0 \<le> l" "l \<le> r" "r < int (length (points b))" for l r
  proof -
    let ?c = "nat (r - l + 1)"
    have len: "nat l + ?c \<le> length (idxs (arrays b))" "2 * nat l + 2 * ?c \<le> length (coords (arrays b))"
      using lr n by (simp_all add: kd_wf_def)
    have "seg (items (arrays b)) l r
      = map (\<lambda>j. (idxs (arrays b) ! (nat l + j), coords (arrays b) ! (2 * (nat l + j)), coords (arrays b) ! (2 * (nat l + j) + 1))) [0..<?c]"
      unfolding seg_nth [OF lr(1)] using len(1) by (simp add: item_def)
    then show ?thesis
      using disk_at_tree [OF at b lr] lr leaf_items_u64s [OF len] idx n(2)
      by (intro exI) (auto simp: readLeaf_def Let_def)
  qed
  have "readPointData C d (fst t) = Some (Inr (pData (point_at b t)))" if t: "t \<in> set (items (arrays b))" for t
  proof -
    obtain k where "k < length (points b)" "t = item_of (points b) k" using t n(3) by auto
    then show ?thesis using readPointData_at [OF at b mp] by (simp add: point_at_def)
  qed
  then show ?thesis using one leaf d unfolding disk_rep_def by blast
qed

lemma kdbh_opens:
  assumes mp: "marshal_points C (points b) 0 = Inr (blobs, offsets)" and b: "bush_ok b" "nodeSize b < 2 ^ 63"
    and f: "reads_file r file" "file = pre @ kdbh_file b blobs offsets @ post" "length file < 2 ^ 63"
  shows "\<exists>d. OpenDisk r (int (length pre)) = Inr d \<and> disk_rep C d b"
proof -
  have off: "length offsets = length (points b) + 1" using marshal_points_nth(2) [OF mp] .
  obtain d where d: "OpenDisk r (int (length pre)) = Inr d" "disk_at d file pre post b blobs offsets"
    "d_numPoints d = int (length (points b))" "d_nodeSize d = int (nodeSize b)"
    using OpenDisk_file [OF b off f(2,3,1)] by metis
  then show ?thesis using disk_rep_at [OF d(2) b(1) mp d(3,4)] by blast
qed

text \<open>Building, writing, opening: the result represents the index in memory.\<close>

lemma BuildDisk_OpenDisk:
  assumes w: "writer_ok w out" and win: "window_narrows M (length ps)" and ns: "ns < 2 ^ 63"
    and mar: "\<forall>p \<in> set ps. \<exists>bs. MarshalBinary C (pData p) = Inr bs"
  obtains block s' b where "BuildDisk M C ps ns w s = Some ((int (length block), None), s')" "out s' = out s @ block"
    "NewBush M ps ns = Some b" "bush_ok b" "points b = ps"
    "\<And>r file pre post. reads_file r file \<Longrightarrow> file = pre @ block @ post \<Longrightarrow> length file < 2 ^ 63 \<Longrightarrow> \<exists>d. OpenDisk r (int (length pre)) = Inr d \<and> disk_rep C d b"
proof -
  obtain b where b: "NewBush M ps ns = Some b" "nodeSize b = ns" "points b = ps" "bush_ok b"
    using NewBush_ok [OF win, of ns] by metis
  obtain blobs offsets where mp: "marshal_points C ps 0 = Inr (blobs, offsets)"
    using marshal_points_total [OF mar] by blast
  obtain s' where s': "BuildDisk M C ps ns w s = Some ((int (length (kdbh_file b blobs offsets)), None), s')"
    "out s' = out s @ kdbh_file b blobs offsets"
    using BuildDisk_writes [OF w b(1) mp] by metis
  have "\<exists>d. OpenDisk r (int (length pre)) = Inr d \<and> disk_rep C d b"
    if "reads_file r file" "file = pre @ kdbh_file b blobs offsets @ post" "length file < 2 ^ 63" for r "file" pre post
    using kdbh_opens [OF _ b(4) _ that] mp ns b(2,3) by simp
  then show thesis using that [OF s' b(1,4,3)] by blast
qed

end

subsection \<open>Properties\<close>

text \<open>
  Opening succeeds exactly on a complete header with the right magic bytes and version;
  a truncated file and a foreign one are errors.
\<close>

theorem OpenDisk_checks:
  assumes "reads_file r file" and "0 \<le> offset" and "offset \<le> int (length file)"
  shows "(\<exists>d. OpenDisk r offset = Inr d) \<longleftrightarrow>
    offset + 32 \<le> int (length file) \<and> take 4 (drop (nat offset) file) = [0x4B, 0x44, 0x42, 0x48]
    \<and> u32_of (drop (nat offset + 4) file) = 1"
proof (cases "offset + 32 \<le> int (length file)")
  case True
  then have "read_full r offset 32 = Inr (take 32 (drop (nat offset) file))"
    using read_full_file [OF assms(1,2), of 32] by simp
  then show ?thesis using True
    by (auto simp: OpenDisk_def diskHeaderSize_def diskMagic_def diskVersion_def Let_def u32_of_def drop_take add.commute)
next
  case False
  then have "snd (r offset 32) \<noteq> None" using assms by (simp add: reads_file_def)
  then have "\<exists>e. read_full r offset 32 = Inl e" by (auto simp: read_full_def split: prod.splits option.splits)
  then show ?thesis using False by (auto simp: OpenDisk_def diskHeaderSize_def)
qed

lemma OpenDisk_checks_witness:
  "(\<exists>d. OpenDisk (file_reader (7 # disk_header 64 2)) 1 = Inr d)
   \<and> \<not> (\<exists>d. OpenDisk (file_reader (7 # disk_header 64 2)) 0 = Inr d)
   \<and> \<not> (\<exists>d. OpenDisk (file_reader (7 # disk_header 64 2)) 2 = Inr d)"
proof -
  let ?f = "7 # disk_header 64 2"
  have "u32_of (drop 5 ?f) = 1" by (simp add: disk_header_def diskMagic_def diskVersion_def)
  moreover have "take 4 (drop 1 ?f) = [0x4B, 0x44, 0x42, 0x48]" "take 4 ?f \<noteq> [0x4B, 0x44, 0x42, 0x48]"
    by (simp_all add: disk_header_def diskMagic_def)
  ultimately show ?thesis
    using OpenDisk_checks [OF file_reader_ok, of 1 ?f] OpenDisk_checks [OF file_reader_ok, of 0 ?f]
      OpenDisk_checks [OF file_reader_ok, of 2 ?f] by simp
qed

end
