(* ===== verification/PointData.thy ===== *)
theory PointData
  imports KDBush_Disk
begin

section \<open>The v2 point record\<close>

text \<open>
  \<^verbatim>\<open>cachesaver/save/v2/pointdata.go\<close>: five 32-bit string identifiers and a weight, 21 bytes.
  It is the data type of the on-disk index, so the properties of \<open>BuildDisk\<close>, \<open>OpenDisk\<close>
  and the disk queries are stated at the end of this theory, with it as the instance.
\<close>

record v2_point_data =
  NameID :: u32
  StreetID :: u32
  HouseNumberID :: u32
  CityID :: u32
  RegionID :: u32
  Weight :: byte

definition v2PointDataSize :: nat where
  "v2PointDataSize = 21"

definition v2_zero :: v2_point_data where
  "v2_zero = \<lparr>NameID = 0, StreetID = 0, HouseNumberID = 0, CityID = 0, RegionID = 0, Weight = 0\<rparr>"

definition V2_MarshalBinary :: "v2_point_data \<Rightarrow> byte list result" where
  "V2_MarshalBinary d =
     Inr (put_u32 (NameID d) @ put_u32 (StreetID d) @ put_u32 (HouseNumberID d)
          @ put_u32 (CityID d) @ put_u32 (RegionID d) @ [Weight d])"

definition V2_UnmarshalBinary :: "byte list \<Rightarrow> v2_point_data result" where
  "V2_UnmarshalBinary data =
     (if length data = 0 then Inr v2_zero
      else if length data < v2PointDataSize then Inl (Err ''savev2: invalid V2PointData size'')
      else Inr \<lparr>NameID = u32_of data, StreetID = u32_of (drop 4 data), HouseNumberID = u32_of (drop 8 data),
             CityID = u32_of (drop 12 data), RegionID = u32_of (drop 16 data), Weight = data ! 20\<rparr>)"

definition v2_codec :: "v2_point_data binaryData" where
  "v2_codec = \<lparr>MarshalBinary = V2_MarshalBinary, UnmarshalBinary = V2_UnmarshalBinary, zero_value = v2_zero\<rparr>"

lemma length_V2_MarshalBinary: "V2_MarshalBinary d = Inr bs \<Longrightarrow> length bs = v2PointDataSize"
  by (auto simp: V2_MarshalBinary_def v2PointDataSize_def)

lemma u32_of_skip [simp]: "4 \<le> n \<Longrightarrow> drop n (put_u32 w @ bs) = drop (n - 4) bs"
  by simp

lemma V2_roundtrip_append:
  assumes "V2_MarshalBinary d = Inr bs"
  shows "V2_UnmarshalBinary (bs @ rest) = Inr d"
proof -
  have bs: "bs @ rest = put_u32 (NameID d) @ put_u32 (StreetID d) @ put_u32 (HouseNumberID d)
      @ put_u32 (CityID d) @ put_u32 (RegionID d) @ Weight d # rest"
    using assms by (auto simp: V2_MarshalBinary_def)
  show ?thesis unfolding bs V2_UnmarshalBinary_def by (simp add: v2PointDataSize_def nth_append)
qed

lemma V2_roundtrip: "V2_MarshalBinary d = Inr bs \<Longrightarrow> V2_UnmarshalBinary bs = Inr d"
  using V2_roundtrip_append [of d bs "[]"] by simp

lemma V2_short:
  assumes "0 < length bs" "length bs < 21"
  shows "V2_UnmarshalBinary bs = Inl (Err ''savev2: invalid V2PointData size'')"
  using assms by (simp add: V2_UnmarshalBinary_def v2PointDataSize_def)

interpretation v2: codec v2_codec
proof
  show "\<And>v bs. MarshalBinary v2_codec v = Inr bs \<Longrightarrow> bs \<noteq> [] \<Longrightarrow> UnmarshalBinary v2_codec bs = Inr v"
    by (simp add: v2_codec_def V2_roundtrip)
  show "\<And>v. MarshalBinary v2_codec v = Inr [] \<Longrightarrow> v = zero_value v2_codec"
    using length_V2_MarshalBinary by (fastforce simp: v2_codec_def v2PointDataSize_def)
qed

lemma v2_marshals: "\<exists>bs. MarshalBinary v2_codec v = Inr bs"
  by (simp add: v2_codec_def V2_MarshalBinary_def)

subsection \<open>Properties\<close>

text \<open>
  A point record is written as 21 bytes and read back unchanged, also from a longer
  buffer; a shorter buffer that is not empty is an error.
\<close>

theorem V2PointData_roundtrip:
  "(\<exists>bs. V2_MarshalBinary d = Inr bs \<and> length bs = 21 \<and> V2_UnmarshalBinary (bs @ rest) = Inr d
     \<and> (\<forall>n. 0 < n \<longrightarrow> n < 21 \<longrightarrow> V2_UnmarshalBinary (take n bs) = Inl (Err ''savev2: invalid V2PointData size'')))"
proof -
  obtain bs where bs: "V2_MarshalBinary d = Inr bs" by (simp add: V2_MarshalBinary_def)
  then have "length bs = 21" by (auto simp: V2_MarshalBinary_def)
  moreover from this have "V2_UnmarshalBinary (take n bs) = Inl (Err ''savev2: invalid V2PointData size'')"
    if "0 < n" "n < 21" for n
    using that by (intro V2_short) auto
  ultimately show ?thesis using bs V2_roundtrip_append [OF bs] by blast
qed

lemma V2PointData_roundtrip_witness:
  "\<exists>bs. V2_MarshalBinary \<lparr>NameID = 1, StreetID = 2, HouseNumberID = 3, CityID = 4, RegionID = 70000, Weight = 9\<rparr> = Inr bs
     \<and> V2_UnmarshalBinary (take 20 bs) = Inl (Err ''savev2: invalid V2PointData size'')"
  using V2PointData_roundtrip [of "\<lparr>NameID = 1, StreetID = 2, HouseNumberID = 3, CityID = 4, RegionID = 70000, Weight = 9\<rparr>" "[]"]
  by auto

text \<open>
  C14. An index that is built, written by \<open>BuildDisk\<close> anywhere into a file and opened again
  answers both queries exactly as the in-memory index of the same points: \<open>Range\<close> gives
  the points whose numbers the memory index gives, in its order, \<open>Within\<close> runs the handler
  to the same final state, and neither reports an error.
\<close>

theorem disk_index_agrees:
  fixes ps :: "v2_point_data point list"
  assumes "writer_ok w out" and "window_narrows M (length ps)" and "ns < 2 ^ 63"
    and "BuildDisk M v2_codec ps ns w s = Some ((written, err), s')"
    and "reads_file r (out s' @ rest)" and "length (out s' @ rest) < 2 ^ 63"
  shows "err = None \<and> written = int (length (out s') - length (out s))
    \<and> (\<exists>b d. NewBush M ps ns = Some b \<and> OpenDisk r (int (length (out s))) = Inr d
         \<and> (\<exists>res. Range b minX minY maxX maxY = Some res
              \<and> disk_Range v2_codec d minX minY maxX maxY = Some (Inr (map (\<lambda>i. ps ! nat i) res)))
         \<and> (\<exists>t'. Within b qx qy radius h t = Some t'
              \<and> disk_Within v2_codec d qx qy radius h t = Some (t', None)))"
proof -
  obtain block s1 b where B: "BuildDisk M v2_codec ps ns w s = Some ((int (length block), None), s1)"
    "out s1 = out s @ block" "NewBush M ps ns = Some b" "bush_ok b" "points b = ps"
    and open_it: "\<And>r file pre post. reads_file r file \<Longrightarrow> file = pre @ block @ post \<Longrightarrow> length file < 2 ^ 63
      \<Longrightarrow> \<exists>d. OpenDisk r (int (length pre)) = Inr d \<and> disk_rep v2_codec d b"
    using v2.BuildDisk_OpenDisk [OF assms(1-3), of s] v2_marshals by blast
  have s': "s' = s1" "err = None" "written = int (length block)" using assms(4) B(1) by simp_all
  have "out s' @ rest = out s @ block @ rest" using s'(1) B(2) by simp
  then obtain d where d: "OpenDisk r (int (length (out s))) = Inr d" "disk_rep v2_codec d b"
    using open_it [OF assms(5) _ assms(6)] by blast
  obtain res where "Range b minX minY maxX maxY = Some res"
    "disk_Range v2_codec d minX minY maxX maxY = Some (Inr (map (\<lambda>i. ps ! nat i) res))"
    using disk_Range_memory [OF d(2) B(4), of minX minY maxX maxY] B(5) by metis
  moreover obtain t' where "Within b qx qy radius h t = Some t'" "disk_Within v2_codec d qx qy radius h t = Some (t', None)"
    by (rule disk_Within_memory [OF d(2) B(4), of qx qy radius h t])
  moreover have "written = int (length (out s') - length (out s))" using s' B(2) by simp
  ultimately show ?thesis using B(3) d(1) s'(2) by blast
qed

definition sample_v2_points :: "v2_point_data point list" where
  "sample_v2_points =
     [\<lparr>pX = f64_of_int 5, pY = f64_of_int 1, pData = \<lparr>NameID = 1, StreetID = 2, HouseNumberID = 3, CityID = 4, RegionID = 5, Weight = 6\<rparr>\<rparr>,
      \<lparr>pX = f64_of_int 3, pY = f64_of_int 2, pData = v2_zero\<rparr>]"

lemma sample_v2_build:
  "\<exists>s'. BuildDisk sample_lib v2_codec sample_v2_points 64 buffer_write [1, 2, 3] = Some ((146, None), s') \<and> length s' = 149"
  by (simp add: BuildDisk_def sample_v2_points_def kd_sort.simps v2_codec_def V2_MarshalBinary_def initial_arrays_def
      write_step_def buffer_write_def diskWriteInts_def diskWriteFloat64s_def diskWriteInt64s_def diskWriteBlobs_def
      write_chunks.simps diskWriteChunkSize_def del: put_le.simps)

lemma disk_index_agrees_witness:
  "\<exists>s' b d t. BuildDisk sample_lib v2_codec sample_v2_points 64 buffer_write [1, 2, 3] = Some ((146, None), s')
     \<and> OpenDisk (file_reader (s' @ [7])) 3 = Inr d \<and> NewBush sample_lib sample_v2_points 64 = Some b
     \<and> Within b (f64_of_int 4) (f64_of_int 2) (f64_of_int 2) (\<lambda>p n. (Suc n, True)) 0 = Some t
     \<and> disk_Within v2_codec d (f64_of_int 4) (f64_of_int 2) (f64_of_int 2) (\<lambda>p n. (Suc n, True)) 0 = Some (t, None)"
proof -
  obtain s' where s': "BuildDisk sample_lib v2_codec sample_v2_points 64 buffer_write [1, 2, 3] = Some ((146, None), s')"
    "length s' = 149" using sample_v2_build by blast
  have "window_narrows sample_lib (length sample_v2_points)"
    by (simp add: small_window_narrows sample_v2_points_def)
  note T = disk_index_agrees [OF buffer_write_ok this _ s'(1), of "file_reader (s' @ [7])" "[7]" "f64_of_int 0"
    "f64_of_int 0" "f64_of_int 0" "f64_of_int 0" "f64_of_int 4" "f64_of_int 2" "f64_of_int 2" "\<lambda>p n. (Suc n, True)" 0]
  show ?thesis using T file_reader_ok [of "s' @ [7]"] s' by auto
qed

end
