(* ===== verification/CacheV2.thy ===== *)
theory CacheV2
  imports CacheModel PointData
begin

section \<open>The v2 cache file\<close>

text \<open>
  \<^verbatim>\<open>cachesaver/save/v2\<close>: \<open>Save\<close> writes a header, the metadata, the string table, the zones
  and the on-disk index; \<open>LoadMmap\<close> opens the file in place and \<open>Load\<close> reads it as a stream.
  The state of a writer, the messages' codecs and the calendar are parameters. \<open>vis\<close> is the
  order in which the loop over the string map visits its entries.
\<close>

definition COMPATIBILITY_LEVEL_v2 :: u32 where
  "COMPATIBILITY_LEVEL_v2 = 2"

subsection \<open>Messages\<close>

record v2_header =
  h_MetadataSize :: u32
  h_StringsIndexSize :: u32
  h_StringsDataSize :: u32
  h_ZonesSize :: u32

record v2_zone =
  vz_Name :: gostring
  vz_Bounds :: "pb_bounds option"
  vz_MultiPolygon :: "pb_multi_polygon option"

record v2_zone_blob =
  vb_ZoneType :: u32
  vb_Zones :: "v2_zone list"

type_synonym v2_zones_section = "v2_zone_blob list"

record v2_protos =
  header_pb :: "v2_header proto"
  metadata_pb :: "cache_metadata proto"
  zones_pb :: "v2_zones_section proto"

definition v2_protos_ok :: "v2_protos \<Rightarrow> bool" where
  "v2_protos_ok P \<longleftrightarrow> proto_ok (header_pb P) \<and> proto_ok (metadata_pb P) \<and> proto_ok (zones_pb P)"

subsection \<open>Saving\<close>

definition info_strings :: "cache_info \<Rightarrow> gostring list" where
  "info_strings i = [ci_Name i, ci_Street i, ci_HouseNumber i, ci_City i, ci_Region i]"

text \<open>The first pass registers the strings of every point.\<close>

definition register :: "cache_point \<Rightarrow> strings_dedup \<Rightarrow> strings_dedup" where
  "register p dedup = fold (\<lambda>s d. snd (dm_Add s d)) (info_strings (pData p)) dedup"

text \<open>The second pass looks their numbers up again.\<close>

definition fill_point :: "cache_point \<Rightarrow> strings_dedup \<Rightarrow> v2_point_data point \<times> strings_dedup" where
  "fill_point rp d0 =
     (let (nameID, d1) = dm_Add (ci_Name (pData rp)) d0;
          (streetID, d2) = dm_Add (ci_Street (pData rp)) d1;
          (houseNumberID, d3) = dm_Add (ci_HouseNumber (pData rp)) d2;
          (cityID, d4) = dm_Add (ci_City (pData rp)) d3;
          (regionID, d5) = dm_Add (ci_Region (pData rp)) d4
      in (\<lparr>pX = pX rp, pY = pY rp,
           pData = \<lparr>NameID = nameID, StreetID = streetID, HouseNumberID = houseNumberID,
             CityID = cityID, RegionID = regionID, Weight = ci_Weight (pData rp)\<rparr>\<rparr>, d5))"

fun fill_points :: "cache_point list \<Rightarrow> strings_dedup \<Rightarrow> v2_point_data point list" where
  "fill_points [] d = []"
| "fill_points (rp # rps) d = (let (p, d) = fill_point rp d in p # fill_points rps d)"

definition to_v2_zone :: "zone \<Rightarrow> v2_zone" where
  "to_v2_zone z = \<lparr>vz_Name = z_Name z, vz_Bounds = Some (mapBoundsToV2 (z_Bounds z)),
     vz_MultiPolygon = Some (mapMultiPolygonToV2 (z_Polygon z))\<rparr>"

definition buildZonesSection :: "zone list \<Rightarrow> v2_zones_section" where
  "buildZonesSection zones =
     (let regionZones = map to_v2_zone (filter (\<lambda>z. z_Type z = ZoneRegion) zones);
          countryZones = map to_v2_zone (filter (\<lambda>z. z_Type z = ZoneCountry) zones)
      in (if length regionZones > 0 then [\<lparr>vb_ZoneType = 1, vb_Zones = regionZones\<rparr>] else [])
         @ (if length countryZones > 0 then [\<lparr>vb_ZoneType = 2, vb_Zones = countryZones\<rparr>] else []))"

fun write_seq :: "'w writer \<Rightarrow> byte list list \<Rightarrow> 'w \<Rightarrow> error option \<times> 'w" where
  "write_seq w [] s = (None, s)"
| "write_seq w (b # bs) s =
     (case w b s of
        ((n, Some e), s) \<Rightarrow> (Some e, s)
      | ((n, None), s) \<Rightarrow> write_seq w bs s)"

definition metadata_message :: "'t calendar \<Rightarrow> 't metadata \<Rightarrow> cache_metadata" where
  "metadata_message T meta = \<lparr>cm_Version = md_Version meta,
     cm_DateCreated = FormatRFC3339 T (md_DateCreated meta), cm_Locale = md_Locale meta\<rparr>"

definition v2_header_of :: "byte list \<Rightarrow> u32 list \<Rightarrow> byte list \<Rightarrow> byte list \<Rightarrow> v2_header" where
  "v2_header_of metadataBytes offsetIndex stringData zonesBytes =
     \<lparr>h_MetadataSize = of_nat (length metadataBytes), h_StringsIndexSize = of_nat (length offsetIndex * 4),
      h_StringsDataSize = of_nat (length stringData), h_ZonesSize = of_nat (length zonesBytes)\<rparr>"

definition v2_Save :: "mathlib \<Rightarrow> v2_protos \<Rightarrow> 't calendar \<Rightarrow> ((gostring \<times> u32) list \<Rightarrow> (gostring \<times> u32) list)
    \<Rightarrow> 'w writer \<Rightarrow> cache_point list \<Rightarrow> zone list \<Rightarrow> 't metadata \<Rightarrow> 'w \<Rightarrow> (error option \<times> 'w) option" where
  "v2_Save M P T vis w pts zones meta s = do {
     let dedup = fold register pts newStringsDedup;
     (offsetIndex, stringData) \<leftarrow> buildStringIndex (vis (dm_m dedup)) dedup;
     let v2points = fill_points pts dedup;
     (case Marshal (zones_pb P) (buildZonesSection zones) of
        Inl e \<Rightarrow> Some (Some e, s)
      | Inr zonesBytes \<Rightarrow>
        (case Marshal (metadata_pb P) (metadata_message T meta) of
           Inl e \<Rightarrow> Some (Some e, s)
         | Inr metadataBytes \<Rightarrow>
           (case Marshal (header_pb P) (v2_header_of metadataBytes offsetIndex stringData zonesBytes) of
              Inl e \<Rightarrow> Some (Some e, s)
            | Inr headerBytes \<Rightarrow>
              (case write_seq w [put_u32 (of_nat (length headerBytes)), headerBytes, metadataBytes,
                    concat (map put_u32 offsetIndex), stringData, zonesBytes] s of
                 (Some e, s) \<Rightarrow> Some (Some e, s)
               | (None, s) \<Rightarrow>
                   map_option (\<lambda>((n, e), s). (e, s)) (BuildDisk M v2_codec v2points DefaultNodeSize w s)))))
   }"

subsection \<open>Zones\<close>

definition from_v2_zone :: "byte \<Rightarrow> v2_zone \<Rightarrow> zone option" where
  "from_v2_zone zt z = do {
     bounds \<leftarrow> mapBoundsFromV2 (vz_Bounds z);
     Some \<lparr>z_Type = zt, z_Name = vz_Name z, z_Bounds = bounds, z_Polygon = mapMultiPolygonFromV2 (vz_MultiPolygon z)\<rparr>
   }"

definition zone_type_of :: "u32 \<Rightarrow> byte option" where
  "zone_type_of t = (if t = 1 then Some ZoneRegion else if t = 2 then Some ZoneCountry else None)"

text \<open>A blob of another type is skipped.\<close>

definition blob_zones :: "v2_zone_blob \<Rightarrow> zone list \<Rightarrow> zone list option" where
  "blob_zones blob zones =
     (case zone_type_of (vb_ZoneType blob) of
        None \<Rightarrow> Some zones
      | Some zt \<Rightarrow> for_each (\<lambda>z zones. map_option (\<lambda>z'. zones @ [z']) (from_v2_zone zt z)) (vb_Zones blob) zones)"

definition parseV2Zones :: "v2_protos \<Rightarrow> byte list \<Rightarrow> zone list result option" where
  "parseV2Zones P data =
     (case Unmarshal (zones_pb P) data of
        Inl e \<Rightarrow> Some (Inl (Wrap ''v2: failed to unmarshal zones section'' e))
      | Inr section \<Rightarrow> map_option Inr (for_each blob_zones section []))"

subsection \<open>Opening in place\<close>

record 't load_mmap_result =
  DiskBush :: disk_bush
  StringsIndex :: "u32 list"
  StringsDataOffset :: int
  Zones :: "zone list"
  MD :: "'t metadata"

fun u32_array :: "nat \<Rightarrow> byte list \<Rightarrow> u32 list" where
  "u32_array 0 bs = []"
| "u32_array (Suc n) bs = u32_of bs # u32_array n (drop 4 bs)"

definition load_metadata :: "'t calendar \<Rightarrow> string \<Rightarrow> cache_metadata \<Rightarrow> 't metadata result" where
  "load_metadata T msg m =
     (case ParseRFC3339 T (cm_DateCreated m) of
        Inl e \<Rightarrow> Inl (Wrap msg e)
      | Inr t \<Rightarrow> Inr \<lparr>md_Version = cm_Version m, md_Locale = cm_Locale m, md_DateCreated = t\<rparr>)"

text \<open>A read, an \<open>Unmarshal\<close> or a parse that fails ends the function with its message.\<close>

definition step :: "string \<Rightarrow> 'a result \<Rightarrow> ('a \<Rightarrow> 'b result option) \<Rightarrow> 'b result option" where
  "step msg x f = (case x of Inl e \<Rightarrow> Some (Inl (Wrap msg e)) | Inr v \<Rightarrow> f v)"

definition LoadMmap :: "v2_protos \<Rightarrow> 't calendar \<Rightarrow> reader \<Rightarrow> 't load_mmap_result result option" where
  "LoadMmap P T r =
     step ''v2 mmap: failed to read header size'' (read_full r 8 4) (\<lambda>sizeBuf.
     let headerSize = uint (u32_of sizeBuf) in
     step ''v2 mmap: failed to read header'' (read_full r 12 (nat headerSize)) (\<lambda>headerBytes.
     let off = i64 (12 + headerSize) in
     step ''v2 mmap: failed to unmarshal header'' (Unmarshal (header_pb P) headerBytes) (\<lambda>header.
     step ''v2 mmap: failed to read metadata'' (read_full r off (unat (h_MetadataSize header))) (\<lambda>metadataBytes.
     let off = i64 (off + uint (h_MetadataSize header)) in
     step ''v2 mmap: failed to unmarshal metadata'' (Unmarshal (metadata_pb P) metadataBytes) (\<lambda>m.
     step ''v2 mmap: failed to read string index'' (read_full r off (unat (h_StringsIndexSize header))) (\<lambda>indexBytes.
     let stringsIndex = u32_array (unat (h_StringsIndexSize header) div 4) indexBytes;
         stringsDataOffset = i64 (off + uint (h_StringsIndexSize header));
         off = i64 (stringsDataOffset + uint (h_StringsDataSize header)) in
     step ''v2 mmap: failed to read zones'' (read_full r off (unat (h_ZonesSize header))) (\<lambda>zonesBytes.
     let off = i64 (off + uint (h_ZonesSize header)) in
     (case parseV2Zones P zonesBytes of
        None \<Rightarrow> None
      | Some z \<Rightarrow>
        step ''v2 mmap: failed to parse zones'' z (\<lambda>parsedZones.
        step ''v2 mmap: failed to open disk bush'' (OpenDisk r off) (\<lambda>diskBush.
        Some (map_sum (\<lambda>e. e) (\<lambda>md. \<lparr>DiskBush = diskBush, StringsIndex = stringsIndex,
            StringsDataOffset = stringsDataOffset, Zones = parsedZones, MD = md\<rparr>)
          (load_metadata T ''v2 mmap: failed to parse date'' m))))))))))))"

subsection \<open>Reading as a stream\<close>

record 't v2_load =
  vl_index :: "u32 list"
  vl_data :: "byte list"
  vl_numPoints :: int
  vl_zones :: "zone list"
  vl_md :: "'t metadata"

definition v2_Load :: "v2_protos \<Rightarrow> 't calendar \<Rightarrow> stream \<Rightarrow> ('t v2_load result \<times> stream) option" where
  "v2_Load P T st =
     read_step ''v2 load: failed to read header size'' (ReadFull 4 st) (\<lambda>sizeBuf st.
     read_step ''v2 load: failed to read header'' (ReadFull (unat (u32_of sizeBuf)) st) (\<lambda>headerBytes st.
     read_step ''v2 load: failed to unmarshal header'' (Unmarshal (header_pb P) headerBytes, st) (\<lambda>header st.
     read_step ''v2 load: failed to read metadata'' (readProto (metadata_pb P) (h_MetadataSize header) st) (\<lambda>m st.
     let numStrings = unat (h_StringsIndexSize header) div 4 in
     read_step ''v2 load: failed to read string index'' (ReadFull (4 * numStrings) st) (\<lambda>indexBytes st.
     read_step ''v2 load: failed to read string data'' (ReadFull (unat (h_StringsDataSize header)) st) (\<lambda>stringsData st.
     read_step ''v2 load: failed to read zones'' (ReadFull (unat (h_ZonesSize header)) st) (\<lambda>zonesBytes st.
     (case parseV2Zones P zonesBytes of
        None \<Rightarrow> None
      | Some z \<Rightarrow>
        read_step ''v2 load: failed to parse zones'' (z, st) (\<lambda>parsedZones st.
        read_step ''v2 load: failed to read KDBH header'' (ReadFull 32 st) (\<lambda>kdbhHeader st.
        Some (map_sum (\<lambda>e. e) (\<lambda>md. \<lparr>vl_index = u32_array numStrings indexBytes, vl_data = stringsData,
            vl_numPoints = sint (u64_of (drop 16 kdbhHeader)), vl_zones = parsedZones, vl_md = md\<rparr>)
          (load_metadata T ''v2 load: failed to parse date'' m), st)))))))))))"

text \<open>The coordinates are not read: every point is at the origin.\<close>

definition resolvePointFromIndex :: "u32 list \<Rightarrow> byte list \<Rightarrow> v2_point_data \<Rightarrow> cache_point option" where
  "resolvePointFromIndex index dataBlock d = do {
     name \<leftarrow> readStrByID index dataBlock (NameID d);
     street \<leftarrow> readStrByID index dataBlock (StreetID d);
     houseNumber \<leftarrow> readStrByID index dataBlock (HouseNumberID d);
     city \<leftarrow> readStrByID index dataBlock (CityID d);
     region \<leftarrow> readStrByID index dataBlock (RegionID d);
     Some \<lparr>pX = 0, pY = 0, pData = \<lparr>ci_Name = name, ci_Street = street, ci_HouseNumber = houseNumber,
       ci_City = city, ci_Region = region, ci_Weight = Weight d\<rparr>\<rparr>
   }"

fun read_offsets :: "nat \<Rightarrow> stream \<Rightarrow> int list result \<times> stream" where
  "read_offsets 0 st = (Inr [], st)"
| "read_offsets (Suc n) st =
     (case ReadFull 8 st of
        (Inl e, st) \<Rightarrow> (Inl (Wrap ''v2 load: failed to read offset'' e), st)
      | (Inr buf, st) \<Rightarrow>
        (case read_offsets n st of
           (Inl e, st) \<Rightarrow> (Inl e, st)
         | (Inr offsets, st) \<Rightarrow> (Inr (sint (u64_of buf) # offsets), st)))"

definition read_blob :: "int \<Rightarrow> stream \<Rightarrow> (v2_point_data result \<times> stream) option" where
  "read_blob blobLen st =
     (if 0 < blobLen then
        if make_ok blobLen 1 then
          read_step ''v2 load: failed to read blob'' (ReadFull (nat blobLen) st) (\<lambda>blobBuf st.
          Some (wrap_err ''v2 load: failed to unmarshal blob'' (V2_UnmarshalBinary blobBuf), st))
        else None
      else Some (Inr v2_zero, st))"

text \<open>The values an iterator yields, in order; an error is the last one.\<close>

fun read_points :: "'t v2_load \<Rightarrow> int list \<Rightarrow> stream \<Rightarrow> (cache_point result list \<times> stream) option" where
  "read_points ld (o1 # o2 # offsets) st =
     (case read_blob (i64 (o2 - o1)) st of
        None \<Rightarrow> None
      | Some (Inl e, st) \<Rightarrow> Some ([Inl e], st)
      | Some (Inr d, st) \<Rightarrow> do {
          p \<leftarrow> resolvePointFromIndex (vl_index ld) (vl_data ld) d;
          (ps, st) \<leftarrow> read_points ld (o2 # offsets) st;
          Some (Inr p # ps, st)
        })"
| "read_points ld offsets st = Some ([], st)"

definition v2_points_iter :: "'t v2_load \<Rightarrow> stream \<Rightarrow> (cache_point result list \<times> stream) option" where
  "v2_points_iter ld st =
     (case CopyN_discard (i64 (i64 (vl_numPoints ld * 8) + i64 (vl_numPoints ld * 16))) st of
        (Some e, st) \<Rightarrow> Some ([Inl (Wrap ''v2 load: failed to skip tree'' e)], st)
      | (None, st) \<Rightarrow>
          if make_ok (i64 (vl_numPoints ld + 1)) 8 then
            (case read_offsets (nat (i64 (vl_numPoints ld + 1))) st of
               (Inl e, st) \<Rightarrow> Some ([Inl e], st)
             | (Inr offsets, st) \<Rightarrow> read_points ld offsets st)
          else None)"

definition v2_zones_iter :: "'t v2_load \<Rightarrow> zone result list" where
  "v2_zones_iter ld = map Inr (vl_zones ld)"

subsection \<open>What is written\<close>

lemma write_seq_ok:
  assumes "writer_ok w out"
  obtains s' where "write_seq w bs s = (None, s')" "out s' = out s @ concat bs"
proof -
  have "\<exists>s'. write_seq w bs s = (None, s') \<and> out s' = out s @ concat bs"
  proof (induction bs arbitrary: s)
    case (Cons b bs)
    obtain s1 where s1: "w b s = ((int (length b), None), s1)" "out s1 = out s @ b"
      using writer_okD [OF assms] by blast
    obtain s2 where "write_seq w bs s1 = (None, s2)" "out s2 = out s1 @ concat bs" using Cons by blast
    then show ?case using s1 by simp
  qed simp
  then show thesis using that by blast
qed

lemma length_concat_put_u32 [simp]: "length (concat (map put_u32 ws)) = 4 * length ws"
  by (induction ws) auto

lemma u32_array_put: "u32_array (length ws) (concat (map put_u32 ws)) = ws"
  by (induction ws) simp_all

text \<open>The strings of all points, and the table that \<open>Save\<close> makes of them.\<close>

definition all_strings :: "cache_point list \<Rightarrow> gostring list" where
  "all_strings pts = concat (map (\<lambda>p. info_strings (pData p)) pts)"

definition v2_table :: "cache_point list \<Rightarrow> strings_dedup" where
  "v2_table pts = fold register pts newStringsDedup"

lemma length_all_strings [simp]: "length (all_strings pts) = 5 * length pts"
  by (induction pts) (simp_all add: all_strings_def info_strings_def)

lemma v2_table_fold: "v2_table pts = fold (\<lambda>s d. snd (dm_Add s d)) (all_strings pts) newStringsDedup"
proof -
  have "fold register pts d = fold (\<lambda>s d. snd (dm_Add s d)) (all_strings pts) d" for d
    by (induction pts arbitrary: d) (simp_all add: register_def all_strings_def)
  then show ?thesis by (simp add: v2_table_def)
qed

definition strings_fit :: "cache_point list \<Rightarrow> bool" where
  "strings_fit pts \<longleftrightarrow> 5 * length pts + 1 < 2 ^ 32 \<and> sum_list (map (\<lambda>(s, i). length s + 1) (dm_m (v2_table pts))) < 2 ^ 32"

lemma v2_table_ok:
  assumes "strings_fit pts"
  shows "dm_ok 0 (v2_table pts)" and "set (all_strings pts) \<subseteq> set (dm.names (v2_table pts))"
    and "dm.names (v2_table pts) ! 0 = []" and "length (nul_block (dm.names (v2_table pts))) < 2 ^ 32"
proof -
  have "dm_ok (length (all_strings pts) + 0) newDedupMap" using assms by (intro dm_ok_new) (simp add: strings_fit_def)
  from dm.add_all_ok [OF this] have ok: "dm_ok 0 (v2_table pts)"
    and sub: "set (all_strings pts) \<subseteq> set (dm.names (v2_table pts))" and le: "map_of (dm_m newDedupMap) \<subseteq>\<^sub>m map_of (dm_m (v2_table pts))"
    by (simp_all add: v2_table_fold newStringsDedup_def)
  show "dm_ok 0 (v2_table pts)" by (rule ok)
  show "set (all_strings pts) \<subseteq> set (dm.names (v2_table pts))" by (rule sub)
  show "dm.names (v2_table pts) ! 0 = []" by (rule first_name [OF ok le])
  have "length (nul_block (map fst (rev kvs))) = sum_list (map (\<lambda>(s, i). length s + 1) kvs)" for kvs :: "(gostring \<times> u32) list"
    by (induction kvs) auto
  then show "length (nul_block (dm.names (v2_table pts))) < 2 ^ 32" using assms by (simp add: strings_fit_def dm.names_def)
qed

definition string_id :: "cache_point list \<Rightarrow> gostring \<Rightarrow> u32" where
  "string_id pts s = fst (dm_Add s (v2_table pts))"

lemma string_id_known:
  assumes "strings_fit pts" "s \<in> set (all_strings pts)"
  shows "dm_Add s (v2_table pts) = (string_id pts s, v2_table pts)"
    and "unat (string_id pts s) < length (dm.names (v2_table pts))"
    and "dm.names (v2_table pts) ! unat (string_id pts s) = s"
proof -
  have "s \<in> set (dm.names (v2_table pts))" using v2_table_ok(2) [OF assms(1)] assms(2) by blast
  then obtain i where i: "dm_Add s (v2_table pts) = (i, v2_table pts)" "map_of (dm_m (v2_table pts)) s = Some i"
    by (rule dm.add_known [OF v2_table_ok(1) [OF assms(1)]])
  note at = dm.lookup_name [OF v2_table_ok(1) [OF assms(1)] i(2)]
  have "nat (uint i) < length (dm_m (v2_table pts))" using at(1,2) by linarith
  moreover have "i = string_id pts s" using i(1) by (simp add: string_id_def)
  ultimately show "dm_Add s (v2_table pts) = (string_id pts s, v2_table pts)"
    "unat (string_id pts s) < length (dm.names (v2_table pts))" "dm.names (v2_table pts) ! unat (string_id pts s) = s"
    using i(1) at(3) by (simp_all only: nat_uint_eq dm.length_names)
qed

lemma read_string_id:
  assumes "strings_fit pts" "s \<in> set (all_strings pts)" "string_block (dm.names (v2_table pts)) = (index, data)"
  shows "readStrByID index data (string_id pts s) = Some (takeWhile (\<lambda>b. b \<noteq> 0) s)"
proof -
  have "length data < 2 ^ 32" using v2_table_ok(4) [OF assms(1)] assms(3) by (auto simp: string_block_def)
  then show ?thesis
    using readStrByID_block [OF assms(3) _ string_id_known(2) v2_table_ok(3)] string_id_known(3) assms(1,2) by simp
qed

definition v2_point_of :: "cache_point list \<Rightarrow> cache_point \<Rightarrow> v2_point_data point" where
  "v2_point_of pts p = \<lparr>pX = pX p, pY = pY p,
     pData = \<lparr>NameID = string_id pts (ci_Name (pData p)), StreetID = string_id pts (ci_Street (pData p)),
       HouseNumberID = string_id pts (ci_HouseNumber (pData p)), CityID = string_id pts (ci_City (pData p)),
       RegionID = string_id pts (ci_Region (pData p)), Weight = ci_Weight (pData p)\<rparr>\<rparr>"

lemma point_strings:
  "p \<in> set pts \<Longrightarrow> set (info_strings (pData p)) \<subseteq> set (all_strings pts)"
  by (auto simp: all_strings_def)

lemma fill_points_table:
  assumes "strings_fit pts"
  shows "fill_points pts (v2_table pts) = map (v2_point_of pts) pts"
proof -
  have one: "fill_point p (v2_table pts) = (v2_point_of pts p, v2_table pts)" if "p \<in> set pts" for p
  proof -
    have "\<forall>s \<in> set (info_strings (pData p)). dm_Add s (v2_table pts) = (string_id pts s, v2_table pts)"
      using string_id_known(1) [OF assms] point_strings [OF that] by blast
    then show ?thesis by (simp add: info_strings_def fill_point_def v2_point_of_def)
  qed
  have "fill_points qs (v2_table pts) = map (v2_point_of pts) qs" if "set qs \<subseteq> set pts" for qs
    using that by (induction qs) (simp_all add: one)
  then show ?thesis by blast
qed

lemma table_index:
  assumes "strings_fit pts" "mset order = mset (dm_m (v2_table pts))"
  shows "buildStringIndex order (v2_table pts) = Some (string_block (dm.names (v2_table pts)))"
  by (rule buildStringIndex_block [OF v2_table_ok(1) [OF assms(1)] assms(2) v2_table_ok(4) [OF assms(1)]])

text \<open>Zones come back with regions first, in their order, and stored geometry.\<close>

lemma blob_zones_written:
  assumes "zone_type_of t = Some zt"
  shows "blob_zones \<lparr>vb_ZoneType = t, vb_Zones = map to_v2_zone zs\<rparr> acc = Some (acc @ map (\<lambda>z. stored_zone z\<lparr>z_Type := zt\<rparr>) zs)"
proof -
  have "for_each (\<lambda>z zones. map_option (\<lambda>z'. zones @ [z']) (from_v2_zone zt z)) (map to_v2_zone zs) acc
      = Some (acc @ map (\<lambda>z. stored_zone z\<lparr>z_Type := zt\<rparr>) zs)"
    by (induction zs arbitrary: acc) (simp_all add: from_v2_zone_def to_v2_zone_def stored_zone_def)
  then show ?thesis using assms by (simp add: blob_zones_def)
qed

lemmas blob_zones_both = blob_zones_written [of 1 ZoneRegion] blob_zones_written [of 2 ZoneCountry]

definition stored_zones :: "zone list \<Rightarrow> zone list" where
  "stored_zones zones = map stored_zone (filter (\<lambda>z. z_Type z = ZoneRegion) zones @ filter (\<lambda>z. z_Type z = ZoneCountry) zones)"

lemma parse_built_zones:
  assumes "proto_ok (zones_pb P)" "Marshal (zones_pb P) (buildZonesSection zones) = Inr bs"
  shows "parseV2Zones P bs = Some (Inr (stored_zones zones))"
proof -
  have ty: "map (\<lambda>z. stored_zone z\<lparr>z_Type := t\<rparr>) (filter (\<lambda>z. z_Type z = t) zones)
      = map stored_zone (filter (\<lambda>z. z_Type z = t) zones)" for t
    by (rule map_cong) (auto simp: stored_zone_def)
  have "for_each blob_zones (buildZonesSection zones) [] = Some (stored_zones zones)"
    unfolding stored_zones_def map_append ty [symmetric]
    by (simp add: buildZonesSection_def Let_def blob_zones_both zone_type_of_def)
  then show ?thesis using proto_okD [OF assms] by (simp add: parseV2Zones_def)
qed

definition v2_fits :: "v2_protos \<Rightarrow> 't calendar \<Rightarrow> cache_point list \<Rightarrow> zone list \<Rightarrow> 't metadata \<Rightarrow> bool" where
  "v2_fits P T pts zones meta \<longleftrightarrow>
     strings_fit pts \<and> 4 * length (dm_m (v2_table pts)) < 2 ^ 32
     \<and> (\<forall>bs. Marshal (zones_pb P) (buildZonesSection zones) = Inr bs \<longrightarrow> length bs < 2 ^ 32)
     \<and> (\<forall>bs. Marshal (metadata_pb P) (metadata_message T meta) = Inr bs \<longrightarrow> length bs < 2 ^ 32)
     \<and> (\<forall>h bs. Marshal (header_pb P) h = Inr bs \<longrightarrow> length bs < 2 ^ 31)"

text \<open>The sections of a file that was saved without an error.\<close>

record v2_sections =
  s_header :: "byte list"
  s_metadata :: "byte list"
  s_index :: "u32 list"
  s_strings :: "byte list"
  s_zones :: "byte list"

definition sections_bytes :: "v2_sections \<Rightarrow> byte list" where
  "sections_bytes S = put_u32 (of_nat (length (s_header S))) @ s_header S @ s_metadata S
     @ concat (map put_u32 (s_index S)) @ s_strings S @ s_zones S"

definition sections_of :: "v2_protos \<Rightarrow> 't calendar \<Rightarrow> cache_point list \<Rightarrow> zone list \<Rightarrow> 't metadata \<Rightarrow> v2_sections \<Rightarrow> bool" where
  "sections_of P T pts zones meta S \<longleftrightarrow>
     Marshal (zones_pb P) (buildZonesSection zones) = Inr (s_zones S)
     \<and> Marshal (metadata_pb P) (metadata_message T meta) = Inr (s_metadata S)
     \<and> string_block (dm.names (v2_table pts)) = (s_index S, s_strings S)
     \<and> Marshal (header_pb P) (v2_header_of (s_metadata S) (s_index S) (s_strings S) (s_zones S)) = Inr (s_header S)"

lemma v2_Save_sections:
  assumes w: "writer_ok w out" and win: "window_narrows M (length pts)" and vis: "\<forall>kvs. mset (vis kvs) = mset kvs"
    and fit: "strings_fit pts" and ok: "v2_Save M P T vis w pts zones meta s = Some (None, s')"
  obtains S b blobs offsets where "sections_of P T pts zones meta S"
    "out s' = out s @ sections_bytes S @ kdbh_file b blobs offsets"
    "NewBush M (map (v2_point_of pts) pts) DefaultNodeSize = Some b" "bush_ok b" "points b = map (v2_point_of pts) pts"
    "nodeSize b = DefaultNodeSize" "marshal_points v2_codec (map (v2_point_of pts) pts) 0 = Inr (blobs, offsets)"
proof -
  let ?ps = "map (v2_point_of pts) pts"
  obtain index data where blk: "string_block (dm.names (v2_table pts)) = (index, data)" by fastforce
  have idx: "buildStringIndex (vis (dm_m (v2_table pts))) (v2_table pts) = Some (index, data)"
    using table_index [OF fit] vis blk by metis
  obtain b where b: "NewBush M ?ps DefaultNodeSize = Some b" "nodeSize b = DefaultNodeSize" "points b = ?ps" "bush_ok b"
    using NewBush_ok [of M ?ps DefaultNodeSize] win by auto
  obtain blobs offsets where mp: "marshal_points v2_codec ?ps 0 = Inr (blobs, offsets)"
    using marshal_points_total [of ?ps v2_codec 0] v2_marshals by blast
  note save = ok [unfolded v2_Save_def Let_def v2_table_def [symmetric] idx fill_points_table [OF fit]]
  obtain zb mb hb where m: "Marshal (zones_pb P) (buildZonesSection zones) = Inr zb"
    "Marshal (metadata_pb P) (metadata_message T meta) = Inr mb"
    "Marshal (header_pb P) (v2_header_of mb index data zb) = Inr hb"
    using save by (auto split: sum.splits)
  let ?S = "\<lparr>s_header = hb, s_metadata = mb, s_index = index, s_strings = data, s_zones = zb\<rparr>"
  obtain s1 where s1: "write_seq w [put_u32 (of_nat (length hb)), hb, mb, concat (map put_u32 index), data, zb] s = (None, s1)"
    "out s1 = out s @ sections_bytes ?S"
    using write_seq_ok [OF w, of "[put_u32 (of_nat (length hb)), hb, mb, concat (map put_u32 index), data, zb]" s]
    by (auto simp: sections_bytes_def)
  obtain s2 where s2: "BuildDisk M v2_codec ?ps DefaultNodeSize w s1 = Some ((int (length (kdbh_file b blobs offsets)), None), s2)"
    "out s2 = out s1 @ kdbh_file b blobs offsets"
    using BuildDisk_writes [OF w b(1) mp] by metis
  have "s' = s2" using save m s1(1) s2(1) by simp
  then have "out s' = out s @ sections_bytes ?S @ kdbh_file b blobs offsets" using s1(2) s2(2) by simp
  moreover have "sections_of P T pts zones meta ?S" using m blk by (simp add: sections_of_def)
  ultimately show thesis using that b mp by blast
qed

lemma sections_sizes:
  assumes "v2_fits P T pts zones meta" "sections_of P T pts zones meta S"
  defines "h \<equiv> v2_header_of (s_metadata S) (s_index S) (s_strings S) (s_zones S)"
  shows "unat (h_MetadataSize h) = length (s_metadata S)" "unat (h_StringsIndexSize h) = 4 * length (s_index S)"
    "unat (h_StringsDataSize h) = length (s_strings S)" "unat (h_ZonesSize h) = length (s_zones S)"
    "unat (of_nat (length (s_header S)) :: u32) = length (s_header S)"
proof -
  have "(s_index S, s_strings S) = string_block (dm.names (v2_table pts))"
    using assms(2) unfolding sections_of_def by metis
  then have "length (s_index S) = length (dm_m (v2_table pts))" "length (s_strings S) = length (nul_block (dm.names (v2_table pts)))"
    by (simp_all add: string_block_def)
  then have "length (s_metadata S) < 2 ^ 32" "length (s_index S) * 4 < 2 ^ 32" "length (s_strings S) < 2 ^ 32"
    "length (s_zones S) < 2 ^ 32" "length (s_header S) < 2 ^ 31"
    using assms(1,2) v2_table_ok(4) [of pts] by (auto simp: v2_fits_def sections_of_def)
  then show "unat (h_MetadataSize h) = length (s_metadata S)" "unat (h_StringsIndexSize h) = 4 * length (s_index S)"
    "unat (h_StringsDataSize h) = length (s_strings S)" "unat (h_ZonesSize h) = length (s_zones S)"
    "unat (of_nat (length (s_header S)) :: u32) = length (s_header S)"
    by (simp_all add: h_def v2_header_of_def unat_of_nat take_bit_eq_mod mult.commute del: of_nat_mult)
qed

lemma uint_unat_eq: "uint w = int (unat w)"
  by simp

lemma load_metadata_back:
  assumes "reads_time T (md_DateCreated meta) t'"
  shows "load_metadata T msg (metadata_message T meta) = Inr (meta\<lparr>md_DateCreated := t'\<rparr>)"
  using assms by (simp add: load_metadata_def metadata_message_def reads_time_def)

text \<open>A reader on a file with these sections after the eight bytes of magic and level.\<close>

lemma LoadMmap_sections:
  assumes P: "v2_protos_ok P" and fit: "v2_fits P T pts zones meta" and S: "sections_of P T pts zones meta S"
    and t: "reads_time T (md_DateCreated meta) t'" and r: "reads_file r file"
    and f: "file = pre @ sections_bytes S @ block" and pre: "length pre = 8" and small: "length file < 2 ^ 63"
    and d: "OpenDisk r (int (length (pre @ sections_bytes S))) = Inr d"
  defines "dataOff \<equiv> length pre + 4 + length (s_header S) + length (s_metadata S) + 4 * length (s_index S)"
  shows "LoadMmap P T r = Some (Inr \<lparr>DiskBush = d, StringsIndex = s_index S, StringsDataOffset = int dataOff,
      Zones = stored_zones zones, MD = meta\<lparr>md_DateCreated := t'\<rparr>\<rparr>)"
    and "dataOff + length (s_strings S) \<le> length file"
    and "take (length (s_strings S)) (drop dataOff file) = s_strings S"
proof -
  let ?h = "v2_header_of (s_metadata S) (s_index S) (s_strings S) (s_zones S)"
  let ?hl = "length (s_header S)" and ?ml = "length (s_metadata S)" and ?il = "4 * length (s_index S)"
  note sz = sections_sizes [OF fit S]
  note S' = S [unfolded sections_of_def]
  have P': "proto_ok (header_pb P)" "proto_ok (metadata_pb P)" "proto_ok (zones_pb P)" using P by (simp_all add: v2_protos_ok_def)
  note f' = f [unfolded sections_bytes_def]
  have len: "length file = 12 + ?hl + ?ml + ?il + length (s_strings S) + length (s_zones S) + length block"
    by (simp add: f' pre)
  have r1: "read_full r 8 4 = Inr (put_u32 (of_nat ?hl))"
    by (rule read_full_at [OF r, of pre]) (simp_all add: f' pre)
  have r2: "read_full r 12 ?hl = Inr (s_header S)"
    by (rule read_full_at [OF r, of "pre @ put_u32 (of_nat ?hl)"]) (simp_all add: f' pre)
  have r3: "read_full r (12 + int ?hl) ?ml = Inr (s_metadata S)"
    by (rule read_full_at [OF r, of "pre @ put_u32 (of_nat ?hl) @ s_header S"]) (simp_all add: f' pre)
  have r4: "read_full r (12 + int ?hl + int ?ml) ?il = Inr (concat (map put_u32 (s_index S)))"
    by (rule read_full_at [OF r, of "pre @ put_u32 (of_nat ?hl) @ s_header S @ s_metadata S"]) (simp_all add: f' pre)
  have r5: "read_full r (12 + int ?hl + int ?ml + int ?il + int (length (s_strings S))) (length (s_zones S)) = Inr (s_zones S)"
    by (rule read_full_at [OF r, of "pre @ put_u32 (of_nat ?hl) @ s_header S @ s_metadata S @ concat (map put_u32 (s_index S)) @ s_strings S"])
      (simp_all add: f' pre)
  have u: "Unmarshal (header_pb P) (s_header S) = Inr ?h" "Unmarshal (metadata_pb P) (s_metadata S) = Inr (metadata_message T meta)"
    "parseV2Zones P (s_zones S) = Some (Inr (stored_zones zones))"
    using proto_okD [OF P'(1)] proto_okD [OF P'(2)] parse_built_zones [OF P'(3)] S' by blast+
  have i: "i64 (12 + int ?hl) = 12 + int ?hl" "i64 (12 + int ?hl + int ?ml) = 12 + int ?hl + int ?ml"
    "i64 (12 + int ?hl + int ?ml + int ?il) = 12 + int ?hl + int ?ml + int ?il"
    "i64 (12 + int ?hl + int ?ml + int ?il + int (length (s_strings S))) = 12 + int ?hl + int ?ml + int ?il + int (length (s_strings S))"
    "i64 (12 + int ?hl + int ?ml + int ?il + int (length (s_strings S)) + int (length (s_zones S)))
      = 12 + int ?hl + int ?ml + int ?il + int (length (s_strings S)) + int (length (s_zones S))"
    using small len by (simp_all add: i64_id is_i64_def)
  have d': "OpenDisk r (12 + int ?hl + int ?ml + int ?il + int (length (s_strings S)) + int (length (s_zones S))) = Inr d"
  proof -
    have "int (length (pre @ sections_bytes S)) = 12 + int ?hl + int ?ml + int ?il + int (length (s_strings S)) + int (length (s_zones S))"
      by (simp add: sections_bytes_def pre)
    then show ?thesis using d by simp
  qed
  have u0: "u32_of (put_u32 (of_nat ?hl)) = of_nat ?hl" using u32_of_put [of "of_nat ?hl" "[]"] by simp
  show "LoadMmap P T r = Some (Inr \<lparr>DiskBush = d, StringsIndex = s_index S, StringsDataOffset = int dataOff,
      Zones = stored_zones zones, MD = meta\<lparr>md_DateCreated := t'\<rparr>\<rparr>)"
    unfolding LoadMmap_def Let_def step_def r1 sum.case u0 uint_unat_eq sz(5) nat_int r2 i(1) u(1) sz(1) r3 u(2) i(2) sz(2) r4
      i(3) sz(3) i(4) sz(4) r5 u(3) option.case i(5) d' load_metadata_back [OF t]
    by (simp add: dataOff_def pre u32_array_put)
  show "dataOff + length (s_strings S) \<le> length file" by (simp add: len dataOff_def pre)
  have "file = (pre @ put_u32 (of_nat ?hl) @ s_header S @ s_metadata S @ concat (map put_u32 (s_index S))) @ s_strings S @ s_zones S @ block"
    by (simp add: f')
  moreover have "dataOff = length (pre @ put_u32 (of_nat ?hl) @ s_header S @ s_metadata S @ concat (map put_u32 (s_index S)))"
    by (simp add: dataOff_def)
  ultimately show "take (length (s_strings S)) (drop dataOff file) = s_strings S" by simp
qed

subsection \<open>What the stream gives\<close>

definition cut_nul :: "gostring \<Rightarrow> gostring" where
  "cut_nul s = takeWhile (\<lambda>b. b \<noteq> 0) s"

definition cut_info :: "cache_info \<Rightarrow> cache_info" where
  "cut_info i = \<lparr>ci_Name = cut_nul (ci_Name i), ci_Street = cut_nul (ci_Street i),
     ci_HouseNumber = cut_nul (ci_HouseNumber i), ci_City = cut_nul (ci_City i),
     ci_Region = cut_nul (ci_Region i), ci_Weight = ci_Weight i\<rparr>"

lemma cut_info_clean: "\<forall>s \<in> set (info_strings i). 0 \<notin> set s \<Longrightarrow> cut_info i = i"
  by (cases i) (auto simp: cut_info_def cut_nul_def info_strings_def takeWhile_eq_all_conv)

lemma resolve_stored:
  assumes "strings_fit pts" "p \<in> set pts" "string_block (dm.names (v2_table pts)) = (index, data)"
  shows "resolvePointFromIndex index data (pData (v2_point_of pts p)) = Some \<lparr>pX = 0, pY = 0, pData = cut_info (pData p)\<rparr>"
proof -
  have "\<forall>s \<in> set (info_strings (pData p)). readStrByID index data (string_id pts s) = Some (cut_nul s)"
    using read_string_id [OF assms(1) _ assms(3)] point_strings [OF assms(2)] by (auto simp: cut_nul_def)
  then show ?thesis by (simp add: resolvePointFromIndex_def v2_point_of_def info_strings_def cut_info_def)
qed

lemma read_offsets_at:
  assumes "stream_at (u64s ws @ rest) st"
  shows "\<exists>st'. read_offsets (length ws) st = (Inr (map sint ws), st') \<and> stream_at rest st'"
  using assms
proof (induction ws arbitrary: st)
  case (Cons w ws)
  then have "stream_at (put_u64 w @ (u64s ws @ rest)) st" by simp
  then obtain st1 where st1: "ReadFull 8 st = (Inr (put_u64 w), st1)" "stream_at (u64s ws @ rest) st1"
    by (rule ReadFull_at) simp_all
  then show ?case using Cons.IH [OF st1(2)] by auto
qed simp

lemma marshal_points_head: "marshal_points C ps cum = Inr (blobs, offsets) \<Longrightarrow> \<exists>t. offsets = cum # t"
  by (cases ps) (auto split: sum.splits)

lemma read_blob_at:
  assumes "V2_MarshalBinary d = Inr bs" "stream_at (bs @ rest) st"
  obtains st' where "read_blob (i64 (int (length bs))) st = Some (Inr d, st')" "stream_at rest st'"
proof -
  have len: "length bs = 21" using length_V2_MarshalBinary [OF assms(1)] by (simp add: v2PointDataSize_def)
  obtain st1 where "ReadFull 21 st = (Inr bs, st1)" "stream_at rest st1"
    using ReadFull_at [OF assms(2) len] by blast
  then show thesis using that V2_roundtrip [OF assms(1)] len by (simp add: read_blob_def make_ok_def)
qed

lemma read_points_at:
  assumes "marshal_points v2_codec ps cum = Inr (blobs, offsets)" "stream_at (concat blobs @ rest) st"
    and "\<forall>p \<in> set ps. resolvePointFromIndex (vl_index ld) (vl_data ld) (pData p) = Some (g p)"
  shows "\<exists>st'. read_points ld offsets st = Some (map (\<lambda>p. Inr (g p)) ps, st') \<and> stream_at rest st'"
  using assms
proof (induction ps arbitrary: cum blobs offsets st)
  case (Cons p ps)
  then obtain bs blobs' offsets' where m: "V2_MarshalBinary (pData p) = Inr bs"
    "marshal_points v2_codec ps (cum + int (length bs)) = Inr (blobs', offsets')"
    "blobs = bs # blobs'" "offsets = cum # offsets'"
    by (auto simp: v2_codec_def split: sum.splits)
  have "stream_at (bs @ (concat blobs' @ rest)) st" using Cons.prems(2) m(3) by simp
  then obtain st1 where st1: "read_blob (i64 (int (length bs))) st = Some (Inr (pData p), st1)"
    "stream_at (concat blobs' @ rest) st1"
    by (rule read_blob_at [OF m(1)])
  obtain t where t: "offsets' = (cum + int (length bs)) # t" using marshal_points_head [OF m(2)] by blast
  show ?case using Cons.IH [OF m(2) st1(2)] Cons.prems(3) st1(1) by (auto simp: m(4) t)
qed simp

lemma v2_points_at:
  assumes mp: "marshal_points v2_codec ps 0 = Inr (blobs, offsets)" and n: "vl_numPoints ld = int (length ps)"
    and small: "length ps < 2 ^ 32" and l1: "length is = length ps" and l2: "length cs = 2 * length ps"
    and st: "stream_at (u64s is @ u64s cs @ u64s (map word_of_int offsets) @ concat blobs @ rest) st"
    and g: "\<forall>p \<in> set ps. resolvePointFromIndex (vl_index ld) (vl_data ld) (pData p) = Some (g p)"
  shows "\<exists>st'. v2_points_iter ld st = Some (map (\<lambda>p. Inr (g p)) ps, st') \<and> stream_at rest st'"
proof -
  have k: "i64 (i64 (vl_numPoints ld * 8) + i64 (vl_numPoints ld * 16)) = 24 * int (length ps)"
    "i64 (vl_numPoints ld + 1) = int (length ps) + 1"
    using small by (simp_all add: n)
  have "stream_at ((u64s is @ u64s cs) @ (u64s (map word_of_int offsets) @ concat blobs @ rest)) st" using st by simp
  then obtain st1 where st1: "CopyN_discard (24 * int (length ps)) st = (None, st1)"
    "stream_at (u64s (map word_of_int offsets) @ concat blobs @ rest) st1"
    by (rule CopyN_at) (simp_all add: l1 l2)
  note off = marshal_points_nth [OF mp]
  have blob: "length bs = 21" if "bs \<in> set blobs" for bs
    using that off(1,3) length_V2_MarshalBinary by (auto simp: in_set_conv_nth v2_codec_def v2PointDataSize_def)
  have lens: "length (concat bss) = 21 * length bss" if "set bss \<subseteq> set blobs" for bss
    using that by (induction bss) (auto simp: blob)
  have "\<forall>o1 \<in> set offsets. i64 o1 = o1"
  proof
    fix o1 assume "o1 \<in> set offsets"
    then obtain i where i: "i \<le> length ps" "o1 = offsets ! i" using off(2) by (metis in_set_conv_nth less_Suc_eq_le Suc_eq_plus1)
    have "o1 = int (21 * min i (length blobs))" using off(4) [OF i(1)] i(2) lens [of "take i blobs"] by (simp add: set_take_subset)
    then show "i64 o1 = o1" using small off(1) by simp
  qed
  then have ints: "map sint (map word_of_int offsets :: u64 list) = offsets" by (simp add: comp_def map_idI)
  obtain st2 where st2: "read_offsets (length ps + 1) st1 = (Inr offsets, st2)" "stream_at (concat blobs @ rest) st2"
    using read_offsets_at [OF st1(2)] off(2) ints by auto
  have "nat (int (length ps) + 1) = length ps + 1" by simp
  moreover have "make_ok (int (length ps) + 1) 8" using small by (simp add: make_ok_def)
  ultimately show ?thesis using st1(1) st2(1) read_points_at [OF mp st2(2) g] k by (simp add: v2_points_iter_def)
qed

lemma v2_Load_sections:
  assumes P: "v2_protos_ok P" and fit: "v2_fits P T pts zones meta" and S: "sections_of P T pts zones meta S"
    and t: "reads_time T (md_DateCreated meta) t'" and n: "length pts = length (points b)" "length pts < 2 ^ 32"
    and st: "stream_at (sections_bytes S @ kdbh_file b blobs offsets) st"
  obtains st' where "v2_Load P T st = Some (Inr \<lparr>vl_index = s_index S, vl_data = s_strings S, vl_numPoints = int (length pts),
      vl_zones = stored_zones zones, vl_md = meta\<lparr>md_DateCreated := t'\<rparr>\<rparr>, st')"
    "stream_at (u64s (map word_of_int (idxs (arrays b))) @ u64s (map f64_bits (coords (arrays b)))
      @ u64s (map word_of_int offsets) @ concat blobs) st'"
proof -
  let ?h = "v2_header_of (s_metadata S) (s_index S) (s_strings S) (s_zones S)"
  note sz = sections_sizes [OF fit S]
  note S' = S [unfolded sections_of_def]
  have P': "proto_ok (header_pb P)" "proto_ok (metadata_pb P)" "proto_ok (zones_pb P)" using P by (simp_all add: v2_protos_ok_def)
  note st' = st [unfolded sections_bytes_def kdbh_file_def append_assoc]
  obtain st1 where r1: "ReadFull 4 st = (Inr (put_u32 (of_nat (length (s_header S)))), st1)" and a1: "stream_at (s_header S @ s_metadata S
     @ concat (map put_u32 (s_index S)) @ s_strings S @ s_zones S @ disk_header (nodeSize b) (length (points b)) @ u64s (map word_of_int (idxs (arrays b)))
     @ u64s (map f64_bits (coords (arrays b))) @ u64s (map word_of_int offsets) @ concat blobs) st1"
    using ReadFull_at [OF st'] by (metis length_put(1))
  obtain st2 where r2: "ReadFull (length (s_header S)) st1 = (Inr (s_header S), st2)" and a2: "stream_at (s_metadata S
     @ concat (map put_u32 (s_index S)) @ s_strings S @ s_zones S @ disk_header (nodeSize b) (length (points b)) @ u64s (map word_of_int (idxs (arrays b)))
     @ u64s (map f64_bits (coords (arrays b))) @ u64s (map word_of_int offsets) @ concat blobs) st2"
    using ReadFull_at [OF a1 refl] by metis
  obtain st3 where r3: "readProto (metadata_pb P) (h_MetadataSize ?h) st2 = (Inr (metadata_message T meta), st3)" and a3: "stream_at (
     concat (map put_u32 (s_index S)) @ s_strings S @ s_zones S @ disk_header (nodeSize b) (length (points b)) @ u64s (map word_of_int (idxs (arrays b)))
     @ u64s (map f64_bits (coords (arrays b))) @ u64s (map word_of_int offsets) @ concat blobs) st3"
    using readProto_at [OF P'(2) _ a2 sz(1)] S' by metis
  obtain st4 where r4: "ReadFull (4 * length (s_index S)) st3 = (Inr (concat (map put_u32 (s_index S))), st4)" and a4: "stream_at (
     s_strings S @ s_zones S @ disk_header (nodeSize b) (length (points b)) @ u64s (map word_of_int (idxs (arrays b)))
     @ u64s (map f64_bits (coords (arrays b))) @ u64s (map word_of_int offsets) @ concat blobs) st4"
    using ReadFull_at [OF a3] by (metis length_concat_put_u32)
  obtain st5 where r5: "ReadFull (length (s_strings S)) st4 = (Inr (s_strings S), st5)" and a5: "stream_at (
     s_zones S @ disk_header (nodeSize b) (length (points b)) @ u64s (map word_of_int (idxs (arrays b)))
     @ u64s (map f64_bits (coords (arrays b))) @ u64s (map word_of_int offsets) @ concat blobs) st5"
    using ReadFull_at [OF a4 refl] by metis
  obtain st6 where r6: "ReadFull (length (s_zones S)) st5 = (Inr (s_zones S), st6)" and a6: "stream_at (
     disk_header (nodeSize b) (length (points b)) @ u64s (map word_of_int (idxs (arrays b)))
     @ u64s (map f64_bits (coords (arrays b))) @ u64s (map word_of_int offsets) @ concat blobs) st6"
    using ReadFull_at [OF a5 refl] by metis
  obtain st7 where r7: "ReadFull 32 st6 = (Inr (disk_header (nodeSize b) (length (points b))), st7)" and a7: "stream_at (
     u64s (map word_of_int (idxs (arrays b))) @ u64s (map f64_bits (coords (arrays b))) @ u64s (map word_of_int offsets) @ concat blobs) st7"
    using ReadFull_at [OF a6] by (metis length_disk_header)
  have u: "Unmarshal (header_pb P) (s_header S) = Inr ?h" "parseV2Zones P (s_zones S) = Some (Inr (stored_zones zones))"
    using proto_okD [OF P'(1)] parse_built_zones [OF P'(3)] S' by blast+
  have u0: "u32_of (put_u32 (of_nat (length (s_header S)))) = of_nat (length (s_header S))"
    using u32_of_put [of _ "[]"] by simp
  have n': "sint (u64_of (drop 16 (disk_header (nodeSize b) (length (points b))))) = int (length pts)"
    using n sint_u64 [of "int (length pts)"] by (simp add: disk_header_def diskMagic_def)
  have "v2_Load P T st = Some (Inr \<lparr>vl_index = s_index S, vl_data = s_strings S, vl_numPoints = int (length pts),
      vl_zones = stored_zones zones, vl_md = meta\<lparr>md_DateCreated := t'\<rparr>\<rparr>, st7)"
    unfolding v2_Load_def Let_def r1 read_step_simps u0 sz(5) r2 u(1) r3 sz(2) sz(3) sz(4)
    using r4 r5 r6 r7 u(2) n' by (simp add: load_metadata_back [OF t] u32_array_put)
  then show thesis using that a7 by blast
qed

end
