(* ===== verification/CacheV1.thy ===== *)
theory CacheV1
  imports CacheModel CacheV2
begin

section \<open>The v1 cache file\<close>

text \<open>
  \<^verbatim>\<open>cachesaver/save/v1\<close>: points and zones are written as protobuf blobs of at most 100,
  after a header with their sizes, the metadata and the string tables. \<open>Load\<close> gives two
  iterators; the points must be consumed before the zones. The goroutines between the reader
  and the consumer of the points are a pipeline that keeps the order, so the iterator is
  the list of the values it yields. \<open>vis\<close> is the order in which a map is visited.
\<close>

definition COMPATIBILITY_LEVEL_v1 :: u32 where
  "COMPATIBILITY_LEVEL_v1 = 1"

subsection \<open>Messages\<close>

record cache_header =
  ch_MetadataSize :: u32
  ch_StringsCacheSize :: u32
  ch_PointsBlobSizes :: "u32 list"
  ch_ZonesBlobSizes :: "u32 list"

record strings_cache =
  sc_Streets :: "gostring list"
  sc_Cities :: "gostring list"
  sc_Regions :: "gostring list"

record pb_point =
  pp_Latitude :: f64
  pp_Longitude :: f64
  pp_Name :: gostring
  pp_Street :: u32
  pp_HouseNumber :: gostring
  pp_City :: u32
  pp_Region :: u32
  pp_Weight :: u32

record pb_zone =
  pz_Name :: u32
  pz_Bounds :: "pb_bounds option"
  pz_MultiPolygon :: "pb_multi_polygon option"

datatype zone_type = ZONE_TYPE_UNSPECIFIED | ZONE_TYPE_REGION | ZONE_TYPE_COUNTRY

record zones_blob =
  zb_Type :: zone_type
  zb_Zones :: "pb_zone list"

record v1_protos =
  header1_pb :: "cache_header proto"
  metadata1_pb :: "cache_metadata proto"
  strings_pb :: "strings_cache proto"
  points_pb :: "pb_point list proto"
  zones1_pb :: "zones_blob proto"

definition v1_protos_ok :: "v1_protos \<Rightarrow> bool" where
  "v1_protos_ok P \<longleftrightarrow> proto_ok (header1_pb P) \<and> proto_ok (metadata1_pb P) \<and> proto_ok (strings_pb P)
     \<and> proto_ok (points_pb P) \<and> proto_ok (zones1_pb P)"

subsection \<open>The cache in memory\<close>

record v1_cache =
  c_Version :: u32
  c_DateCreated :: gostring
  c_Locale :: gostring
  c_StreetsNames :: "gostring list"
  c_CitiesNames :: "gostring list"
  c_ZonesNames :: "gostring list"
  c_Points :: "pb_point list"
  c_Regions :: "pb_zone list"
  c_Countries :: "pb_zone list"

record name_maps =
  streetsNames :: unique_map
  citiesNames :: unique_map
  zonesNames :: unique_map

definition add_point :: "cache_point \<Rightarrow> name_maps \<times> pb_point list \<Rightarrow> name_maps \<times> pb_point list" where
  "add_point p acc =
     (let (maps, pts) = acc;
          (streetIndex, streets) = um_Add (ci_Street (pData p)) (streetsNames maps);
          (cityIndex, cities) = um_Add (ci_City (pData p)) (citiesNames maps);
          (regionIndex, zns) = um_Add (ci_Region (pData p)) (zonesNames maps)
      in (\<lparr>streetsNames = streets, citiesNames = cities, zonesNames = zns\<rparr>,
          pts @ [\<lparr>pp_Latitude = pX p, pp_Longitude = pY p, pp_Name = ci_Name (pData p),
             pp_Street = of_int streetIndex, pp_HouseNumber = ci_HouseNumber (pData p),
             pp_City = of_int cityIndex, pp_Region = of_int regionIndex, pp_Weight = ucast (ci_Weight (pData p))\<rparr>]))"

definition add_zone :: "zone \<Rightarrow> unique_map \<times> pb_zone list \<times> pb_zone list \<Rightarrow> unique_map \<times> pb_zone list \<times> pb_zone list" where
  "add_zone z acc =
     (let (zns, regions, countries) = acc;
          (nameIndex, zns) = um_Add (z_Name z) zns;
          protoZone = \<lparr>pz_Name = of_int nameIndex, pz_Bounds = Some (mapBoundsFromOrb (z_Bounds z)),
            pz_MultiPolygon = Some (mapMultiPolygonFromOrb (z_Polygon z))\<rparr>
      in if z_Type z = ZoneRegion then (zns, regions @ [protoZone], countries)
         else if z_Type z = ZoneCountry then (zns, regions, countries @ [protoZone])
         else (zns, regions, countries))"

definition cacheFromPoints :: "'t calendar \<Rightarrow> ((gostring \<times> int) list \<Rightarrow> (gostring \<times> int) list)
    \<Rightarrow> cache_point list \<Rightarrow> zone list \<Rightarrow> 't metadata \<Rightarrow> v1_cache option" where
  "cacheFromPoints T vis inputPoints inputZones meta = do {
     let (maps, pts) = fold add_point inputPoints
       (\<lparr>streetsNames = newUniqueMap, citiesNames = newUniqueMap, zonesNames = newUniqueMap\<rparr>, []);
     let (zns, regions, countries) = fold add_zone inputZones (zonesNames maps, [], []);
     streets \<leftarrow> um_Slice (vis (um_m (streetsNames maps))) (streetsNames maps);
     cities \<leftarrow> um_Slice (vis (um_m (citiesNames maps))) (citiesNames maps);
     znames \<leftarrow> um_Slice (vis (um_m zns)) zns;
     Some \<lparr>c_Version = md_Version meta, c_DateCreated = FormatRFC3339 T (md_DateCreated meta),
       c_Locale = md_Locale meta, c_StreetsNames = streets, c_CitiesNames = cities, c_ZonesNames = znames,
       c_Points = pts, c_Regions = regions, c_Countries = countries\<rparr>
   }"

subsection \<open>Saving\<close>

definition blobChunkSize :: nat where
  "blobChunkSize = 100"

function chunks_of :: "'a list \<Rightarrow> 'a list list" where
  "chunks_of xs = (if xs = [] then [] else take blobChunkSize xs # chunks_of (drop blobChunkSize xs))"
  by pat_completeness auto
termination
  by (relation "measure length") (auto simp: blobChunkSize_def)

declare chunks_of.simps [simp del]

fun marshal_all :: "'m proto \<Rightarrow> 'm list \<Rightarrow> byte list list result" where
  "marshal_all P [] = Inr []"
| "marshal_all P (m # ms) =
     (case Marshal P m of
        Inl e \<Rightarrow> Inl e
      | Inr b \<Rightarrow> (case marshal_all P ms of Inl e \<Rightarrow> Inl e | Inr bs \<Rightarrow> Inr (b # bs)))"

definition zone_blobs :: "v1_cache \<Rightarrow> zones_blob list" where
  "zone_blobs c = map (\<lambda>zs. \<lparr>zb_Type = ZONE_TYPE_REGION, zb_Zones = zs\<rparr>) (chunks_of (c_Regions c))
     @ map (\<lambda>zs. \<lparr>zb_Type = ZONE_TYPE_COUNTRY, zb_Zones = zs\<rparr>) (chunks_of (c_Countries c))"

definition cache_header_of :: "byte list \<Rightarrow> byte list \<Rightarrow> byte list list \<Rightarrow> byte list list \<Rightarrow> cache_header" where
  "cache_header_of metadataBytes stringsCacheBytes pointsBlobs zoneBlobs =
     \<lparr>ch_MetadataSize = of_nat (length metadataBytes), ch_StringsCacheSize = of_nat (length stringsCacheBytes),
      ch_PointsBlobSizes = map (\<lambda>b. of_nat (length b)) pointsBlobs,
      ch_ZonesBlobSizes = map (\<lambda>b. of_nat (length b)) zoneBlobs\<rparr>"

definition v1_Save :: "v1_protos \<Rightarrow> 't calendar \<Rightarrow> ((gostring \<times> int) list \<Rightarrow> (gostring \<times> int) list) \<Rightarrow> 'w writer
    \<Rightarrow> cache_point list \<Rightarrow> zone list \<Rightarrow> 't metadata \<Rightarrow> 'w \<Rightarrow> (error option \<times> 'w) option" where
  "v1_Save P T vis w pts zones meta s = do {
     c \<leftarrow> cacheFromPoints T vis pts zones meta;
     Some
      (case Marshal (strings_pb P) \<lparr>sc_Streets = c_StreetsNames c, sc_Cities = c_CitiesNames c, sc_Regions = c_ZonesNames c\<rparr> of
         Inl e \<Rightarrow> (Some e, s)
       | Inr stringsCacheBytes \<Rightarrow>
       (case Marshal (metadata1_pb P) \<lparr>cm_Version = c_Version c, cm_DateCreated = c_DateCreated c, cm_Locale = c_Locale c\<rparr> of
          Inl e \<Rightarrow> (Some e, s)
        | Inr metadataBytes \<Rightarrow>
        (case marshal_all (points_pb P) (chunks_of (c_Points c)) of
           Inl e \<Rightarrow> (Some e, s)
         | Inr pointsBlobs \<Rightarrow>
         (case marshal_all (zones1_pb P) (zone_blobs c) of
            Inl e \<Rightarrow> (Some e, s)
          | Inr zoneBlobs \<Rightarrow>
          (case Marshal (header1_pb P) (cache_header_of metadataBytes stringsCacheBytes pointsBlobs zoneBlobs) of
             Inl e \<Rightarrow> (Some e, s)
           | Inr headerBytes \<Rightarrow>
             write_seq w ([put_u32 (of_nat (length headerBytes)), headerBytes, metadataBytes, stringsCacheBytes]
               @ pointsBlobs @ zoneBlobs) s)))))
   }"

subsection \<open>Loading\<close>

record 't v1_load =
  vf_header :: cache_header
  vf_strings :: strings_cache
  vf_md :: "'t metadata"

definition readToProto :: "'m proto \<Rightarrow> u32 \<Rightarrow> stream \<Rightarrow> 'm result \<times> stream" where
  "readToProto P sz st =
     (case ReadFull (unat sz) st of
        (Inl e, st) \<Rightarrow> (Inl (Wrap ''failed to read bytes'' e), st)
      | (Inr buf, st) \<Rightarrow> (wrap_err ''failed to unmarshal bytes'' (Unmarshal P buf), st))"

definition v1_Load :: "v1_protos \<Rightarrow> 't calendar \<Rightarrow> stream \<Rightarrow> ('t v1_load result \<times> stream) option" where
  "v1_Load P T st =
     read_step ''failed to read header size'' (ReadFull 4 st) (\<lambda>sizeBuf st.
     read_step ''failed to read header'' (readToProto (header1_pb P) (u32_of sizeBuf) st) (\<lambda>header st.
     read_step ''failed to read metadata'' (readToProto (metadata1_pb P) (ch_MetadataSize header) st) (\<lambda>m st.
     read_step ''failed to read strings cache'' (readToProto (strings_pb P) (ch_StringsCacheSize header) st) (\<lambda>strings st.
     Some (map_sum (\<lambda>e. e) (\<lambda>md. \<lparr>vf_header = header, vf_strings = strings, vf_md = md\<rparr>)
       (load_metadata T ''failed to parse date created'' m), st)))))"

definition mapPoint :: "strings_cache \<Rightarrow> pb_point \<Rightarrow> cache_point option" where
  "mapPoint sc p = do {
     street \<leftarrow> get (sc_Streets sc) (uint (pp_Street p));
     city \<leftarrow> get (sc_Cities sc) (uint (pp_City p));
     region \<leftarrow> get (sc_Regions sc) (uint (pp_Region p));
     Some \<lparr>pX = pp_Latitude p, pY = pp_Longitude p, pData = \<lparr>ci_Name = pp_Name p, ci_Street = street,
       ci_HouseNumber = pp_HouseNumber p, ci_City = city, ci_Region = region, ci_Weight = ucast (pp_Weight p)\<rparr>\<rparr>
   }"

text \<open>A zone whose type is not known is not mapped; a bad name index or a nil message panics.\<close>

definition zone_type_v1 :: "zone_type \<Rightarrow> byte option" where
  "zone_type_v1 t = (case t of ZONE_TYPE_REGION \<Rightarrow> Some ZoneRegion | ZONE_TYPE_COUNTRY \<Rightarrow> Some ZoneCountry
     | ZONE_TYPE_UNSPECIFIED \<Rightarrow> None)"

definition mapZone :: "zone_type \<Rightarrow> strings_cache \<Rightarrow> pb_zone \<Rightarrow> zone option option" where
  "mapZone t sc z =
     (case zone_type_v1 t of
        None \<Rightarrow> Some None
      | Some czt \<Rightarrow> do {
          name \<leftarrow> get (sc_Regions sc) (uint (pz_Name z));
          bounds \<leftarrow> mapBoundsToOrb (pz_Bounds z);
          polygon \<leftarrow> mapMultiPolygonToOrb (pz_MultiPolygon z);
          Some (Some \<lparr>z_Type = czt, z_Name = name, z_Bounds = bounds, z_Polygon = polygon\<rparr>)
        })"

text \<open>The three stages of the pipeline: read the chunks, unmarshal them, map the points.\<close>

fun read_blobs :: "u32 list \<Rightarrow> stream \<Rightarrow> byte list result list \<times> stream" where
  "read_blobs [] st = ([], st)"
| "read_blobs (sz # szs) st =
     (case ReadFull (unat sz) st of
        (Inl e, st) \<Rightarrow> ([Inl (Wrap ''failed to read points blob'' e)], st)
      | (Inr buf, st) \<Rightarrow> (let (rest, st) = read_blobs szs st in (Inr buf # rest, st)))"

fun unmarshal_blobs :: "'m proto \<Rightarrow> byte list result list \<Rightarrow> 'm result list" where
  "unmarshal_blobs P [] = []"
| "unmarshal_blobs P (Inl e # bs) = Inl e # unmarshal_blobs P bs"
| "unmarshal_blobs P (Inr buf # bs) =
     (case Unmarshal P buf of
        Inl e \<Rightarrow> [Inl (Wrap ''failed to unmarshal points blob'' e)]
      | Inr m \<Rightarrow> Inr m # unmarshal_blobs P bs)"

text \<open>\<^const>\<open>None\<close> as a yielded value is a panic at that point; what comes after it is not reached.\<close>

fun map_blobs :: "strings_cache \<Rightarrow> pb_point list result list \<Rightarrow> cache_point result option list" where
  "map_blobs sc [] = []"
| "map_blobs sc (Inl e # bs) = Some (Inl e) # map_blobs sc bs"
| "map_blobs sc (Inr ps # bs) = map (\<lambda>p. map_option Inr (mapPoint sc p)) ps @ map_blobs sc bs"

definition v1_points_iter :: "v1_protos \<Rightarrow> 't v1_load \<Rightarrow> stream \<Rightarrow> cache_point result option list \<times> stream" where
  "v1_points_iter P ld st =
     (let (chunks, st) = read_blobs (ch_PointsBlobSizes (vf_header ld)) st in
      (map_blobs (vf_strings ld) (unmarshal_blobs (points_pb P) chunks), st))"

definition yield_zone :: "zone_type \<Rightarrow> strings_cache \<Rightarrow> pb_zone \<Rightarrow> zone result option" where
  "yield_zone t sc z =
     map_option (\<lambda>m. case m of None \<Rightarrow> Inl (Err ''failed to map zone'') | Some zone \<Rightarrow> Inr zone) (mapZone t sc z)"

text \<open>
  The errors of \<open>readToProto\<close> are wrapped, so the comparison with \<open>io.EOF\<close> is never true and
  the loop goes on after an error.
\<close>

fun read_zones :: "v1_protos \<Rightarrow> strings_cache \<Rightarrow> u32 list \<Rightarrow> stream \<Rightarrow> zone result option list \<times> stream" where
  "read_zones P sc [] st = ([], st)"
| "read_zones P sc (sz # szs) st =
     (case readToProto (zones1_pb P) sz st of
        (Inl e, st) \<Rightarrow>
          if e = EOF then ([], st)
          else (let (out, st) = read_zones P sc szs st in (Some (Inl (Wrap ''failed to read zones blob'' e)) # out, st))
      | (Inr blob, st) \<Rightarrow>
          (let (out, st) = read_zones P sc szs st in (map (yield_zone (zb_Type blob) sc) (zb_Zones blob) @ out, st)))"

definition v1_zones_iter :: "v1_protos \<Rightarrow> 't v1_load \<Rightarrow> bool \<Rightarrow> stream \<Rightarrow> zone result option list \<times> stream" where
  "v1_zones_iter P ld pointsConsumed st =
     (if pointsConsumed then read_zones P (vf_strings ld) (ch_ZonesBlobSizes (vf_header ld)) st else ([None], st))"

subsection \<open>The tables and the points that refer to them\<close>

lemma table_get:
  assumes "um_ok n m" "map_of (um_m m) s = Some i" "length (um_m m) \<le> 2 ^ 32"
  shows "get (um.names m) (uint (of_int i :: u32)) = Some s"
proof -
  note at = um.lookup_name [OF assms(1,2)]
  have "uint (of_int i :: u32) = i" using at(1,2) assms(3) by (simp add: unsigned_of_int take_bit_eq_mod)
  then show ?thesis using at by (simp add: get_def)
qed

definition refers :: "unique_map \<Rightarrow> u32 \<Rightarrow> gostring \<Rightarrow> bool" where
  "refers m i s \<longleftrightarrow> (\<exists>k. map_of (um_m m) s = Some k \<and> i = of_int k)"

lemma refers_mono: "refers m i s \<Longrightarrow> map_of (um_m m) \<subseteq>\<^sub>m map_of (um_m m') \<Longrightarrow> refers m' i s"
  unfolding refers_def map_le_def by (metis domI)

lemma refers_get: "refers m i s \<Longrightarrow> um_ok n m \<Longrightarrow> length (um_m m) \<le> 2 ^ 32 \<Longrightarrow> get (um.names m) (uint i) = Some s"
  using table_get by (auto simp: refers_def)

lemma add_refers:
  assumes "um_ok (Suc n) m" "um_Add s m = (i, m')"
  shows "um_ok n m'" "refers m' (of_int i) s" "map_of (um_m m) \<subseteq>\<^sub>m map_of (um_m m')"
  using um.add_ok [OF assms] by (auto simp: refers_def)

definition point_refers :: "name_maps \<Rightarrow> pb_point \<Rightarrow> cache_point \<Rightarrow> bool" where
  "point_refers maps q p \<longleftrightarrow>
     pp_Latitude q = pX p \<and> pp_Longitude q = pY p \<and> pp_Name q = ci_Name (pData p)
     \<and> pp_HouseNumber q = ci_HouseNumber (pData p) \<and> pp_Weight q = ucast (ci_Weight (pData p))
     \<and> refers (streetsNames maps) (pp_Street q) (ci_Street (pData p))
     \<and> refers (citiesNames maps) (pp_City q) (ci_City (pData p))
     \<and> refers (zonesNames maps) (pp_Region q) (ci_Region (pData p))"

definition maps_le :: "name_maps \<Rightarrow> name_maps \<Rightarrow> bool" where
  "maps_le a b \<longleftrightarrow> map_of (um_m (streetsNames a)) \<subseteq>\<^sub>m map_of (um_m (streetsNames b))
     \<and> map_of (um_m (citiesNames a)) \<subseteq>\<^sub>m map_of (um_m (citiesNames b))
     \<and> map_of (um_m (zonesNames a)) \<subseteq>\<^sub>m map_of (um_m (zonesNames b))"

definition maps_ok :: "nat \<Rightarrow> name_maps \<Rightarrow> bool" where
  "maps_ok n a \<longleftrightarrow> um_ok n (streetsNames a) \<and> um_ok n (citiesNames a) \<and> um_ok n (zonesNames a)"

lemma maps_le_refl [simp]: "maps_le a a"
  by (simp add: maps_le_def)

lemma maps_le_trans: "maps_le a b \<Longrightarrow> maps_le b c \<Longrightarrow> maps_le a c"
  by (auto simp: maps_le_def intro: map_le_trans)

lemma point_refers_mono: "point_refers a q p \<Longrightarrow> maps_le a b \<Longrightarrow> point_refers b q p"
  by (auto simp: point_refers_def maps_le_def intro: refers_mono)

lemma add_point_ok:
  assumes "maps_ok (Suc n) maps"
  obtains maps' q where "add_point p (maps, acc) = (maps', acc @ [q])" "maps_ok n maps'" "maps_le maps maps'" "point_refers maps' q p"
proof -
  obtain i sm where s: "um_Add (ci_Street (pData p)) (streetsNames maps) = (i, sm)" by fastforce
  obtain j cm where c: "um_Add (ci_City (pData p)) (citiesNames maps) = (j, cm)" by fastforce
  obtain k zm where z: "um_Add (ci_Region (pData p)) (zonesNames maps) = (k, zm)" by fastforce
  have ok: "um_ok (Suc n) (streetsNames maps)" "um_ok (Suc n) (citiesNames maps)" "um_ok (Suc n) (zonesNames maps)"
    using assms by (simp_all add: maps_ok_def)
  show thesis
    by (rule that [of "\<lparr>streetsNames = sm, citiesNames = cm, zonesNames = zm\<rparr>" "\<lparr>pp_Latitude = pX p, pp_Longitude = pY p,
        pp_Name = ci_Name (pData p), pp_Street = of_int i, pp_HouseNumber = ci_HouseNumber (pData p), pp_City = of_int j,
        pp_Region = of_int k, pp_Weight = ucast (ci_Weight (pData p))\<rparr>"])
      (use add_refers [OF ok(1) s] add_refers [OF ok(2) c] add_refers [OF ok(3) z]
       in \<open>simp_all add: add_point_def s c z maps_ok_def maps_le_def point_refers_def\<close>)
qed

lemma add_points_ok:
  assumes "maps_ok (length ps + n) maps"
  shows "\<exists>maps' qs. fold add_point ps (maps, acc) = (maps', acc @ qs) \<and> maps_ok n maps' \<and> maps_le maps maps'
    \<and> list_all2 (point_refers maps') qs ps"
  using assms
proof (induction ps arbitrary: maps acc)
  case (Cons p ps)
  have "maps_ok (Suc (length ps + n)) maps" using Cons.prems by simp
  then obtain maps1 q where s1: "add_point p (maps, acc) = (maps1, acc @ [q])" "maps_ok (length ps + n) maps1"
    "maps_le maps maps1" "point_refers maps1 q p"
    by (rule add_point_ok)
  obtain maps2 qs where s2: "fold add_point ps (maps1, acc @ [q]) = (maps2, acc @ [q] @ qs)" "maps_ok n maps2"
    "maps_le maps1 maps2" "list_all2 (point_refers maps2) qs ps"
    using Cons.IH [OF s1(2), of "acc @ [q]"] by auto
  have "list_all2 (point_refers maps2) (q # qs) (p # ps)"
    using point_refers_mono [OF s1(4) s2(3)] s2(4) by simp
  then show ?case using s1(1) s2(1,2) maps_le_trans [OF s1(3) s2(3)] by (intro exI [of _ maps2] exI [of _ "q # qs"]) simp
qed simp

definition zone_refers :: "unique_map \<Rightarrow> pb_zone \<Rightarrow> zone \<Rightarrow> bool" where
  "zone_refers m q z \<longleftrightarrow> refers m (pz_Name q) (z_Name z) \<and> pz_Bounds q = Some (mapBoundsFromOrb (z_Bounds z))
     \<and> pz_MultiPolygon q = Some (mapMultiPolygonFromOrb (z_Polygon z))"

lemma zone_refers_mono: "zone_refers m q z \<Longrightarrow> map_of (um_m m) \<subseteq>\<^sub>m map_of (um_m m') \<Longrightarrow> zone_refers m' q z"
  by (auto simp: zone_refers_def intro: refers_mono)

abbreviation regions_of :: "zone list \<Rightarrow> zone list" where
  "regions_of zs \<equiv> filter (\<lambda>z. z_Type z = ZoneRegion) zs"

abbreviation countries_of :: "zone list \<Rightarrow> zone list" where
  "countries_of zs \<equiv> filter (\<lambda>z. z_Type z = ZoneCountry) zs"

lemma zone_types_differ [simp]: "ZoneRegion \<noteq> ZoneCountry"
  by (simp add: ZoneRegion_def ZoneCountry_def)

lemma add_zones_ok:
  assumes "um_ok (length zs + n) m"
  shows "\<exists>m' rs cs. fold add_zone zs (m, R, C) = (m', R @ rs, C @ cs) \<and> um_ok n m' \<and> map_of (um_m m) \<subseteq>\<^sub>m map_of (um_m m')
    \<and> list_all2 (zone_refers m') rs (regions_of zs) \<and> list_all2 (zone_refers m') cs (countries_of zs)"
  using assms
proof (induction zs arbitrary: m R C)
  case (Cons z zs)
  obtain i m1 where a: "um_Add (z_Name z) m = (i, m1)" by fastforce
  have ok: "um_ok (Suc (length zs + n)) m" using Cons.prems by simp
  note A = add_refers [OF ok a]
  let ?q = "\<lparr>pz_Name = of_int i, pz_Bounds = Some (mapBoundsFromOrb (z_Bounds z)), pz_MultiPolygon = Some (mapMultiPolygonFromOrb (z_Polygon z))\<rparr>"
  let ?R = "if z_Type z = ZoneRegion then R @ [?q] else R" and ?C = "if z_Type z = ZoneCountry then C @ [?q] else C"
  have z1: "add_zone z (m, R, C) = (m1, ?R, ?C)" by (auto simp: add_zone_def a)
  obtain m2 rs cs where B: "fold add_zone zs (m1, ?R, ?C) = (m2, ?R @ rs, ?C @ cs)" "um_ok n m2"
    "map_of (um_m m1) \<subseteq>\<^sub>m map_of (um_m m2)" "list_all2 (zone_refers m2) rs (regions_of zs)" "list_all2 (zone_refers m2) cs (countries_of zs)"
    using Cons.IH [OF A(1), of ?R ?C] by auto
  have q: "zone_refers m2 ?q z" using zone_refers_mono [OF _ B(3), of ?q z] A(2) by (simp add: zone_refers_def)
  show ?case
    by (rule exI [of _ m2], rule exI [of _ "if z_Type z = ZoneRegion then ?q # rs else rs"],
        rule exI [of _ "if z_Type z = ZoneCountry then ?q # cs else cs"])
      (use B z1 q map_le_trans [OF A(3) B(3)] in auto)
qed simp

lemma um_Slice_names:
  assumes "um_ok n m" "mset order = mset (um_m m)"
  shows "um_Slice order m = Some (um.names m)"
proof -
  have "nat (um_i m + 1) = length (um_m m)" using assms(1) by (simp add: um_ok_def)
  then show ?thesis using um.fill_names [OF assms] by (simp add: um_Slice_def)
qed

text \<open>Room that leaves at most \<open>2 ^ 32\<close> names.\<close>

abbreviation spare :: nat where
  "spare \<equiv> 2 ^ 63 - 2 ^ 32"

lemma spare_length: "um_ok (n + spare) m \<Longrightarrow> length (um_m m) \<le> 2 ^ 32"
  by (simp add: um_ok_def)

definition cache_of :: "'t calendar \<Rightarrow> cache_point list \<Rightarrow> zone list \<Rightarrow> 't metadata \<Rightarrow> name_maps \<Rightarrow> v1_cache \<Rightarrow> bool" where
  "cache_of T pts zones meta maps c \<longleftrightarrow>
     maps_ok 0 maps \<and> length (um_m (streetsNames maps)) \<le> 2 ^ 32 \<and> length (um_m (citiesNames maps)) \<le> 2 ^ 32
     \<and> length (um_m (zonesNames maps)) \<le> 2 ^ 32
     \<and> c_StreetsNames c = um.names (streetsNames maps) \<and> c_CitiesNames c = um.names (citiesNames maps)
     \<and> c_ZonesNames c = um.names (zonesNames maps)
     \<and> list_all2 (point_refers maps) (c_Points c) pts
     \<and> list_all2 (zone_refers (zonesNames maps)) (c_Regions c) (regions_of zones)
     \<and> list_all2 (zone_refers (zonesNames maps)) (c_Countries c) (countries_of zones)
     \<and> \<lparr>cm_Version = c_Version c, cm_DateCreated = c_DateCreated c, cm_Locale = c_Locale c\<rparr> = metadata_message T meta"

lemma cacheFromPoints_ok:
  assumes vis: "\<forall>kvs. mset (vis kvs) = mset kvs" and n: "length pts + length zones < 2 ^ 32"
  obtains maps c where "cacheFromPoints T vis pts zones meta = Some c" "cache_of T pts zones meta maps c"
proof -
  let ?new = "\<lparr>streetsNames = newUniqueMap, citiesNames = newUniqueMap, zonesNames = newUniqueMap\<rparr>"
  have "maps_ok (length pts + (length zones + spare)) ?new"
    using n by (simp add: maps_ok_def um_ok_def newUniqueMap_def)
  then obtain m1 qs where A: "fold add_point pts (?new, []) = (m1, qs)" "maps_ok (length zones + spare) m1"
    "list_all2 (point_refers m1) qs pts"
    using add_points_ok [of pts "length zones + spare" ?new "[]"] by auto
  have ok1: "um_ok (length zones + spare) (streetsNames m1)" "um_ok (length zones + spare) (citiesNames m1)"
    "um_ok (length zones + spare) (zonesNames m1)" using A(2) by (simp_all add: maps_ok_def)
  obtain zm rs cs where B: "fold add_zone zones (zonesNames m1, [], []) = (zm, rs, cs)" "um_ok spare zm"
    "map_of (um_m (zonesNames m1)) \<subseteq>\<^sub>m map_of (um_m zm)" "list_all2 (zone_refers zm) rs (regions_of zones)"
    "list_all2 (zone_refers zm) cs (countries_of zones)"
    using add_zones_ok [OF ok1(3), of "[]" "[]"] by auto
  let ?maps = "m1\<lparr>zonesNames := zm\<rparr>"
  have le: "maps_le m1 ?maps" using B(3) by (simp add: maps_le_def)
  have ok: "um_ok 0 (streetsNames m1)" "um_ok 0 (citiesNames m1)" "um_ok 0 zm"
    using um.ok_mono [OF ok1(1)] um.ok_mono [OF ok1(2)] um.ok_mono [OF B(2)] by simp_all
  have len: "length (um_m (streetsNames m1)) \<le> 2 ^ 32" "length (um_m (citiesNames m1)) \<le> 2 ^ 32" "length (um_m zm) \<le> 2 ^ 32"
    using spare_length [OF ok1(1)] spare_length [OF ok1(2)] spare_length [of 0 zm] B(2) by simp_all
  have ref: "list_all2 (point_refers ?maps) qs pts"
    using A(3) by (rule list_all2_mono) (rule point_refers_mono [OF _ le])
  let ?c = "\<lparr>c_Version = md_Version meta, c_DateCreated = FormatRFC3339 T (md_DateCreated meta),
       c_Locale = md_Locale meta, c_StreetsNames = um.names (streetsNames m1), c_CitiesNames = um.names (citiesNames m1),
       c_ZonesNames = um.names zm, c_Points = qs, c_Regions = rs, c_Countries = cs\<rparr>"
  have "cacheFromPoints T vis pts zones meta = Some ?c"
    using vis by (simp add: cacheFromPoints_def A(1) B(1) um_Slice_names [OF ok(1)] um_Slice_names [OF ok(2)] um_Slice_names [OF ok(3)])
  moreover have "cache_of T pts zones meta ?maps ?c"
    using ok len ref B(4,5) by (simp add: cache_of_def maps_ok_def metadata_message_def)
  ultimately show thesis by (rule that)
qed

lemma mapPoint_back:
  assumes c: "cache_of T pts zones meta maps c" and q: "point_refers maps q p"
  shows "mapPoint \<lparr>sc_Streets = c_StreetsNames c, sc_Cities = c_CitiesNames c, sc_Regions = c_ZonesNames c\<rparr> q = Some p"
proof -
  have w: "ucast (ucast (w :: byte) :: u32) = w" for w by (rule bit_word_eqI) (auto simp: bit_unsigned_iff)
  note c' = c [unfolded cache_of_def maps_ok_def]
  have "get (c_StreetsNames c) (uint (pp_Street q)) = Some (ci_Street (pData p))"
    "get (c_CitiesNames c) (uint (pp_City q)) = Some (ci_City (pData p))"
    "get (c_ZonesNames c) (uint (pp_Region q)) = Some (ci_Region (pData p))"
    using refers_get c' q by (auto simp: point_refers_def)
  then show ?thesis using q by (cases p) (simp add: mapPoint_def point_refers_def w)
qed

lemma mapZone_back:
  assumes c: "cache_of T pts zones meta maps c" and q: "zone_refers (zonesNames maps) q z" and t: "zone_type_v1 t = Some (z_Type z)"
  shows "mapZone t \<lparr>sc_Streets = c_StreetsNames c, sc_Cities = c_CitiesNames c, sc_Regions = c_ZonesNames c\<rparr> q = Some (Some (stored_zone z))"
proof -
  note c' = c [unfolded cache_of_def maps_ok_def]
  have "get (c_ZonesNames c) (uint (pz_Name q)) = Some (z_Name z)"
    using refers_get c' q by (auto simp: zone_refers_def)
  then show ?thesis using q t by (simp add: mapZone_def zone_refers_def stored_zone_def)
qed

subsection \<open>Blobs\<close>

lemma chunks_of_Nil [simp]: "chunks_of [] = []"
  by (simp add: chunks_of.simps)

lemma concat_chunks_of: "concat (chunks_of xs) = xs"
  by (induction xs rule: chunks_of.induct) (subst chunks_of.simps, simp)

lemma chunks_of_small: "ys \<in> set (chunks_of xs) \<Longrightarrow> 0 < length ys \<and> length ys \<le> 100"
proof (induction xs rule: chunks_of.induct)
  case (1 xs)
  then show ?case by (cases "xs = []") (auto simp: chunks_of.simps [of xs] blobChunkSize_def)
qed

lemma list_all2_chunks:
  "list_all2 R xs ys \<Longrightarrow> list_all2 (list_all2 R) (chunks_of xs) (chunks_of ys)"
proof (induction xs arbitrary: ys rule: chunks_of.induct)
  case (1 xs)
  show ?case
  proof (cases "xs = []")
    case False
    have "list_all2 (list_all2 R) (chunks_of (drop blobChunkSize xs)) (chunks_of (drop blobChunkSize ys))"
      using "1.IH" [OF False] "1.prems" by (blast intro: list_all2_dropI)
    moreover have "ys \<noteq> []" using "1.prems" False by auto
    ultimately show ?thesis using False list_all2_takeI [OF "1.prems"]
      by (simp add: chunks_of.simps [of xs] chunks_of.simps [of ys])
  qed (use "1.prems" in \<open>simp add: chunks_of.simps\<close>)
qed

lemma marshal_all_ok: "marshal_all P ms = Inr bs \<Longrightarrow> list_all2 (\<lambda>m b. Marshal P m = Inr b) ms bs"
  by (induction ms arbitrary: bs) (auto split: sum.splits)

text \<open>A protobuf message is shorter than 2 GiB.\<close>

definition proto_small :: "'m proto \<Rightarrow> bool" where
  "proto_small P \<longleftrightarrow> (\<forall>m bs. Marshal P m = Inr bs \<longrightarrow> length bs < 2 ^ 31)"

lemma proto_small_u32: "proto_small P \<Longrightarrow> Marshal P m = Inr bs \<Longrightarrow> unat (of_nat (length bs) :: u32) = length bs"
  by (auto simp: proto_small_def unat_of_nat take_bit_eq_mod dest!: spec)

lemma readToProto_at:
  assumes "proto_ok P" "proto_small P" "Marshal P m = Inr bs" "stream_at (bs @ rest) st"
  obtains st' where "readToProto P (of_nat (length bs)) st = (Inr m, st')" "stream_at rest st'"
proof (rule ReadFull_at [OF assms(4) refl])
  fix st' assume a: "ReadFull (length bs) st = (Inr bs, st')" "stream_at rest st'"
  then show thesis using that proto_okD [OF assms(1,3)] proto_small_u32 [OF assms(2,3)] by (simp add: readToProto_def)
qed

abbreviation sizes_of :: "byte list list \<Rightarrow> u32 list" where
  "sizes_of bs \<equiv> map (\<lambda>b. of_nat (length b)) bs"

lemma read_blobs_at:
  assumes "proto_small P" "list_all2 (\<lambda>m b. Marshal P m = Inr b) ms bs" "stream_at (concat bs @ rest) st"
  shows "\<exists>st'. read_blobs (sizes_of bs) st = (map Inr bs, st') \<and> stream_at rest st'"
  using assms(2,3)
proof (induction arbitrary: st rule: list_all2_induct)
  case (Cons m ms b bs)
  then have "stream_at (b @ (concat bs @ rest)) st" by simp
  then obtain st1 where st1: "ReadFull (length b) st = (Inr b, st1)" "stream_at (concat bs @ rest) st1"
    using ReadFull_at refl by metis
  then show ?case using Cons.IH [OF st1(2)] proto_small_u32 [OF assms(1) Cons.hyps(1)] by auto
qed simp

lemma unmarshal_marshalled:
  assumes "proto_ok P"
  shows "list_all2 (\<lambda>m b. Marshal P m = Inr b) ms bs \<Longrightarrow> unmarshal_blobs P (map Inr bs) = map Inr ms"
  by (induction rule: list_all2_induct) (simp_all add: proto_okD [OF assms])

abbreviation yields :: "'a list \<Rightarrow> 'a result option list" where
  "yields xs \<equiv> map (\<lambda>x. Some (Inr x)) xs"

lemma map_blobs_back:
  assumes "\<And>q p. R q p \<Longrightarrow> mapPoint sc q = Some p"
  shows "list_all2 (list_all2 R) qss pss \<Longrightarrow> map_blobs sc (map Inr qss) = yields (concat pss)"
proof (induction rule: list_all2_induct)
  case (Cons qs qss ps pss)
  have "map (\<lambda>p. map_option Inr (mapPoint sc p)) qs = yields ps"
    using Cons.hyps(1) by (induction rule: list_all2_induct) (simp_all add: assms)
  then show ?case using Cons.IH by simp
qed simp

lemma map_zones_back:
  assumes c: "cache_of T pts zones meta maps c" and t: "zone_type_v1 t = Some zt"
  shows "list_all2 (zone_refers (zonesNames maps)) qs zs \<Longrightarrow> \<forall>z \<in> set zs. z_Type z = zt \<Longrightarrow>
    map (yield_zone t \<lparr>sc_Streets = c_StreetsNames c, sc_Cities = c_CitiesNames c, sc_Regions = c_ZonesNames c\<rparr>) qs
      = yields (map stored_zone zs)"
proof (induction rule: list_all2_induct)
  case (Cons q qs z zs)
  then show ?case using mapZone_back [OF c Cons.hyps(1), of t] t by (simp add: yield_zone_def)
qed simp

lemma read_zones_at:
  assumes P: "proto_ok (zones1_pb P)" "proto_small (zones1_pb P)"
  shows "list_all2 (\<lambda>m b. Marshal (zones1_pb P) m = Inr b) blobs bs \<Longrightarrow>
    list_all2 (\<lambda>m zs. map (yield_zone (zb_Type m) sc) (zb_Zones m) = yields (map stored_zone zs)) blobs zss \<Longrightarrow>
    stream_at (concat bs @ rest) st \<Longrightarrow>
    \<exists>st'. read_zones P sc (sizes_of bs) st = (yields (map stored_zone (concat zss)), st')"
proof (induction arbitrary: st zss rule: list_all2_induct)
  case (Cons m ms b bs)
  obtain zs zss' where z: "zss = zs # zss'" "map (yield_zone (zb_Type m) sc) (zb_Zones m) = yields (map stored_zone zs)"
    "list_all2 (\<lambda>m zs. map (yield_zone (zb_Type m) sc) (zb_Zones m) = yields (map stored_zone zs)) ms zss'"
    using Cons.prems(1) by (auto simp: list_all2_Cons1)
  have "stream_at (b @ (concat bs @ rest)) st" using Cons.prems(2) by simp
  then obtain st1 where st1: "readToProto (zones1_pb P) (of_nat (length b)) st = (Inr m, st1)" "stream_at (concat bs @ rest) st1"
    by (rule readToProto_at [OF P Cons.hyps(1)])
  then show ?case using Cons.IH [OF z(3) st1(2)] z(1,2) by auto
qed simp

lemma list_all2_blobs:
  assumes c: "cache_of T pts zones meta maps c"
  defines "sc \<equiv> \<lparr>sc_Streets = c_StreetsNames c, sc_Cities = c_CitiesNames c, sc_Regions = c_ZonesNames c\<rparr>"
  shows "list_all2 (\<lambda>m zs. map (yield_zone (zb_Type m) sc) (zb_Zones m) = yields (map stored_zone zs))
    (zone_blobs c) (chunks_of (regions_of zones) @ chunks_of (countries_of zones))"
proof -
  have one: "list_all2 (\<lambda>m zs. map (yield_zone (zb_Type m) sc) (zb_Zones m) = yields (map stored_zone zs))
      (map (\<lambda>zs. \<lparr>zb_Type = t, zb_Zones = zs\<rparr>) (chunks_of qs)) (chunks_of zs)"
    if "zone_type_v1 t = Some zt" "list_all2 (zone_refers (zonesNames maps)) qs zs" "\<forall>z \<in> set zs. z_Type z = zt" for t zt qs zs
  proof -
    have sub: "\<forall>zs' \<in> set (chunks_of zs). \<forall>z \<in> set zs'. z_Type z = zt" using that(3) concat_chunks_of [of zs] by (metis UN_I set_concat)
    have "list_all2 (list_all2 (zone_refers (zonesNames maps))) (chunks_of qs) (chunks_of zs)"
      using that(2) by (rule list_all2_chunks)
    then show ?thesis using sub
      by (induction rule: list_all2_induct) (simp_all add: sc_def map_zones_back [OF c that(1)])
  qed
  show ?thesis unfolding zone_blobs_def
    by (rule list_all2_appendI [OF one [of _ ZoneRegion] one [of _ ZoneCountry]])
      (use c in \<open>simp_all add: cache_of_def zone_type_v1_def\<close>)
qed

definition v1_small :: "v1_protos \<Rightarrow> bool" where
  "v1_small P \<longleftrightarrow> proto_small (header1_pb P) \<and> proto_small (metadata1_pb P) \<and> proto_small (strings_pb P)
     \<and> proto_small (points_pb P) \<and> proto_small (zones1_pb P)"

text \<open>What \<open>Save\<close> writes is read back by \<open>Load\<close>, whatever follows it in the stream.\<close>

lemma v1_Save_Load:
  assumes w: "writer_ok w out" and P: "v1_protos_ok P" "v1_small P" and vis: "\<forall>kvs. mset (vis kvs) = mset kvs"
    and n: "length pts + length zones < 2 ^ 32" and t: "reads_time T (md_DateCreated meta) t'"
    and ok: "v1_Save P T vis w pts zones meta s = Some (None, s')"
  obtains body where "out s' = out s @ body"
    "\<And>st. stream_at body st \<Longrightarrow> \<exists>ld st1 st2 st3. v1_Load P T st = Some (Inr ld, st1) \<and> vf_md ld = meta\<lparr>md_DateCreated := t'\<rparr>
      \<and> v1_points_iter P ld st1 = (yields pts, st2) \<and> v1_zones_iter P ld True st2 = (yields (stored_zones zones), st3)"
proof -
  obtain maps c where c: "cacheFromPoints T vis pts zones meta = Some c" "cache_of T pts zones meta maps c"
    by (rule cacheFromPoints_ok [OF vis n])
  define sc where "sc = \<lparr>sc_Streets = c_StreetsNames c, sc_Cities = c_CitiesNames c, sc_Regions = c_ZonesNames c\<rparr>"
  have md: "\<lparr>cm_Version = c_Version c, cm_DateCreated = c_DateCreated c, cm_Locale = c_Locale c\<rparr> = metadata_message T meta"
    using c(2) by (simp add: cache_of_def)
  note save = ok [unfolded v1_Save_def c(1), simplified, unfolded sc_def [symmetric] md]
  obtain sb mb pb zb hb where m: "Marshal (strings_pb P) sc = Inr sb" "Marshal (metadata1_pb P) (metadata_message T meta) = Inr mb"
    "marshal_all (points_pb P) (chunks_of (c_Points c)) = Inr pb" "marshal_all (zones1_pb P) (zone_blobs c) = Inr zb"
    "Marshal (header1_pb P) (cache_header_of mb sb pb zb) = Inr hb"
    using save by (auto split: sum.splits)
  obtain s1 where s1: "write_seq w ([put_u32 (of_nat (length hb)), hb, mb, sb] @ pb @ zb) s = (None, s1)"
    "out s1 = out s @ concat ([put_u32 (of_nat (length hb)), hb, mb, sb] @ pb @ zb)"
    by (rule write_seq_ok [OF w])
  have "s' = s1" using save m s1(1) by simp
  then have out: "out s' = out s @ (put_u32 (of_nat (length hb)) @ hb @ mb @ sb @ concat pb @ concat zb)" using s1(2) by simp
  have ok: "proto_ok (header1_pb P)" "proto_ok (metadata1_pb P)" "proto_ok (strings_pb P)" "proto_ok (points_pb P)" "proto_ok (zones1_pb P)"
    and small: "proto_small (header1_pb P)" "proto_small (metadata1_pb P)" "proto_small (strings_pb P)" "proto_small (points_pb P)" "proto_small (zones1_pb P)"
    using P by (simp_all add: v1_protos_ok_def v1_small_def)
  have u0: "u32_of (put_u32 (of_nat (length hb))) = of_nat (length hb)" using u32_of_put [of _ "[]"] by simp
  have "\<exists>ld st1 st2 st3. v1_Load P T st = Some (Inr ld, st1) \<and> vf_md ld = meta\<lparr>md_DateCreated := t'\<rparr>
      \<and> v1_points_iter P ld st1 = (yields pts, st2) \<and> v1_zones_iter P ld True st2 = (yields (stored_zones zones), st3)"
    if st: "stream_at (put_u32 (of_nat (length hb)) @ hb @ mb @ sb @ concat pb @ concat zb) st" for st
  proof -
    obtain st1 where r1: "ReadFull 4 st = (Inr (put_u32 (of_nat (length hb))), st1)" and a1: "stream_at (hb @ mb @ sb @ concat pb @ concat zb) st1"
      using ReadFull_at [OF st] by (metis length_put(1))
    obtain st2 where r2: "readToProto (header1_pb P) (of_nat (length hb)) st1 = (Inr (cache_header_of mb sb pb zb), st2)"
      and a2: "stream_at (mb @ sb @ concat pb @ concat zb) st2" by (rule readToProto_at [OF ok(1) small(1) m(5) a1])
    obtain st3 where r3: "readToProto (metadata1_pb P) (of_nat (length mb)) st2 = (Inr (metadata_message T meta), st3)"
      and a3: "stream_at (sb @ concat pb @ concat zb) st3" by (rule readToProto_at [OF ok(2) small(2) m(2) a2])
    obtain st4 where r4: "readToProto (strings_pb P) (of_nat (length sb)) st3 = (Inr sc, st4)"
      and a4: "stream_at (concat pb @ concat zb) st4" by (rule readToProto_at [OF ok(3) small(3) m(1) a3])
    let ?ld = "\<lparr>vf_header = cache_header_of mb sb pb zb, vf_strings = sc, vf_md = meta\<lparr>md_DateCreated := t'\<rparr>\<rparr>"
    have L: "v1_Load P T st = Some (Inr ?ld, st4)"
      using r1 r2 r3 r4 by (simp add: v1_Load_def u0 cache_header_of_def load_metadata_back [OF t])
    note pm = marshal_all_ok [OF m(3)]
    obtain st5 where r5: "read_blobs (sizes_of pb) st4 = (map Inr pb, st5)" and a5: "stream_at (concat zb) st5"
      using read_blobs_at [OF small(4) pm a4] by blast
    have refs: "list_all2 (list_all2 (point_refers maps)) (chunks_of (c_Points c)) (chunks_of pts)"
      by (rule list_all2_chunks) (use c(2) in \<open>simp add: cache_of_def\<close>)
    have "map_blobs sc (map Inr (chunks_of (c_Points c))) = yields (concat (chunks_of pts))"
      by (rule map_blobs_back [OF _ refs]) (unfold sc_def, rule mapPoint_back [OF c(2)])
    then have I: "v1_points_iter P ?ld st4 = (yields pts, st5)"
      using r5 by (simp add: v1_points_iter_def cache_header_of_def unmarshal_marshalled [OF ok(4) pm] concat_chunks_of)
    have "stream_at (concat zb @ []) st5" using a5 by simp
    from read_zones_at [OF ok(5) small(5) marshal_all_ok [OF m(4)] list_all2_blobs [OF c(2)] this]
    obtain st6 where "read_zones P sc (sizes_of zb) st5 = (yields (stored_zones zones), st6)"
      by (auto simp: sc_def stored_zones_def concat_chunks_of comp_def)
    then show ?thesis using L I by (simp add: v1_zones_iter_def cache_header_of_def)
  qed
  then show thesis using that out by blast
qed

end
