(* ===== verification/CacheSaver.thy ===== *)
theory CacheSaver
  imports CacheV1
begin

section \<open>Saving and loading a cache\<close>

text \<open>
  \<^verbatim>\<open>cachesaver\<close>: the magic bytes and the level in front of a cache, the choice of a loader and
  of an analysis by them. The decoder of the legacy format (\<open>encoding/gob\<close>) is a parameter.
  Log messages are left out.
\<close>

definition MAGIC_BYTES :: "byte list" where
  "MAGIC_BYTES = [0x52, 0x47, 0x45, 0x4F]"

subsection \<open>Saving\<close>

definition write_one :: "'w writer \<Rightarrow> byte list \<Rightarrow> 'w \<Rightarrow> error option \<times> 'w" where
  "write_one w bs s = (case w bs s of ((n, e), s) \<Rightarrow> (e, s))"

definition SaveV1 :: "v1_protos \<Rightarrow> 't calendar \<Rightarrow> ((gostring \<times> int) list \<Rightarrow> (gostring \<times> int) list)
    \<Rightarrow> cache_point list \<Rightarrow> zone list \<Rightarrow> 't metadata \<Rightarrow> 'w writer \<Rightarrow> 'w \<Rightarrow> (error option \<times> 'w) option" where
  "SaveV1 P T vis pts zones meta w s =
     (case write_one w MAGIC_BYTES s of
        (Some e, s) \<Rightarrow> Some (Some e, s)
      | (None, s) \<Rightarrow>
        (case write_one w (put_u32 COMPATIBILITY_LEVEL_v1) s of
           (Some e, s) \<Rightarrow> Some (Some e, s)
         | (None, s) \<Rightarrow> v1_Save P T vis w pts zones meta s))"

definition SaveV2 :: "mathlib \<Rightarrow> v2_protos \<Rightarrow> 't calendar \<Rightarrow> ((gostring \<times> u32) list \<Rightarrow> (gostring \<times> u32) list)
    \<Rightarrow> cache_point list \<Rightarrow> zone list \<Rightarrow> 't metadata \<Rightarrow> 'w writer \<Rightarrow> 'w \<Rightarrow> (error option \<times> 'w) option" where
  "SaveV2 M P T vis pts zones meta w s =
     (case write_one w MAGIC_BYTES s of
        (Some e, s) \<Rightarrow> Some (Some e, s)
      | (None, s) \<Rightarrow>
        (case write_one w (put_u32 COMPATIBILITY_LEVEL_v2) s of
           (Some e, s) \<Rightarrow> Some (Some e, s)
         | (None, s) \<Rightarrow> v2_Save M P T vis w pts zones meta s))"

subsection \<open>Loading\<close>

text \<open>One call of \<open>Read\<close>; how many bytes it gave is not looked at.\<close>

definition readMagicBytes :: "stream \<Rightarrow> byte list result \<times> stream" where
  "readMagicBytes st =
     (case Read 4 st of
        ((bs, Some e), st) \<Rightarrow> (Inl (Wrap ''error reading magic bytes'' e), st)
      | ((bs, None), st) \<Rightarrow> (Inr (fill 4 bs), st))"

definition readCompatabilityLevel :: "stream \<Rightarrow> u32 result \<times> stream" where
  "readCompatabilityLevel st =
     (case ReadFull 4 st of
        (Inl e, st) \<Rightarrow> (Inl (Wrap ''error reading compatibility level'' e), st)
      | (Inr bs, st) \<Rightarrow> (Inr (u32_of bs), st))"

type_synonym gob_decoder = "stream \<Rightarrow> geo_model_info point list result"

definition legacyLoader :: "gob_decoder \<Rightarrow> stream \<Rightarrow> cache_point list result" where
  "legacyLoader gob st =
     (case gob st of
        Inl e \<Rightarrow> Inl (Wrap ''error decoding points'' e)
      | Inr pts \<Rightarrow>
          Inr (map (\<lambda>p. \<lparr>pX = pX p, pY = pY p, pData = \<lparr>ci_Name = Name (pData p), ci_Street = Street (pData p),
            ci_HouseNumber = HouseNumber (pData p), ci_City = City (pData p), ci_Region = Region (pData p),
            ci_Weight = gm_Weight (pData p)\<rparr>\<rparr>) pts))"

text \<open>A loop over an iterator that stops at the first error.\<close>

fun collect :: "string \<Rightarrow> 'a result option list \<Rightarrow> 'a list result option" where
  "collect msg [] = Some (Inr [])"
| "collect msg (None # xs) = None"
| "collect msg (Some (Inl e) # xs) = Some (Inl (Wrap msg e))"
| "collect msg (Some (Inr x) # xs) =
     (case collect msg xs of
        None \<Rightarrow> None
      | Some (Inl e) \<Rightarrow> Some (Inl e)
      | Some (Inr ys) \<Rightarrow> Some (Inr (x # ys)))"

definition loadV1Cache :: "v1_protos \<Rightarrow> 't calendar \<Rightarrow> stream
    \<Rightarrow> (cache_point list \<times> zone list \<times> 't metadata) result option" where
  "loadV1Cache P T st =
     (case v1_Load P T st of
        None \<Rightarrow> None
      | Some (Inl e, st) \<Rightarrow> Some (Inl (Wrap ''error loading v1 cache'' e))
      | Some (Inr ld, st) \<Rightarrow>
        (case v1_points_iter P ld st of (pointsIter, st) \<Rightarrow>
        (case collect ''error reading point'' pointsIter of
           None \<Rightarrow> None
         | Some (Inl e) \<Rightarrow> Some (Inl e)
         | Some (Inr pts) \<Rightarrow>
           (case collect ''error reading zone'' (fst (v1_zones_iter P ld True st)) of
              None \<Rightarrow> None
            | Some (Inl e) \<Rightarrow> Some (Inl e)
            | Some (Inr zones) \<Rightarrow> Some (Inr (pts, zones, vf_md ld))))))"

definition loadV2Cache :: "v2_protos \<Rightarrow> 't calendar \<Rightarrow> stream
    \<Rightarrow> (cache_point list \<times> zone list \<times> 't metadata) result option" where
  "loadV2Cache P T st =
     (case v2_Load P T st of
        None \<Rightarrow> None
      | Some (Inl e, st) \<Rightarrow> Some (Inl (Wrap ''error loading v2 cache'' e))
      | Some (Inr ld, st) \<Rightarrow>
        (case v2_points_iter ld st of
           None \<Rightarrow> None
         | Some (pointsIter, st) \<Rightarrow>
           (case collect ''error reading point'' (map Some pointsIter) of
              None \<Rightarrow> None
            | Some (Inl e) \<Rightarrow> Some (Inl e)
            | Some (Inr pts) \<Rightarrow>
              (case collect ''error reading zone'' (map Some (v2_zones_iter ld)) of
                 None \<Rightarrow> None
               | Some (Inl e) \<Rightarrow> Some (Inl e)
               | Some (Inr zones) \<Rightarrow> Some (Inr (pts, zones, vl_md ld))))))"

record 't loaders =
  v1_pb :: v1_protos
  v2_pb :: v2_protos
  cal :: "'t calendar"
  gob :: gob_decoder

definition drop_metadata :: "string \<Rightarrow> ('a \<times> 'b \<times> 'c) result \<Rightarrow> ('a \<times> 'b) result" where
  "drop_metadata msg r = (case r of Inl e \<Rightarrow> Inl (Wrap msg e) | Inr (pts, zones, md) \<Rightarrow> Inr (pts, zones))"

definition LoadFromReader :: "'t loaders \<Rightarrow> stream \<Rightarrow> (cache_point list \<times> zone list) result option" where
  "LoadFromReader L st =
     (case readMagicBytes st of
        (Inl e, st) \<Rightarrow> Some (Inl e)
      | (Inr magic, st) \<Rightarrow>
        if magic \<noteq> MAGIC_BYTES then
          Some (case legacyLoader (gob L) (st\<lparr>st_chunks := magic # st_chunks st\<rparr>) of
              Inl e \<Rightarrow> Inl (Wrap ''error loading legacy cache'' e)
            | Inr pts \<Rightarrow> Inr (pts, []))
        else
          (case readCompatabilityLevel st of
             (Inl e, st) \<Rightarrow> Some (Inl e)
           | (Inr level, st) \<Rightarrow>
             if level = COMPATIBILITY_LEVEL_v1 then
               map_option (drop_metadata ''error loading v1 cache'') (loadV1Cache (v1_pb L) (cal L) st)
             else if level = COMPATIBILITY_LEVEL_v2 then
               map_option (drop_metadata ''error loading v2 cache'') (loadV2Cache (v2_pb L) (cal L) st)
             else Some (Inl (Err ''unsupported compatibility level''))))"

subsection \<open>Analysis\<close>

text \<open>What is printed: a label and a number for each line.\<close>

type_synonym printed = "(string \<times> u64) list"

definition v1_printFromHeader :: "cache_header \<Rightarrow> printed" where
  "v1_printFromHeader h =
     (let totalPointsBlobSize = sum_list (map ucast (ch_PointsBlobSizes h));
          totalZonesBlobSize = sum_list (map ucast (ch_ZonesBlobSizes h))
      in [(''Metadata size'', ucast (ch_MetadataSize h)), (''Strings cache size'', ucast (ch_StringsCacheSize h)),
          (''Total points size'', totalPointsBlobSize), (''Total zones size'', totalZonesBlobSize),
          (''Total uncompressed size'', ucast (ch_MetadataSize h) + ucast (ch_StringsCacheSize h)
             + totalPointsBlobSize + totalZonesBlobSize)])"

definition v1_PrintCacheAnalysis :: "v1_protos \<Rightarrow> stream \<Rightarrow> printed \<times> error option" where
  "v1_PrintCacheAnalysis P st =
     (case ReadFull 4 st of
        (Inl e, st) \<Rightarrow> ([], Some (Wrap ''failed to read header size'' e))
      | (Inr buf, st) \<Rightarrow>
        (case readToProto (header1_pb P) (u32_of buf) st of
           (Inl e, st) \<Rightarrow> ([], Some (Wrap ''failed to read header'' e))
         | (Inr header, st) \<Rightarrow> (v1_printFromHeader header, None)))"

definition v2_printFromHeader :: "v2_header \<Rightarrow> printed" where
  "v2_printFromHeader h =
     [(''Metadata size'', ucast (h_MetadataSize h)), (''Strings index size'', ucast (h_StringsIndexSize h)),
      (''Strings data size'', ucast (h_StringsDataSize h)), (''Zones size'', ucast (h_ZonesSize h))]"

fun skim_offsets :: "nat \<Rightarrow> int \<Rightarrow> stream \<Rightarrow> int result \<times> stream" where
  "skim_offsets 0 tot st = (Inr tot, st)"
| "skim_offsets (Suc n) tot st =
     (case ReadFull 8 st of
        (Inl e, st) \<Rightarrow> (Inl (Wrap ''v2 analyze: failed to read offset'' e), st)
      | (Inr buf, st) \<Rightarrow> skim_offsets n (sint (u64_of buf)) st)"

definition v2_printKDBH :: "v2_header \<Rightarrow> u64 \<Rightarrow> u64 \<Rightarrow> u64 \<Rightarrow> u64 \<Rightarrow> printed" where
  "v2_printKDBH header headerOverhead node_size numPoints totalBlobSize =
     (let indicesSize = numPoints * 8; coordsSize = numPoints * 16; offsetsSize = (numPoints + 1) * 8;
          kdbhTotal = 32 + indicesSize + coordsSize + offsetsSize + totalBlobSize
      in [(''Points count'', numPoints), (''node size'', node_size), (''Tree indices'', indicesSize),
          (''Tree coords'', coordsSize), (''Data offsets'', offsetsSize), (''Data blobs'', totalBlobSize),
          (''Points (KDBH) total'', kdbhTotal),
          (''Total uncompressed size'', headerOverhead + ucast (h_MetadataSize header) + ucast (h_StringsIndexSize header)
             + ucast (h_StringsDataSize header) + ucast (h_ZonesSize header) + kdbhTotal)])"

text \<open>
  The table of offsets is only read for its last entry. A count of points so large that the
  table cannot be made panics. \<open>4 + headerSize\<close> is a \<^verbatim>\<open>uint32\<close> and wraps.
\<close>

definition v2_PrintCacheAnalysis :: "v2_protos \<Rightarrow> stream \<Rightarrow> (printed \<times> error option) option" where
  "v2_PrintCacheAnalysis P st =
     (case ReadFull 4 st of
        (Inl e, st) \<Rightarrow> Some ([], Some (Wrap ''v2 analyze: failed to read header size'' e))
      | (Inr sizeBuf, st) \<Rightarrow>
     (case ReadFull (unat (u32_of sizeBuf)) st of
        (Inl e, st) \<Rightarrow> Some ([], Some (Wrap ''v2 analyze: failed to read header'' e))
      | (Inr headerBytes, st) \<Rightarrow>
     (case Unmarshal (header_pb P) headerBytes of
        Inl e \<Rightarrow> Some ([], Some (Wrap ''v2 analyze: failed to unmarshal header'' e))
      | Inr header \<Rightarrow>
        (let out = v2_printFromHeader header in
     (case CopyN_discard (uint (h_MetadataSize header) + uint (h_StringsIndexSize header)
             + uint (h_StringsDataSize header) + uint (h_ZonesSize header)) st of
        (Some e, st) \<Rightarrow> Some (out, Some (Wrap ''v2 analyze: failed to skip to KDBH'' e))
      | (None, st) \<Rightarrow>
     (case ReadFull 32 st of
        (Inl e, st) \<Rightarrow> Some (out, Some (Wrap ''v2 analyze: failed to read KDBH header'' e))
      | (Inr kdbhHeader, st) \<Rightarrow>
        if take 4 kdbhHeader \<noteq> [0x4B, 0x44, 0x42, 0x48] then
          Some (out, Some (Err ''v2 analyze: invalid KDBH magic''))
        else
          (let node_size = u64_of (drop 8 kdbhHeader); numPoints = u64_of (drop 16 kdbhHeader) in
     (case CopyN_discard (sint (numPoints * 8 + numPoints * 16)) st of
        (Some e, st) \<Rightarrow> Some (out, Some (Wrap ''v2 analyze: failed to skip KDBH tree'' e))
      | (None, st) \<Rightarrow>
        if make_ok (uint (numPoints + 1)) 8 then
          (case skim_offsets (unat (numPoints + 1)) 0 st of
             (Inl e, st) \<Rightarrow> Some (out, Some e)
           | (Inr totalBlobSize, st) \<Rightarrow>
               if numPoints + 1 = 0 then None
               else Some (out @ v2_printKDBH header (ucast (4 + u32_of sizeBuf)) node_size numPoints (of_int totalBlobSize), None))
        else None))))))))"

definition PrintCacheSizeAnalysis :: "'t loaders \<Rightarrow> stream \<Rightarrow> (printed \<times> error option) option" where
  "PrintCacheSizeAnalysis L st =
     (case readMagicBytes st of
        (Inl e, st) \<Rightarrow> Some ([], Some e)
      | (Inr magic, st) \<Rightarrow>
        if magic \<noteq> MAGIC_BYTES then
          Some ([], Some (Err ''No magic bytes detected (Analysis not supported for v0 cache)''))
        else
          (case readCompatabilityLevel st of
             (Inl e, st) \<Rightarrow> Some ([], Some e)
           | (Inr level, st) \<Rightarrow>
             if level = COMPATIBILITY_LEVEL_v1 then Some (v1_PrintCacheAnalysis (v1_pb L) st)
             else if level = COMPATIBILITY_LEVEL_v2 then v2_PrintCacheAnalysis (v2_pb L) st
             else Some ([], Some (Err ''Cache version not supported''))))"

subsection \<open>From a stream's bytes to the loader\<close>

lemma collect_yields: "collect msg (map (\<lambda>x. Some (Inr x)) xs) = Some (Inr xs)"
  by (induction xs) simp_all

definition whole_first_read :: "stream \<Rightarrow> bool" where
  "whole_first_read st \<longleftrightarrow> (case st_chunks st of [] \<Rightarrow> False | c # cs \<Rightarrow> 4 \<le> length c)"

lemma readMagicBytes_at:
  assumes "whole_first_read st" "stream_at (bs @ rest) st" "length bs = 4"
  obtains st' where "readMagicBytes st = (Inr bs, st')" "stream_at rest st'"
proof -
  obtain c cs where c: "st_chunks st = c # cs" "4 \<le> length c"
    using assms(1) by (auto simp: whole_first_read_def split: list.splits)
  have app: "c @ concat cs = bs @ rest" using assms(2) c(1) by (simp add: stream_at_def bytes_of_def)
  have t: "take 4 c = bs" "drop 4 c @ concat cs = rest"
    using arg_cong [OF app, of "take 4"] arg_cong [OF app, of "drop 4"] c(2) assms(3) by simp_all
  show thesis
    by (rule that [of "st\<lparr>st_chunks := (if length c \<le> 4 then cs else drop 4 c # cs)\<rparr>"])
      (use c t assms(3) in \<open>auto simp: readMagicBytes_def Read_def stream_at_def bytes_of_def\<close>)
qed

lemma readLevel_at:
  assumes "stream_at (put_u32 l @ rest) st"
  obtains st' where "readCompatabilityLevel st = (Inr l, st')" "stream_at rest st'"
proof -
  obtain st' where "ReadFull 4 st = (Inr (put_u32 l), st')" "stream_at rest st'"
    using ReadFull_at [OF assms] by (metis length_put(1))
  then show thesis using that u32_of_put [of l "[]"] by (simp add: readCompatabilityLevel_def)
qed

lemma length_MAGIC [simp]: "length MAGIC_BYTES = 4"
  by (simp add: MAGIC_BYTES_def)

lemma levels_differ [simp]: "COMPATIBILITY_LEVEL_v2 \<noteq> COMPATIBILITY_LEVEL_v1"
  by (simp add: COMPATIBILITY_LEVEL_v1_def COMPATIBILITY_LEVEL_v2_def)

lemma LoadFromReader_v1:
  assumes "whole_first_read st" "stream_at (MAGIC_BYTES @ put_u32 COMPATIBILITY_LEVEL_v1 @ rest) st"
  obtains st' where "stream_at rest st'"
    "LoadFromReader L st = map_option (drop_metadata ''error loading v1 cache'') (loadV1Cache (v1_pb L) (cal L) st')"
proof -
  obtain st1 where s1: "readMagicBytes st = (Inr MAGIC_BYTES, st1)" "stream_at (put_u32 COMPATIBILITY_LEVEL_v1 @ rest) st1"
    by (rule readMagicBytes_at [OF assms length_MAGIC])
  obtain st2 where s2: "readCompatabilityLevel st1 = (Inr COMPATIBILITY_LEVEL_v1, st2)" "stream_at rest st2"
    by (rule readLevel_at [OF s1(2)])
  show thesis by (rule that [OF s2(2)]) (use s1(1) s2(1) in \<open>simp add: LoadFromReader_def\<close>)
qed

lemma LoadFromReader_v2:
  assumes "whole_first_read st" "stream_at (MAGIC_BYTES @ put_u32 COMPATIBILITY_LEVEL_v2 @ rest) st"
  obtains st' where "stream_at rest st'"
    "LoadFromReader L st = map_option (drop_metadata ''error loading v2 cache'') (loadV2Cache (v2_pb L) (cal L) st')"
proof -
  obtain st1 where s1: "readMagicBytes st = (Inr MAGIC_BYTES, st1)" "stream_at (put_u32 COMPATIBILITY_LEVEL_v2 @ rest) st1"
    by (rule readMagicBytes_at [OF assms length_MAGIC])
  obtain st2 where s2: "readCompatabilityLevel st1 = (Inr COMPATIBILITY_LEVEL_v2, st2)" "stream_at rest st2"
    by (rule readLevel_at [OF s1(2)])
  show thesis by (rule that [OF s2(2)]) (use s1(1) s2(1) in \<open>simp add: LoadFromReader_def\<close>)
qed

lemma write_one_ok:
  assumes "writer_ok w out"
  obtains s' where "write_one w bs s = (None, s')" "out s' = out s @ bs"
  using writer_okD [OF assms, of bs s] that by (auto simp: write_one_def)

lemma prefix_written:
  assumes "writer_ok w out"
  obtains s1 s2 where "write_one w MAGIC_BYTES s = (None, s1)" "write_one w (put_u32 l) s1 = (None, s2)"
    "out s2 = out s @ MAGIC_BYTES @ put_u32 l"
proof -
  obtain s1 where s1: "write_one w MAGIC_BYTES s = (None, s1)" "out s1 = out s @ MAGIC_BYTES" by (rule write_one_ok [OF assms])
  obtain s2 where "write_one w (put_u32 l) s1 = (None, s2)" "out s2 = out s1 @ put_u32 l" by (rule write_one_ok [OF assms])
  then show thesis using that s1 by simp
qed

lemma v1_file_loaded:
  assumes "writer_ok w out" and "out s = []"
    and "v1_protos_ok (v1_pb L)" and "v1_small (v1_pb L)" and "\<forall>kvs. mset (vis kvs) = mset kvs"
    and "length pts + length zones < 2 ^ 32" and "readable_time (cal L) (md_DateCreated meta)"
    and "SaveV1 (v1_pb L) (cal L) vis pts zones meta w s = Some (None, s')"
    and "bytes_of st = out s'" and "whole_first_read st"
  shows "LoadFromReader L st = Some (Inr (pts, stored_zones zones))"
proof -
  obtain s1 s2 where p: "write_one w MAGIC_BYTES s = (None, s1)" "write_one w (put_u32 COMPATIBILITY_LEVEL_v1) s1 = (None, s2)"
    "out s2 = out s @ MAGIC_BYTES @ put_u32 COMPATIBILITY_LEVEL_v1" by (rule prefix_written [OF assms(1)])
  have save: "v1_Save (v1_pb L) (cal L) vis w pts zones meta s2 = Some (None, s')"
    using assms(8) p(1,2) by (simp add: SaveV1_def)
  obtain t' where t': "reads_time (cal L) (md_DateCreated meta) t'" by (rule readable_timeE [OF assms(7)])
  obtain body where body: "out s' = out s2 @ body"
    "\<And>st. stream_at body st \<Longrightarrow> \<exists>ld st1 st2 st3. v1_Load (v1_pb L) (cal L) st = Some (Inr ld, st1) \<and> vf_md ld = meta\<lparr>md_DateCreated := t'\<rparr>
      \<and> v1_points_iter (v1_pb L) ld st1 = (yields pts, st2) \<and> v1_zones_iter (v1_pb L) ld True st2 = (yields (stored_zones zones), st3)"
    by (rule v1_Save_Load [OF assms(1,3,4,5,6) t' save]) blast
  have "stream_at (MAGIC_BYTES @ put_u32 COMPATIBILITY_LEVEL_v1 @ body) st"
    using assms(2,9) p(3) body(1) by (simp add: stream_at_def)
  then obtain st' where st': "stream_at body st'"
    "LoadFromReader L st = map_option (drop_metadata ''error loading v1 cache'') (loadV1Cache (v1_pb L) (cal L) st')"
    by (rule LoadFromReader_v1 [OF assms(10)])
  then show ?thesis using body(2) [OF st'(1)] by (auto simp: loadV1Cache_def collect_yields drop_metadata_def)
qed

subsection \<open>Properties\<close>

text \<open>
  C11. A v1 cache that was saved without an error and is read back, in whatever pieces its
  bytes arrive after a first read of at least four bytes, gives the same points in the same
  order, with their coordinates and texts unchanged, and the zones, regions first, with their
  geometry rounded to \<^verbatim>\<open>float32\<close>; zones of any other type are gone.
\<close>

theorem v1_cache_roundtrip:
  assumes "writer_ok w out" and "out s = []"
    and "v1_protos_ok (v1_pb L)" and "v1_small (v1_pb L)" and "\<forall>kvs. mset (vis kvs) = mset kvs"
    and "length pts + length zones < 2 ^ 32" and "readable_time (cal L) (md_DateCreated meta)"
    and "SaveV1 (v1_pb L) (cal L) vis pts zones meta w s = Some (None, s')"
    and "bytes_of st = out s'" and "whole_first_read st"
  shows "LoadFromReader L st = Some (Inr (pts, stored_zones zones))"
  by (rule v1_file_loaded [OF assms])

text \<open>
  C23. A v2 cache that was saved without an error and is read back as a stream gives every
  point at the origin: its coordinates are lost. The texts are kept up to their first NUL
  byte, and the zones as in the v1 format.
\<close>

theorem v2_stream_loses_coordinates:
  assumes "writer_ok w out" and "out s = []" and "window_narrows M (length pts)"
    and "v2_protos_ok (v2_pb L)" and "v2_fits (v2_pb L) (cal L) pts zones meta" and "\<forall>kvs. mset (vis kvs) = mset kvs"
    and "readable_time (cal L) (md_DateCreated meta)"
    and "SaveV2 M (v2_pb L) (cal L) vis pts zones meta w s = Some (None, s')"
    and "bytes_of st = out s'" and "whole_first_read st"
  shows "LoadFromReader L st
    = Some (Inr (map (\<lambda>p. \<lparr>pX = 0, pY = 0, pData = cut_info (pData p)\<rparr>) pts, stored_zones zones))"
proof -
  obtain s1 s2 where p: "write_one w MAGIC_BYTES s = (None, s1)" "write_one w (put_u32 COMPATIBILITY_LEVEL_v2) s1 = (None, s2)"
    "out s2 = out s @ MAGIC_BYTES @ put_u32 COMPATIBILITY_LEVEL_v2" by (rule prefix_written [OF assms(1)])
  have save: "v2_Save M (v2_pb L) (cal L) vis w pts zones meta s2 = Some (None, s')"
    using assms(8) p(1,2) by (simp add: SaveV2_def)
  have fit: "strings_fit pts" using assms(5) by (simp add: v2_fits_def)
  obtain S b blobs offsets where S: "sections_of (v2_pb L) (cal L) pts zones meta S"
    "out s' = out s2 @ sections_bytes S @ kdbh_file b blobs offsets"
    "bush_ok b" "points b = map (v2_point_of pts) pts"
    "marshal_points v2_codec (map (v2_point_of pts) pts) 0 = Inr (blobs, offsets)"
    by (rule v2_Save_sections [OF assms(1,3,6) fit save]) blast
  have n: "length pts = length (points b)" "length pts < 2 ^ 32" using S(4) fit by (simp_all add: strings_fit_def)
  have "stream_at (MAGIC_BYTES @ put_u32 COMPATIBILITY_LEVEL_v2 @ (sections_bytes S @ kdbh_file b blobs offsets)) st"
    using assms(2,9) p(3) S(2) by (simp add: stream_at_def)
  then obtain st' where st': "stream_at (sections_bytes S @ kdbh_file b blobs offsets) st'"
    "LoadFromReader L st = map_option (drop_metadata ''error loading v2 cache'') (loadV2Cache (v2_pb L) (cal L) st')"
    by (rule LoadFromReader_v2 [OF assms(10)])
  obtain t' where t': "reads_time (cal L) (md_DateCreated meta) t'" by (rule readable_timeE [OF assms(7)])
  let ?ld = "\<lparr>vl_index = s_index S, vl_data = s_strings S, vl_numPoints = int (length pts), vl_zones = stored_zones zones,
      vl_md = meta\<lparr>md_DateCreated := t'\<rparr>\<rparr>"
  obtain st1 where L: "v2_Load (v2_pb L) (cal L) st' = Some (Inr ?ld, st1)"
    "stream_at (u64s (map word_of_int (idxs (arrays b))) @ u64s (map f64_bits (coords (arrays b)))
      @ u64s (map word_of_int offsets) @ concat blobs) st1"
    by (rule v2_Load_sections [OF assms(4,5) S(1) t' n st'(1)])
  have blk: "string_block (dm.names (v2_table pts)) = (s_index S, s_strings S)" using S(1) by (simp add: sections_of_def)
  have res: "\<forall>q \<in> set (map (v2_point_of pts) pts). \<exists>p \<in> set pts. q = v2_point_of pts p" by auto
  define g :: "v2_point_data point \<Rightarrow> cache_point" where "g q = the (resolvePointFromIndex (s_index S) (s_strings S) (pData q))" for q
  have g: "resolvePointFromIndex (s_index S) (s_strings S) (pData (v2_point_of pts p)) = Some (g (v2_point_of pts p))"
      "g (v2_point_of pts p) = \<lparr>pX = 0, pY = 0, pData = cut_info (pData p)\<rparr>" if "p \<in> set pts" for p
    using resolve_stored [OF fit that blk] by (simp_all add: g_def)
  have "length (idxs (arrays b)) = length pts" "length (coords (arrays b)) = 2 * length pts"
    using bush_okD [OF S(3)] n by (simp_all add: kd_wf_def)
  then obtain st2 where "v2_points_iter ?ld st1 = Some (map (\<lambda>p. Inr (g p)) (map (v2_point_of pts) pts), st2)"
    using v2_points_at [OF S(5), of ?ld "map word_of_int (idxs (arrays b))" "map f64_bits (coords (arrays b))" "[]" st1 g]
      L(2) n(2) res g(1) by fastforce
  then have "v2_points_iter ?ld st1 = Some (map (\<lambda>p. Inr \<lparr>pX = 0, pY = 0, pData = cut_info (pData p)\<rparr>) pts, st2)"
    using g(2) by (simp add: comp_def cong: map_cong)
  then show ?thesis
    using st'(2) L(1) collect_yields [of _ "map (\<lambda>p. \<lparr>pX = 0, pY = 0, pData = cut_info (pData p)\<rparr>) pts"]
      collect_yields [of _ "stored_zones zones"]
    by (simp add: loadV2Cache_def drop_metadata_def v2_zones_iter_def comp_def)
qed

text \<open>A v2 file that was saved, and its opening in place.\<close>

lemma v2_file_opened:
  assumes "writer_ok w out" and "out s = []" and "window_narrows M (length pts)"
    and "v2_protos_ok P" and "v2_fits P T pts zones meta" and "\<forall>kvs. mset (vis kvs) = mset kvs"
    and "reads_time T (md_DateCreated meta) t'"
    and "SaveV2 M P T vis pts zones meta w s = Some (None, s')"
    and r: "reads_file r (out s')" and small: "length (out s') < 2 ^ 63"
  obtains index data d b off post where
    "LoadMmap P T r = Some (Inr \<lparr>DiskBush = d, StringsIndex = index, StringsDataOffset = int off, Zones = stored_zones zones,
        MD = meta\<lparr>md_DateCreated := t'\<rparr>\<rparr>)"
    "string_block (dm.names (v2_table pts)) = (index, data)" "drop off (out s') = data @ post" "off \<le> length (out s')"
    "NewBush M (map (v2_point_of pts) pts) DefaultNodeSize = Some b" "bush_ok b" "points b = map (v2_point_of pts) pts"
    "disk_rep v2_codec d b"
    "take 4 (out s') = MAGIC_BYTES" "u32_of (drop 4 (out s')) = COMPATIBILITY_LEVEL_v2" "8 \<le> length (out s')"
proof -
  obtain s1 s2 where p: "write_one w MAGIC_BYTES s = (None, s1)" "write_one w (put_u32 COMPATIBILITY_LEVEL_v2) s1 = (None, s2)"
    "out s2 = out s @ MAGIC_BYTES @ put_u32 COMPATIBILITY_LEVEL_v2" by (rule prefix_written [OF assms(1)])
  have save: "v2_Save M P T vis w pts zones meta s2 = Some (None, s')"
    using assms(8) p(1,2) by (simp add: SaveV2_def)
  have fit: "strings_fit pts" using assms(5) by (simp add: v2_fits_def)
  obtain S b blobs offsets where S: "sections_of P T pts zones meta S"
    "out s' = out s2 @ sections_bytes S @ kdbh_file b blobs offsets"
    "NewBush M (map (v2_point_of pts) pts) DefaultNodeSize = Some b" "bush_ok b" "points b = map (v2_point_of pts) pts"
    "nodeSize b = DefaultNodeSize" "marshal_points v2_codec (map (v2_point_of pts) pts) 0 = Inr (blobs, offsets)"
    by (rule v2_Save_sections [OF assms(1,3,6) fit save])
  let ?pre = "MAGIC_BYTES @ put_u32 COMPATIBILITY_LEVEL_v2"
  have f: "out s' = ?pre @ sections_bytes S @ kdbh_file b blobs offsets" using S(2) p(3) assms(2) by simp
  have mp: "marshal_points v2_codec (points b) 0 = Inr (blobs, offsets)" using S(5,7) by simp
  have ns: "nodeSize b < 2 ^ 63" using S(6) by (simp add: DefaultNodeSize_def)
  obtain d where d: "OpenDisk r (int (length (?pre @ sections_bytes S))) = Inr d" "disk_rep v2_codec d b"
    using v2.kdbh_opens [OF mp S(4) ns r _ small, of "?pre @ sections_bytes S" "[]"] f by auto
  have l8: "length ?pre = 8" by simp
  note L = LoadMmap_sections [OF assms(4,5) S(1) assms(7) r f l8 small d(1)]
  define off where "off = length ?pre + 4 + length (s_header S) + length (s_metadata S) + 4 * length (s_index S)"
  have "drop off (out s') = s_strings S @ drop (off + length (s_strings S)) (out s')"
    using L(3) unfolding off_def [symmetric] by (metis append_take_drop_id drop_drop add.commute)
  moreover have "off \<le> length (out s')" using L(2) unfolding off_def [symmetric] by simp
  moreover have "string_block (dm.names (v2_table pts)) = (s_index S, s_strings S)" using S(1) by (simp add: sections_of_def)
  ultimately show thesis
    using that [OF L(1) [folded off_def]] S(3-5) d(2) f by simp
qed

text \<open>
  C12. A v2 file that was saved without an error opens in place: the metadata are those that
  were saved, with the date as it is read back from its text, the zones as after any save, both queries of the opened index answer exactly as
  the index in memory of the same records, and through the string table of the file every
  record gives the texts of its point, up to their first NUL byte.
\<close>

theorem v2_file_opens_in_place:
  assumes "writer_ok w out" and "out s = []" and "window_narrows M (length pts)"
    and "v2_protos_ok P" and "v2_fits P T pts zones meta" and "\<forall>kvs. mset (vis kvs) = mset kvs"
    and "reads_time T (md_DateCreated meta) created"
    and "SaveV2 M P T vis pts zones meta w s = Some (None, s')"
    and "reads_file r (out s')" and "length (out s') < 2 ^ 63"
  shows "\<exists>res b data. LoadMmap P T r = Some (Inr res) \<and> MD res = meta\<lparr>md_DateCreated := created\<rparr> \<and> Zones res = stored_zones zones
    \<and> NewBush M (map (v2_point_of pts) pts) DefaultNodeSize = Some b
    \<and> (\<exists>ids. Range b minX minY maxX maxY = Some ids
         \<and> disk_Range v2_codec (DiskBush res) minX minY maxX maxY = Some (Inr (map (\<lambda>i. map (v2_point_of pts) pts ! nat i) ids)))
    \<and> (\<exists>t'. Within b qx qy radius h t = Some t' \<and> disk_Within v2_codec (DiskBush res) qx qy radius h t = Some (t', None))
    \<and> take (length data) (drop (nat (StringsDataOffset res)) (out s')) = data
    \<and> (\<forall>p \<in> set pts. pX (v2_point_of pts p) = pX p \<and> pY (v2_point_of pts p) = pY p
         \<and> map_option pData (resolvePointFromIndex (StringsIndex res) data (pData (v2_point_of pts p))) = Some (cut_info (pData p)))"
proof -
  obtain index data d b off post where L:
    "LoadMmap P T r = Some (Inr \<lparr>DiskBush = d, StringsIndex = index, StringsDataOffset = int off, Zones = stored_zones zones,
       MD = meta\<lparr>md_DateCreated := created\<rparr>\<rparr>)"
    and blk: "string_block (dm.names (v2_table pts)) = (index, data)" and at: "drop off (out s') = data @ post"
    and b: "NewBush M (map (v2_point_of pts) pts) DefaultNodeSize = Some b" "bush_ok b" "points b = map (v2_point_of pts) pts"
    and d: "disk_rep v2_codec d b"
    by (rule v2_file_opened [OF assms])
  have fit: "strings_fit pts" using assms(5) by (simp add: v2_fits_def)
  obtain ids where ids: "Range b minX minY maxX maxY = Some ids"
    "disk_Range v2_codec d minX minY maxX maxY = Some (Inr (map (\<lambda>i. points b ! nat i) ids))"
    by (rule disk_Range_memory [OF d b(2), of minX minY maxX maxY])
  obtain t' where t': "Within b qx qy radius h t = Some t'" "disk_Within v2_codec d qx qy radius h t = Some (t', None)"
    by (rule disk_Within_memory [OF d b(2), of qx qy radius h t])
  have "pX (v2_point_of pts p) = pX p \<and> pY (v2_point_of pts p) = pY p
         \<and> map_option pData (resolvePointFromIndex index data (pData (v2_point_of pts p))) = Some (cut_info (pData p))" if "p \<in> set pts" for p
    using resolve_stored [OF fit that blk] by (simp add: v2_point_of_def)
  moreover have "take (length data) (drop off (out s')) = data" using at by simp
  ultimately show ?thesis using L b(1,3) ids t' by (intro exI [of _ b] exI [of _ data] exI conjI) auto
qed

text \<open>The four ways a stream may start.\<close>

lemma dispatch_level:
  assumes "stream_at (MAGIC_BYTES @ put_u32 l @ rest) st" and "whole_first_read st"
  shows "\<exists>st'. stream_at rest st'
    \<and> LoadFromReader L st
      = (if l = 1 then map_option (drop_metadata ''error loading v1 cache'') (loadV1Cache (v1_pb L) (cal L) st')
         else if l = 2 then map_option (drop_metadata ''error loading v2 cache'') (loadV2Cache (v2_pb L) (cal L) st')
         else Some (Inl (Err ''unsupported compatibility level'')))
    \<and> PrintCacheSizeAnalysis L st
      = (if l = 1 then Some (v1_PrintCacheAnalysis (v1_pb L) st')
         else if l = 2 then v2_PrintCacheAnalysis (v2_pb L) st'
         else Some ([], Some (Err ''Cache version not supported'')))"
proof -
  obtain st1 where s1: "readMagicBytes st = (Inr MAGIC_BYTES, st1)" "stream_at (put_u32 l @ rest) st1"
    by (rule readMagicBytes_at [OF assms(2,1) length_MAGIC])
  obtain st2 where s2: "readCompatabilityLevel st1 = (Inr l, st2)" "stream_at rest st2" by (rule readLevel_at [OF s1(2)])
  show ?thesis
    by (intro exI [of _ st2] conjI s2(2))
      (use s1(1) s2(1) in \<open>simp_all add: LoadFromReader_def PrintCacheSizeAnalysis_def COMPATIBILITY_LEVEL_v1_def COMPATIBILITY_LEVEL_v2_def\<close>)
qed

lemma dispatch_truncated:
  assumes "stream_at (MAGIC_BYTES @ short) st" and "whole_first_read st" and "length short < 4"
  shows "\<exists>e. LoadFromReader L st = Some (Inl (Wrap ''error reading compatibility level'' e))
    \<and> PrintCacheSizeAnalysis L st = Some ([], Some (Wrap ''error reading compatibility level'' e))"
proof -
  obtain st1 where s1: "readMagicBytes st = (Inr MAGIC_BYTES, st1)" "stream_at short st1"
    by (rule readMagicBytes_at [OF assms(2,1) length_MAGIC])
  have "length (bytes_of st1) < 4" using s1(2) assms(3) by (simp add: stream_at_def)
  then obtain e st2 where "ReadFull 4 st1 = (Inl e, st2)" by (rule ReadFull_short)
  then show ?thesis using s1(1) by (simp add: LoadFromReader_def PrintCacheSizeAnalysis_def readCompatabilityLevel_def)
qed

lemma dispatch_other:
  assumes "stream_at (bs @ rest) st" and "whole_first_read st" and "length bs = 4" and "bs \<noteq> MAGIC_BYTES"
  shows "(\<exists>st'. stream_at (bs @ rest) st' \<and> LoadFromReader L st = Some (case legacyLoader (gob L) st' of
            Inl e \<Rightarrow> Inl (Wrap ''error loading legacy cache'' e) | Inr pts \<Rightarrow> Inr (pts, [])))
    \<and> PrintCacheSizeAnalysis L st = Some ([], Some (Err ''No magic bytes detected (Analysis not supported for v0 cache)''))"
proof -
  obtain st1 where s1: "readMagicBytes st = (Inr bs, st1)" "stream_at rest st1" by (rule readMagicBytes_at [OF assms(2,1,3)])
  have "stream_at (bs @ rest) (st1\<lparr>st_chunks := bs # st_chunks st1\<rparr>)" using s1(2) by (simp add: stream_at_def bytes_of_def)
  then show ?thesis using s1(1) assms(4)
    by (intro conjI exI [of _ "st1\<lparr>st_chunks := bs # st_chunks st1\<rparr>"]) (simp_all add: LoadFromReader_def PrintCacheSizeAnalysis_def)
qed

lemma dispatch_short:
  assumes "st_chunks st = c # cs" "length c < 4"
  shows "LoadFromReader L st = Some (case legacyLoader (gob L) (st\<lparr>st_chunks := (c @ replicate (4 - length c) 0) # cs\<rparr>) of
            Inl e \<Rightarrow> Inl (Wrap ''error loading legacy cache'' e) | Inr pts \<Rightarrow> Inr (pts, []))
    \<and> PrintCacheSizeAnalysis L st = Some ([], Some (Err ''No magic bytes detected (Analysis not supported for v0 cache)''))"
proof -
  have "fill 4 c = c @ replicate (4 - length c) 0" using assms(2) by (simp add: fill_def take_Cons' min_def)
  moreover have "last (c @ replicate (4 - length c) 0) = (0::byte)" using assms(2) by simp
  moreover have "last MAGIC_BYTES \<noteq> 0" by (simp add: MAGIC_BYTES_def)
  ultimately have "fill 4 c \<noteq> MAGIC_BYTES" "fill 4 c = c @ replicate (4 - length c) 0" by metis+
  then show ?thesis using assms by (simp add: LoadFromReader_def PrintCacheSizeAnalysis_def readMagicBytes_def Read_def)
qed

text \<open>
  C25. The choice of the loader and of the analysis. After the magic bytes, level 1 is loaded and analysed as v1, level 2 as v2, from
  the bytes behind the level, and any other level and a truncated level are errors of both. Other four bytes at
  the start are a legacy cache for the loader, which decodes the whole input, and an error for the analysis. When the first read
  gives fewer than four bytes, which an \<open>io.Reader\<close> may do on any input, the input is always
  taken for the legacy format, and the decoder gets the bytes padded with zeros.
\<close>

theorem cache_dispatch:
  "(stream_at (MAGIC_BYTES @ put_u32 l @ rest) st \<and> whole_first_read st
      \<longrightarrow> (\<exists>st'. stream_at rest st'
        \<and> LoadFromReader L st
          = (if l = 1 then map_option (drop_metadata ''error loading v1 cache'') (loadV1Cache (v1_pb L) (cal L) st')
             else if l = 2 then map_option (drop_metadata ''error loading v2 cache'') (loadV2Cache (v2_pb L) (cal L) st')
             else Some (Inl (Err ''unsupported compatibility level'')))
        \<and> PrintCacheSizeAnalysis L st
          = (if l = 1 then Some (v1_PrintCacheAnalysis (v1_pb L) st')
             else if l = 2 then v2_PrintCacheAnalysis (v2_pb L) st'
             else Some ([], Some (Err ''Cache version not supported'')))))
   \<and> (stream_at (MAGIC_BYTES @ short) st \<and> whole_first_read st \<and> length short < 4
      \<longrightarrow> (\<exists>e. LoadFromReader L st = Some (Inl (Wrap ''error reading compatibility level'' e))
        \<and> PrintCacheSizeAnalysis L st = Some ([], Some (Wrap ''error reading compatibility level'' e))))
   \<and> (stream_at (bs @ rest) st \<and> whole_first_read st \<and> length bs = 4 \<and> bs \<noteq> MAGIC_BYTES
      \<longrightarrow> (\<exists>st'. stream_at (bs @ rest) st' \<and> LoadFromReader L st = Some (case legacyLoader (gob L) st' of
            Inl e \<Rightarrow> Inl (Wrap ''error loading legacy cache'' e) | Inr pts \<Rightarrow> Inr (pts, [])))
        \<and> PrintCacheSizeAnalysis L st = Some ([], Some (Err ''No magic bytes detected (Analysis not supported for v0 cache)'')))
   \<and> (st_chunks st = c # cs \<and> length c < 4
      \<longrightarrow> LoadFromReader L st = Some (case legacyLoader (gob L) (st\<lparr>st_chunks := (c @ replicate (4 - length c) 0) # cs\<rparr>) of
            Inl e \<Rightarrow> Inl (Wrap ''error loading legacy cache'' e) | Inr pts \<Rightarrow> Inr (pts, []))
        \<and> PrintCacheSizeAnalysis L st = Some ([], Some (Err ''No magic bytes detected (Analysis not supported for v0 cache)'')))"
  by (intro conjI; rule impI; elim conjE)
    (rule dispatch_level dispatch_truncated dispatch_other dispatch_short; assumption)+

lemma skim_offsets_at:
  assumes "stream_at (u64s ws @ rest) st"
  shows "\<exists>st'. skim_offsets (length ws) tot st = (Inr (if ws = [] then tot else sint (last ws)), st')"
  using assms
proof (induction ws arbitrary: st tot)
  case (Cons w ws)
  then have "stream_at (put_u64 w @ (u64s ws @ rest)) st" by simp
  then obtain st1 where st1: "ReadFull 8 st = (Inr (put_u64 w), st1)" "stream_at (u64s ws @ rest) st1"
    by (rule ReadFull_at) simp_all
  then show ?case using Cons.IH [OF st1(2), of "sint w"] by auto
qed simp

lemma count_words:
  assumes "n < (2 :: nat) ^ 32"
  shows "unat (of_nat n + 1 :: u64) = n + 1" "uint (of_nat n + 1 :: u64) = int n + 1"
    "sint (of_nat n * 8 + of_nat n * 16 :: u64) = 24 * int n" "(of_nat n + 1 :: u64) \<noteq> 0"
proof -
  have s: "n + 1 < 2 ^ 64" using assms by simp
  have e: "(of_nat n + 1 :: u64) = of_nat (n + 1)" by simp
  show u: "unat (of_nat n + 1 :: u64) = n + 1" unfolding e unat_of_nat using s by (simp add: take_bit_eq_mod)
  then show "uint (of_nat n + 1 :: u64) = int n + 1" unfolding uint_unat_eq by simp
  have "sint (word_of_int (24 * int n) :: u64) = 24 * int n" unfolding sint_u64 using assms by simp
  moreover have "(of_nat n * 8 + of_nat n * 16 :: u64) = word_of_int (24 * int n)" by simp
  ultimately show "sint (of_nat n * 8 + of_nat n * 16 :: u64) = 24 * int n" by simp
  show "(of_nat n + 1 :: u64) \<noteq> 0" using u by (metis add_is_0 unat_0 zero_neq_one)
qed

text \<open>The analysis reads the header, skips the sections and the tree, and adds up the offsets.\<close>

lemma v2_analysis_reads:
  assumes "stream_at (put_u32 (of_nat (length hb)) @ hb @ pre @ disk_header ns n @ tree @ (u64s (map word_of_int offsets) @ blobs)) st"
    and "Unmarshal (header_pb P) hb = Inr h" and "unat (of_nat (length hb) :: u32) = length hb"
    and "uint (h_MetadataSize h) + uint (h_StringsIndexSize h) + uint (h_StringsDataSize h) + uint (h_ZonesSize h) = int (length pre)"
    and "length tree = 24 * n" and "n < 2 ^ 32" and "length offsets = n + 1" and "last offsets = int (length blobs)"
  shows "v2_PrintCacheAnalysis P st = Some (v2_printFromHeader h
    @ v2_printKDBH h (ucast (4 + of_nat (length hb) :: u32)) (u64_of (drop 8 (disk_header ns n))) (of_nat n) (word_of_int (int (length blobs))), None)"
proof -
  have nil: "offsets \<noteq> []" using assms(7) by auto
  obtain st3 where r3: "ReadFull 4 st = (Inr (put_u32 (of_nat (length hb))), st3)"
    and a3: "stream_at (hb @ pre @ disk_header ns n @ tree @ (u64s (map word_of_int offsets) @ blobs)) st3"
    using ReadFull_at [OF assms(1)] by (metis length_put(1))
  obtain st4 where r4: "ReadFull (length hb) st3 = (Inr hb, st4)"
    and a4: "stream_at (pre @ disk_header ns n @ tree @ (u64s (map word_of_int offsets) @ blobs)) st4"
    using ReadFull_at [OF a3 refl] by metis
  obtain st5 where r5: "CopyN_discard (int (length pre)) st4 = (None, st5)"
    and a5: "stream_at (disk_header ns n @ tree @ (u64s (map word_of_int offsets) @ blobs)) st5"
    using CopyN_at [OF a4 refl] by metis
  obtain st6 where r6: "ReadFull 32 st5 = (Inr (disk_header ns n), st6)"
    and a6: "stream_at (tree @ (u64s (map word_of_int offsets) @ blobs)) st6"
    using ReadFull_at [OF a5] by (metis length_disk_header)
  obtain st7 where r7: "CopyN_discard (int (length tree)) st6 = (None, st7)" and a7: "stream_at (u64s (map word_of_int offsets) @ blobs) st7"
    using CopyN_at [OF a6 refl] by metis
  obtain st8 where r8: "skim_offsets (n + 1) 0 st7 = (Inr (sint (word_of_int (int (length blobs)) :: u64)), st8)"
    using skim_offsets_at [OF a7, of 0] nil assms(7,8) by (auto simp: last_map)
  have u0: "u32_of (put_u32 (of_nat (length hb))) = of_nat (length hb)" using u32_of_put [of _ "[]"] by simp
  have hd: "take 4 (disk_header ns n) = [0x4B, 0x44, 0x42, 0x48]" "u64_of (drop 16 (disk_header ns n)) = of_nat n"
    by (simp_all add: disk_header_def diskMagic_def)
  note un = count_words [OF assms(6)]
  have tree: "sint (of_nat n * 8 + of_nat n * 16 :: u64) = int (length tree)" using un(3) assms(5) by simp
  have "make_ok (int n + 1) 8" using assms(6) by (simp add: make_ok_def)
  then show ?thesis
    unfolding v2_PrintCacheAnalysis_def r3 prod.case sum.case u0 assms(3) r4 assms(2) Let_def assms(4) r5 option.case r6 hd tree r7 un(2) un(1) r8
    using un(4) by simp
qed

lemma v2_analysis_sizes:
  assumes "unat (h_MetadataSize h) = m" "unat (h_StringsIndexSize h) = i" "unat (h_StringsDataSize h) = d" "unat (h_ZonesSize h) = z"
    and "k < (2 :: nat) ^ 31"
    and "lines = v2_printFromHeader h @ v2_printKDBH h (ucast (4 + of_nat k :: u32)) node_size (of_nat n) (word_of_int (int b))"
  shows "map_of lines ''Points count'' = Some (of_nat n)"
    and "map_of lines ''Total uncompressed size'' = Some (of_nat (4 + k + m + i + d + z + (32 + 8 * n + 16 * n + 8 * (n + 1) + b)))"
proof -
  show "map_of lines ''Points count'' = Some (of_nat n)"
    by (simp add: assms(6) v2_printFromHeader_def v2_printKDBH_def Let_def)
  have uc: "(ucast w :: u64) = of_nat (unat w)" for w :: u32 by simp
  have "(4 + of_nat k :: u32) = of_nat (4 + k)" by simp
  then have "unat (4 + of_nat k :: u32) = 4 + k"
    using assms(5) by (simp add: unat_of_nat take_bit_eq_mod del: of_nat_add)
  then show "map_of lines ''Total uncompressed size'' = Some (of_nat (4 + k + m + i + d + z + (32 + 8 * n + 16 * n + 8 * (n + 1) + b)))"
    by (simp add: assms(6) v2_printFromHeader_def v2_printKDBH_def Let_def uc assms(1-4) algebra_simps)
qed

text \<open>
  C26. The analysis of a v2 cache that was saved without an error prints the number of points
  and, as the total, the size of the file less the eight bytes of magic and level.
\<close>

theorem v2_analysis_total:
  assumes "writer_ok w out" and "out s = []" and "window_narrows M (length pts)"
    and "v2_protos_ok (v2_pb L)" and "v2_fits (v2_pb L) (cal L) pts zones meta" and "\<forall>kvs. mset (vis kvs) = mset kvs"
    and "SaveV2 M (v2_pb L) (cal L) vis pts zones meta w s = Some (None, s')"
    and "bytes_of st = out s'" and "whole_first_read st"
  shows "\<exists>lines. PrintCacheSizeAnalysis L st = Some (lines, None)
    \<and> map_of lines ''Points count'' = Some (of_nat (length pts))
    \<and> map_of lines ''Total uncompressed size'' = Some (of_nat (length (out s') - 8))"
proof -
  let ?P = "v2_pb L" and ?n = "length pts"
  obtain s1 s2 where p: "write_one w MAGIC_BYTES s = (None, s1)" "write_one w (put_u32 COMPATIBILITY_LEVEL_v2) s1 = (None, s2)"
    "out s2 = out s @ MAGIC_BYTES @ put_u32 COMPATIBILITY_LEVEL_v2" by (rule prefix_written [OF assms(1)])
  have save: "v2_Save M ?P (cal L) vis w pts zones meta s2 = Some (None, s')"
    using assms(7) p(1,2) by (simp add: SaveV2_def)
  have fit: "strings_fit pts" using assms(5) by (simp add: v2_fits_def)
  obtain S b blobs offsets where S: "sections_of ?P (cal L) pts zones meta S"
    "out s' = out s2 @ sections_bytes S @ kdbh_file b blobs offsets" "bush_ok b" "points b = map (v2_point_of pts) pts"
    "marshal_points v2_codec (map (v2_point_of pts) pts) 0 = Inr (blobs, offsets)"
    by (rule v2_Save_sections [OF assms(1,3,6) fit save]) blast
  let ?hb = "s_header S" and ?h = "v2_header_of (s_metadata S) (s_index S) (s_strings S) (s_zones S)"
  note sz = sections_sizes [OF assms(5) S(1)]
  have small: "length ?hb < 2 ^ 31" "?n < 2 ^ 32"
    using assms(5) S(1) fit by (auto simp: v2_fits_def sections_of_def strings_fit_def)
  note off = marshal_points_nth [OF S(5)]
  have lens: "length offsets = ?n + 1" "offsets \<noteq> []" using off(2) by auto
  have lst: "last offsets = int (length (concat blobs))" using off(1,2) off(4) [of "length pts"] lens by (simp add: last_conv_nth)
  let ?pre = "s_metadata S @ concat (map put_u32 (s_index S)) @ s_strings S @ s_zones S"
  let ?tree = "u64s (map word_of_int (idxs (arrays b))) @ u64s (map f64_bits (coords (arrays b)))"
  have tree: "length ?tree = 24 * ?n" using bush_okD [OF S(3)] S(4) by (simp add: kd_wf_def)
  have bytes: "bytes_of st = MAGIC_BYTES @ put_u32 COMPATIBILITY_LEVEL_v2 @ put_u32 (of_nat (length ?hb)) @ ?hb @ ?pre
      @ disk_header (nodeSize b) ?n @ ?tree @ (u64s (map word_of_int offsets) @ concat blobs)"
    using assms(2,8) p(3) S(2,4) by (simp add: sections_bytes_def kdbh_file_def)
  then have a0: "stream_at (MAGIC_BYTES @ put_u32 COMPATIBILITY_LEVEL_v2 @ put_u32 (of_nat (length ?hb)) @ ?hb @ ?pre
      @ disk_header (nodeSize b) ?n @ ?tree @ (u64s (map word_of_int offsets) @ concat blobs)) st" by (simp only: stream_at_def)
  obtain st1 where r1: "readMagicBytes st = (Inr MAGIC_BYTES, st1)" and a1: "stream_at (put_u32 COMPATIBILITY_LEVEL_v2
      @ put_u32 (of_nat (length ?hb)) @ ?hb @ ?pre @ disk_header (nodeSize b) ?n @ ?tree @ (u64s (map word_of_int offsets) @ concat blobs)) st1"
    by (rule readMagicBytes_at [OF assms(9) a0 length_MAGIC])
  obtain st2 where r2: "readCompatabilityLevel st1 = (Inr COMPATIBILITY_LEVEL_v2, st2)" and a2: "stream_at (
      put_u32 (of_nat (length ?hb)) @ ?hb @ ?pre @ disk_header (nodeSize b) ?n @ ?tree @ (u64s (map word_of_int offsets) @ concat blobs)) st2"
    by (rule readLevel_at [OF a1])
  have um: "Unmarshal (header_pb ?P) ?hb = Inr ?h"
    using proto_okD [of "header_pb ?P"] assms(4) S(1) by (simp add: v2_protos_ok_def sections_of_def)
  have pre: "uint (h_MetadataSize ?h) + uint (h_StringsIndexSize ?h) + uint (h_StringsDataSize ?h) + uint (h_ZonesSize ?h) = int (length ?pre)"
    unfolding uint_unat_eq sz by simp
  let ?lines = "v2_printFromHeader ?h @ v2_printKDBH ?h (ucast (4 + of_nat (length ?hb) :: u32)) (u64_of (drop 8 (disk_header (nodeSize b) ?n)))
    (of_nat ?n) (word_of_int (int (length (concat blobs))))"
  have "PrintCacheSizeAnalysis L st = Some (?lines, None)"
    using v2_analysis_reads [OF a2 um sz(5) pre tree small(2) lens(1) lst]
    by (simp only: PrintCacheSizeAnalysis_def r1 r2 prod.case sum.case levels_differ simp_thms if_False if_True)
  moreover have "length (out s') - 8 = 4 + length ?hb + length (s_metadata S) + 4 * length (s_index S) + length (s_strings S)
        + length (s_zones S) + (32 + 8 * ?n + 16 * ?n + 8 * (?n + 1) + length (concat blobs))"
    using bytes assms(8) tree lens(1) by simp
  ultimately show ?thesis using v2_analysis_sizes [OF sz(1-4) small(1) refl] by metis
qed

subsection \<open>A small cache\<close>

text \<open>A calendar that keeps every third time.\<close>

definition sample_calendar :: "nat calendar" where
  "sample_calendar = \<lparr>FormatRFC3339 = \<lambda>t. replicate (t - t mod 3) 48, ParseRFC3339 = \<lambda>s. Inr (length s)\<rparr>"

definition sample_meta :: "nat metadata" where
  "sample_meta = \<lparr>md_Version = 1, md_Locale = [101, 110], md_DateCreated = 3\<rparr>"

definition sample_pts :: "cache_point list" where
  "sample_pts = [\<lparr>pX = f64_of_int 30, pY = f64_of_int 50, pData = \<lparr>ci_Name = [65], ci_Street = [66],
     ci_HouseNumber = [49], ci_City = [67], ci_Region = [], ci_Weight = 3\<rparr>\<rparr>]"

definition sample_zones :: "zone list" where
  "sample_zones = [\<lparr>z_Type = ZoneRegion, z_Name = [82], z_Bounds = zero_bound, z_Polygon = []\<rparr>]"

definition sample_pb_point :: pb_point where
  "sample_pb_point = \<lparr>pp_Latitude = f64_of_int 30, pp_Longitude = f64_of_int 50, pp_Name = [65], pp_Street = 1,
     pp_HouseNumber = [49], pp_City = 1, pp_Region = 0, pp_Weight = 3\<rparr>"

definition sample_pb_zone :: pb_zone where
  "sample_pb_zone = \<lparr>pz_Name = 1, pz_Bounds = Some (mapBoundsFromOrb zero_bound), pz_MultiPolygon = Some []\<rparr>"

definition sample_v1_protos :: v1_protos where
  "sample_v1_protos =
     \<lparr>header1_pb = table_proto [\<lparr>ch_MetadataSize = 1, ch_StringsCacheSize = 1, ch_PointsBlobSizes = [1], ch_ZonesBlobSizes = [1]\<rparr>],
      metadata1_pb = table_proto [metadata_message sample_calendar sample_meta],
      strings_pb = table_proto [\<lparr>sc_Streets = [[], [66]], sc_Cities = [[], [67]], sc_Regions = [[], [82]]\<rparr>],
      points_pb = table_proto [[sample_pb_point]],
      zones1_pb = table_proto [\<lparr>zb_Type = ZONE_TYPE_REGION, zb_Zones = [sample_pb_zone]\<rparr>]\<rparr>"

lemma table_proto_length: "Marshal (table_proto ms) m = Inr bs \<Longrightarrow> length bs = 1"
  by (auto simp: table_proto_def Let_def split: if_splits)

lemma table_proto_small: "proto_small (table_proto ms)"
  by (simp add: proto_small_def table_proto_length)

lemma table_proto_single [simp]: "Marshal (table_proto [m]) m = Inr [0]"
  by (simp add: table_proto_def)

lemma sample_v1_ok: "v1_protos_ok sample_v1_protos" "v1_small sample_v1_protos"
  by (simp_all add: v1_protos_ok_def v1_small_def sample_v1_protos_def table_proto_ok table_proto_small)

lemma sample_calendar_ok: "reads_time sample_calendar (md_DateCreated sample_meta) (md_DateCreated sample_meta)"
  by (simp add: reads_time_def sample_calendar_def sample_meta_def)

lemma sample_calendar_readable: "readable_time sample_calendar t" "\<not> reads_time sample_calendar 4 4"
  by (simp_all add: readable_time_def reads_time_def sample_calendar_def)

definition sample_v1_cache :: v1_cache where
  "sample_v1_cache = \<lparr>c_Version = 1, c_DateCreated = replicate 3 48, c_Locale = [101, 110], c_StreetsNames = [[], [66]],
     c_CitiesNames = [[], [67]], c_ZonesNames = [[], [82]], c_Points = [sample_pb_point], c_Regions = [sample_pb_zone], c_Countries = []\<rparr>"

lemma replicate_2: "replicate 2 x = [x, x]"
  by (simp add: numeral_2_eq_2)

lemma sample_cacheFromPoints:
  "cacheFromPoints sample_calendar (\<lambda>kvs. kvs) sample_pts sample_zones sample_meta = Some sample_v1_cache"
  by (simp add: cacheFromPoints_def sample_pts_def sample_zones_def sample_meta_def sample_calendar_def sample_v1_cache_def
      add_point_def add_zone_def um_Add_def newUniqueMap_def um_Slice_def put_def Let_def i64_def
      sample_pb_point_def sample_pb_zone_def mapMultiPolygonFromOrb_def replicate_2)

lemma sample_SaveV1:
  "SaveV1 sample_v1_protos sample_calendar (\<lambda>kvs. kvs) sample_pts sample_zones sample_meta buffer_write []
    = Some (None, MAGIC_BYTES @ put_u32 1 @ put_u32 1 @ [0, 0, 0, 0, 0])"
proof -
  have md: "\<lparr>cm_Version = 1, cm_DateCreated = replicate 3 48, cm_Locale = [101, 110]\<rparr> = metadata_message sample_calendar sample_meta"
    by (simp add: metadata_message_def sample_calendar_def sample_meta_def)
  show ?thesis
    by (simp add: SaveV1_def write_one_def buffer_write_def v1_Save_def sample_cacheFromPoints sample_v1_cache_def md
        sample_v1_protos_def chunks_of.simps blobChunkSize_def zone_blobs_def cache_header_of_def COMPATIBILITY_LEVEL_v1_def)
qed

definition sample_gob :: gob_decoder where
  "sample_gob st = Inl EOF"

definition sample_v2_protos :: v2_protos where
  "sample_v2_protos =
     \<lparr>header_pb = table_proto [\<lparr>h_MetadataSize = 1, h_StringsIndexSize = 20, h_StringsDataSize = 9, h_ZonesSize = 1\<rparr>],
      metadata_pb = table_proto [metadata_message sample_calendar sample_meta],
      zones_pb = table_proto [buildZonesSection sample_zones]\<rparr>"

definition sample_loaders :: "nat loaders" where
  "sample_loaders = \<lparr>v1_pb = sample_v1_protos, v2_pb = sample_v2_protos, cal = sample_calendar, gob = sample_gob\<rparr>"

definition stream_of :: "byte list \<Rightarrow> stream" where
  "stream_of bs = \<lparr>st_chunks = [take 7 bs, drop 7 bs], st_end = EOF\<rparr>"

lemma bytes_stream_of [simp]: "bytes_of (stream_of bs) = bs"
  by (simp add: bytes_of_def stream_of_def)

lemma whole_stream_of: "7 \<le> length bs \<Longrightarrow> whole_first_read (stream_of bs)"
  by (simp add: whole_first_read_def stream_of_def)

lemma v1_cache_roundtrip_witness:
  "\<exists>fl. SaveV1 sample_v1_protos sample_calendar (\<lambda>kvs. kvs) sample_pts sample_zones sample_meta buffer_write [] = Some (None, fl)
    \<and> LoadFromReader sample_loaders (stream_of fl) = Some (Inr (sample_pts, stored_zones sample_zones))"
proof -
  let ?fl = "MAGIC_BYTES @ put_u32 1 @ put_u32 1 @ [0, 0, 0, 0, 0]"
  have "LoadFromReader sample_loaders (stream_of ?fl) = Some (Inr (sample_pts, stored_zones sample_zones))"
    by (rule v1_cache_roundtrip [OF buffer_write_ok, where s = "[]" and s' = ?fl and vis = "\<lambda>kvs. kvs" and meta = sample_meta])
      (use sample_v1_ok sample_calendar_readable(1) sample_SaveV1 whole_stream_of [of ?fl] in
        \<open>simp_all add: sample_loaders_def, simp_all add: sample_pts_def sample_zones_def\<close>)
  then show ?thesis using sample_SaveV1 by blast
qed

lemma sample_v2_table: "v2_table sample_pts
   = \<lparr>dm_m = [([67], 4), ([49], 3), ([66], 2), ([65], 1), ([], 0)], nextID = 5\<rparr>"
  by (simp add: v2_table_def sample_pts_def register_def info_strings_def dm_Add_def newStringsDedup_def newDedupMap_def)

lemma sample_v2_ok: "v2_protos_ok sample_v2_protos"
  by (simp add: v2_protos_ok_def sample_v2_protos_def table_proto_ok)

lemma sample_v2_fits: "v2_fits sample_v2_protos sample_calendar sample_pts sample_zones sample_meta"
proof -
  have "length sample_pts = 1" by (simp add: sample_pts_def)
  then show ?thesis
    by (simp add: v2_fits_def strings_fit_def sample_v2_table sample_v2_protos_def table_proto_length)
qed

lemma sample_SaveV2:
  "\<exists>fl. SaveV2 sample_lib sample_v2_protos sample_calendar (\<lambda>kvs. kvs) sample_pts sample_zones sample_meta buffer_write [] = Some (None, fl)
    \<and> 7 \<le> length fl \<and> length fl < 2 ^ 63"
proof -
  have w: "writer_ok buffer_write (\<lambda>s. s)" by (rule buffer_write_ok)
  have t: "fold register sample_pts newStringsDedup = v2_table sample_pts" by (simp add: v2_table_def)
  have ids: "fill_points sample_pts (v2_table sample_pts) = map (v2_point_of sample_pts) sample_pts"
    by (rule fill_points_table) (use sample_v2_fits in \<open>simp add: v2_fits_def\<close>)
  have blk: "buildStringIndex (dm_m (v2_table sample_pts)) (v2_table sample_pts) = Some ([0, 1, 3, 5, 7], [0, 65, 0, 66, 0, 49, 0, 67, 0])"
    using table_index [of sample_pts "dm_m (v2_table sample_pts)"] sample_v2_fits
    by (simp add: v2_fits_def sample_v2_table dm.names_def string_block_def nul_offset_def upt_rec)
  obtain s1 where s1: "write_seq buffer_write [put_u32 1, [0], [0], concat (map put_u32 [0, 1, 3, 5, 7]), [0, 65, 0, 66, 0, 49, 0, 67, 0], [0]] (MAGIC_BYTES @ put_u32 2)
      = (None, s1)" "s1 = (MAGIC_BYTES @ put_u32 2) @ concat [put_u32 1, [0], [0], concat (map put_u32 [0, 1, 3, 5, 7]), [0, 65, 0, 66, 0, 49, 0, 67, 0], [0]]"
    by (rule write_seq_ok [OF w])
  have win: "window_narrows sample_lib (length (map (v2_point_of sample_pts) sample_pts))"
    by (simp add: small_window_narrows sample_pts_def)
  obtain block s2 where s2: "BuildDisk sample_lib v2_codec (map (v2_point_of sample_pts) sample_pts) DefaultNodeSize buffer_write s1
      = Some ((int (length block), None), s2)" "s2 = s1 @ block" "length block < 2 ^ 62"
  proof -
    obtain b where b: "NewBush sample_lib (map (v2_point_of sample_pts) sample_pts) DefaultNodeSize = Some b" "bush_ok b"
      "points b = map (v2_point_of sample_pts) sample_pts"
      using NewBush_ok [OF win, of DefaultNodeSize] by metis
    obtain blobs offsets where mp: "marshal_points v2_codec (map (v2_point_of sample_pts) sample_pts) 0 = Inr (blobs, offsets)"
      using marshal_points_total [of _ v2_codec 0] v2_marshals by blast
    obtain s2 where s2: "BuildDisk sample_lib v2_codec (map (v2_point_of sample_pts) sample_pts) DefaultNodeSize buffer_write s1
      = Some ((int (length (kdbh_file b blobs offsets)), None), s2)" "s2 = s1 @ kdbh_file b blobs offsets"
      using BuildDisk_writes [OF w b(1) mp] by metis
    have "length (kdbh_file b blobs offsets) < 2 ^ 62"
      using bush_okD [OF b(2)] b(3) mp
      by (auto simp: kdbh_file_def kd_wf_def sample_pts_def v2_codec_def V2_MarshalBinary_def)
    then show thesis using that s2 by blast
  qed
  have "SaveV2 sample_lib sample_v2_protos sample_calendar (\<lambda>kvs. kvs) sample_pts sample_zones sample_meta buffer_write [] = Some (None, s2)"
    using s1(1) s2(1)
    by (simp add: SaveV2_def write_one_def buffer_write_def v2_Save_def t ids blk sample_v2_protos_def v2_header_of_def COMPATIBILITY_LEVEL_v2_def Let_def
        del: write_seq.simps)
  moreover have "7 \<le> length s2 \<and> length s2 < 2 ^ 63" using s1(2) s2(2,3) by simp
  ultimately show ?thesis by blast
qed

lemma v2_stream_loses_coordinates_witness:
  "\<exists>fl. SaveV2 sample_lib sample_v2_protos sample_calendar (\<lambda>kvs. kvs) sample_pts sample_zones sample_meta buffer_write [] = Some (None, fl)
    \<and> LoadFromReader sample_loaders (stream_of fl)
      = Some (Inr (map (\<lambda>p. \<lparr>pX = 0, pY = 0, pData = cut_info (pData p)\<rparr>) sample_pts, stored_zones sample_zones))"
proof -
  obtain fl where f: "SaveV2 sample_lib sample_v2_protos sample_calendar (\<lambda>kvs. kvs) sample_pts sample_zones sample_meta buffer_write [] = Some (None, fl)"
    "7 \<le> length fl" using sample_SaveV2 by blast
  have "LoadFromReader sample_loaders (stream_of fl)
      = Some (Inr (map (\<lambda>p. \<lparr>pX = 0, pY = 0, pData = cut_info (pData p)\<rparr>) sample_pts, stored_zones sample_zones))"
    by (rule v2_stream_loses_coordinates [OF buffer_write_ok, where s = "[]" and s' = fl and vis = "\<lambda>kvs. kvs" and meta = sample_meta and M = sample_lib])
      (use f sample_v2_ok sample_v2_fits sample_calendar_readable(1) whole_stream_of [of fl] small_window_narrows in
        \<open>simp_all add: sample_loaders_def, simp_all add: sample_pts_def\<close>)
  then show ?thesis using f(1) by blast
qed

lemma v2_file_opens_in_place_witness:
  "\<exists>fl res. SaveV2 sample_lib sample_v2_protos sample_calendar (\<lambda>kvs. kvs) sample_pts sample_zones sample_meta buffer_write [] = Some (None, fl)
    \<and> LoadMmap sample_v2_protos sample_calendar (file_reader fl) = Some (Inr res) \<and> MD res = sample_meta \<and> Zones res = stored_zones sample_zones"
proof -
  obtain fl where f: "SaveV2 sample_lib sample_v2_protos sample_calendar (\<lambda>kvs. kvs) sample_pts sample_zones sample_meta buffer_write [] = Some (None, fl)"
    "length fl < 2 ^ 63" using sample_SaveV2 by blast
  have "window_narrows sample_lib (length sample_pts)" by (simp add: small_window_narrows sample_pts_def)
  moreover have "\<forall>kvs :: (gostring \<times> u32) list. mset kvs = mset kvs" by simp
  ultimately obtain res where "LoadMmap sample_v2_protos sample_calendar (file_reader fl) = Some (Inr res)" "MD res = sample_meta\<lparr>md_DateCreated := md_DateCreated sample_meta\<rparr>"
    "Zones res = stored_zones sample_zones"
    using v2_file_opens_in_place [where vis = "\<lambda>kvs. kvs" and minX = 0 and minY = 0 and maxX = 0 and maxY = 0 and qx = 0 and qy = 0
        and radius = 0 and t = 0 and h = "\<lambda>p n. (Suc n, True)", OF buffer_write_ok refl _ sample_v2_ok sample_v2_fits _ sample_calendar_ok f(1) file_reader_ok f(2)]
    by blast
  then show ?thesis using f(1) by simp
qed

lemma v2_analysis_total_witness:
  "\<exists>fl lines. SaveV2 sample_lib sample_v2_protos sample_calendar (\<lambda>kvs. kvs) sample_pts sample_zones sample_meta buffer_write [] = Some (None, fl)
    \<and> PrintCacheSizeAnalysis sample_loaders (stream_of fl) = Some (lines, None)
    \<and> map_of lines ''Total uncompressed size'' = Some (of_nat (length fl - 8))"
proof -
  obtain fl where f: "SaveV2 sample_lib sample_v2_protos sample_calendar (\<lambda>kvs. kvs) sample_pts sample_zones sample_meta buffer_write [] = Some (None, fl)"
    "7 \<le> length fl" using sample_SaveV2 by blast
  have p: "v2_pb sample_loaders = sample_v2_protos" "cal sample_loaders = sample_calendar" by (simp_all add: sample_loaders_def)
  have "window_narrows sample_lib (length sample_pts)" by (simp add: small_window_narrows sample_pts_def)
  from v2_analysis_total [where L = sample_loaders and vis = "\<lambda>kvs. kvs", OF buffer_write_ok refl this, unfolded p,
      OF sample_v2_ok sample_v2_fits _ f(1) bytes_stream_of whole_stream_of [OF f(2)]]
  show ?thesis using f(1) by auto
qed

lemma cache_dispatch_witness:
  "LoadFromReader sample_loaders (stream_of (MAGIC_BYTES @ put_u32 3)) = Some (Inl (Err ''unsupported compatibility level''))
   \<and> (\<exists>st'. stream_at [9] st' \<and> PrintCacheSizeAnalysis sample_loaders (stream_of (MAGIC_BYTES @ put_u32 2 @ [9])) = v2_PrintCacheAnalysis (v2_pb sample_loaders) st')
   \<and> (\<exists>e. LoadFromReader sample_loaders (stream_of (MAGIC_BYTES @ [1, 0, 0])) = Some (Inl (Wrap ''error reading compatibility level'' e)))
   \<and> LoadFromReader sample_loaders \<lparr>st_chunks = [[0x52], [0x47, 0x45, 0x4F]], st_end = EOF\<rparr>
      = Some (Inl (Wrap ''error loading legacy cache'' (Wrap ''error decoding points'' EOF)))"
proof -
  have st: "whole_first_read (stream_of (MAGIC_BYTES @ put_u32 3))" "whole_first_read (stream_of (MAGIC_BYTES @ [1, 0, 0]))"
    "whole_first_read (stream_of (MAGIC_BYTES @ put_u32 2 @ [9]))"
    "stream_at (MAGIC_BYTES @ put_u32 3 @ []) (stream_of (MAGIC_BYTES @ put_u32 3))" "stream_at (MAGIC_BYTES @ [1, 0, 0]) (stream_of (MAGIC_BYTES @ [1, 0, 0]))"
    "stream_at (MAGIC_BYTES @ put_u32 2 @ [9]) (stream_of (MAGIC_BYTES @ put_u32 2 @ [9]))"
    by (simp_all add: whole_stream_of stream_at_def)
  have "LoadFromReader sample_loaders (stream_of (MAGIC_BYTES @ put_u32 3)) = Some (Inl (Err ''unsupported compatibility level''))"
    using conjunct1 [OF cache_dispatch [of 3 "[]" "stream_of (MAGIC_BYTES @ put_u32 3)" sample_loaders]] st(1,4) by auto
  moreover have "\<exists>st'. stream_at [9] st' \<and> PrintCacheSizeAnalysis sample_loaders (stream_of (MAGIC_BYTES @ put_u32 2 @ [9])) = v2_PrintCacheAnalysis (v2_pb sample_loaders) st'"
    using conjunct1 [OF cache_dispatch [of 2 "[9]" "stream_of (MAGIC_BYTES @ put_u32 2 @ [9])" sample_loaders]] st(3,6) by auto
  moreover have "\<exists>e. LoadFromReader sample_loaders (stream_of (MAGIC_BYTES @ [1, 0, 0])) = Some (Inl (Wrap ''error reading compatibility level'' e))"
    using conjunct1 [OF conjunct2 [OF cache_dispatch [of _ _ "stream_of (MAGIC_BYTES @ [1, 0, 0])" sample_loaders "[1, 0, 0]"]]] st(2,5) by auto
  moreover have "LoadFromReader sample_loaders \<lparr>st_chunks = [[0x52], [0x47, 0x45, 0x4F]], st_end = EOF\<rparr>
      = Some (Inl (Wrap ''error loading legacy cache'' (Wrap ''error decoding points'' EOF)))"
    using cache_dispatch [of _ _ "\<lparr>st_chunks = [[0x52], [0x47, 0x45, 0x4F]], st_end = EOF\<rparr>" sample_loaders _ _ "[0x52]" "[[0x47, 0x45, 0x4F]]"]
    by (simp add: legacyLoader_def sample_loaders_def sample_gob_def)
  ultimately show ?thesis by blast
qed

end
