(* ===== verification/Geocoder.thy ===== *)
theory Geocoder
  imports CacheSaver
begin

section \<open>The geocoders\<close>

text \<open>
  \<^verbatim>\<open>geocoder\<close>: the geocoder in memory (\<^verbatim>\<open>locator.go\<close>, \<^verbatim>\<open>loading.go\<close>), the one on a memory-mapped v2
  file (\<^verbatim>\<open>locator_disk.go\<close>, \<^verbatim>\<open>loading_disk.go\<close>) and their options. Both search the points around
  a position, choose one, and complete or replace it by the region and the country whose
  border contains the position. Opening files and decompression are parameters; log
  messages are left out.
\<close>

subsection \<open>Options\<close>

record options =
  o_searchRadius :: f64

text \<open>\<open>0.01\<close>\<close>

definition defautMaxSearchRadius :: f64 where
  "defautMaxSearchRadius = F64 0x3F847AE147AE147B"

datatype search_option = SearchRadius f64 | WithLogger

fun apply_option :: "search_option \<Rightarrow> options \<Rightarrow> options" where
  "apply_option (SearchRadius r) opts = opts\<lparr>o_searchRadius := r\<rparr>"
| "apply_option WithLogger opts = opts"

definition loadOptions :: "search_option list \<Rightarrow> options" where
  "loadOptions opts = fold apply_option opts \<lparr>o_searchRadius = defautMaxSearchRadius\<rparr>"

subsection \<open>The geocoder in memory\<close>

record geo_info =
  g_Name :: gostring
  g_Street :: gostring
  g_HouseNumber :: gostring
  g_City :: gostring
  g_Region :: gostring
  g_Weight :: byte

definition info_value :: "geo_info \<Rightarrow> geo_model_info" where
  "info_value g = \<lparr>Name = g_Name g, Street = g_Street g, HouseNumber = g_HouseNumber g, City = g_City g,
     Region = g_Region g, Country = [], gm_Weight = g_Weight g\<rparr>"

record 'q borders_env =
  e_orb :: orb
  e_qtree :: "'q qtree"

record 'q r_geo_coder =
  tree :: "geo_info kdbush"
  m_regions :: "(gostring, 'q) border_tree option"
  m_countries :: "(gostring, 'q) border_tree option"
  m_searchRadius :: f64

definition distanceSquared :: "f64 \<Rightarrow> f64 \<Rightarrow> f64 \<Rightarrow> f64 \<Rightarrow> f64" where
  "distanceSquared x1 y1 x2 y2 = (let d0 = x1 - x2; d1 = y1 - y2 in d0 * d0 + d1 * d1)"

text \<open>
  The callback of the search keeps the chosen point and its distance. \<open>finPoint.Data\<close> is a
  pointer that is nil at first: comparing weights with it panics, and the state becomes
  \<^const>\<open>None\<close>.
\<close>

definition keep_better :: "f64 \<Rightarrow> f64 \<Rightarrow> (geo_info, (geo_info option \<times> f64) option) handler" where
  "keep_better lat lon p s =
     (case s of
        None \<Rightarrow> (None, False)
      | Some (finData, finDist) \<Rightarrow>
          let dist = distanceSquared lon lat (pX p) (pY p) in
          if dist < finDist then (Some (Some (pData p), dist), True)
          else
            (case finData of
               None \<Rightarrow> (None, False)
             | Some g \<Rightarrow>
                 if g_Weight (pData p) > g_Weight g then (Some (Some (pData p), dist), True)
                 else (Some (finData, finDist), True)))"

text \<open>\<open>math.IsInf(x, 1)\<close>\<close>

definition is_pos_inf :: "f64 \<Rightarrow> bool" where
  "is_pos_inf x \<longleftrightarrow> is_inf x \<and> \<not> f64_neg x"

text \<open>A query of a tree that may be nil; \<^const>\<open>None\<close> outside is a panic.\<close>

definition query_border :: "'q borders_env \<Rightarrow> (gostring, 'q) border_tree option \<Rightarrow> f64 \<Rightarrow> f64 \<Rightarrow> gostring option option" where
  "query_border E bt lon lat =
     (case bt of None \<Rightarrow> Some None | Some bt \<Rightarrow> QueryPoint (e_orb E) (e_qtree E) bt (lon, lat))"

definition with_borders :: "'q borders_env \<Rightarrow> (gostring, 'q) border_tree option \<Rightarrow> (gostring, 'q) border_tree option
    \<Rightarrow> f64 \<Rightarrow> f64 \<Rightarrow> geo_model_info \<Rightarrow> geo_model_info option" where
  "with_borders E regions countries lon lat out = do {
     out \<leftarrow> (if Region out = [] then
               map_option (\<lambda>r. case r of Some region \<Rightarrow> out\<lparr>Region := region\<rparr> | None \<Rightarrow> out) (query_border E regions lon lat)
             else Some out);
     (if Country out = [] then
        map_option (\<lambda>c. case c of Some country \<Rightarrow> out\<lparr>Country := country\<rparr> | None \<Rightarrow> out) (query_border E countries lon lat)
      else Some out)
   }"

definition by_borders :: "'q borders_env \<Rightarrow> (gostring, 'q) border_tree option \<Rightarrow> (gostring, 'q) border_tree option
    \<Rightarrow> f64 \<Rightarrow> f64 \<Rightarrow> (geo_model_info \<times> bool) option" where
  "by_borders E regions countries lon lat = do {
     country \<leftarrow> query_border E countries lon lat;
     region \<leftarrow> query_border E regions lon lat;
     let out = empty_info\<lparr>Country := (case country of Some c \<Rightarrow> c | None \<Rightarrow> []),
       Region := (case region of Some r \<Rightarrow> r | None \<Rightarrow> [])\<rparr>;
     Some (if Country out \<noteq> [] \<or> Region out \<noteq> [] then (out, True) else (empty_info, False))
   }"

definition FindInRadius :: "'q borders_env \<Rightarrow> 'q r_geo_coder \<Rightarrow> f64 \<Rightarrow> f64 \<Rightarrow> f64 \<Rightarrow> (geo_model_info \<times> bool) option" where
  "FindInRadius E f lat lon radius = do {
     st \<leftarrow> Within (tree f) lon lat radius (keep_better lat lon) (Some (None, inf64 False));
     (finData, finDist) \<leftarrow> st;
     (if \<not> is_pos_inf finDist then do {
        g \<leftarrow> finData;
        out \<leftarrow> with_borders E (m_regions f) (m_countries f) lon lat (info_value g);
        Some (out, True)
      }
      else by_borders E (m_regions f) (m_countries f) lon lat)
   }"

definition Find :: "'q borders_env \<Rightarrow> 'q r_geo_coder \<Rightarrow> f64 \<Rightarrow> f64 \<Rightarrow> (geo_model_info \<times> bool) option" where
  "Find E f lat lon = FindInRadius E f lat lon (m_searchRadius f)"

subsection \<open>The geocoder on a file\<close>

record 'q r_geo_coder_disk =
  diskTree :: disk_bush
  mmapReader :: reader
  stringsIndex :: "u32 list"
  stringsDataOffset :: int
  d_regions :: "(gostring, 'q) border_tree option"
  d_countries :: "(gostring, 'q) border_tree option"
  d_searchRadius :: f64

definition readStr :: "'q r_geo_coder_disk \<Rightarrow> u32 \<Rightarrow> gostring option" where
  "readStr f sid =
     (if sid = 0 then Some []
      else
        (case get (stringsIndex f) (uint sid) of
           None \<Rightarrow> None
         | Some start \<Rightarrow>
             (case mmapReader f (i64 (stringsDataOffset f + uint start)) 512 of
                (buf, err) \<Rightarrow>
                  Some (if err \<noteq> None \<and> length buf = 0 then [] else takeWhile (\<lambda>b. b \<noteq> 0) buf))))"

definition resolvePointData :: "'q r_geo_coder_disk \<Rightarrow> v2_point_data \<Rightarrow> geo_info option" where
  "resolvePointData f d = do {
     name \<leftarrow> readStr f (NameID d);
     street \<leftarrow> readStr f (StreetID d);
     houseNumber \<leftarrow> readStr f (HouseNumberID d);
     city \<leftarrow> readStr f (CityID d);
     region \<leftarrow> readStr f (RegionID d);
     Some \<lparr>g_Name = name, g_Street = street, g_HouseNumber = houseNumber, g_City = city, g_Region = region, g_Weight = Weight d\<rparr>
   }"

text \<open>Here \<open>finPoint.Data\<close> is a record, all zero at first, and a flag says whether there is a point.\<close>

definition keep_better_disk :: "f64 \<Rightarrow> f64 \<Rightarrow> (v2_point_data, v2_point_data \<times> f64 \<times> bool) handler" where
  "keep_better_disk lat lon p s =
     (case s of (finData, finDist, hasBest) \<Rightarrow>
        let dist = distanceSquared lon lat (pX p) (pY p) in
        if dist < finDist \<or> Weight (pData p) > Weight finData then ((pData p, dist, True), True)
        else ((finData, finDist, hasBest), True))"

definition disk_FindInRadius :: "'q borders_env \<Rightarrow> 'q r_geo_coder_disk \<Rightarrow> f64 \<Rightarrow> f64 \<Rightarrow> f64 \<Rightarrow> (geo_model_info \<times> bool) option" where
  "disk_FindInRadius E f lat lon radius =
     (case disk_Within v2_codec (diskTree f) lon lat radius (keep_better_disk lat lon) (v2_zero, inf64 False, False) of
        None \<Rightarrow> None
      | Some (st, Some e) \<Rightarrow> Some (empty_info, False)
      | Some ((finData, finDist, hasBest), None) \<Rightarrow>
          (if hasBest then do {
             g \<leftarrow> resolvePointData f finData;
             out \<leftarrow> with_borders E (d_regions f) (d_countries f) lon lat (info_value g);
             Some (out, True)
           }
           else by_borders E (d_regions f) (d_countries f) lon lat))"

definition disk_Find :: "'q borders_env \<Rightarrow> 'q r_geo_coder_disk \<Rightarrow> f64 \<Rightarrow> f64 \<Rightarrow> (geo_model_info \<times> bool) option" where
  "disk_Find E f lat lon = disk_FindInRadius E f lat lon (d_searchRadius f)"

subsection \<open>Loading\<close>

definition geo_info_of :: "cache_info \<Rightarrow> geo_info" where
  "geo_info_of i = \<lparr>g_Name = ci_Name i, g_Street = ci_Street i, g_HouseNumber = ci_HouseNumber i, g_City = ci_City i,
     g_Region = ci_Region i, g_Weight = ci_Weight i\<rparr>"

definition optimizePoints :: "cache_point list \<Rightarrow> geo_info point list" where
  "optimizePoints pts = map (\<lambda>p. \<lparr>pX = pX p, pY = pY p, pData = geo_info_of (pData p)\<rparr>) pts"

text \<open>The loop that sorts the zones into the two border trees.\<close>

definition insert_zone :: "'q borders_env \<Rightarrow> zone \<Rightarrow> (gostring, 'q) border_tree \<times> (gostring, 'q) border_tree
    \<Rightarrow> (gostring, 'q) border_tree \<times> (gostring, 'q) border_tree" where
  "insert_zone E z bts =
     (case bts of (regions, countries) \<Rightarrow>
        if z_Type z = ZoneRegion then (InsertBorder (e_orb E) (e_qtree E) regions (z_Name z) (z_Polygon z), countries)
        else if z_Type z = ZoneCountry then (regions, InsertBorder (e_orb E) (e_qtree E) countries (z_Name z) (z_Polygon z))
        else (regions, countries))"

definition load_borders :: "'q borders_env \<Rightarrow> zone list \<Rightarrow> (gostring, 'q) border_tree \<times> (gostring, 'q) border_tree" where
  "load_borders E zones = fold (insert_zone E) zones (NewBorderTree (e_qtree E), NewBorderTree (e_qtree E))"

definition newRGeoCoder :: "geo_info kdbush \<Rightarrow> (gostring, 'q) border_tree option \<Rightarrow> (gostring, 'q) border_tree option
    \<Rightarrow> search_option list \<Rightarrow> 'q r_geo_coder" where
  "newRGeoCoder t regions countries opts =
     \<lparr>tree = t, m_regions = regions, m_countries = countries, m_searchRadius = o_searchRadius (loadOptions opts)\<rparr>"

definition LoadGeoCoderFromReader :: "mathlib \<Rightarrow> 'q borders_env \<Rightarrow> 't loaders \<Rightarrow> stream \<Rightarrow> search_option list
    \<Rightarrow> 'q r_geo_coder result option" where
  "LoadGeoCoderFromReader M E L st opts =
     (case LoadFromReader L st of
        None \<Rightarrow> None
      | Some (Inl e) \<Rightarrow> Some (Inl (Wrap ''error loading points'' e))
      | Some (Inr (pointsRaw, zonesRaw)) \<Rightarrow>
          (case NewBush M (optimizePoints pointsRaw) DefaultNodeSize of
             None \<Rightarrow> None
           | Some t \<Rightarrow>
               (case load_borders E zonesRaw of (regions, countries) \<Rightarrow>
                  Some (Inr (newRGeoCoder t (Some regions) (Some countries) opts)))))"

text \<open>The files, and the decompressor of \<^verbatim>\<open>.zst\<close> files.\<close>

record filesystem =
  fs_Open :: "gostring \<Rightarrow> stream result"
  fs_zstd :: "stream \<Rightarrow> stream result"
  fs_mmap :: "gostring \<Rightarrow> reader result"

definition has_suffix :: "gostring \<Rightarrow> gostring \<Rightarrow> bool" where
  "has_suffix s suf \<longleftrightarrow> length suf \<le> length s \<and> drop (length s - length suf) s = suf"

definition openReader :: "filesystem \<Rightarrow> gostring \<Rightarrow> stream result" where
  "openReader F name =
     (case fs_Open F name of
        Inl e \<Rightarrow> Inl (Wrap ''can`t open file error'' e)
      | Inr st \<Rightarrow>
          if has_suffix name [0x2E, 0x7A, 0x73, 0x74] then wrap_err ''can`t create zstd reader'' (fs_zstd F st)
          else Inr st)"

text \<open>A buffered reader delivers its source's chunks in pieces of at most the buffer's size.\<close>

function pieces :: "nat \<Rightarrow> byte list \<Rightarrow> byte list list" where
  "pieces n c = (if n = 0 \<or> length c \<le> n then [c] else take n c # pieces n (drop n c))"
  by pat_completeness auto
termination
  by (relation "measure (\<lambda>(n, c). length c)") auto

declare pieces.simps [simp del]

definition buffered :: "nat \<Rightarrow> stream \<Rightarrow> stream" where
  "buffered n st = st\<lparr>st_chunks := concat (map (pieces n) (st_chunks st))\<rparr>"

definition LoadGeoCoderFromFile :: "filesystem \<Rightarrow> mathlib \<Rightarrow> 'q borders_env \<Rightarrow> 't loaders \<Rightarrow> gostring \<Rightarrow> search_option list
    \<Rightarrow> 'q r_geo_coder result option" where
  "LoadGeoCoderFromFile F M E L name opts =
     (case openReader F name of
        Inl e \<Rightarrow> Some (Inl (Wrap ''error opening points file'' e))
      | Inr st \<Rightarrow> LoadGeoCoderFromReader M E L (buffered (4 * 1024 * 1024) st) opts)"

text \<open>The deprecated loader, which keeps the search radius of \<open>f\<close>.\<close>

definition LoadFromPointsFile :: "filesystem \<Rightarrow> mathlib \<Rightarrow> 'q borders_env \<Rightarrow> 't loaders \<Rightarrow> 'q r_geo_coder \<Rightarrow> gostring
    \<Rightarrow> (error option \<times> 'q r_geo_coder) option" where
  "LoadFromPointsFile F M E L f name =
     (case openReader F name of
        Inl e \<Rightarrow> Some (Some (Wrap ''error opening points file'' e), f)
      | Inr st \<Rightarrow>
          (case LoadFromReader L st of
             None \<Rightarrow> None
           | Some (Inl e) \<Rightarrow> Some (Some (Wrap ''error loading points'' e), f)
           | Some (Inr (pointsRaw, zonesRaw)) \<Rightarrow>
               (case NewBush M (optimizePoints pointsRaw) 256 of
                  None \<Rightarrow> None
                | Some t \<Rightarrow>
                    (case load_borders E zonesRaw of (regions, countries) \<Rightarrow>
                       Some (None, f\<lparr>tree := t, m_regions := Some regions, m_countries := Some countries\<rparr>)))))"

definition NewGeoCoderFromPoints :: "mathlib \<Rightarrow> 'q borders_env \<Rightarrow> cache_point list \<Rightarrow> search_option list \<Rightarrow> 'q r_geo_coder option" where
  "NewGeoCoderFromPoints M E pts opts =
     map_option (\<lambda>t. newRGeoCoder t (Some (NewBorderTree (e_qtree E))) (Some (NewBorderTree (e_qtree E))) opts)
       (NewBush M (optimizePoints pts) 128)"

definition PrintCacheSizeAnalysisForFile :: "filesystem \<Rightarrow> 't loaders \<Rightarrow> gostring \<Rightarrow> (printed \<times> error option) option" where
  "PrintCacheSizeAnalysisForFile F L name =
     (case openReader F name of
        Inl e \<Rightarrow> Some ([], Some (Wrap ''error opening points file'' e))
      | Inr st \<Rightarrow> PrintCacheSizeAnalysis L st)"

text \<open>The checks before a v2 file is opened in place.\<close>

definition LoadGeoCoderFromFileDisk :: "filesystem \<Rightarrow> 'q borders_env \<Rightarrow> 't loaders \<Rightarrow> gostring \<Rightarrow> search_option list
    \<Rightarrow> 'q r_geo_coder_disk result option" where
  "LoadGeoCoderFromFileDisk F E L name opts =
     step ''error mmapping cache file'' (fs_mmap F name) (\<lambda>r.
     step ''error reading magic bytes'' (read_full r 0 4) (\<lambda>magic.
     if magic \<noteq> MAGIC_BYTES then Some (Inl (Err ''invalid magic bytes''))
     else
       step ''error reading compatibility level'' (read_full r 4 4) (\<lambda>compatBuf.
       if u32_of compatBuf \<noteq> COMPATIBILITY_LEVEL_v2 then Some (Inl (Err ''expected v2 cache''))
       else
         (case LoadMmap (v2_pb L) (cal L) r of
            None \<Rightarrow> None
          | Some res \<Rightarrow>
            step ''error loading v2 cache via mmap'' res (\<lambda>result.
            (case load_borders E (Zones result) of (regions, countries) \<Rightarrow>
               Some (Inr \<lparr>diskTree = DiskBush result, mmapReader = r, stringsIndex = StringsIndex result,
                 stringsDataOffset = StringsDataOffset result, d_regions = Some regions, d_countries = Some countries,
                 d_searchRadius = o_searchRadius (loadOptions opts)\<rparr>)))))))"

subsection \<open>Distances\<close>

lemma f64_square_mag: "f64_mag x = f64_mag y \<Longrightarrow> x * x = y * y"
  by (simp add: times_f64_def is_nan_def is_inf_def)

lemma f64_square_nan: "is_nan x \<Longrightarrow> x * x = nan64"
  by (simp add: times_f64_def)

lemma f64_diff_swap: "is_nan (x - y) \<and> is_nan (y - x) \<or> f64_mag (x - y) = f64_mag (y - x)"
proof (cases "is_nan x \<or> is_nan y")
  case True
  then show ?thesis by (auto simp: minus_f64_def plus_f64_def)
next
  case False
  have "nat \<bar>sval x - sval y\<bar> = nat \<bar>sval y - sval x\<bar>" by (simp add: abs_minus_commute)
  then have "f64_mag (round_f64 (sval x - sval y) 1) = f64_mag (round_f64 (sval y - sval x) 1)"
    by (simp add: round_f64_def)
  then show ?thesis using False by (auto simp: minus_f64_def plus_f64_def Let_def is_inf_def)
qed

lemma f64_diff_square: "(x - y) * (x - y) = (y - x) * (y - (x :: f64))"
  using f64_diff_swap [of x y] f64_square_mag [of "x - y" "y - x"] f64_square_nan by metis

lemma distanceSquared_sqrtDist: "distanceSquared x y a b = sqrtDist a b x y"
  by (simp add: distanceSquared_def sqrtDist_def Let_def f64_diff_square [of x] f64_diff_square [of y])

lemma below_finite:
  assumes "d \<le> e" "\<not> is_pos_inf e"
  shows "d < inf64 False" and "\<not> is_pos_inf d"
proof -
  have e: "\<not> is_nan d" "\<not> is_nan e" "f64_key d \<le> f64_key e" using assms(1) by (simp_all add: less_eq_f64_def)
  have "f64_key e < int inf_mag"
    using assms(2) e(2) inf_mag_pos by (auto simp: is_pos_inf_def is_inf_def is_nan_def f64_key_def)
  then show "d < inf64 False" "\<not> is_pos_inf d"
    using e by (auto simp: less_f64_def is_pos_inf_def f64_inf_key split: if_splits)
qed

subsection \<open>The two indices\<close>

lemma coords_of_pairs:
  "concat (map (\<lambda>v. [pX v, pY v]) ps) = concat (map (\<lambda>(x, y). [x, y]) (map (\<lambda>p. (pX p, pY p)) ps))"
  by (simp add: comp_def)

lemma NewBush_same:
  assumes "NewBush M ps ns = Some b" "map (\<lambda>p. (pX p, pY p)) ps = map (\<lambda>p. (pX p, pY p)) qs"
  shows "NewBush M qs ns = Some \<lparr>nodeSize = ns, points = qs, arrays = arrays b\<rparr>" and "nodeSize b = ns" and "points b = ps"
proof -
  have "length ps = length qs" using map_eq_imp_length_eq [OF assms(2)] .
  moreover have "concat (map (\<lambda>v. [pX v, pY v]) ps) = concat (map (\<lambda>v. [pX v, pY v]) qs)"
    by (simp only: coords_of_pairs assms(2))
  ultimately have "initial_arrays ps = initial_arrays qs" by (simp add: initial_arrays_def)
  then show "NewBush M qs ns = Some \<lparr>nodeSize = ns, points = qs, arrays = arrays b\<rparr>" "nodeSize b = ns" "points b = ps"
    using assms(1) \<open>length ps = length qs\<close> by (auto simp: NewBush_def buildIndex_def split: bind_splits)
qed

text \<open>Two handlers that keep a relation between their states along the same points.\<close>

lemma run_handlers_related:
  assumes "list_all2 R ps qs" "S s t"
    and "\<And>p q s t. R p q \<Longrightarrow> S s t \<Longrightarrow> S (fst (h p s)) (fst (k q t)) \<and> snd (h p s) = snd (k q t)"
  shows "S (fst (run_handler h ps s)) (fst (run_handler k qs t))"
  using assms(1,2)
proof (induction arbitrary: s t rule: list_all2_induct)
  case (Cons p ps q qs)
  have "S (fst (h p s)) (fst (k q t))" "snd (h p s) = snd (k q t)" using assms(3) [OF Cons.hyps(1) Cons.prems] by blast+
  then show ?case using Cons.IH by (auto split: prod.splits)
qed simp

subsection \<open>The two searches\<close>

definition opt_point :: "cache_point \<Rightarrow> geo_info point" where
  "opt_point p = \<lparr>pX = pX p, pY = pY p, pData = geo_info_of (pData p)\<rparr>"

definition same_point :: "cache_point list \<Rightarrow> f64 \<Rightarrow> f64 \<Rightarrow> f64 \<Rightarrow> geo_info point \<Rightarrow> v2_point_data point \<Rightarrow> bool" where
  "same_point pts lat lon r2 p q \<longleftrightarrow>
     (\<exists>x \<in> set pts. p = opt_point x \<and> q = v2_point_of pts x \<and> sqrtDist (pX x) (pY x) lon lat \<le> r2)"

definition same_choice :: "cache_point list \<Rightarrow> (geo_info option \<times> f64) option \<Rightarrow> v2_point_data \<times> f64 \<times> bool \<Rightarrow> bool" where
  "same_choice pts s t \<longleftrightarrow>
     s = Some (None, inf64 False) \<and> t = (v2_zero, inf64 False, False)
     \<or> (\<exists>x \<in> set pts. \<exists>dist. \<not> is_pos_inf dist
          \<and> s = Some (Some (geo_info_of (pData x)), dist) \<and> t = (pData (v2_point_of pts x), dist, True))"

lemma handlers_agree:
  assumes "same_point pts lat lon r2 p q" "same_choice pts s t" "\<not> is_pos_inf r2"
  shows "same_choice pts (fst (keep_better lat lon p s)) (fst (keep_better_disk lat lon q t))
    \<and> snd (keep_better lat lon p s) = snd (keep_better_disk lat lon q t)"
proof -
  obtain x where x: "x \<in> set pts" "p = opt_point x" "q = v2_point_of pts x" "sqrtDist (pX x) (pY x) lon lat \<le> r2"
    using assms(1) by (auto simp: same_point_def)
  note d = below_finite [OF x(4) assms(3)]
  have w: "g_Weight (geo_info_of (pData y)) = Weight (pData (v2_point_of pts y))" for y
    by (simp add: geo_info_of_def v2_point_of_def)
  have c: "pX q = pX x" "pY q = pY x" "pX p = pX x" "pY p = pY x" "pData p = geo_info_of (pData x)"
    by (simp_all add: x opt_point_def v2_point_of_def)
  show ?thesis
    using assms(2) [unfolded same_choice_def]
  proof (elim disjE bexE exE conjE)
    assume "s = Some (None, inf64 False)" "t = (v2_zero, inf64 False, False)"
    then show ?thesis using x(1,3) d c
      by (auto simp: keep_better_def keep_better_disk_def Let_def distanceSquared_sqrtDist same_choice_def)
  next
    fix y dist
    assume "y \<in> set pts" "\<not> is_pos_inf dist" "s = Some (Some (geo_info_of (pData y)), dist)"
      "t = (pData (v2_point_of pts y), dist, True)"
    then show ?thesis using x(1,3) d c
      by (auto simp: keep_better_def keep_better_disk_def Let_def distanceSquared_sqrtDist same_choice_def w)
  qed
qed

lemma searches_agree:
  assumes bm: "NewBush M (optimizePoints pts) ns = Some bm" and bd: "NewBush M (map (v2_point_of pts) pts) ns = Some bd"
    and ok: "bush_ok bm" "bush_ok bd" "disk_rep v2_codec d bd" and r: "\<not> is_pos_inf (radius * radius)"
  obtains s t where "Within bm lon lat radius (keep_better lat lon) (Some (None, inf64 False)) = Some s"
    "disk_Within v2_codec d lon lat radius (keep_better_disk lat lon) (v2_zero, inf64 False, False) = Some (t, None)"
    "same_choice pts s t"
proof -
  let ?q = "\<lparr>c_x = lon, c_y = lat, c_r = radius, c_r2 = radius * radius\<rparr>" and ?n = "int (length pts)"
  let ?v = "circle_visit bm ?q (0, ?n - 1, 0)"
  have opt: "optimizePoints pts = map opt_point pts" by (simp add: optimizePoints_def opt_point_def [abs_def])
  have "map (\<lambda>p. (pX p, pY p)) (optimizePoints pts) = map (\<lambda>p. (pX p, pY p)) (map (v2_point_of pts) pts)"
    by (simp add: opt opt_point_def v2_point_of_def)
  note B = NewBush_same [OF bm this]
  have bd': "bd = \<lparr>nodeSize = ns, points = map (v2_point_of pts) pts, arrays = arrays bm\<rparr>" using B(1) bd by simp
  have pm: "points bm = map opt_point pts" using B(3) opt by simp
  have wm: "Within bm lon lat radius h s = Some (fst (run_handler h (map (point_at bm) ?v) s))" for h :: "(geo_info, (geo_info option \<times> f64) option) handler" and s
    using Within_visit [OF ok(1), of lon lat radius h s] pm by simp
  have wd: "Within bd lon lat radius h s = Some (fst (run_handler h (map (point_at bd) ?v) s))" for h :: "(v2_point_data, v2_point_data \<times> f64 \<times> bool) handler" and s
    using Within_visit [OF ok(2), of lon lat radius h s] bd' B(2) by simp
  have "same_point pts lat lon (radius * radius) (point_at bm t) (point_at bd t)" if "t \<in> set ?v" for t
  proof -
    have "set_mset (mset ?v) \<subseteq> set_mset (filter_mset (circle_hit ?q) (mset (seg (items (arrays bm)) 0 (?n - 1))))"
      unfolding prod.case by (rule set_mset_mono [OF visit_sound])
    then have "t \<in> set (seg (items (arrays bm)) 0 (?n - 1))" "circle_hit ?q t" using that by auto
    then have t: "t \<in> set (items (arrays bm))" "circle_hit ?q t"
      using seg_in_items [of 0 "?n - 1"] bush_okD(2) [OF ok(1)] pm by auto
    obtain k where k: "k < length pts" "t = item_of (points bm) k" using bush_okD(3) [OF ok(1)] t(1) pm by auto
    have "point_at bm t = opt_point (pts ! k)" "point_at bd t = v2_point_of pts (pts ! k)" "tx t = pX (pts ! k)" "ty t = pY (pts ! k)"
      using k by (simp_all add: point_at_def item_of_def pm bd' tx_def ty_def opt_point_def)
    then show ?thesis using k(1) t(2) by (auto simp: same_point_def circle_hit_def sq_dist_def)
  qed
  then have L: "list_all2 (same_point pts lat lon (radius * radius)) (map (point_at bm) ?v) (map (point_at bd) ?v)"
    by (simp add: list_all2_map1 list_all2_map2 list_all2_same)
  obtain t where t: "Within bd lon lat radius (keep_better_disk lat lon) (v2_zero, inf64 False, False) = Some t"
    "disk_Within v2_codec d lon lat radius (keep_better_disk lat lon) (v2_zero, inf64 False, False) = Some (t, None)"
    by (rule disk_Within_memory [OF ok(3,2)])
  have "same_choice pts (fst (run_handler (keep_better lat lon) (map (point_at bm) ?v) (Some (None, inf64 False))))
      (fst (run_handler (keep_better_disk lat lon) (map (point_at bd) ?v) (v2_zero, inf64 False, False)))"
    by (rule run_handlers_related [OF L]) (use handlers_agree r in \<open>auto simp: same_choice_def\<close>)
  then show thesis using that [OF wm t(2)] t(1) wd by simp
qed

subsection \<open>Texts from the file\<close>

lemma takeWhile_before_nul: "takeWhile (\<lambda>b. b \<noteq> (0 :: byte)) (take n (s @ 0 # rest)) = take n (takeWhile (\<lambda>b. b \<noteq> 0) s)"
proof (induction s arbitrary: n)
  case Nil
  show ?case by (cases n) simp_all
next
  case (Cons b s)
  then show ?case by (cases n) simp_all
qed

lemma readStr_block:
  assumes blk: "string_block ss = (stringsIndex f, data)" "length data < 2 ^ 32" "unat i < length ss" "ss ! 0 = []"
    and r: "reads_file (mmapReader f) bytes" "length bytes < 2 ^ 63"
    and at: "drop off bytes = data @ post" "off \<le> length bytes" "stringsDataOffset f = int off"
  shows "readStr f i = Some (take 512 (cut_nul (ss ! unat i)))"
proof (cases "i = 0")
  case False
  let ?k = "nul_offset ss (unat i)"
  have data: "data = nul_block ss" and idx: "get (stringsIndex f) (uint i) = Some (of_nat ?k)"
    using blk(1,3) by (auto simp: string_block_def prod_eq_iff dest: sym)
  have k: "?k + length (ss ! unat i) < length data" using nul_offset_less [OF blk(3)] data by simp
  have len: "length bytes - off = length data + length post" using arg_cong [OF at(1), of length] by simp
  have u: "uint (of_nat ?k :: u32) = int ?k" using k blk(2) by (simp add: unsigned_of_nat take_bit_eq_mod)
  have pos: "i64 (int off + int ?k) = int (off + ?k)" using k len r(2) by (simp add: i64_def)
  have d: "drop (off + ?k) bytes = ss ! unat i @ 0 # nul_block (drop (Suc (unat i)) ss) @ post"
  proof -
    have "drop (off + ?k) bytes = drop ?k (drop off bytes)" by (simp add: add.commute)
    also have "\<dots> = drop ?k data @ post" using k by (simp add: at(1))
    also have "drop ?k data = ss ! unat i @ 0 # nul_block (drop (Suc (unat i)) ss)" unfolding data by (rule drop_nul_offset [OF blk(3)])
    finally show ?thesis by simp
  qed
  have "fst (mmapReader f (int (off + ?k)) 512) = take 512 (drop (off + ?k) bytes)"
  proof (cases "off + ?k + 512 \<le> length bytes")
    case True
    then show ?thesis using r(1) by (simp add: reads_file_def nat_add_distrib)
  next
    case False
    moreover have "off + ?k \<le> length bytes" using k len at(2) by linarith
    ultimately have "fst (mmapReader f (int (off + ?k)) 512) = drop (nat (int (off + ?k))) bytes"
      using r(1) [unfolded reads_file_def, THEN conjunct2, rule_format, of "int (off + ?k)" 512] by simp
    then show ?thesis using False by (simp add: nat_add_distrib)
  qed
  then show ?thesis using False
    by (simp add: readStr_def idx u at(3) pos d split_beta takeWhile_before_nul cut_nul_def del: take_append)
qed (use blk(4) in \<open>simp add: readStr_def cut_nul_def\<close>)

text \<open>The texts of a point as the geocoder on the file gives them.\<close>

definition disk_text :: "gostring \<Rightarrow> gostring" where
  "disk_text s = take 512 (cut_nul s)"

lemma disk_text_short: "0 \<notin> set s \<Longrightarrow> length s \<le> 512 \<Longrightarrow> disk_text s = s"
  unfolding disk_text_def cut_nul_def by (subst takeWhile_eq_all_conv [THEN iffD2]) auto

lemma resolve_disk:
  assumes fit: "strings_fit pts" and x: "x \<in> set pts" and blk: "string_block (dm.names (v2_table pts)) = (stringsIndex f, data)"
    and r: "reads_file (mmapReader f) bytes" "length bytes < 2 ^ 63"
    and at: "drop off bytes = data @ post" "off \<le> length bytes" "stringsDataOffset f = int off"
  shows "resolvePointData f (pData (v2_point_of pts x))
    = Some \<lparr>g_Name = disk_text (ci_Name (pData x)), g_Street = disk_text (ci_Street (pData x)),
        g_HouseNumber = disk_text (ci_HouseNumber (pData x)), g_City = disk_text (ci_City (pData x)),
        g_Region = disk_text (ci_Region (pData x)), g_Weight = ci_Weight (pData x)\<rparr>"
proof -
  have "length data < 2 ^ 32" using v2_table_ok(4) [OF fit] blk by (auto simp: string_block_def)
  note R = readStr_block [OF blk this _ v2_table_ok(3) [OF fit] r at, folded disk_text_def]
  have "\<forall>s \<in> set (info_strings (pData x)). readStr f (string_id pts s) = Some (disk_text s)"
    using R [OF string_id_known(2) [OF fit]] string_id_known(3) [OF fit] point_strings [OF x] by auto
  then show ?thesis by (simp add: resolvePointData_def v2_point_of_def info_strings_def)
qed

text \<open>Loaded from a v1 file in memory, and from a v2 file in place.\<close>

lemma loaded_in_memory:
  assumes "LoadFromReader L st = Some (Inr (pts, zones))" "window_narrows M (length pts)"
  obtains b where "NewBush M (optimizePoints pts) DefaultNodeSize = Some b" "bush_ok b"
    "LoadGeoCoderFromReader M E L st opts = Some (Inr \<lparr>tree = b, m_regions = Some (fst (load_borders E zones)),
       m_countries = Some (snd (load_borders E zones)), m_searchRadius = o_searchRadius (loadOptions opts)\<rparr>)"
proof -
  have "window_narrows M (length (optimizePoints pts))" using assms(2) by (simp add: optimizePoints_def)
  then obtain b where "NewBush M (optimizePoints pts) DefaultNodeSize = Some b" "bush_ok b" using NewBush_ok by blast
  then show thesis using that assms(1) by (simp add: LoadGeoCoderFromReader_def newRGeoCoder_def split_beta)
qed

lemma loaded_in_place:
  assumes "fs_mmap F name = Inr r" "reads_file r bytes" "8 \<le> length bytes" "take 4 bytes = MAGIC_BYTES"
    and "u32_of (drop 4 bytes) = COMPATIBILITY_LEVEL_v2" "LoadMmap (v2_pb L) (cal L) r = Some (Inr res)"
  shows "LoadGeoCoderFromFileDisk F E L name opts
    = Some (Inr \<lparr>diskTree = DiskBush res, mmapReader = r, stringsIndex = StringsIndex res, stringsDataOffset = StringsDataOffset res,
        d_regions = Some (fst (load_borders E (Zones res))), d_countries = Some (snd (load_borders E (Zones res))),
        d_searchRadius = o_searchRadius (loadOptions opts)\<rparr>)"
proof -
  have "read_full r 0 4 = Inr MAGIC_BYTES" using read_full_file [OF assms(2), of 0 4] assms(3,4) by simp
  moreover have "read_full r 4 4 = Inr (take 4 (drop 4 bytes))" using read_full_file [OF assms(2), of 4 4] assms(3) by simp
  moreover have "u32_of (take 4 (drop 4 bytes)) = COMPATIBILITY_LEVEL_v2" using assms(5) by (simp add: u32_of_def)
  ultimately show ?thesis using assms(1,6) by (simp add: LoadGeoCoderFromFileDisk_def step_def split_beta)
qed

definition short_texts :: "cache_point list \<Rightarrow> bool" where
  "short_texts pts \<longleftrightarrow> (\<forall>p \<in> set pts. \<forall>s \<in> set (info_strings (pData p)). 0 \<notin> set s \<and> length s \<le> 512)"

lemma same_answers:
  assumes "NewBush M (optimizePoints pts) ns = Some (tree f)" and "NewBush M (map (v2_point_of pts) pts) ns = Some bd"
    and "bush_ok (tree f)" "bush_ok bd" "disk_rep v2_codec (diskTree d) bd" "\<not> is_pos_inf (radius * radius)"
    and "m_regions f = d_regions d" "m_countries f = d_countries d"
    and "\<And>x. x \<in> set pts \<Longrightarrow> resolvePointData d (pData (v2_point_of pts x)) = Some (geo_info_of (pData x))"
  shows "FindInRadius E f lat lon radius = disk_FindInRadius E d lat lon radius"
proof -
  obtain s t where st: "Within (tree f) lon lat radius (keep_better lat lon) (Some (None, inf64 False)) = Some s"
    "disk_Within v2_codec (diskTree d) lon lat radius (keep_better_disk lat lon) (v2_zero, inf64 False, False) = Some (t, None)"
    "same_choice pts s t"
    by (rule searches_agree [OF assms(1-6)])
  have "is_pos_inf (inf64 False)" by (simp add: is_pos_inf_def)
  then show ?thesis using st(3)
    by (auto simp: FindInRadius_def disk_FindInRadius_def st(1,2) same_choice_def assms(7-9))
qed

lemma geocoders_agree:
  assumes "writer_ok w out" and "out s = []" and "window_narrows M (length pts)" and "length pts + length zones < 2 ^ 32"
    and "v1_protos_ok (v1_pb L)" and "v1_small (v1_pb L)" and "v2_protos_ok (v2_pb L)" and "v2_fits (v2_pb L) (cal L) pts zones meta"
    and "\<forall>kvs :: (gostring \<times> int) list. mset (vis1 kvs) = mset kvs" and "\<forall>kvs. mset (vis2 kvs) = mset kvs"
    and "readable_time (cal L) (md_DateCreated meta)"
    and "SaveV1 (v1_pb L) (cal L) vis1 pts zones meta w s = Some (None, s1)"
    and "SaveV2 M (v2_pb L) (cal L) vis2 pts zones meta w s = Some (None, s2)"
    and "bytes_of st = out s1" and "whole_first_read st"
    and "fs_mmap F name = Inr r" and "reads_file r (out s2)" and "length (out s2) < 2 ^ 63" and "short_texts pts"
  shows "\<exists>f d. LoadGeoCoderFromReader M E L st opts = Some (Inr f) \<and> LoadGeoCoderFromFileDisk F E L name opts = Some (Inr d)
    \<and> m_searchRadius f = o_searchRadius (loadOptions opts) \<and> d_searchRadius d = o_searchRadius (loadOptions opts)
    \<and> (\<forall>lat lon radius. \<not> is_pos_inf (radius * radius) \<longrightarrow> FindInRadius E f lat lon radius = disk_FindInRadius E d lat lon radius)"
proof -
  have "LoadFromReader L st = Some (Inr (pts, stored_zones zones))"
    by (rule v1_file_loaded [OF assms(1,2,5,6,9,4,11,12,14,15)])
  then obtain b where b: "NewBush M (optimizePoints pts) DefaultNodeSize = Some b" "bush_ok b"
    "LoadGeoCoderFromReader M E L st opts = Some (Inr \<lparr>tree = b, m_regions = Some (fst (load_borders E (stored_zones zones))),
       m_countries = Some (snd (load_borders E (stored_zones zones))), m_searchRadius = o_searchRadius (loadOptions opts)\<rparr>)"
    by (rule loaded_in_memory [OF _ assms(3)])
  obtain t' where t': "reads_time (cal L) (md_DateCreated meta) t'" by (rule readable_timeE [OF assms(11)])
  obtain index data db bd off post where L:
    "LoadMmap (v2_pb L) (cal L) r = Some (Inr \<lparr>DiskBush = db, StringsIndex = index, StringsDataOffset = int off, Zones = stored_zones zones,
       MD = meta\<lparr>md_DateCreated := t'\<rparr>\<rparr>)"
    and blk: "string_block (dm.names (v2_table pts)) = (index, data)" and at: "drop off (out s2) = data @ post" "off \<le> length (out s2)"
    and bd: "NewBush M (map (v2_point_of pts) pts) DefaultNodeSize = Some bd" "bush_ok bd" "points bd = map (v2_point_of pts) pts"
    and rep: "disk_rep v2_codec db bd"
    and prefix: "take 4 (out s2) = MAGIC_BYTES" "u32_of (drop 4 (out s2)) = COMPATIBILITY_LEVEL_v2" "8 \<le> length (out s2)"
    by (rule v2_file_opened [OF assms(1-3,7,8,10) t' assms(13,17,18)])
  define d where "d = \<lparr>diskTree = db, mmapReader = r, stringsIndex = index, stringsDataOffset = int off,
    d_regions = Some (fst (load_borders E (stored_zones zones))), d_countries = Some (snd (load_borders E (stored_zones zones))),
    d_searchRadius = o_searchRadius (loadOptions opts)\<rparr>"
  have d: "LoadGeoCoderFromFileDisk F E L name opts = Some (Inr d)" "diskTree d = db" "mmapReader d = r" "stringsIndex d = index"
    "stringsDataOffset d = int off" "d_regions d = Some (fst (load_borders E (stored_zones zones)))"
    "d_countries d = Some (snd (load_borders E (stored_zones zones)))" "d_searchRadius d = o_searchRadius (loadOptions opts)"
    using loaded_in_place [OF assms(16,17) prefix(3,1,2) L, of E opts] by (simp_all add: d_def)
  have fit: "strings_fit pts" using assms(8) by (simp add: v2_fits_def)
  have texts: "resolvePointData d (pData (v2_point_of pts x)) = Some (geo_info_of (pData x))" if x: "x \<in> set pts" for x
  proof -
    have "\<forall>s \<in> set (info_strings (pData x)). disk_text s = s"
      using assms(19) x disk_text_short by (auto simp: short_texts_def)
    then show ?thesis
      using resolve_disk [OF fit x, of d data "out s2"] blk assms(17,18) at d by (simp add: info_strings_def geo_info_of_def)
  qed
  let ?f = "\<lparr>tree = b, m_regions = Some (fst (load_borders E (stored_zones zones))),
       m_countries = Some (snd (load_borders E (stored_zones zones))), m_searchRadius = o_searchRadius (loadOptions opts)\<rparr>"
  have "FindInRadius E ?f lat lon radius = disk_FindInRadius E d lat lon radius" if "\<not> is_pos_inf (radius * radius)" for lat lon radius
    by (rule same_answers [where pts = pts, OF _ bd(1)]) (use b(1,2) bd(2) rep d texts that in simp_all)
  moreover have "m_searchRadius ?f = o_searchRadius (loadOptions opts)" by simp
  ultimately show ?thesis using b(3) d(1,8) by blast
qed

text \<open>
  C4. The two geocoders agree. When the same points and zones are saved in both formats, the
  v1 file is loaded into memory and the v2 file is opened in place, both loads succeed, and
  every search with a radius whose square is below infinity gives the same answer, when no
  text of a point has a NUL byte or more than 512 bytes.
\<close>

theorem disk_geocoder_agrees:
  assumes "writer_ok w out" and "out s = []" and "window_narrows M (length pts)" and "length pts + length zones < 2 ^ 32"
    and "v1_protos_ok (v1_pb L)" and "v1_small (v1_pb L)" and "v2_protos_ok (v2_pb L)" and "v2_fits (v2_pb L) (cal L) pts zones meta"
    and "\<forall>kvs :: (gostring \<times> int) list. mset (vis1 kvs) = mset kvs" and "\<forall>kvs. mset (vis2 kvs) = mset kvs"
    and "readable_time (cal L) (md_DateCreated meta)"
    and "SaveV1 (v1_pb L) (cal L) vis1 pts zones meta w s = Some (None, s1)"
    and "SaveV2 M (v2_pb L) (cal L) vis2 pts zones meta w s = Some (None, s2)"
    and "bytes_of st = out s1" and "whole_first_read st"
    and "fs_mmap F name = Inr r" and "reads_file r (out s2)" and "length (out s2) < 2 ^ 63" and "short_texts pts"
  shows "\<exists>f d. LoadGeoCoderFromReader M E L st opts = Some (Inr f) \<and> LoadGeoCoderFromFileDisk F E L name opts = Some (Inr d)
    \<and> m_searchRadius f = d_searchRadius d
    \<and> (\<forall>lat lon radius. \<not> is_pos_inf (radius * radius) \<longrightarrow> FindInRadius E f lat lon radius = disk_FindInRadius E d lat lon radius)"
  using geocoders_agree [OF assms] by metis

subsection \<open>Witnesses\<close>

definition sample_env :: "((orb_point \<times> orb_point) \<times> u64) list borders_env" where
  "sample_env = \<lparr>e_orb = sample_orb, e_qtree = list_qtree\<rparr>"

definition sample_files :: "byte list \<Rightarrow> filesystem" where
  "sample_files bytes = \<lparr>fs_Open = \<lambda>_. Inr (stream_of bytes), fs_zstd = Inr, fs_mmap = \<lambda>_. Inr (file_reader bytes)\<rparr>"

lemma disk_geocoder_agrees_witness:
  "\<exists>v1 v2 f d. SaveV1 sample_v1_protos sample_calendar (\<lambda>kvs. kvs) sample_pts sample_zones sample_meta buffer_write [] = Some (None, v1)
    \<and> SaveV2 sample_lib sample_v2_protos sample_calendar (\<lambda>kvs. kvs) sample_pts sample_zones sample_meta buffer_write [] = Some (None, v2)
    \<and> LoadGeoCoderFromReader sample_lib sample_env sample_loaders (stream_of v1) [] = Some (Inr f)
    \<and> LoadGeoCoderFromFileDisk (sample_files v2) sample_env sample_loaders [] [] = Some (Inr d)
    \<and> FindInRadius sample_env f (f64_of_int 50) (f64_of_int 30) (f64_of_int 2)
       = disk_FindInRadius sample_env d (f64_of_int 50) (f64_of_int 30) (f64_of_int 2)"
proof -
  obtain v2 where v2: "SaveV2 sample_lib sample_v2_protos sample_calendar (\<lambda>kvs. kvs) sample_pts sample_zones sample_meta buffer_write [] = Some (None, v2)"
    "length v2 < 2 ^ 63" using sample_SaveV2 by blast
  let ?v1 = "MAGIC_BYTES @ put_u32 1 @ put_u32 1 @ [0, 0, 0, 0, 0]"
  have n: "window_narrows sample_lib (length sample_pts)" "length sample_pts + length sample_zones < 2 ^ 32" "short_texts sample_pts"
    by (simp_all add: small_window_narrows sample_pts_def sample_zones_def short_texts_def info_strings_def)
  have r: "\<not> is_pos_inf (f64_of_int 2 * f64_of_int 2)"
    using small_int_exact(2) [of 4] by (simp add: small_int_def is_pos_inf_def is_fin_iff)
  have st: "bytes_of (stream_of ?v1) = ?v1" "whole_first_read (stream_of ?v1)" by (simp_all add: whole_stream_of)
  have L: "v1_pb sample_loaders = sample_v1_protos" "v2_pb sample_loaders = sample_v2_protos" "cal sample_loaders = sample_calendar"
    by (simp_all add: sample_loaders_def)
  have ids: "\<forall>kvs :: (gostring \<times> int) list. mset ((\<lambda>kvs. kvs) kvs) = mset kvs" "\<forall>kvs :: (gostring \<times> u32) list. mset ((\<lambda>kvs. kvs) kvs) = mset kvs"
    by simp_all
  have fs: "fs_mmap (sample_files v2) [] = Inr (file_reader v2)" by (simp add: sample_files_def)
  from disk_geocoder_agrees [where L = sample_loaders and E = sample_env and opts = "[]", unfolded L, OF buffer_write_ok refl n(1,2)
      sample_v1_ok(1,2) sample_v2_ok sample_v2_fits ids sample_calendar_readable(1) sample_SaveV1 v2(1) st fs file_reader_ok v2(2) n(3)] r sample_SaveV1 v2(1)
  show ?thesis by blast
qed

end
