(* ===== verification/Geocoder_Search.thy ===== *)
theory Geocoder_Search
  imports Geocoder
begin

section \<open>What a search answers\<close>

text \<open>
  The functional specification of the geocoder's searches: which point \<^const>\<open>FindInRadius\<close> chooses
  among those in the radius, what the borders of the zones add, and which files the geocoder
  on a file refuses to open.
\<close>

subsection \<open>The borders of the zones\<close>

definition covers :: "'q borders_env \<Rightarrow> f64 \<Rightarrow> f64 \<Rightarrow> zone \<Rightarrow> bool" where
  "covers E lat lon z \<longleftrightarrow> in_rect (Bound (e_orb E) (z_Polygon z)) (lon, lat)
     \<and> MultiPolygonContains (e_orb E) (DouglasPeucker (e_orb E) (z_Polygon z)) (lon, lat)"

text \<open>What a lookup among the zones of one type may answer.\<close>

definition zone_answer :: "'q borders_env \<Rightarrow> zone list \<Rightarrow> byte \<Rightarrow> f64 \<Rightarrow> f64 \<Rightarrow> gostring option \<Rightarrow> bool" where
  "zone_answer E zones zt lat lon a \<longleftrightarrow>
     (case a of
        Some n \<Rightarrow> \<exists>z \<in> set zones. z_Type z = zt \<and> z_Name z = n \<and> covers E lat lon z
      | None \<Rightarrow> \<forall>z \<in> set zones. z_Type z = zt \<longrightarrow> \<not> covers E lat lon z)"

definition zone_borders :: "byte \<Rightarrow> zone list \<Rightarrow> (gostring \<times> multi_polygon) list" where
  "zone_borders zt zones = map (\<lambda>z. (z_Name z, z_Polygon z)) (filter (\<lambda>z. z_Type z = zt) zones)"

lemma load_borders_split:
  "load_borders E zones = (insert_all (e_orb E) (e_qtree E) (zone_borders ZoneRegion zones) (NewBorderTree (e_qtree E)),
     insert_all (e_orb E) (e_qtree E) (zone_borders ZoneCountry zones) (NewBorderTree (e_qtree E)))"
proof -
  have "fold (insert_zone E) zones (rs, cs)
      = (insert_all (e_orb E) (e_qtree E) (zone_borders ZoneRegion zones) rs, insert_all (e_orb E) (e_qtree E) (zone_borders ZoneCountry zones) cs)" for rs cs
    by (induction zones arbitrary: rs cs)
      (simp_all add: zone_borders_def insert_all_def insert_zone_def ZoneRegion_def ZoneCountry_def)
  then show ?thesis by (simp add: load_borders_def)
qed

lemma query_border_answer:
  assumes "qtree_laws (e_qtree E) held" "length zones < 2 ^ 63"
  obtains a where
    "query_border E (Some (insert_all (e_orb E) (e_qtree E) (zone_borders zt zones) (NewBorderTree (e_qtree E)))) lon lat = Some a"
    "zone_answer E zones zt lat lon a"
proof -
  have n: "length (zone_borders zt zones) < 2 ^ 63"
    using le_less_trans [OF length_filter_le assms(2), of "\<lambda>z. z_Type z = zt"] by (simp add: zone_borders_def)
  obtain a where a: "QueryPoint (e_orb E) (e_qtree E) (insert_all (e_orb E) (e_qtree E) (zone_borders zt zones) (NewBorderTree (e_qtree E))) (lon, lat) = Some a"
    "\<forall>d. a = Some d \<longrightarrow> (\<exists>b. (d, b) \<in> set (zone_borders zt zones) \<and> in_rect (Bound (e_orb E) b) (lon, lat)
       \<and> MultiPolygonContains (e_orb E) (DouglasPeucker (e_orb E) b) (lon, lat))"
    "a = None \<longrightarrow> (\<forall>(d, b) \<in> set (zone_borders zt zones). \<not> (in_rect (Bound (e_orb E) b) (lon, lat)
       \<and> MultiPolygonContains (e_orb E) (DouglasPeucker (e_orb E) b) (lon, lat)))"
    using QueryPoint_answer [OF assms(1) n refl, of "e_orb E" "(lon, lat)"] by blast
  have "zone_answer E zones zt lat lon a"
    using a(2,3) by (fastforce simp: zone_answer_def covers_def zone_borders_def split: option.splits)
  then show thesis using that a(1) by (simp add: query_border_def)
qed

text \<open>What the two lookups make of an answer that has a point.\<close>

definition completed :: "gostring option \<Rightarrow> gostring option \<Rightarrow> cache_info \<Rightarrow> geo_model_info" where
  "completed region country i =
     \<lparr>Name = ci_Name i, Street = ci_Street i, HouseNumber = ci_HouseNumber i, City = ci_City i,
      Region = (if ci_Region i \<noteq> [] then ci_Region i else case region of Some r \<Rightarrow> r | None \<Rightarrow> []),
      Country = (case country of Some c \<Rightarrow> c | None \<Rightarrow> []), gm_Weight = ci_Weight i\<rparr>"

definition borders_only :: "gostring option \<Rightarrow> gostring option \<Rightarrow> geo_model_info \<times> bool" where
  "borders_only region country =
     (let r = (case region of Some r \<Rightarrow> r | None \<Rightarrow> []); c = (case country of Some c \<Rightarrow> c | None \<Rightarrow> []) in
      (empty_info\<lparr>Region := r, Country := c\<rparr>, r \<noteq> [] \<or> c \<noteq> []))"

lemma with_borders_completed:
  assumes "query_border E rt lon lat = Some region" "query_border E ct lon lat = Some country"
  shows "with_borders E rt ct lon lat (info_value (geo_info_of i)) = Some (completed region country i)"
  using assms by (auto simp: with_borders_def info_value_def geo_info_of_def completed_def split: option.splits)

lemma by_borders_only:
  assumes "query_border E rt lon lat = Some region" "query_border E ct lon lat = Some country"
  shows "by_borders E rt ct lon lat = Some (borders_only region country)"
  using assms by (auto simp: by_borders_def borders_only_def empty_info_def Let_def)

subsection \<open>The chosen point\<close>

definition dist_to :: "f64 \<Rightarrow> f64 \<Rightarrow> 'a point \<Rightarrow> f64" where
  "dist_to lat lon p = sqrtDist (pX p) (pY p) lon lat"

lemma keep_better_first:
  assumes "dist_to lat lon p \<le> r2" "\<not> is_pos_inf r2"
  shows "keep_better lat lon p (Some (None, inf64 False)) = (Some (Some (pData p), dist_to lat lon p), True)"
  using below_finite [OF assms] by (simp add: keep_better_def Let_def distanceSquared_sqrtDist dist_to_def)

lemma keep_better_next:
  "keep_better lat lon p (Some (Some g, d))
    = (if dist_to lat lon p < d \<or> g_Weight (pData p) > g_Weight g then Some (Some (pData p), dist_to lat lon p) else Some (Some g, d), True)"
  by (simp add: keep_better_def Let_def distanceSquared_sqrtDist dist_to_def)

lemma keep_better_chosen:
  assumes "\<forall>p \<in> set ps. dist_to lat lon p \<le> r2" "\<not> is_pos_inf r2" "ps \<noteq> []"
  obtains p where "p \<in> set ps" "\<not> is_pos_inf (dist_to lat lon p)"
    "fst (run_handler (keep_better lat lon) ps (Some (None, inf64 False))) = Some (Some (pData p), dist_to lat lon p)"
proof -
  have next_: "\<exists>q \<in> insert p (set qs). fst (run_handler (keep_better lat lon) qs (Some (Some (pData p), dist_to lat lon p)))
      = Some (Some (pData q), dist_to lat lon q)" for p qs
    by (induction qs arbitrary: p) (auto simp: keep_better_next split: if_splits)
  obtain p qs where ps: "ps = p # qs" using assms(3) by (cases ps) auto
  have "dist_to lat lon p \<le> r2" using assms(1) ps by simp
  then have "keep_better lat lon p (Some (None, inf64 False)) = (Some (Some (pData p), dist_to lat lon p), True)"
    using assms(2) by (rule keep_better_first)
  then obtain q where q: "q \<in> set ps" "fst (run_handler (keep_better lat lon) ps (Some (None, inf64 False))) = Some (Some (pData q), dist_to lat lon q)"
    using next_ [of p qs] ps by auto
  moreover have "\<not> is_pos_inf (dist_to lat lon q)" using below_finite(2) assms(1,2) q(1) by blast
  ultimately show thesis using that by blast
qed

text \<open>With equal weights the choice is a nearest point.\<close>

lemma keep_better_nearest:
  assumes "\<forall>p \<in> set ps. dist_to lat lon p \<le> r2 \<and> g_Weight (pData p) = w" "\<not> is_pos_inf r2" "ps \<noteq> []"
  obtains p where "p \<in> set ps" "\<forall>q \<in> set ps. dist_to lat lon p \<le> dist_to lat lon q" "\<not> is_pos_inf (dist_to lat lon p)"
    "fst (run_handler (keep_better lat lon) ps (Some (None, inf64 False))) = Some (Some (pData p), dist_to lat lon p)"
proof -
  have next_: "\<exists>q \<in> insert p (set qs). (\<forall>q' \<in> insert p (set qs). dist_to lat lon q \<le> dist_to lat lon q')
      \<and> fst (run_handler (keep_better lat lon) qs (Some (Some (pData p), dist_to lat lon p))) = Some (Some (pData q), dist_to lat lon q)"
    if "\<forall>q \<in> insert p (set qs). \<not> is_nan (dist_to lat lon q) \<and> g_Weight (pData q) = w" for p qs
    using that
  proof (induction qs arbitrary: p)
    case Nil
    then show ?case by (simp add: f64_le_refl)
  next
    case (Cons q qs)
    define m where "m = (if dist_to lat lon q < dist_to lat lon p then q else p)"
    have "dist_to lat lon m \<le> dist_to lat lon q \<and> dist_to lat lon m \<le> dist_to lat lon p"
      using Cons.prems f64_not_less [of "dist_to lat lon q" "dist_to lat lon p"]
      by (auto simp: m_def f64_le_refl less_f64_def less_eq_f64_def)
    moreover have "\<forall>q' \<in> insert m (set qs). \<not> is_nan (dist_to lat lon q') \<and> g_Weight (pData q') = w"
      using Cons.prems by (simp add: m_def)
    then obtain c where c: "c \<in> insert m (set qs)" "\<forall>q' \<in> insert m (set qs). dist_to lat lon c \<le> dist_to lat lon q'"
      "fst (run_handler (keep_better lat lon) qs (Some (Some (pData m), dist_to lat lon m))) = Some (Some (pData c), dist_to lat lon c)"
      using Cons.IH [of m] by blast
    moreover have "fst (keep_better lat lon q (Some (Some (pData p), dist_to lat lon p))) = Some (Some (pData m), dist_to lat lon m)"
      "snd (keep_better lat lon q (Some (Some (pData p), dist_to lat lon p)))"
      using Cons.prems by (auto simp: keep_better_next m_def)
    moreover have "c \<in> insert p (set (q # qs))" using c(1) by (auto simp: m_def split: if_splits)
    ultimately show ?case
      by (intro bexI [of _ c]) (auto simp: split_beta intro: f64_le_trans)
  qed
  obtain p qs where ps: "ps = p # qs" using assms(3) by (cases ps) auto
  have n: "\<forall>q \<in> insert p (set qs). \<not> is_nan (dist_to lat lon q) \<and> g_Weight (pData q) = w"
    using assms(1) ps by (auto simp: less_eq_f64_def)
  have "dist_to lat lon p \<le> r2" using assms(1) ps by simp
  then have "keep_better lat lon p (Some (None, inf64 False)) = (Some (Some (pData p), dist_to lat lon p), True)"
    using assms(2) by (rule keep_better_first)
  then obtain q where q: "q \<in> set ps" "\<forall>q' \<in> set ps. dist_to lat lon q \<le> dist_to lat lon q'"
    "fst (run_handler (keep_better lat lon) ps (Some (None, inf64 False))) = Some (Some (pData q), dist_to lat lon q)"
    using next_ [OF n] ps by auto
  moreover have "\<not> is_pos_inf (dist_to lat lon q)" using below_finite(2) assms(1,2) q(1) by blast
  ultimately show thesis using that by blast
qed

lemma dist_to_not_nan:
  assumes "is_fin (pX p)" "is_fin (pY p)" "is_fin lat" "is_fin lon"
  shows "\<not> is_nan (dist_to lat lon p)"
  using assms by (simp add: dist_to_def sqrtDist_def Let_def f64_add_nonneg f64_square_nonneg f64_sub_fin)

definition search_ok :: "cache_point list \<Rightarrow> f64 \<Rightarrow> f64 \<Rightarrow> f64 \<Rightarrow> bool" where
  "search_ok pts lat lon radius \<longleftrightarrow> (\<forall>p \<in> set pts. is_fin (pX p) \<and> is_fin (pY p))
     \<and> is_fin lat \<and> is_fin lon \<and> is_fin radius \<and> 0 \<le> radius \<and> \<not> is_pos_inf (radius * radius)"

lemma list_in_image: "set ys \<subseteq> g ` A \<Longrightarrow> \<exists>xs. ys = map g xs \<and> set xs \<subseteq> A"
proof (induction ys)
  case (Cons y ys)
  then obtain x xs where "y = g x" "x \<in> A" "ys = map g xs" "set xs \<subseteq> A" by auto
  then show ?case by (intro exI [of _ "x # xs"]) simp
qed simp

lemma inj_opt_point: "opt_point p = opt_point q \<Longrightarrow> p = q"
  by (cases p; cases q; cases "pData p"; cases "pData q") (simp add: opt_point_def geo_info_of_def)

text \<open>The points that a search in memory visits, and the answers of the two border trees.\<close>

lemma memory_search:
  assumes load: "LoadFromReader L st = Some (Inr (pts, zones))" "window_narrows M (length pts)"
    and q: "qtree_laws (e_qtree E) held" "length zones < 2 ^ 63" and ok: "search_ok pts lat lon radius"
  obtains f found region country where "LoadGeoCoderFromReader M E L st opts = Some (Inr f)"
    "zone_answer E zones ZoneRegion lat lon region" "zone_answer E zones ZoneCountry lat lon country"
    "set found \<subseteq> {p \<in> set pts. dist_to lat lon p \<le> radius * radius}"
    "{p \<in> set pts. dist_to lat lon p < radius * radius} \<subseteq> set found"
    "\<And>p. p \<in> set found \<Longrightarrow> fst (run_handler (keep_better lat lon) (map opt_point found) (Some (None, inf64 False)))
        = Some (Some (pData (opt_point p)), dist_to lat lon p) \<Longrightarrow> \<not> is_pos_inf (dist_to lat lon p)
        \<Longrightarrow> FindInRadius E f lat lon radius = Some (completed region country (pData p), True)"
    "found = [] \<Longrightarrow> FindInRadius E f lat lon radius = Some (borders_only region country)"
proof -
  obtain b where b: "NewBush M (optimizePoints pts) DefaultNodeSize = Some b" "bush_ok b"
    "LoadGeoCoderFromReader M E L st opts = Some (Inr \<lparr>tree = b, m_regions = Some (fst (load_borders E zones)),
       m_countries = Some (snd (load_borders E zones)), m_searchRadius = o_searchRadius (loadOptions opts)\<rparr>)"
    by (rule loaded_in_memory [OF load])
  have opt: "optimizePoints pts = map opt_point pts" by (simp add: optimizePoints_def opt_point_def [abs_def])
  have fin: "\<forall>p \<in> set (map opt_point pts). is_fin (pX p) \<and> is_fin (pY p)" using ok by (auto simp: search_ok_def opt_point_def)
  obtain b' where b': "NewBush M (map opt_point pts) DefaultNodeSize = Some b'" "points b' = map opt_point pts" "bush_ok b'" "bush_sorted b'"
    using NewBush_ok [of M "map opt_point pts" DefaultNodeSize] fin_no_nan [OF fin] load(2) by (metis length_map)
  have bb: "b' = b" using b(1) b'(1) opt by simp
  have k: "0 \<le> f64_key radius" using ok by (simp add: search_ok_def f64_nonneg_iff)
  have pf: "\<forall>p \<in> set (points b). is_fin (pX p) \<and> is_fin (pY p)" using fin b'(2) bb by simp
  have qf: "bush_sorted b" "is_fin lon" "is_fin lat" "is_fin radius" using b'(4) bb ok by (simp_all add: search_ok_def)
  obtain ps where ps: "mset ps \<subseteq># filter_mset (\<lambda>p. sqrtDist (pX p) (pY p) lon lat \<le> radius * radius) (mset (points b))"
    "filter_mset (\<lambda>p. sqrtDist (pX p) (pY p) lon lat < radius * radius) (mset (points b)) \<subseteq># mset ps"
    "\<And>(h :: (geo_info, (geo_info option \<times> f64) option) handler) s. Within b lon lat radius h s = Some (fst (run_handler h ps s))"
    by (rule Within_points [OF b(2) qf(1) pf qf(2-4) k, where 's = "(geo_info option \<times> f64) option"]) blast
  have pts: "points b = map opt_point pts" using b'(2) bb by simp
  have "set_mset (mset ps) \<subseteq> set_mset (filter_mset (\<lambda>p. sqrtDist (pX p) (pY p) lon lat \<le> radius * radius) (mset (points b)))"
    by (rule set_mset_mono [OF ps(1)])
  then have sub: "set ps \<subseteq> opt_point ` {p \<in> set pts. dist_to lat lon p \<le> radius * radius}"
    by (auto simp: pts dist_to_def opt_point_def)
  obtain found where found: "ps = map opt_point found" "set found \<subseteq> {p \<in> set pts. dist_to lat lon p \<le> radius * radius}"
    using list_in_image [OF sub] by blast
  have "set_mset (filter_mset (\<lambda>p. sqrtDist (pX p) (pY p) lon lat < radius * radius) (mset (points b))) \<subseteq> set_mset (mset ps)"
    by (rule set_mset_mono [OF ps(2)])
  then have inside: "{p \<in> set pts. dist_to lat lon p < radius * radius} \<subseteq> set found"
  proof (intro subsetI, elim CollectE conjE)
    fix p
    assume p: "p \<in> set pts" "dist_to lat lon p < radius * radius"
    then have "opt_point p \<in> set ps"
      using \<open>_ \<subseteq> set_mset (mset ps)\<close> by (auto simp: pts dist_to_def opt_point_def)
    then show "p \<in> set found" using found(1) inj_opt_point by auto
  qed
  obtain region where region: "query_border E (Some (fst (load_borders E zones))) lon lat = Some region" "zone_answer E zones ZoneRegion lat lon region"
    using query_border_answer [OF q] by (simp only: load_borders_split fst_conv) blast
  obtain country where country: "query_border E (Some (snd (load_borders E zones))) lon lat = Some country" "zone_answer E zones ZoneCountry lat lon country"
    using query_border_answer [OF q] by (simp only: load_borders_split snd_conv) blast
  note F = FindInRadius_def ps(3) found(1) with_borders_completed [OF region(1) country(1)] by_borders_only [OF region(1) country(1)]
  show thesis
  proof (rule that [OF b(3) region(2) country(2) found(2) inside])
    fix p
    assume "fst (run_handler (keep_better lat lon) (map opt_point found) (Some (None, inf64 False)))
        = Some (Some (pData (opt_point p)), dist_to lat lon p)" "\<not> is_pos_inf (dist_to lat lon p)"
    then show "FindInRadius E \<lparr>tree = b, m_regions = Some (fst (load_borders E zones)),
       m_countries = Some (snd (load_borders E zones)), m_searchRadius = o_searchRadius (loadOptions opts)\<rparr> lat lon radius
       = Some (completed region country (pData p), True)"
      by (simp add: F) (simp add: opt_point_def with_borders_completed [OF region(1) country(1)])
  next
    assume "found = []"
    then show "FindInRadius E \<lparr>tree = b, m_regions = Some (fst (load_borders E zones)),
       m_countries = Some (snd (load_borders E zones)), m_searchRadius = o_searchRadius (loadOptions opts)\<rparr> lat lon radius
       = Some (borders_only region country)"
      by (simp add: F is_pos_inf_def)
  qed
qed

subsection \<open>Properties of a search\<close>

lemma search_answer:
  assumes "LoadFromReader L st = Some (Inr (pts, zones))" and "window_narrows M (length pts)"
    and "qtree_laws (e_qtree E) held" and "length zones < 2 ^ 63" and "search_ok pts lat lon radius"
  shows "\<exists>f region country. LoadGeoCoderFromReader M E L st opts = Some (Inr f)
    \<and> zone_answer E zones ZoneRegion lat lon region \<and> zone_answer E zones ZoneCountry lat lon country
    \<and> ((\<exists>p \<in> set pts. dist_to lat lon p \<le> radius * radius
          \<and> FindInRadius E f lat lon radius = Some (completed region country (pData p), True))
       \<or> (\<forall>p \<in> set pts. \<not> dist_to lat lon p < radius * radius)
          \<and> FindInRadius E f lat lon radius = Some (borders_only region country))"
proof -
  obtain f found region country where S: "LoadGeoCoderFromReader M E L st opts = Some (Inr f)"
    "zone_answer E zones ZoneRegion lat lon region" "zone_answer E zones ZoneCountry lat lon country"
    "set found \<subseteq> {p \<in> set pts. dist_to lat lon p \<le> radius * radius}"
    "{p \<in> set pts. dist_to lat lon p < radius * radius} \<subseteq> set found"
    "\<And>p. p \<in> set found \<Longrightarrow> fst (run_handler (keep_better lat lon) (map opt_point found) (Some (None, inf64 False)))
        = Some (Some (pData (opt_point p)), dist_to lat lon p) \<Longrightarrow> \<not> is_pos_inf (dist_to lat lon p)
        \<Longrightarrow> FindInRadius E f lat lon radius = Some (completed region country (pData p), True)"
    "found = [] \<Longrightarrow> FindInRadius E f lat lon radius = Some (borders_only region country)"
    by (rule memory_search [OF assms]) blast
  show ?thesis
  proof (cases "found = []")
    case True
    then show ?thesis using S(1-3,5) S(7) [OF True] by auto
  next
    case False
    have "\<forall>p \<in> set (map opt_point found). dist_to lat lon p \<le> radius * radius"
      using S(4) by (auto simp: dist_to_def opt_point_def)
    then obtain p' where "p' \<in> set (map opt_point found)" "\<not> is_pos_inf (dist_to lat lon p')"
      "fst (run_handler (keep_better lat lon) (map opt_point found) (Some (None, inf64 False))) = Some (Some (pData p'), dist_to lat lon p')"
      using keep_better_chosen [of "map opt_point found" lat lon "radius * radius"] assms(5) False by (auto simp: search_ok_def)
    then obtain p where p: "p \<in> set found" "p' = opt_point p" by auto
    have "dist_to lat lon p' = dist_to lat lon p" by (simp add: p dist_to_def opt_point_def)
    then have "FindInRadius E f lat lon radius = Some (completed region country (pData p), True)"
      using S(6) [OF p(1)] \<open>\<not> is_pos_inf _\<close> \<open>fst _ = _\<close> p(2) by simp
    then show ?thesis using S(1-4) p(1) by blast
  qed
qed

text \<open>
  C5. A search of a loaded geocoder never panics. Its answer is a point within the radius,
  or, only when no point is nearer than the radius, what the borders alone say. In both cases
  the region and the country come from a zone of that type whose border contains the
  position, and are missing only if there is none; a region stored with the point has
  precedence.
\<close>

theorem FindInRadius_answer:
  assumes "LoadFromReader L st = Some (Inr (pts, zones))" and "window_narrows M (length pts)"
    and "qtree_laws (e_qtree E) held" and "length zones < 2 ^ 63" and "search_ok pts lat lon radius"
  shows "\<exists>f region country. LoadGeoCoderFromReader M E L st opts = Some (Inr f)
    \<and> zone_answer E zones ZoneRegion lat lon region \<and> zone_answer E zones ZoneCountry lat lon country
    \<and> ((\<exists>p \<in> set pts. dist_to lat lon p \<le> radius * radius
          \<and> FindInRadius E f lat lon radius = Some (completed region country (pData p), True))
       \<or> (\<forall>p \<in> set pts. \<not> dist_to lat lon p < radius * radius)
          \<and> FindInRadius E f lat lon radius = Some (borders_only region country))"
  by (rule search_answer [OF assms])

text \<open>
  C13. When all points have the same weight and one is nearer than the radius, the answer is
  a point at the least computed distance among all points.
\<close>

theorem FindInRadius_nearest:
  assumes "LoadFromReader L st = Some (Inr (pts, zones))" and "window_narrows M (length pts)"
    and "qtree_laws (e_qtree E) held" and "length zones < 2 ^ 63" and "search_ok pts lat lon radius"
    and "\<forall>p \<in> set pts. ci_Weight (pData p) = w" and "\<exists>p \<in> set pts. dist_to lat lon p < radius * radius"
  shows "\<exists>f region country p. LoadGeoCoderFromReader M E L st opts = Some (Inr f)
    \<and> p \<in> set pts \<and> (\<forall>q \<in> set pts. dist_to lat lon p \<le> dist_to lat lon q)
    \<and> FindInRadius E f lat lon radius = Some (completed region country (pData p), True)"
proof -
  obtain f found region country where S: "LoadGeoCoderFromReader M E L st opts = Some (Inr f)"
    "zone_answer E zones ZoneRegion lat lon region" "zone_answer E zones ZoneCountry lat lon country"
    "set found \<subseteq> {p \<in> set pts. dist_to lat lon p \<le> radius * radius}"
    "{p \<in> set pts. dist_to lat lon p < radius * radius} \<subseteq> set found"
    "\<And>p. p \<in> set found \<Longrightarrow> fst (run_handler (keep_better lat lon) (map opt_point found) (Some (None, inf64 False)))
        = Some (Some (pData (opt_point p)), dist_to lat lon p) \<Longrightarrow> \<not> is_pos_inf (dist_to lat lon p)
        \<Longrightarrow> FindInRadius E f lat lon radius = Some (completed region country (pData p), True)"
    "found = [] \<Longrightarrow> FindInRadius E f lat lon radius = Some (borders_only region country)"
    by (rule memory_search [OF assms(1-5)]) blast
  have d: "dist_to lat lon (opt_point q) = dist_to lat lon q" "g_Weight (pData (opt_point q)) = ci_Weight (pData q)" for q
    by (simp_all add: dist_to_def opt_point_def geo_info_of_def)
  have "found \<noteq> []" using S(5) assms(7) by auto
  moreover have "\<forall>p \<in> set (map opt_point found). dist_to lat lon p \<le> radius * radius \<and> g_Weight (pData p) = w"
    using S(4) assms(6) by (auto simp: d)
  moreover have "\<not> is_pos_inf (radius * radius)" using assms(5) by (simp add: search_ok_def)
  ultimately obtain p' where p': "p' \<in> set (map opt_point found)" "\<forall>q \<in> set (map opt_point found). dist_to lat lon p' \<le> dist_to lat lon q"
    "\<not> is_pos_inf (dist_to lat lon p')"
    "fst (run_handler (keep_better lat lon) (map opt_point found) (Some (None, inf64 False))) = Some (Some (pData p'), dist_to lat lon p')"
    using keep_better_nearest [of "map opt_point found" lat lon "radius * radius" w] by blast
  then obtain p where p: "p \<in> set found" "p' = opt_point p" by auto
  have ans: "FindInRadius E f lat lon radius = Some (completed region country (pData p), True)"
    using S(6) [OF p(1)] p'(3,4) by (simp add: p(2) d)
  have "dist_to lat lon p \<le> dist_to lat lon q" if q: "q \<in> set pts" for q
  proof (cases "q \<in> set found")
    case True
    then show ?thesis using p'(2) by (simp add: p(2) d)
  next
    case False
    then have "\<not> dist_to lat lon q < radius * radius" using S(5) q by blast
    moreover have "\<not> is_nan (dist_to lat lon q)" using q assms(5) dist_to_not_nan unfolding search_ok_def by blast
    moreover have "dist_to lat lon p \<le> radius * radius" using S(4) p(1) by blast
    ultimately show ?thesis by (auto simp: less_f64_def less_eq_f64_def)
  qed
  then show ?thesis using S(1,4) p(1) ans by blast
qed

subsection \<open>Small geocoders\<close>

text \<open>A geocoder of points alone has no borders.\<close>

lemma no_borders:
  assumes "qtree_laws (e_qtree E) held"
  shows "query_border E (Some (NewBorderTree (e_qtree E))) lon lat = Some None"
proof -
  have "NewBorderTree (e_qtree E) = insert_all (e_orb E) (e_qtree E) [] (NewBorderTree (e_qtree E))" by (simp add: insert_all_def)
  from QueryPoint_answer [OF assms _ this, of "(lon, lat)"]
  obtain a :: "gostring option" where a: "QueryPoint (e_orb E) (e_qtree E) (NewBorderTree (e_qtree E)) (lon, lat) = Some a" "a \<noteq> None \<Longrightarrow> False"
    by auto
  then show ?thesis by (cases a) (simp_all add: query_border_def)
qed

text \<open>A node size of 128 leaves up to 129 points in their order, and a search visits those in the radius.\<close>

lemma small_search:
  assumes "qtree_laws (e_qtree E) held" "length pts \<le> 129"
    and "fst (run_handler (keep_better lat lon) (map opt_point (filter (\<lambda>p. dist_to lat lon p \<le> radius * radius) pts)) (Some (None, inf64 False)))
      = Some (Some (pData (opt_point q)), d)" "\<not> is_pos_inf d"
  obtains f where "NewGeoCoderFromPoints M E pts opts = Some f" "FindInRadius E f lat lon radius = Some (completed None None (pData q), True)"
proof -
  let ?ps = "map opt_point pts"
  let ?b = "\<lparr>nodeSize = 128, points = ?ps, arrays = initial_arrays ?ps\<rparr>"
  let ?q = "\<lparr>c_x = lon, c_y = lat, c_r = radius, c_r2 = radius * radius\<rparr>"
  have opt: "optimizePoints pts = ?ps" by (simp add: optimizePoints_def opt_point_def [abs_def])
  have b: "NewBush M (optimizePoints pts) 128 = Some ?b"
    using assms(2) by (simp add: opt NewBush_def buildIndex_def kd_sort.simps)
  have ok: "bush_ok ?b" by (simp add: bush_ok_def initial_arrays_ok)
  have t: "point_at ?b t = ?ps ! nat (fst t) \<and> (circle_hit ?q t \<longleftrightarrow> dist_to lat lon (point_at ?b t) \<le> radius * radius)" if "t \<in> set (bush_items ?ps)" for t
    using that by (auto simp: point_at_def bush_items_def circle_hit_def sq_dist_def dist_to_def)
  have v: "circle_visit ?b ?q (0, int (length ?ps) - 1, 0) = filter (circle_hit ?q) (bush_items ?ps)"
    using assms(2) seg_all [of "bush_items ?ps"] by (simp add: visit.simps initial_arrays_ok(2) bush_items_def)
  have "map (point_at ?b) (filter (circle_hit ?q) (bush_items ?ps)) = filter (\<lambda>p. dist_to lat lon p \<le> radius * radius) (map (point_at ?b) (bush_items ?ps))"
    unfolding filter_map by (intro arg_cong [where f = "map (point_at ?b)"] filter_cong) (use t in auto)
  also have "map (point_at ?b) (bush_items ?ps) = ?ps" using point_at_items [of ?b] by simp
  also have "filter (\<lambda>p. dist_to lat lon p \<le> radius * radius) ?ps = map opt_point (filter (\<lambda>p. dist_to lat lon p \<le> radius * radius) pts)"
    by (simp add: filter_map comp_def dist_to_def opt_point_def)
  finally have w: "Within ?b lon lat radius (keep_better lat lon) (Some (None, inf64 False)) = Some (Some (Some (pData (opt_point q)), d))"
    using Within_visit [OF ok, of lon lat radius "keep_better lat lon" "Some (None, inf64 False)"] v assms(3) by simp
  let ?f = "newRGeoCoder ?b (Some (NewBorderTree (e_qtree E))) (Some (NewBorderTree (e_qtree E))) opts"
  have n: "query_border E (Some (NewBorderTree (e_qtree E))) lon lat = Some None" by (rule no_borders [OF assms(1)])
  have "FindInRadius E ?f lat lon radius = Some (completed None None (pData q), True)"
    using w assms(4) by (simp add: FindInRadius_def newRGeoCoder_def) (simp add: opt_point_def with_borders_completed [OF n n])
  then show thesis using that b by (simp add: NewGeoCoderFromPoints_def)
qed

text \<open>
  C27. With different weights the rule of the search, nearer or heavier than the last choice,
  can end at a point that another point beats in both. Let a geocoder of at most 129 points
  have three of them in the radius: \<open>a\<close>, then a farther and heavier \<open>b\<close>, then \<open>c\<close>, nearer than \<open>b\<close>
  but farther than \<open>a\<close> and lighter than it. The answer is \<open>c\<close>, although \<open>a\<close> is nearer and heavier;
  with the same three in the order \<open>b\<close>, \<open>c\<close>, \<open>a\<close> it is \<open>a\<close>.
\<close>

theorem dominated_answer:
  assumes "qtree_laws (e_qtree E) held" and "\<not> is_pos_inf (radius * radius)"
    and "length pts \<le> 129" and "filter (\<lambda>p. dist_to lat lon p \<le> radius * radius) pts = [a, b, c]"
    and "dist_to lat lon a < dist_to lat lon c" and "dist_to lat lon c < dist_to lat lon b"
    and "ci_Weight (pData c) < ci_Weight (pData a)" and "ci_Weight (pData a) < ci_Weight (pData b)"
  shows "\<exists>f g. NewGeoCoderFromPoints M E pts opts = Some f
     \<and> FindInRadius E f lat lon radius = Some (completed None None (pData c), True)
     \<and> NewGeoCoderFromPoints M E [b, c, a] opts = Some g
     \<and> FindInRadius E g lat lon radius = Some (completed None None (pData a), True)"
proof -
  let ?hit = "\<lambda>p. dist_to lat lon p \<le> radius * radius"
  have d: "dist_to lat lon (opt_point p) = dist_to lat lon p" "g_Weight (pData (opt_point p)) = ci_Weight (pData p)" for p
    by (simp_all add: dist_to_def opt_point_def geo_info_of_def)
  have hits: "?hit a" "?hit b" "?hit c"
    using arg_cong [OF assms(4), of set] by (auto simp: set_eq_iff)
  have fin: "\<not> is_pos_inf (dist_to lat lon p)" "keep_better lat lon (opt_point p) (Some (None, inf64 False)) = (Some (Some (pData (opt_point p)), dist_to lat lon p), True)"
    if "?hit p" for p
    using below_finite(2) [OF that assms(2)] keep_better_first [of lat lon "opt_point p", OF _ assms(2)] that by (simp_all add: d)
  have "fst (run_handler (keep_better lat lon) (map opt_point (filter ?hit pts)) (Some (None, inf64 False)))
      = Some (Some (pData (opt_point c)), dist_to lat lon c)"
    using assms(6,8) by (simp add: assms(4) fin(2) [OF hits(1)] keep_better_next d)
  from small_search [OF assms(1,3) this fin(1) [OF hits(3)]]
  obtain f where f: "NewGeoCoderFromPoints M E pts opts = Some f" "FindInRadius E f lat lon radius = Some (completed None None (pData c), True)"
    by blast
  have "fst (run_handler (keep_better lat lon) (map opt_point (filter ?hit [b, c, a])) (Some (None, inf64 False)))
      = Some (Some (pData (opt_point a)), dist_to lat lon a)"
    using assms(5,6) hits by (simp add: fin(2) [OF hits(2)] keep_better_next d)
  from small_search [OF assms(1) _ this fin(1) [OF hits(1)], of M opts]
  obtain g where "NewGeoCoderFromPoints M E [b, c, a] opts = Some g" "FindInRadius E g lat lon radius = Some (completed None None (pData a), True)"
    by auto
  then show ?thesis using f by blast
qed

definition dominated_pts :: "cache_point list" where
  "dominated_pts = map (\<lambda>(x, wt). \<lparr>pX = f64_of_int x, pY = f64_of_int 0, pData = \<lparr>ci_Name = [of_nat (nat x)], ci_Street = [],
     ci_HouseNumber = [], ci_City = [], ci_Region = [], ci_Weight = wt\<rparr>\<rparr>) [(1, 2), (3, 5), (2, 1), (9, 9)]"

lemma dominated_answer_witness:
  "\<exists>f. NewGeoCoderFromPoints sample_lib sample_env dominated_pts [] = Some f
     \<and> FindInRadius sample_env f (f64_of_int 0) (f64_of_int 0) (f64_of_int 4) = Some (empty_info\<lparr>Name := [2], gm_Weight := 1\<rparr>, True)"
proof -
  have q: "qtree_laws (e_qtree sample_env) set" by (simp add: sample_env_def list_qtree_laws)
  have d: "dist_to (f64_of_int 0) (f64_of_int 0) \<lparr>pX = f64_of_int x, pY = f64_of_int 0, pData = g\<rparr> = f64_of_int (x * x)"
    if "x \<in> {1, 2, 3, 9}" for x and g :: cache_info
    using that by (auto simp: dist_to_def sqrtDist_def small_int_def)
  have r: "\<not> is_pos_inf (f64_of_int 4 * f64_of_int 4)"
    using small_int_exact(2) [of 16] by (simp add: small_int_def is_pos_inf_def is_fin_iff)
  have f: "filter (\<lambda>p. dist_to (f64_of_int 0) (f64_of_int 0) p \<le> f64_of_int 4 * f64_of_int 4) dominated_pts
      = [dominated_pts ! 0, dominated_pts ! 1, dominated_pts ! 2]" "length dominated_pts \<le> 129"
    by (simp_all add: dominated_pts_def d small_int_def)
  have "completed None None (pData (dominated_pts ! 2)) = empty_info\<lparr>Name := [2], gm_Weight := 1\<rparr>"
    by (simp add: dominated_pts_def completed_def empty_info_def)
  moreover have "dist_to (f64_of_int 0) (f64_of_int 0) (dominated_pts ! 0) < dist_to (f64_of_int 0) (f64_of_int 0) (dominated_pts ! 2)"
    "dist_to (f64_of_int 0) (f64_of_int 0) (dominated_pts ! 2) < dist_to (f64_of_int 0) (f64_of_int 0) (dominated_pts ! 1)"
    "ci_Weight (pData (dominated_pts ! 2)) < ci_Weight (pData (dominated_pts ! 0))" "ci_Weight (pData (dominated_pts ! 0)) < ci_Weight (pData (dominated_pts ! 1))"
    by (simp_all add: dominated_pts_def d small_int_def)
  ultimately show ?thesis
    using dominated_answer [OF q r f(2,1), of sample_lib "[]"] by auto
qed

lemma sample_loaded:
  "LoadFromReader sample_loaders (stream_of (MAGIC_BYTES @ put_u32 1 @ put_u32 1 @ [0, 0, 0, 0, 0])) = Some (Inr (sample_pts, stored_zones sample_zones))"
  by (rule v1_file_loaded [OF buffer_write_ok, where s = "[]" and s' = "MAGIC_BYTES @ put_u32 1 @ put_u32 1 @ [0, 0, 0, 0, 0]"
      and vis = "\<lambda>kvs. kvs" and meta = sample_meta])
    (use sample_v1_ok sample_calendar_readable(1) sample_SaveV1 in
      \<open>simp_all add: sample_loaders_def whole_stream_of, simp_all add: sample_pts_def sample_zones_def\<close>)

lemma sample_search:
  "window_narrows sample_lib (length sample_pts)" "qtree_laws (e_qtree sample_env) set" "length (stored_zones sample_zones) < 2 ^ 63"
  "search_ok sample_pts (f64_of_int 50) (f64_of_int 30) (f64_of_int 2)"
  "p \<in> set sample_pts \<Longrightarrow> dist_to (f64_of_int 50) (f64_of_int 30) p = f64_of_int 0"
proof -
  have f: "is_fin (f64_of_int 50)" "is_fin (f64_of_int 30)" "is_fin (f64_of_int 2)" "is_fin (f64_of_int 4)"
    by (simp_all add: small_int_exact small_int_def)
  show "window_narrows sample_lib (length sample_pts)" by (simp add: small_window_narrows sample_pts_def)
  show "qtree_laws (e_qtree sample_env) set" by (simp add: sample_env_def list_qtree_laws)
  show "length (stored_zones sample_zones) < 2 ^ 63" by (simp add: stored_zones_def sample_zones_def)
  show "search_ok sample_pts (f64_of_int 50) (f64_of_int 30) (f64_of_int 2)"
    using f by (simp add: search_ok_def sample_pts_def is_pos_inf_def is_fin_iff small_int_def)
  show "p \<in> set sample_pts \<Longrightarrow> dist_to (f64_of_int 50) (f64_of_int 30) p = f64_of_int 0"
    by (simp add: sample_pts_def dist_to_def sqrtDist_def small_int_def)
qed

lemma FindInRadius_answer_witness:
  "\<exists>f region country. LoadGeoCoderFromReader sample_lib sample_env sample_loaders
      (stream_of (MAGIC_BYTES @ put_u32 1 @ put_u32 1 @ [0, 0, 0, 0, 0])) [] = Some (Inr f)
    \<and> FindInRadius sample_env f (f64_of_int 50) (f64_of_int 30) (f64_of_int 2)
       = Some (completed region country (pData (hd sample_pts)), True)"
proof -
  have one: "\<And>p. p \<in> set sample_pts \<Longrightarrow> p = hd sample_pts" "hd sample_pts \<in> set sample_pts" by (simp_all add: sample_pts_def)
  have "dist_to (f64_of_int 50) (f64_of_int 30) (hd sample_pts) < f64_of_int 2 * f64_of_int 2"
    using sample_search(5) [OF one(2)] by (simp add: small_int_def)
  then show ?thesis
    using FindInRadius_answer [OF sample_loaded sample_search(1-4), of "[]"] one by blast
qed

lemma FindInRadius_nearest_witness:
  "\<exists>f region country. LoadGeoCoderFromReader sample_lib sample_env sample_loaders
      (stream_of (MAGIC_BYTES @ put_u32 1 @ put_u32 1 @ [0, 0, 0, 0, 0])) [WithLogger] = Some (Inr f)
    \<and> FindInRadius sample_env f (f64_of_int 50) (f64_of_int 30) (f64_of_int 2)
       = Some (completed region country (pData (hd sample_pts)), True)"
proof -
  have one: "\<And>p. p \<in> set sample_pts \<Longrightarrow> p = hd sample_pts" "hd sample_pts \<in> set sample_pts" by (simp_all add: sample_pts_def)
  have d: "dist_to (f64_of_int 50) (f64_of_int 30) (hd sample_pts) < f64_of_int 2 * f64_of_int 2"
    using sample_search(5) [OF one(2)] by (simp add: small_int_def)
  have w: "\<forall>p \<in> set sample_pts. ci_Weight (pData p) = ci_Weight (pData (hd sample_pts))" using one(1) by metis
  show ?thesis
    using FindInRadius_nearest [OF sample_loaded sample_search(1-4) w, of "[WithLogger]"] d one by blast
qed

text \<open>
  Opening a file in place fails on a file that cannot be mapped, that is shorter than its
  first eight bytes, that does not begin with the magic bytes, or whose level is not the
  v2 level, with the error of the check that failed, whatever else the file holds.
\<close>

theorem disk_open_rejects:
  assumes "fs_mmap F name = Inr r" and "reads_file r bytes"
  shows "(length bytes < 4 \<longrightarrow> (\<exists>e. LoadGeoCoderFromFileDisk F E L name opts = Some (Inl (Wrap ''error reading magic bytes'' e))))
    \<and> (4 \<le> length bytes \<and> take 4 bytes \<noteq> MAGIC_BYTES
        \<longrightarrow> LoadGeoCoderFromFileDisk F E L name opts = Some (Inl (Err ''invalid magic bytes'')))
    \<and> (take 4 bytes = MAGIC_BYTES \<and> length bytes < 8
        \<longrightarrow> (\<exists>e. LoadGeoCoderFromFileDisk F E L name opts = Some (Inl (Wrap ''error reading compatibility level'' e))))
    \<and> (take 4 bytes = MAGIC_BYTES \<and> 8 \<le> length bytes \<and> u32_of (drop 4 bytes) \<noteq> COMPATIBILITY_LEVEL_v2
        \<longrightarrow> LoadGeoCoderFromFileDisk F E L name opts = Some (Inl (Err ''expected v2 cache'')))"
proof -
  have full: "read_full r off n = Inr (take n (drop (nat off) bytes))" if "0 \<le> off" "off + int n \<le> int (length bytes)" for off n
    using read_full_file [OF assms(2) that] .
  have short: "\<exists>e. read_full r off n = Inl e" if h: "0 \<le> off" "off \<le> int (length bytes)" "int (length bytes) < off + int n" for off n
  proof -
    obtain bs e where "r off n = (bs, Some e)"
      using assms(2) [unfolded reads_file_def, THEN conjunct2, rule_format, of off n] h by (cases "r off n") auto
    then show ?thesis by (simp add: read_full_def)
  qed
  have four: "4 \<le> length bytes" if "take 4 bytes = MAGIC_BYTES"
    using arg_cong [OF that, of length] by (simp add: MAGIC_BYTES_def)
  have lvl: "u32_of (take 4 (drop 4 bytes)) = u32_of (drop 4 bytes)" by (simp add: u32_of_def)
  show ?thesis
    using short [of 0 4] short [of 4 4] full [of 0 4] full [of 4 4] four lvl
    by (auto simp: LoadGeoCoderFromFileDisk_def assms(1) step_def)
qed

lemma disk_open_rejects_witness:
  "LoadGeoCoderFromFileDisk (sample_files (MAGIC_BYTES @ put_u32 1)) sample_env sample_loaders [] [] = Some (Inl (Err ''expected v2 cache''))"
  using u32_of_put [of "1 :: u32" "[]"]
    disk_open_rejects [of "sample_files (MAGIC_BYTES @ put_u32 1)" "[]" _ "MAGIC_BYTES @ put_u32 1" sample_env sample_loaders "[]"]
  by (simp add: sample_files_def file_reader_ok COMPATIBILITY_LEVEL_v2_def MAGIC_BYTES_def)

text \<open>The first point that a search visits.\<close>

definition visited :: "'q r_geo_coder \<Rightarrow> f64 \<Rightarrow> f64 \<Rightarrow> f64 \<Rightarrow> geo_info point list option" where
  "visited f lat lon radius = Within (tree f) lon lat radius (\<lambda>p acc. (acc @ [p], True)) []"

lemma run_collect: "run_handler (\<lambda>p acc. (acc @ [p], True)) ps acc = (acc @ ps, True)"
  by (induction ps arbitrary: acc) simp_all

lemma points_indexed:
  assumes "window_narrows M (length pts)" "NewGeoCoderFromPoints M E pts opts = Some f"
  shows "bush_ok (tree f)" and "points (tree f) = map opt_point pts"
proof -
  have "window_narrows M (length (map opt_point pts))" using assms(1) by simp
  then obtain b where "NewBush M (map opt_point pts) 128 = Some b" "bush_ok b" "points b = map opt_point pts"
    using NewBush_ok [of M "map opt_point pts" 128] by metis
  moreover have "optimizePoints pts = map opt_point pts" by (simp add: optimizePoints_def opt_point_def [abs_def])
  ultimately show "bush_ok (tree f)" "points (tree f) = map opt_point pts"
    using assms(2) by (auto simp: NewGeoCoderFromPoints_def newRGeoCoder_def)
qed

lemma far_point_panics:
  assumes "bush_ok (tree f)" "visited f lat lon radius = Some (p # ps)" "is_pos_inf (dist_to lat lon p)"
  shows "FindInRadius E f lat lon radius = None"
proof -
  obtain vs where vs: "\<And>(h :: (geo_info, geo_info point list) handler) s. Within (tree f) lon lat radius h s = Some (fst (run_handler h vs s))"
    "\<And>(h :: (geo_info, (geo_info option \<times> f64) option) handler) s. Within (tree f) lon lat radius h s = Some (fst (run_handler h vs s))"
    by (rule that [OF Within_visit [OF assms(1)] Within_visit [OF assms(1)]])
  have "vs = p # ps" using assms(2) by (simp add: visited_def vs(1) run_collect)
  moreover have "\<not> dist_to lat lon p < inf64 False"
    using assms(3) by (auto simp: less_f64_def is_pos_inf_def is_inf_def f64_key_def f64_inf_key)
  then have "keep_better lat lon p (Some (None, inf64 False)) = (None, False)"
    by (simp add: keep_better_def Let_def distanceSquared_sqrtDist dist_to_def)
  ultimately show ?thesis by (simp add: FindInRadius_def vs(2))
qed

lemma all_far_visited:
  assumes "bush_ok (tree f)" "points (tree f) \<noteq> []" "\<forall>p \<in> set (points (tree f)). dist_to lat lon p \<le> radius * radius"
  obtains p ps where "visited f lat lon radius = Some (p # ps)" "p \<in> set (points (tree f))"
proof -
  let ?b = "tree f" and ?q = "\<lparr>c_x = lon, c_y = lat, c_r = radius, c_r2 = radius * radius\<rparr>"
  let ?n = "int (length (points ?b))" and ?xs = "items (arrays ?b)"
  let ?v = "circle_visit ?b ?q (0, ?n - 1, 0)"
  have len: "length (idxs (arrays ?b)) = length (points ?b)" by (rule bush_okD(2) [OF assms(1)])
  have t: "point_at ?b t \<in> set (points ?b) \<and> circle_hit ?q t" if h: "t \<in> set ?xs" for t
  proof -
    obtain k where k: "k < length (points ?b)" "t = item_of (points ?b) k" using bush_okD(3) [OF assms(1)] h by auto
    then show ?thesis using assms(3) nth_mem [OF k(1)] by (simp add: point_at_def circle_hit_def sq_dist_def dist_to_def)
  qed
  have "seg ?xs 0 (?n - 1) = ?xs" using seg_all [of ?xs] len by simp
  then have sub: "set ?v \<subseteq> set ?xs"
    using set_mset_mono [OF visit_sound [of "nodeSize ?b" "circle_hit ?q" "circle_left ?q" "circle_right ?q" ?xs 0 "?n - 1" 0]] by auto
  have "0 < ?n" using assms(2) by simp
  then have "nat (midpoint 0 (?n - 1)) < length (points ?b)" unfolding midpoint_def by linarith
  then have mid: "?xs ! nat (midpoint 0 (?n - 1)) \<in> set ?xs" using len by (intro nth_mem) simp
  have "?v \<noteq> []"
  proof (cases "?n - 1 \<le> int (nodeSize ?b)")
    case True
    have "?xs \<noteq> []" using assms(2) len by (metis length_0_conv length_items)
    then have "filter (circle_hit ?q) ?xs \<noteq> []" using t by (simp add: filter_empty_conv)
    then show ?thesis using True \<open>seg _ _ _ = _\<close> by (simp add: visit.simps)
  next
    case False
    then show ?thesis using t [OF mid] by (simp add: visit.simps [of _ _ _ _ _ 0])
  qed
  then obtain t ts where v: "?v = t # ts" by (cases ?v) auto
  then have "t \<in> set ?xs" using sub by (metis list.set_intros(1) subsetD)
  then show thesis
    using that [of "point_at ?b t" "map (point_at ?b) ts"] t v
    by (simp add: visited_def Within_visit [OF assms(1)] run_collect)
qed

text \<open>
  C28. A search in memory panics when the first point it visits is at an infinite distance:
  no choice has been made yet, and the weights are compared all the same. So does every
  search whose squared radius is infinite in a geocoder that has points, all of them at an
  infinite distance, as they are from an infinite or very large latitude.
\<close>

theorem infinite_distance_panics:
  assumes "window_narrows M (length pts)" and "NewGeoCoderFromPoints M E pts opts = Some f"
  shows "(\<forall>p ps. visited f lat lon radius = Some (p # ps) \<longrightarrow> is_pos_inf (dist_to lat lon p) \<longrightarrow> FindInRadius E f lat lon radius = None)
    \<and> (pts \<noteq> [] \<longrightarrow> is_pos_inf (radius * radius) \<longrightarrow> (\<forall>p \<in> set pts. is_pos_inf (dist_to lat lon p)) \<longrightarrow> FindInRadius E f lat lon radius = None)"
proof -
  note b = points_indexed [OF assms]
  have "FindInRadius E f lat lon radius = None"
    if "pts \<noteq> []" "is_pos_inf (radius * radius)" "\<forall>p \<in> set pts. is_pos_inf (dist_to lat lon p)"
  proof -
    have far: "\<forall>p \<in> set (points (tree f)). is_pos_inf (dist_to lat lon p)" using that(3) by (simp add: b(2) dist_to_def opt_point_def)
    have "\<not> is_nan d \<and> f64_key d = int inf_mag" if "is_pos_inf d" for d
      using that by (auto simp: is_pos_inf_def is_inf_def is_nan_def f64_key_def)
    then have "\<forall>p \<in> set (points (tree f)). dist_to lat lon p \<le> radius * radius" using far that(2) by (simp add: less_eq_f64_def)
    moreover have "points (tree f) \<noteq> []" using that(1) by (simp add: b(2))
    ultimately obtain p ps where "visited f lat lon radius = Some (p # ps)" "p \<in> set (points (tree f))" using all_far_visited [OF b(1)] by blast
    then show ?thesis using far_point_panics [OF b(1)] far by blast
  qed
  then show ?thesis using far_point_panics [OF b(1)] by blast
qed

lemma infinitely_far:
  assumes "is_fin (pX p)" and "is_fin (pY p)"
  shows "is_pos_inf (dist_to (inf64 False) 0 p)"
proof -
  have fin: "is_fin (0 :: f64)" by (simp add: is_fin_def zero_f64_def f64_mag_def inf_mag_pos)
  let ?d = "sqrtDist (pX p) (pY p) 0 (inf64 False)"
  have dx: "\<not> is_nan (pX p - 0)" using f64_sub_fin(1) [OF assms(1) fin] .
  have "pY p - inf64 False = - inf64 False" using assms(2) by (simp add: minus_f64_def plus_f64_def is_fin_iff)
  then have dy: "(pY p - inf64 False) * (pY p - inf64 False) = inf64 False" by (simp add: f64_square_inf)
  have sum: "\<not> is_nan ?d" "int inf_mag \<le> f64_key ?d"
    using f64_add_nonneg(1,3) [OF f64_square_nonneg(1) [OF dx], of "inf64 False"] f64_square_nonneg(2) [OF dx]
    by (simp_all add: sqrtDist_def Let_def dy)
  then have "\<not> ?d < inf64 False" by (simp add: less_f64_def)
  then show ?thesis using below_finite(1) [of ?d ?d] sum(1) f64_le_refl [of ?d] by (auto simp: dist_to_def)
qed

lemma infinite_distance_panics_witness:
  "\<exists>f. NewGeoCoderFromPoints sample_lib sample_env sample_pts [] = Some f
     \<and> FindInRadius sample_env f (inf64 False) 0 (inf64 False) = None"
proof -
  have w: "window_narrows sample_lib (length sample_pts)" by (rule sample_search(1))
  then have "window_narrows sample_lib (length (optimizePoints sample_pts))" by (simp add: optimizePoints_def)
  then obtain b where "NewBush sample_lib (optimizePoints sample_pts) 128 = Some b"
    using NewBush_ok by blast
  then obtain f where f: "NewGeoCoderFromPoints sample_lib sample_env sample_pts [] = Some f"
    by (simp add: NewGeoCoderFromPoints_def)
  have "\<forall>p \<in> set sample_pts. is_pos_inf (dist_to (inf64 False) 0 p)"
    by (intro ballI infinitely_far) (simp_all add: sample_pts_def small_int_exact small_int_def)
  moreover have "is_pos_inf (inf64 False * inf64 False)" by (simp add: f64_square_inf is_pos_inf_def)
  moreover have "sample_pts \<noteq> []" by (simp add: sample_pts_def)
  ultimately show ?thesis using infinite_distance_panics [OF w f] f by blast
qed

end
