(* ===== verification/GeomMaker.thy ===== *)
theory GeomMaker
  imports BorderTree StringTable
begin

section \<open>Polygons from relations\<close>

text \<open>
  \<^verbatim>\<open>geoparser/geommaker.go\<close>: the ways of an OpenStreetMap relation are joined end to end to
  rings, and the rings are assembled to polygons with holes. The database of nodes and ways
  and the operations of \<^verbatim>\<open>orb\<close> on points and rings are parameters. A line or a ring is the list
  of its points; a panic is \<^const>\<open>None\<close>. The orientation of a ring is partial: \<^verbatim>\<open>orb\<close> reads the first
  point of the ring, and an empty ring has none.
\<close>

type_synonym line_string = "orb_point list"
type_synonym ring = "orb_point list"
type_synonym polygon = "ring list"

record geometry =
  pt_Equal :: "orb_point \<Rightarrow> orb_point \<Rightarrow> bool"
  pts_Reverse :: "orb_point list \<Rightarrow> orb_point list"
  ring_Orientation :: "ring \<Rightarrow> int option"
  ring_Closed :: "ring \<Rightarrow> bool"
  CCW :: int
  CW :: int

text \<open>Go's \<open>==\<close> of two points, an array of two numbers.\<close>

definition point_eq :: "orb_point \<Rightarrow> orb_point \<Rightarrow> bool" where
  "point_eq p q \<longleftrightarrow> f_eq (fst p) (fst q) \<and> f_eq (snd p) (snd q)"

subsection \<open>Ways\<close>

datatype osm_type = TypeNode | TypeWay | TypeRelation

record osm_node_ref =
  wn_ID :: int
  wn_Lat :: f64
  wn_Lon :: f64

record member =
  m_Type :: osm_type
  m_Role :: string
  m_Ref :: int
  m_Orientation :: int

type_synonym tags = "(gostring \<times> gostring) list"

record osm_way =
  w_ID :: int
  w_Tags :: tags
  w_Nodes :: "osm_node_ref list"

record osm_db =
  GetNode :: "int \<Rightarrow> (f64 \<times> f64) result"
  GetWay :: "int \<Rightarrow> osm_way result"

text \<open>The coordinates of a node, from the way or from the database; none when neither has them.\<close>

definition node_point :: "osm_db \<Rightarrow> osm_node_ref \<Rightarrow> orb_point option" where
  "node_point D node =
     (if \<not> f_eq (wn_Lat node) 0 \<and> \<not> f_eq (wn_Lon node) 0 then Some (wn_Lon node, wn_Lat node)
      else
        (case GetNode D (wn_ID node) of
           Inl e \<Rightarrow> None
         | Inr (lat, lon) \<Rightarrow> if f_eq lat 0 \<and> f_eq lon 0 then None else Some (lon, lat)))"

fun makeLineString :: "osm_db \<Rightarrow> osm_node_ref list \<Rightarrow> line_string" where
  "makeLineString D [] = []"
| "makeLineString D (node # nodes) =
     (case node_point D node of
        None \<Rightarrow> makeLineString D nodes
      | Some p \<Rightarrow> p # makeLineString D nodes)"

subsection \<open>Segments\<close>

record way_segment =
  Index :: u32
  Orientation :: int
  Reversed :: bool
  Line :: line_string

type_synonym multi_segment = "way_segment list"

definition seg_Reverse :: "geometry \<Rightarrow> way_segment \<Rightarrow> way_segment" where
  "seg_Reverse G s = s\<lparr>Reversed := \<not> Reversed s, Line := pts_Reverse G (Line s)\<rparr>"

definition seg_First :: "way_segment \<Rightarrow> orb_point option" where
  "seg_First s = get (Line s) 0"

definition seg_Last :: "way_segment \<Rightarrow> orb_point option" where
  "seg_Last s = get (Line s) (int (length (Line s)) - 1)"

definition ms_First :: "multi_segment \<Rightarrow> orb_point option" where
  "ms_First ms = do { s \<leftarrow> get ms 0; get (Line s) 0 }"

definition ms_Last :: "multi_segment \<Rightarrow> orb_point option" where
  "ms_Last ms = do { s \<leftarrow> get ms (int (length ms) - 1); get (Line s) (int (length (Line s)) - 1) }"

definition ms_LineString :: "multi_segment \<Rightarrow> line_string" where
  "ms_LineString ms = concat (map Line ms)"

text \<open>The two loop variables of \<open>Ring\<close>.\<close>

fun ring_flags :: "int \<Rightarrow> multi_segment \<Rightarrow> bool \<times> bool \<Rightarrow> bool \<times> bool" where
  "ring_flags o' [] fl = fl"
| "ring_flags o' (s # ms) (haveOrient, reversed) =
     (if Orientation s \<noteq> 0
      then ring_flags o' ms (True, if (Orientation s = o') = Reversed s then True else reversed)
      else ring_flags o' ms (haveOrient, reversed))"

text \<open>A ring is turned round when it has the other orientation.\<close>

definition orient :: "geometry \<Rightarrow> int \<Rightarrow> ring \<Rightarrow> ring option" where
  "orient G o' ring = do {
     o2 \<leftarrow> ring_Orientation G ring;
     Some (if o2 \<noteq> o' then pts_Reverse G ring else ring)
   }"

text \<open>The orientation of the ring counts only when no segment has one; it is not asked for otherwise.\<close>

definition ms_Ring :: "geometry \<Rightarrow> int \<Rightarrow> multi_segment \<Rightarrow> ring option" where
  "ms_Ring G o' ms =
     (let ring = concat (map Line ms) in
      case ring_flags o' ms (False, False) of
        (haveOrient, reversed) \<Rightarrow>
          if haveOrient then Some (if reversed then pts_Reverse G ring else ring) else orient G o' ring)"

text \<open>The shoelace sum of \<open>Orientation\<close>, with every point moved by \<open>off\<close>.\<close>

fun shoelace :: "orb_point \<Rightarrow> orb_point \<Rightarrow> orb_point list \<Rightarrow> f64 \<Rightarrow> f64" where
  "shoelace off prev [] area = area"
| "shoelace off prev (p # ps) area =
     shoelace off p ps
       (area + ((fst prev - fst off) * (snd p - snd off) - (fst p - fst off) * (snd prev - snd off)))"

definition ms_Orientation :: "geometry \<Rightarrow> multi_segment \<Rightarrow> int option" where
  "ms_Orientation G ms = do {
     prev \<leftarrow> ms_First ms;
     Some (if 0 < shoelace prev prev (concat (map Line ms)) 0 then CCW G else CW G)
   }"

subsection \<open>Joining\<close>

definition compact :: "multi_segment \<Rightarrow> multi_segment" where
  "compact ms = filter (\<lambda>s. \<not> length (Line s) \<le> 1) ms"

text \<open>\<open>s.Line[1:]\<close> and \<open>s.Line[:len(s.Line)-1]\<close>\<close>

definition drop_first :: "way_segment \<Rightarrow> way_segment option" where
  "drop_first s = (if Line s = [] then None else Some (s\<lparr>Line := tl (Line s)\<rparr>))"

definition drop_last :: "way_segment \<Rightarrow> way_segment option" where
  "drop_last s = (if Line s = [] then None else Some (s\<lparr>Line := butlast (Line s)\<rparr>))"

text \<open>The four ways a segment may continue the current group; the inner option says whether it does.\<close>

definition fit :: "geometry \<Rightarrow> multi_segment \<Rightarrow> orb_point \<Rightarrow> orb_point \<Rightarrow> way_segment \<Rightarrow> multi_segment option option" where
  "fit G current fp lp s = do {
     sf \<leftarrow> seg_First s;
     (if pt_Equal G lp sf then do { s \<leftarrow> drop_first s; Some (Some (current @ [s])) }
      else do {
        sl \<leftarrow> seg_Last s;
        (if pt_Equal G lp sl then do { s \<leftarrow> drop_first (seg_Reverse G s); Some (Some (current @ [s])) }
         else if pt_Equal G fp sl then do { s \<leftarrow> drop_last s; Some (Some (s # current)) }
         else if pt_Equal G fp sf then do { s \<leftarrow> drop_last (seg_Reverse G s); Some (Some (s # current)) }
         else Some None)
      })
   }"

text \<open>The first segment that fits, with its position.\<close>

fun find_fit :: "geometry \<Rightarrow> multi_segment \<Rightarrow> orb_point \<Rightarrow> orb_point \<Rightarrow> multi_segment \<Rightarrow> (nat \<times> multi_segment) option option" where
  "find_fit G current fp lp [] = Some None"
| "find_fit G current fp lp (s # ss) =
     (case fit G current fp lp s of
        None \<Rightarrow> None
      | Some (Some current') \<Rightarrow> Some (Some (0, current'))
      | Some None \<Rightarrow> map_option (map_option (\<lambda>(i, c). (Suc i, c))) (find_fit G current fp lp ss))"

lemma find_fit_bound: "find_fit G current fp lp ss = Some (Some (i, c)) \<Longrightarrow> i < length ss"
  by (induction ss arbitrary: i c) (auto split: option.splits)

definition remove_at :: "nat \<Rightarrow> 'a list \<Rightarrow> 'a list" where
  "remove_at i xs = take i xs @ drop (Suc i) xs"

lemma length_remove_at [simp]: "i < length xs \<Longrightarrow> length (remove_at i xs) = length xs - 1"
  by (simp add: remove_at_def)

text \<open>The inner loop: extend the group until it is a ring or nothing fits.\<close>

function grow :: "geometry \<Rightarrow> multi_segment \<Rightarrow> multi_segment \<Rightarrow> (multi_segment \<times> multi_segment) option" where
  "grow G current segments =
     (if segments = [] then Some (current, segments)
      else
        (case (ms_First current, ms_Last current) of
           (Some fp, Some lp) \<Rightarrow>
             (if pt_Equal G fp lp then Some (current, segments)
              else
                (case find_fit G current fp lp segments of
                   None \<Rightarrow> None
                 | Some None \<Rightarrow> Some (current, segments)
                 | Some (Some (foundAt, current')) \<Rightarrow> grow G current' (remove_at foundAt segments)))
         | _ \<Rightarrow> None))"
  by pat_completeness auto
termination
  by (relation "measure (\<lambda>(G, current, segments). length segments)") (auto dest!: find_fit_bound)

declare grow.simps [simp del]

lemma grow_shorter: "grow G current segments = Some (current', rest) \<Longrightarrow> length rest \<le> length segments"
proof (induction G current segments rule: grow.induct)
  case (1 G current segments)
  from "1.prems" show ?case
    by (subst (asm) grow.simps)
      (auto split: if_splits option.splits prod.splits dest!: "1.IH" dest: find_fit_bound)
qed

function join_loop :: "geometry \<Rightarrow> multi_segment \<Rightarrow> multi_segment list \<Rightarrow> multi_segment list option" where
  "join_loop G segments groups =
     (if segments = [] then Some groups
      else
        (case grow G [last segments] (butlast segments) of
           None \<Rightarrow> None
         | Some (current, rest) \<Rightarrow> join_loop G rest (groups @ [current])))"
  by pat_completeness auto
termination
proof (relation "measure (\<lambda>(G, segments, groups). length segments)", goal_cases)
  case (2 G segments groups p current rest)
  then show ?case using grow_shorter [of G "[last segments]" "butlast segments" current rest]
    by (cases segments) (auto split: if_splits)
qed simp

declare join_loop.simps [simp del]

definition join :: "geometry \<Rightarrow> multi_segment \<Rightarrow> multi_segment list option" where
  "join G segments = join_loop G (compact segments) []"

subsection \<open>Polygons\<close>

text \<open>One edge of the outer ring in the point-in-polygon test.\<close>

definition crosses :: "orb_point \<Rightarrow> orb_point \<times> orb_point \<Rightarrow> bool" where
  "crosses p e =
     (case (p, e) of ((x, y), ((xi, yi), (xj, yj))) \<Rightarrow>
        ((yi > y) \<noteq> (yj > y)) \<and> x < (xj - xi) * (y - yi) / (yj - yi) + xi)"

definition ring_edges :: "ring \<Rightarrow> (orb_point \<times> orb_point) list" where
  "ring_edges outer = (if outer = [] then [] else zip outer (last outer # butlast outer))"

definition point_inside :: "ring \<Rightarrow> orb_point \<Rightarrow> bool" where
  "point_inside outer p = fold (\<lambda>e inside. if crosses p e then \<not> inside else inside) (ring_edges outer) False"

definition polygonContains :: "ring \<Rightarrow> ring \<Rightarrow> bool" where
  "polygonContains outer r = list_ex (point_inside outer) r"

text \<open>\<open>mp[i] = append(mp[i], ring)\<close> for the first polygon that satisfies \<open>P\<close>; a polygon without rings panics.\<close>

fun add_to_first :: "(ring \<Rightarrow> bool) \<Rightarrow> ring \<Rightarrow> multi_polygon \<Rightarrow> multi_polygon option option" where
  "add_to_first P ring [] = Some None"
| "add_to_first P ring (poly # mp) =
     (case poly of
        [] \<Rightarrow> None
      | outer # _ \<Rightarrow>
          if P outer then Some (Some ((poly @ [ring]) # mp))
          else map_option (map_option ((#) poly)) (add_to_first P ring mp))"

definition addToMultiPolygon :: "multi_polygon \<Rightarrow> ring \<Rightarrow> multi_polygon option" where
  "addToMultiPolygon mp ring = do {
     r \<leftarrow> add_to_first (\<lambda>outer. polygonContains outer ring) ring mp;
     (case r of
        Some mp' \<Rightarrow> Some mp'
      | None \<Rightarrow>
          (case mp of
             [] \<Rightarrow> Some [[[], ring]]
           | poly # mps \<Rightarrow> do {
               fr \<leftarrow> get poly 0;
               (if fr \<noteq> [] \<and> \<not> point_eq (hd fr) (last fr) then Some ((poly @ [ring]) # mps)
                else do {
                  r \<leftarrow> add_to_first (\<lambda>outer. length outer = 0) ring mp;
                  (case r of Some mp' \<Rightarrow> Some mp' | None \<Rightarrow> Some (mp @ [[[], ring]]))
                })
             }))
   }"

text \<open>The loop over the members of a relation: the outer and the inner segments, and the number of outer members.\<close>

definition add_member :: "osm_db \<Rightarrow> member \<Rightarrow> multi_segment \<times> multi_segment \<times> nat \<Rightarrow> multi_segment \<times> multi_segment \<times> nat" where
  "add_member D m acc =
     (case acc of (outer, inner, outerCount) \<Rightarrow>
        if m_Type m \<noteq> TypeWay then acc
        else if m_Role m \<noteq> ''inner'' \<and> m_Role m \<noteq> ''outer'' then acc
        else
          let outerCount = (if m_Role m = ''outer'' then outerCount + 1 else outerCount) in
          (case GetWay D (m_Ref m) of
             Inl e \<Rightarrow> (outer, inner, outerCount)
           | Inr way \<Rightarrow>
               if length (w_Nodes way) = 0 then (outer, inner, outerCount)
               else
                 let s = \<lparr>Index = 0, Orientation = m_Orientation m, Reversed = False, Line = makeLineString D (w_Nodes way)\<rparr> in
                 if m_Role m = ''outer'' then (outer @ [s], inner, outerCount)
                 else (outer, inner @ [s], outerCount)))"

definition valid_ring :: "geometry \<Rightarrow> ring \<Rightarrow> bool" where
  "valid_ring G ring \<longleftrightarrow> \<not> (length ring < 4 \<or> \<not> ring_Closed G ring)"

definition add_hole :: "geometry \<Rightarrow> multi_segment \<Rightarrow> multi_polygon \<Rightarrow> multi_polygon option" where
  "add_hole G sec mp = do { ring \<leftarrow> ms_Ring G (CW G) sec; addToMultiPolygon mp ring }"

definition buildPolygon :: "geometry \<Rightarrow> osm_db \<Rightarrow> member list \<Rightarrow> multi_polygon result option" where
  "buildPolygon G D members =
     (case fold (add_member D) members ([], [], 0) of (outer, inner, outerCount) \<Rightarrow>
        if length outer = 1 \<and> outerCount = 1 then
          do {
            outerRing \<leftarrow> ms_Ring G (CCW G) outer;
            (if \<not> valid_ring G outerRing then Some (Inl (Err ''not a valid outer ring''))
             else do {
               innerSections \<leftarrow> join G inner;
               innerRings \<leftarrow> those (map (ms_Ring G (CW G)) innerSections);
               Some (Inr [outerRing # innerRings])
             })
          }
        else do {
          outerSections \<leftarrow> join G outer;
          outerRings \<leftarrow> those (map (ms_Ring G (CCW G)) outerSections);
          let mp = map (\<lambda>ring. [ring]) (filter (valid_ring G) outerRings);
          (if length mp = 0 then Some (Inl (Err ''no valid outer ways''))
           else do {
             innerSections \<leftarrow> join G inner;
             mp \<leftarrow> for_each (add_hole G) innerSections mp;
             Some (Inr mp)
           })
        })"

text \<open>\<open>reorient\<close>, which the code does not use; a polygon without rings or with an empty ring panics.\<close>

definition reorient :: "geometry \<Rightarrow> polygon \<Rightarrow> polygon option" where
  "reorient G p =
     (case p of
        [] \<Rightarrow> None
      | outer # holes \<Rightarrow>
          do { outer \<leftarrow> orient G (CCW G) outer; holes \<leftarrow> those (map (orient G (CW G)) holes); Some (outer # holes) })"

subsection \<open>The documented behaviour of the geometry\<close>

text \<open>Only an empty ring has no orientation; what \<^verbatim>\<open>orb\<close> does with it is left open.\<close>

definition geometry_laws :: "geometry \<Rightarrow> bool" where
  "geometry_laws G \<longleftrightarrow> (\<forall>p q. pt_Equal G p q \<longleftrightarrow> point_eq p q) \<and> (\<forall>l. pts_Reverse G l = rev l)
     \<and> (\<forall>r. r \<noteq> [] \<longrightarrow> ring_Orientation G r \<noteq> None)"

subsection \<open>Edges of lines\<close>

text \<open>
  A point up to Go's \<open>==\<close>, and the edges of a line without their direction. Joining drops a
  point only when an equal one takes its place, so it keeps the edges.
\<close>

type_synonym point_key = "bool \<times> int \<times> bool \<times> int"

definition key_of :: "orb_point \<Rightarrow> point_key" where
  "key_of p = (is_nan (fst p), f64_key (fst p), is_nan (snd p), f64_key (snd p))"

lemma key_of_eq: "point_eq p q \<Longrightarrow> key_of p = key_of q"
  by (simp add: point_eq_def key_of_def f_eq_def)

fun line_edges :: "line_string \<Rightarrow> point_key multiset multiset" where
  "line_edges (p # q # l) = add_mset {#key_of p, key_of q#} (line_edges (q # l))"
| "line_edges _ = {#}"

lemma line_edges_short [simp]: "length l \<le> 1 \<Longrightarrow> line_edges l = {#}"
  by (cases l rule: line_edges.cases) simp_all

lemma line_edges_append:
  "a \<noteq> [] \<Longrightarrow> b \<noteq> [] \<Longrightarrow> line_edges (a @ b) = line_edges a + add_mset {#key_of (last a), key_of (hd b)#} (line_edges b)"
proof (induction a)
  case (Cons p a)
  then show ?case by (cases a; cases b) simp_all
qed simp

lemma line_edges_Cons: "l \<noteq> [] \<Longrightarrow> line_edges (p # l) = add_mset {#key_of p, key_of (hd l)#} (line_edges l)"
  by (cases l) simp_all

lemma line_edges_rev [simp]: "line_edges (rev l) = line_edges l"
proof (induction l)
  case (Cons p l)
  show ?case
  proof (cases "l = []")
    case False
    then show ?thesis using Cons by (simp add: line_edges_append line_edges_Cons last_rev add_mset_commute)
  qed simp
qed simp

lemma line_edges_glue_end:
  assumes "a \<noteq> []" "1 < length l" "key_of (last a) = key_of (hd l)"
  shows "line_edges (a @ tl l) = line_edges a + line_edges l"
proof -
  obtain p m where l: "l = p # m" "m \<noteq> []" using assms(2) by (cases l) auto
  then show ?thesis using assms by (simp add: line_edges_append line_edges_Cons)
qed

lemma line_edges_glue_start:
  assumes "a \<noteq> []" "1 < length l" "key_of (hd a) = key_of (last l)"
  shows "line_edges (butlast l @ a) = line_edges l + line_edges a"
proof -
  have "tl (rev l) = rev (butlast l)" by (cases l rule: rev_cases) simp_all
  then have "line_edges (rev (butlast l @ a)) = line_edges (rev a) + line_edges (rev l)"
    using line_edges_glue_end [of "rev a" "rev l"] assms by (simp add: last_rev hd_rev)
  then show ?thesis by (simp only: line_edges_rev add.commute)
qed

subsection \<open>Joining keeps the edges\<close>

definition group_ok :: "multi_segment \<Rightarrow> bool" where
  "group_ok ms \<longleftrightarrow> ms \<noteq> [] \<and> (\<forall>s \<in> set ms. Line s \<noteq> [])"

definition joinable :: "way_segment \<Rightarrow> bool" where
  "joinable s \<longleftrightarrow> 1 < length (Line s)"

definition group_edges :: "multi_segment \<Rightarrow> point_key multiset multiset" where
  "group_edges ms = line_edges (ms_LineString ms)"

definition all_edges :: "multi_segment \<Rightarrow> point_key multiset multiset" where
  "all_edges ss = sum_list (map (\<lambda>s. line_edges (Line s)) ss)"

lemma all_edges_simps [simp]:
  "all_edges [] = {#}" "all_edges (s # ss) = line_edges (Line s) + all_edges ss" "all_edges (ss @ ts) = all_edges ss + all_edges ts"
  by (simp_all add: all_edges_def)

lemma compact_joinable: "\<forall>s \<in> set (compact ss). joinable s"
  by (auto simp: compact_def joinable_def)

lemma all_edges_compact: "all_edges (compact ss) = all_edges ss"
  by (induction ss) (auto simp: compact_def)

lemma get_last: "xs \<noteq> [] \<Longrightarrow> get xs (int (length xs) - 1) = Some (last xs)"
  by (cases xs rule: rev_cases) (simp_all add: get_def)

lemma get_first: "xs \<noteq> [] \<Longrightarrow> get xs 0 = Some (hd xs)"
  by (cases xs) (simp_all add: get_def)

lemma group_ends:
  assumes "group_ok ms"
  shows "ms_First ms = Some (hd (ms_LineString ms))" and "ms_Last ms = Some (last (ms_LineString ms))" and "ms_LineString ms \<noteq> []"
proof -
  obtain s ss where ms: "ms = s # ss" "Line s \<noteq> []" using assms by (cases ms) (auto simp: group_ok_def)
  then show "ms_First ms = Some (hd (ms_LineString ms))" "ms_LineString ms \<noteq> []"
    by (simp_all add: ms_First_def ms_LineString_def hd_conv_nth hd_append)
  obtain tt t where tt: "ms = tt @ [t]" "Line t \<noteq> []" using assms by (cases ms rule: rev_cases) (auto simp: group_ok_def)
  then show "ms_Last ms = Some (last (ms_LineString ms))"
    using get_last [of ms] get_last [of "Line t"] by (simp add: ms_Last_def ms_LineString_def)
qed

lemma fit_ok:
  assumes G: "geometry_laws G" and ok: "group_ok cur" and s: "joinable s"
  shows "fit G cur (hd (ms_LineString cur)) (last (ms_LineString cur)) s = Some None
    \<or> (\<exists>cur'. fit G cur (hd (ms_LineString cur)) (last (ms_LineString cur)) s = Some (Some cur') \<and> group_ok cur'
         \<and> group_edges cur' = group_edges cur + line_edges (Line s))"
proof -
  let ?l = "ms_LineString cur"
  have ne: "Line s \<noteq> []" "tl (Line s) \<noteq> []" "butlast (Line s) \<noteq> []" "tl (rev (Line s)) \<noteq> []" "butlast (rev (Line s)) \<noteq> []"
    using s by (cases "Line s"; cases "Line s" rule: rev_cases; auto simp: joinable_def)+
  have ends: "seg_First s = Some (hd (Line s))" "seg_Last s = Some (last (Line s))"
    unfolding seg_First_def seg_Last_def using ne(1) by (rule get_first, rule get_last)
  have l: "1 < length (Line s)" "1 < length (rev (Line s))" using s by (simp_all add: joinable_def)
  note L = group_ends(3) [OF ok]
  have ok': "group_ok (cur @ [t])" "group_ok (t # cur)" if "Line t \<noteq> []" for t
    using ok that by (auto simp: group_ok_def)
  have eq: "pt_Equal G p q = point_eq p q" "pts_Reverse G m = rev m" for p q m
    using G unfolding geometry_laws_def by blast+
  consider "point_eq (last ?l) (hd (Line s))" | "\<not> point_eq (last ?l) (hd (Line s))" "point_eq (last ?l) (last (Line s))"
    | "\<not> point_eq (last ?l) (hd (Line s))" "\<not> point_eq (last ?l) (last (Line s))" "point_eq (hd ?l) (last (Line s))"
    | "\<not> point_eq (last ?l) (hd (Line s))" "\<not> point_eq (last ?l) (last (Line s))" "\<not> point_eq (hd ?l) (last (Line s))" "point_eq (hd ?l) (hd (Line s))"
    | "\<not> point_eq (last ?l) (hd (Line s))" "\<not> point_eq (last ?l) (last (Line s))" "\<not> point_eq (hd ?l) (last (Line s))" "\<not> point_eq (hd ?l) (hd (Line s))"
    by blast
  then show ?thesis
  proof cases
    case 1
    have "group_edges (cur @ [s\<lparr>Line := tl (Line s)\<rparr>]) = group_edges cur + line_edges (Line s)"
      using line_edges_glue_end [OF L l(1) key_of_eq [OF 1]] by (simp add: group_edges_def ms_LineString_def)
    then show ?thesis using 1 ne ok' by (simp add: fit_def ends eq drop_first_def)
  next
    case 2
    have "key_of (last ?l) = key_of (hd (rev (Line s)))" using key_of_eq [OF 2(2)] ne(1) by (simp add: hd_rev)
    then have "line_edges (?l @ tl (rev (Line s))) = group_edges cur + line_edges (Line s)"
      using line_edges_glue_end [OF L l(2)] by (simp add: group_edges_def)
    then show ?thesis using 2 ne ok'(1)
      by (simp add: fit_def ends eq drop_first_def seg_Reverse_def group_edges_def) (simp add: ms_LineString_def)
  next
    case 3
    have "group_edges (s\<lparr>Line := butlast (Line s)\<rparr> # cur) = line_edges (Line s) + group_edges cur"
      using line_edges_glue_start [OF L l(1) key_of_eq [OF 3(3)]] by (simp add: group_edges_def ms_LineString_def)
    then show ?thesis using 3 ne ok' by (simp add: fit_def ends eq drop_last_def add.commute)
  next
    case 4
    have "key_of (hd ?l) = key_of (last (rev (Line s)))" using key_of_eq [OF 4(4)] ne(1) by (simp add: last_rev)
    then have "line_edges (butlast (rev (Line s)) @ ?l) = line_edges (Line s) + group_edges cur"
      using line_edges_glue_start [OF L l(2)] by (simp add: group_edges_def)
    then show ?thesis using 4 ne ok'(2)
      by (simp add: fit_def ends eq drop_last_def seg_Reverse_def group_edges_def add.commute) (simp add: ms_LineString_def)
  next
    case 5
    then show ?thesis by (simp add: fit_def ends eq)
  qed
qed

lemma find_fit_ok:
  assumes G: "geometry_laws G" and ok: "group_ok cur" and ss: "\<forall>s \<in> set ss. joinable s"
  shows "find_fit G cur (hd (ms_LineString cur)) (last (ms_LineString cur)) ss = Some None
    \<or> (\<exists>i cur'. find_fit G cur (hd (ms_LineString cur)) (last (ms_LineString cur)) ss = Some (Some (i, cur')) \<and> i < length ss
         \<and> group_ok cur' \<and> group_edges cur' = group_edges cur + line_edges (Line (ss ! i)))"
  using ss
proof (induction ss)
  case (Cons s ss)
  then have "joinable s" by simp
  from fit_ok [OF G ok this] show ?case
  proof (elim disjE exE conjE)
    assume none: "fit G cur (hd (ms_LineString cur)) (last (ms_LineString cur)) s = Some None"
    from Cons have "find_fit G cur (hd (ms_LineString cur)) (last (ms_LineString cur)) ss = Some None
      \<or> (\<exists>i cur'. find_fit G cur (hd (ms_LineString cur)) (last (ms_LineString cur)) ss = Some (Some (i, cur')) \<and> i < length ss
         \<and> group_ok cur' \<and> group_edges cur' = group_edges cur + line_edges (Line (ss ! i)))" by simp
    then show ?thesis
    proof (elim disjE exE conjE)
      fix i cur'
      assume "find_fit G cur (hd (ms_LineString cur)) (last (ms_LineString cur)) ss = Some (Some (i, cur'))" "i < length ss"
        "group_ok cur'" "group_edges cur' = group_edges cur + line_edges (Line (ss ! i))"
      then show ?thesis using none by (intro disjI2 exI [of _ "Suc i"] exI [of _ cur']) simp
    qed (simp add: none)
  next
    fix cur'
    assume "fit G cur (hd (ms_LineString cur)) (last (ms_LineString cur)) s = Some (Some cur')" "group_ok cur'"
      "group_edges cur' = group_edges cur + line_edges (Line s)"
    then show ?thesis by (intro disjI2 exI [of _ 0] exI [of _ cur']) simp
  qed
qed simp

lemma all_edges_remove: "i < length ss \<Longrightarrow> line_edges (Line (ss ! i)) + all_edges (remove_at i ss) = all_edges ss"
proof -
  assume i: "i < length ss"
  have "all_edges ss = all_edges (take i ss @ ss ! i # drop (Suc i) ss)" using id_take_nth_drop [OF i] by simp
  then show ?thesis by (simp add: remove_at_def del: append_take_drop_id)
qed

lemma set_remove_at: "set (remove_at i ss) \<subseteq> set ss"
  using set_take_subset set_drop_subset by (fastforce simp: remove_at_def)

lemma grow_ok:
  assumes "geometry_laws G" "group_ok cur" "\<forall>s \<in> set ss. joinable s"
  shows "\<exists>cur' rest. grow G cur ss = Some (cur', rest) \<and> group_ok cur' \<and> (\<forall>s \<in> set rest. joinable s)
    \<and> group_edges cur' + all_edges rest = group_edges cur + all_edges ss"
  using assms
proof (induction G cur ss rule: grow.induct)
  case (1 G cur ss)
  note ends = group_ends [OF "1.prems"(2)]
  let ?find = "find_fit G cur (hd (ms_LineString cur)) (last (ms_LineString cur)) ss"
  consider "ss = [] \<or> pt_Equal G (hd (ms_LineString cur)) (last (ms_LineString cur)) \<or> ?find = Some None"
    | i cur' where "ss \<noteq> []" "\<not> pt_Equal G (hd (ms_LineString cur)) (last (ms_LineString cur))" "?find = Some (Some (i, cur'))"
        "i < length ss" "group_ok cur'" "group_edges cur' = group_edges cur + line_edges (Line (ss ! i))"
    using find_fit_ok [OF "1.prems"] by blast
  then show ?case
  proof cases
    case 1
    then have "grow G cur ss = Some (cur, ss)" by (auto simp: grow.simps [of G cur] ends)
    then show ?thesis using "1.prems" by simp
  next
    case 2
    then have step: "grow G cur ss = grow G cur' (remove_at i ss)" by (simp add: grow.simps [of G cur] ends)
    have "\<forall>s \<in> set (remove_at i ss). joinable s" using "1.prems"(3) set_remove_at by fast
    then obtain cur'' rest where r: "grow G cur' (remove_at i ss) = Some (cur'', rest)" "group_ok cur''" "\<forall>s \<in> set rest. joinable s"
      "group_edges cur'' + all_edges rest = group_edges cur' + all_edges (remove_at i ss)"
      using "1.IH" [OF 2(1) _ _ _ 2(2) 2(3) refl _ "1.prems"(1) 2(5)] ends by blast
    then show ?thesis using step 2(6) all_edges_remove [OF 2(4)] by (simp add: add.assoc)
  qed
qed

lemma join_loop_ok:
  assumes "geometry_laws G" "\<forall>s \<in> set ss. joinable s" "\<forall>g \<in> set groups. group_ok g"
  shows "\<exists>gs. join_loop G ss groups = Some gs \<and> (\<forall>g \<in> set gs. group_ok g)
    \<and> sum_list (map group_edges gs) = sum_list (map group_edges groups) + all_edges ss"
  using assms
proof (induction G ss groups rule: join_loop.induct)
  case (1 G ss groups)
  show ?case
  proof (cases "ss = []")
    case True
    then show ?thesis using "1.prems" by (simp add: join_loop.simps)
  next
    case False
    then obtain init s where ss: "ss = init @ [s]" by (cases ss rule: rev_cases) auto
    have "group_ok [s]" "\<forall>s \<in> set init. joinable s" using "1.prems"(2) by (auto simp: ss group_ok_def joinable_def)
    then obtain cur rest where g: "grow G [s] init = Some (cur, rest)" "group_ok cur" "\<forall>s \<in> set rest. joinable s"
      "group_edges cur + all_edges rest = group_edges [s] + all_edges init"
      using grow_ok [OF "1.prems"(1)] by blast
    have "\<forall>g \<in> set (groups @ [cur]). group_ok g" using "1.prems"(3) g(2) by simp
    then obtain gs where "join_loop G rest (groups @ [cur]) = Some gs" "\<forall>g \<in> set gs. group_ok g"
      "sum_list (map group_edges gs) = sum_list (map group_edges (groups @ [cur])) + all_edges rest"
      using "1.IH" [OF False _ refl "1.prems"(1) g(3)] g(1) ss by auto
    moreover have "group_edges cur + all_edges rest = all_edges ss"
      using g(4) by (simp add: ss group_edges_def ms_LineString_def add.commute)
    ultimately show ?thesis using g(1) by (simp add: join_loop.simps [of G "init @ [s]"] ss add.assoc)
  qed
qed

lemma join_ok:
  assumes "geometry_laws G"
  obtains groups where "join G ss = Some groups" "\<forall>g \<in> set groups. group_ok g" "sum_list (map group_edges groups) = all_edges ss"
  using join_loop_ok [OF assms compact_joinable, of "[]" ss] by (auto simp: join_def all_edges_compact)

subsection \<open>Polygons consist of the edges of the ways\<close>

definition mp_edges :: "multi_polygon \<Rightarrow> point_key multiset multiset" where
  "mp_edges mp = sum_list (map line_edges (concat mp))"

lemma mp_edges_simps [simp]:
  "mp_edges [] = {#}" "mp_edges (poly # mp) = sum_list (map line_edges poly) + mp_edges mp" "mp_edges (mp @ mp') = mp_edges mp + mp_edges mp'"
  by (simp_all add: mp_edges_def)

definition member_edges :: "osm_db \<Rightarrow> member \<Rightarrow> point_key multiset multiset" where
  "member_edges D m =
     (if m_Type m = TypeWay \<and> (m_Role m = ''inner'' \<or> m_Role m = ''outer'') then
        (case GetWay D (m_Ref m) of Inl e \<Rightarrow> {#} | Inr way \<Rightarrow> line_edges (makeLineString D (w_Nodes way)))
      else {#})"

lemma members_edges:
  assumes "fold (add_member D) members (out0, in0, n0) = (out1, in1, n1)"
  shows "all_edges out1 + all_edges in1 = all_edges out0 + all_edges in0 + sum_list (map (member_edges D) members)"
  using assms
proof (induction members arbitrary: out0 in0 n0)
  case (Cons m ms)
  obtain out2 in2 n2 where one: "add_member D m (out0, in0, n0) = (out2, in2, n2)" by (cases "add_member D m (out0, in0, n0)")
  have "all_edges out2 + all_edges in2 = all_edges out0 + all_edges in0 + member_edges D m"
    using one by (auto simp: add_member_def member_edges_def Let_def ac_simps split: if_splits sum.splits)
  then show ?case using Cons.IH [of out2 in2 n2] Cons.prems one by (simp add: ac_simps)
qed simp

lemma orient_total:
  assumes "geometry_laws G"
  shows "orient G o' ring = None \<longleftrightarrow> ring = [] \<and> ring_Orientation G [] = None"
    and "orient G o' ring = Some ring' \<Longrightarrow> ring' = ring \<or> ring' = rev ring"
proof -
  show "orient G o' ring = None \<longleftrightarrow> ring = [] \<and> ring_Orientation G [] = None"
    using assms by (cases "ring = []") (auto simp: orient_def geometry_laws_def split: bind_splits)
  show "orient G o' ring = Some ring' \<Longrightarrow> ring' = ring \<or> ring' = rev ring"
    using assms by (auto simp: orient_def geometry_laws_def split: bind_splits if_splits)
qed

lemma ms_Ring_cases:
  assumes "geometry_laws G" "ms_Ring G o' ms = Some ring"
  shows "ring = concat (map Line ms) \<or> ring = rev (concat (map Line ms))"
  using assms orient_total(2) [OF assms(1)] by (auto simp: ms_Ring_def geometry_laws_def Let_def split: prod.splits if_splits)

lemma ms_Ring_edges: "geometry_laws G \<Longrightarrow> ms_Ring G o' ms = Some ring \<Longrightarrow> line_edges ring = group_edges ms"
  using ms_Ring_cases [of G o' ms ring] by (auto simp: group_edges_def ms_LineString_def)

text \<open>The rings of groups exist.\<close>

lemma ms_Ring_group:
  assumes "geometry_laws G" "group_ok ms"
  obtains ring where "ms_Ring G o' ms = Some ring" "line_edges ring = group_edges ms"
proof -
  have "concat (map Line ms) \<noteq> []" using assms(2) by (cases ms) (auto simp: group_ok_def)
  then have "orient G o' (concat (map Line ms)) \<noteq> None" using orient_total(1) [OF assms(1)] by blast
  then have "ms_Ring G o' ms \<noteq> None" by (auto simp: ms_Ring_def Let_def split: prod.splits)
  then show thesis using that ms_Ring_edges [OF assms(1)] by blast
qed

lemma rings_of_groups:
  assumes "geometry_laws G" "\<forall>g \<in> set gs. group_ok g"
  shows "\<exists>rings. those (map (ms_Ring G o') gs) = Some rings \<and> sum_list (map line_edges rings) = sum_list (map group_edges gs)"
  using assms(2)
proof (induction gs)
  case (Cons g gs)
  obtain ring where "ms_Ring G o' g = Some ring" "line_edges ring = group_edges g"
    using ms_Ring_group [OF assms(1)] Cons.prems by (metis list.set_intros(1))
  then show ?case using Cons by auto
qed simp

text \<open>A hole is added to one polygon, or in a new one with an empty outer ring; the outer rings stay.\<close>

lemma add_to_first_ok:
  assumes "\<forall>poly \<in> set mp. poly \<noteq> []"
  shows "add_to_first P ring mp = Some None \<or> (\<exists>mp'. add_to_first P ring mp = Some (Some mp')
    \<and> map hd mp' = map hd mp \<and> (\<forall>poly \<in> set mp'. poly \<noteq> []) \<and> mp_edges mp' = mp_edges mp + line_edges ring)"
  using assms
proof (induction mp)
  case (Cons poly mp)
  then obtain outer holes where poly: "poly = outer # holes" by (cases poly) auto
  show ?case
  proof (cases "P outer")
    case True
    then show ?thesis using Cons.prems by (auto simp: poly)
  next
    case False
    then show ?thesis using Cons by (auto simp: poly)
  qed
qed simp

lemma addToMultiPolygon_ok:
  assumes "\<forall>poly \<in> set mp. poly \<noteq> []"
  obtains mp' where "addToMultiPolygon mp ring = Some mp'" "\<forall>poly \<in> set mp'. poly \<noteq> []"
    "set (map hd mp') \<subseteq> insert [] (set (map hd mp))" "length mp \<le> length mp'" "mp_edges mp' = mp_edges mp + line_edges ring"
proof -
  note A = add_to_first_ok [OF assms, of "\<lambda>outer. polygonContains outer ring" ring]
  note B = add_to_first_ok [OF assms, of "\<lambda>outer. length outer = 0" ring]
  have "\<exists>mp'. addToMultiPolygon mp ring = Some mp' \<and> (\<forall>poly \<in> set mp'. poly \<noteq> [])
    \<and> set (map hd mp') \<subseteq> insert [] (set (map hd mp)) \<and> length mp \<le> length mp' \<and> mp_edges mp' = mp_edges mp + line_edges ring"
    using A
  proof (elim disjE exE conjE)
    assume none: "add_to_first (\<lambda>outer. polygonContains outer ring) ring mp = Some None"
    show ?thesis
    proof (cases mp)
      case Nil
      then show ?thesis by (simp add: addToMultiPolygon_def)
    next
      case (Cons poly mps)
      then have "poly \<noteq> []" using assms by simp
      then have fr: "get poly 0 = Some (hd poly)" by (rule get_first)
      show ?thesis
      proof (cases "hd poly \<noteq> [] \<and> \<not> point_eq (hd (hd poly)) (last (hd poly))")
        case True
        then have "addToMultiPolygon mp ring = Some ((poly @ [ring]) # mps)" using none fr by (simp add: addToMultiPolygon_def Cons)
        then show ?thesis using assms \<open>poly \<noteq> []\<close> by (auto simp: Cons)
      next
        case False
        from B show ?thesis
        proof (elim disjE exE conjE)
          assume "add_to_first (\<lambda>outer. length outer = 0) ring mp = Some None"
          then have "addToMultiPolygon mp ring = Some (mp @ [[[], ring]])" using none fr False by (auto simp: addToMultiPolygon_def Cons)
          then show ?thesis using assms by auto
        next
          fix mp'
          assume m: "add_to_first (\<lambda>outer. length outer = 0) ring mp = Some (Some mp')" "map hd mp' = map hd mp"
            "\<forall>poly \<in> set mp'. poly \<noteq> []" "mp_edges mp' = mp_edges mp + line_edges ring"
          then have "addToMultiPolygon mp ring = Some mp'" using none fr False by (auto simp: addToMultiPolygon_def Cons)
          then show ?thesis using m map_eq_imp_length_eq [OF m(2)] by (metis order_refl subset_insertI)
        qed
      qed
    qed
  next
    fix mp'
    assume m: "add_to_first (\<lambda>outer. polygonContains outer ring) ring mp = Some (Some mp')" "map hd mp' = map hd mp"
      "\<forall>poly \<in> set mp'. poly \<noteq> []" "mp_edges mp' = mp_edges mp + line_edges ring"
    then have "addToMultiPolygon mp ring = Some mp'" by (simp add: addToMultiPolygon_def)
    then show ?thesis using m map_eq_imp_length_eq [OF m(2)] by (metis order_refl subset_insertI)
  qed
  then show thesis using that by blast
qed

lemma add_holes_ok:
  assumes "geometry_laws G" "\<forall>poly \<in> set mp. poly \<noteq> []" "\<forall>g \<in> set sections. group_ok g"
  shows "\<exists>mp'. for_each (add_hole G) sections mp = Some mp'
    \<and> (\<forall>poly \<in> set mp'. poly \<noteq> []) \<and> set (map hd mp') \<subseteq> insert [] (set (map hd mp)) \<and> length mp \<le> length mp'
    \<and> mp_edges mp' = mp_edges mp + sum_list (map group_edges sections)"
  using assms(2,3)
proof (induction sections arbitrary: mp)
  case (Cons sec sections)
  have "group_ok sec" using Cons.prems(2) by simp
  then obtain ring where ring: "ms_Ring G (CW G) sec = Some ring" "line_edges ring = group_edges sec" by (rule ms_Ring_group [OF assms(1)])
  obtain mp1 where m1: "addToMultiPolygon mp ring = Some mp1" "\<forall>poly \<in> set mp1. poly \<noteq> []"
    "set (map hd mp1) \<subseteq> insert [] (set (map hd mp))" "length mp \<le> length mp1" "mp_edges mp1 = mp_edges mp + line_edges ring"
    by (rule addToMultiPolygon_ok [OF Cons.prems(1)])
  have "\<forall>g \<in> set sections. group_ok g" using Cons.prems(2) by simp
  from Cons.IH [OF m1(2) this] obtain mp2 where m2: "for_each (add_hole G) sections mp1 = Some mp2"
    "\<forall>poly \<in> set mp2. poly \<noteq> []" "set (map hd mp2) \<subseteq> insert [] (set (map hd mp1))" "length mp1 \<le> length mp2"
    "mp_edges mp2 = mp_edges mp1 + sum_list (map group_edges sections)" by blast
  have "set (map hd mp2) \<subseteq> insert [] (set (map hd mp))" using m1(3) m2(3) by blast
  moreover have "mp_edges mp2 = mp_edges mp + sum_list (map group_edges (sec # sections))"
    using m1(5) m2(5) ring(2) by (simp add: add.assoc)
  moreover have "add_hole G sec mp = Some mp1" using ring(1) m1(1) by (simp add: add_hole_def)
  ultimately show ?case using m1(4) m2(1,2,4) by (intro exI [of _ mp2]) simp
qed (simp add: subset_insertI)

subsection \<open>A lone outer way without points\<close>

text \<open>The segment of an outer member, if its way is found and has nodes.\<close>

definition outer_members :: "member list \<Rightarrow> member list" where
  "outer_members members = filter (\<lambda>m. m_Type m = TypeWay \<and> m_Role m = ''outer'') members"

definition outer_segment :: "osm_db \<Rightarrow> member \<Rightarrow> multi_segment" where
  "outer_segment D m =
     (case GetWay D (m_Ref m) of
        Inl e \<Rightarrow> []
      | Inr way \<Rightarrow>
          if w_Nodes way = [] then []
          else [\<lparr>Index = 0, Orientation = m_Orientation m, Reversed = False, Line = makeLineString D (w_Nodes way)\<rparr>])"

lemma outer_of_members:
  assumes "fold (add_member D) members (out0, in0, n0) = (outer, inner, outerCount)"
  shows "outer = out0 @ concat (map (outer_segment D) (outer_members members)) \<and> outerCount = n0 + length (outer_members members)"
  using assms
proof (induction members arbitrary: out0 in0 n0)
  case (Cons m ms)
  obtain out2 in2 n2 where one: "add_member D m (out0, in0, n0) = (out2, in2, n2)" by (cases "add_member D m (out0, in0, n0)")
  have "out2 = out0 @ concat (map (outer_segment D) (outer_members [m])) \<and> n2 = n0 + length (outer_members [m])"
    using one by (auto simp: add_member_def outer_segment_def outer_members_def Let_def split: if_splits sum.splits)
  then show ?case using Cons.IH [of out2 in2 n2] Cons.prems one by (simp add: outer_members_def)
qed (simp add: outer_members_def)

text \<open>
  The relation has one outer member, without an orientation; its way is found and has nodes,
  but none of them has coordinates.
\<close>

definition unorientable :: "osm_db \<Rightarrow> member list \<Rightarrow> bool" where
  "unorientable D members \<longleftrightarrow>
     (case outer_members members of
        [m] \<Rightarrow> m_Orientation m = 0
          \<and> (case GetWay D (m_Ref m) of Inl e \<Rightarrow> False | Inr way \<Rightarrow> w_Nodes way \<noteq> [] \<and> makeLineString D (w_Nodes way) = [])
      | _ \<Rightarrow> False)"

lemma lone_outer:
  assumes G: "geometry_laws G" and f: "fold (add_member D) members ([], [], 0) = (outer, inner, outerCount)"
    and one: "length outer = 1" "outerCount = 1"
  shows "ms_Ring G o' outer = None \<longleftrightarrow> unorientable D members \<and> ring_Orientation G [] = None"
proof -
  note O = outer_of_members [OF f]
  obtain m where m: "outer_members members = [m]" using O one(2) by (cases "outer_members members") auto
  then obtain way where way: "GetWay D (m_Ref m) = Inr way" "w_Nodes way \<noteq> []"
    using O one(1) by (auto simp: outer_segment_def split: sum.splits if_splits)
  have "outer = [\<lparr>Index = 0, Orientation = m_Orientation m, Reversed = False, Line = makeLineString D (w_Nodes way)\<rparr>]"
    using O m way by (simp add: outer_segment_def)
  then show ?thesis using way orient_total(1) [OF G] by (simp add: ms_Ring_def unorientable_def m Let_def)
qed

lemma not_lone_outer:
  assumes f: "fold (add_member D) members ([], [], 0) = (outer, inner, outerCount)" and "\<not> (length outer = 1 \<and> outerCount = 1)"
  shows "\<not> unorientable D members"
proof
  assume "unorientable D members"
  then obtain m way where "outer_members members = [m]" "GetWay D (m_Ref m) = Inr way" "w_Nodes way \<noteq> []"
    by (auto simp: unorientable_def split: list.splits sum.splits)
  then show False using outer_of_members [OF f] assms(2) by (simp add: outer_segment_def)
qed

definition rings_ok :: "geometry \<Rightarrow> osm_db \<Rightarrow> member list \<Rightarrow> multi_polygon \<Rightarrow> bool" where
  "rings_ok G D members mp \<longleftrightarrow> mp \<noteq> [] \<and> (\<forall>poly \<in> set mp. poly \<noteq> [] \<and> (hd poly = [] \<or> valid_ring G (hd poly)))
     \<and> mp_edges mp \<subseteq># sum_list (map (member_edges D) members)"

lemma lone_polygon:
  assumes G: "geometry_laws G" and f: "fold (add_member D) members ([], [], 0) = (outer, inner, outerCount)"
    and lone: "length outer = 1 \<and> outerCount = 1" and ring: "ms_Ring G (CCW G) outer = Some ring"
  shows "\<exists>res. buildPolygon G D members = Some res \<and> (\<forall>mp. res = Inr mp \<longrightarrow> rings_ok G D members mp)"
proof -
  obtain inners where i: "join G inner = Some inners" "\<forall>g \<in> set inners. group_ok g" "sum_list (map group_edges inners) = all_edges inner"
    by (rule join_ok [OF G])
  obtain s where s: "outer = [s]" using lone by (cases outer) auto
  obtain rings where r: "those (map (ms_Ring G (CW G)) inners) = Some rings" "sum_list (map line_edges rings) = all_edges inner"
    using rings_of_groups [OF G i(2)] i(3) by metis
  have "line_edges ring = all_edges outer" using ms_Ring_edges [OF G ring] by (simp add: s group_edges_def ms_LineString_def)
  then have "mp_edges [ring # rings] = sum_list (map (member_edges D) members)"
    using r(2) members_edges [OF f] by simp
  then show ?thesis using lone f i(1) ring r(1) by (simp add: buildPolygon_def rings_ok_def Let_def)
qed

lemma filtered_edges: "sum_list (map line_edges (filter P rs)) \<subseteq># sum_list (map line_edges rs)"
  by (induction rs) (auto intro: subset_mset.add_mono subset_mset.add_increasing)

lemma joined_polygon:
  assumes G: "geometry_laws G" and f: "fold (add_member D) members ([], [], 0) = (outer, inner, outerCount)"
    and many: "\<not> (length outer = 1 \<and> outerCount = 1)"
  shows "\<exists>res. buildPolygon G D members = Some res \<and> (\<forall>mp. res = Inr mp \<longrightarrow> rings_ok G D members mp)"
proof -
  obtain inners where i: "join G inner = Some inners" "\<forall>g \<in> set inners. group_ok g" "sum_list (map group_edges inners) = all_edges inner"
    by (rule join_ok [OF G])
  obtain outers where o: "join G outer = Some outers" "\<forall>g \<in> set outers. group_ok g" "sum_list (map group_edges outers) = all_edges outer"
    by (rule join_ok [OF G])
  obtain rings where r: "those (map (ms_Ring G (CCW G)) outers) = Some rings" "sum_list (map line_edges rings) = all_edges outer"
    using rings_of_groups [OF G o(2)] o(3) by metis
  let ?rings = "filter (valid_ring G) rings"
  let ?mp = "map (\<lambda>ring. [ring]) ?rings"
  have ne: "\<forall>poly \<in> set ?mp. poly \<noteq> []" by auto
  obtain mp where mp: "for_each (add_hole G) inners ?mp = Some mp" "\<forall>poly \<in> set mp. poly \<noteq> []"
    "set (map hd mp) \<subseteq> insert [] (set (map hd ?mp))" "length ?mp \<le> length mp" "mp_edges mp = mp_edges ?mp + sum_list (map group_edges inners)"
    using add_holes_ok [OF G ne i(2)] by blast
  have "mp_edges ?mp = sum_list (map line_edges ?rings)" by (simp add: mp_edges_def)
  also have "\<dots> \<subseteq># all_edges outer" using filtered_edges [of "valid_ring G" rings] r(2) by simp
  finally have "mp_edges mp \<subseteq># sum_list (map (member_edges D) members)"
    using mp(5) i(3) members_edges [OF f] by (metis add_0 all_edges_simps(1) subset_mset.add_right_mono)
  moreover have "hd poly = [] \<or> valid_ring G (hd poly)" if "poly \<in> set mp" for poly
  proof -
    have "hd poly \<in> insert [] (set ?rings)" using mp(3) that by (auto simp: comp_def)
    then show ?thesis by auto
  qed
  moreover have "?rings \<noteq> [] \<Longrightarrow> mp \<noteq> []" using mp(4) by (intro notI) (simp only: length_map list.size le_zero_eq length_0_conv)
  ultimately show ?thesis using many f o(1) i(1) r(1) mp(1,2) by (auto simp: buildPolygon_def rings_ok_def Let_def)
qed

lemma buildPolygon_ok:
  assumes G: "geometry_laws G"
  shows "buildPolygon G D members = None \<longleftrightarrow> unorientable D members \<and> ring_Orientation G [] = None"
    and "buildPolygon G D members = Some (Inr mp) \<Longrightarrow> rings_ok G D members mp"
proof -
  obtain outer inner outerCount where f: "fold (add_member D) members ([], [], 0) = (outer, inner, outerCount)" by (cases "fold (add_member D) members ([], [], 0)")
  have "(buildPolygon G D members = None \<longleftrightarrow> unorientable D members \<and> ring_Orientation G [] = None)
    \<and> (buildPolygon G D members = Some (Inr mp) \<longrightarrow> rings_ok G D members mp)"
  proof (cases "length outer = 1 \<and> outerCount = 1")
    case lone: True
    note L = lone_outer [OF G f, of "CCW G"]
    show ?thesis
    proof (cases "ms_Ring G (CCW G) outer")
      case None
      then have "buildPolygon G D members = None" using lone f by (simp add: buildPolygon_def)
      then show ?thesis using L lone None by auto
    next
      case (Some ring)
      then show ?thesis using L lone lone_polygon [OF G f lone Some] by auto
    qed
  next
    case False
    then show ?thesis using joined_polygon [OF G f False] not_lone_outer [OF f False] by auto
  qed
  then show "buildPolygon G D members = None \<longleftrightarrow> unorientable D members \<and> ring_Orientation G [] = None"
    and "buildPolygon G D members = Some (Inr mp) \<Longrightarrow> rings_ok G D members mp" by blast+
qed

subsection \<open>Properties\<close>

text \<open>
  C30. Joining always returns. It neither loses nor invents an edge: the lines of the groups have
  together exactly the edges of the given segments, without their direction, and every group
  consists of segments with at least one point.
\<close>

theorem join_keeps_edges:
  assumes "geometry_laws G"
  shows "\<exists>groups. join G segments = Some groups \<and> (\<forall>g \<in> set groups. g \<noteq> [] \<and> (\<forall>s \<in> set g. Line s \<noteq> []))
    \<and> sum_list (map (\<lambda>g. line_edges (ms_LineString g)) groups) = sum_list (map (\<lambda>s. line_edges (Line s)) segments)"
proof -
  obtain groups where "join G segments = Some groups" "\<forall>g \<in> set groups. group_ok g" "sum_list (map group_edges groups) = all_edges segments"
    by (rule join_ok [OF assms])
  then show ?thesis by (auto simp: group_ok_def group_edges_def [abs_def] all_edges_def)
qed

text \<open>
  C29. Assembling a relation panics exactly when its only outer member is a way that is found and has
  nodes, none of which has coordinates, the member has no orientation, and asking an empty ring for its
  orientation panics. Otherwise it returns. Every polygon of the result has an outer ring that is
  closed and has at least four points, or an empty one that was made for holes which lie in
  no other polygon; and the rings together use every edge of the member ways at most once
  and no other edge.
\<close>

theorem buildPolygon_rings:
  assumes "geometry_laws G"
  shows "(buildPolygon G D members = None \<longleftrightarrow> unorientable D members \<and> ring_Orientation G [] = None)
    \<and> (\<forall>mp. buildPolygon G D members = Some (Inr mp) \<longrightarrow>
         mp \<noteq> [] \<and> (\<forall>poly \<in> set mp. poly \<noteq> [] \<and> (hd poly = [] \<or> valid_ring G (hd poly)))
         \<and> mp_edges mp \<subseteq># sum_list (map (member_edges D) members))"
  using buildPolygon_ok [OF assms, of D members] unfolding rings_ok_def by blast

text \<open>A square in two ways, the second one in the opposite direction.\<close>

definition sample_geometry :: geometry where
  "sample_geometry = \<lparr>pt_Equal = point_eq, pts_Reverse = rev, ring_Orientation = \<lambda>r. if r = [] then None else Some 1,
     ring_Closed = \<lambda>r. 4 \<le> length r \<and> point_eq (hd r) (last r), CCW = 1, CW = - 1\<rparr>"

definition sample_corner :: "int \<Rightarrow> int \<Rightarrow> orb_point" where
  "sample_corner x y = (f64_of_int x, f64_of_int y)"

definition sample_segments :: multi_segment where
  "sample_segments = map (\<lambda>l. \<lparr>Index = 0, Orientation = 0, Reversed = False, Line = map (\<lambda>(x, y). sample_corner x y) l\<rparr>)
     [[(1, 1), (2, 1), (2, 2)], [(1, 1), (1, 2), (2, 2)]]"

definition sample_osm :: osm_db where
  "sample_osm = \<lparr>GetNode = \<lambda>_. Inl (Err ''no node''),
     GetWay = \<lambda>i. Inr \<lparr>w_ID = i, w_Tags = [],
       w_Nodes = map (\<lambda>p. \<lparr>wn_ID = 0, wn_Lat = snd p, wn_Lon = fst p\<rparr>) (Line (sample_segments ! nat i))\<rparr>\<rparr>"

definition sample_members :: "member list" where
  "sample_members = map (\<lambda>i. \<lparr>m_Type = TypeWay, m_Role = ''outer'', m_Ref = i, m_Orientation = 0\<rparr>) [0, 1]"

lemma sample_geometry_laws: "geometry_laws sample_geometry"
  by (simp add: geometry_laws_def sample_geometry_def)

lemma join_keeps_edges_witness:
  "\<exists>groups. join sample_geometry sample_segments = Some groups
    \<and> size (sum_list (map (\<lambda>g. line_edges (ms_LineString g)) groups)) = 4"
proof -
  have "size (sum_list (map (\<lambda>s. line_edges (Line s)) sample_segments)) = 4" by (simp add: sample_segments_def)
  then show ?thesis using join_keeps_edges [OF sample_geometry_laws, of sample_segments] by auto
qed

text \<open>A relation of one way whose nodes are not in the database.\<close>

definition sample_lost_osm :: osm_db where
  "sample_lost_osm = \<lparr>GetNode = \<lambda>_. Inl (Err ''no node''),
     GetWay = \<lambda>i. Inr \<lparr>w_ID = i, w_Tags = [], w_Nodes = [\<lparr>wn_ID = 8, wn_Lat = 0, wn_Lon = 0\<rparr>]\<rparr>\<rparr>"

definition sample_lost_members :: "member list" where
  "sample_lost_members = [\<lparr>m_Type = TypeWay, m_Role = ''outer'', m_Ref = 1, m_Orientation = 0\<rparr>]"

lemma sample_unorientable: "unorientable sample_lost_osm sample_lost_members" "\<not> unorientable sample_osm sample_members"
proof -
  have "f_eq 0 0" using f_eq_of_int_iff [of 0 0] by (simp add: small_int_def f64_of_int_zero)
  then show "unorientable sample_lost_osm sample_lost_members" "\<not> unorientable sample_osm sample_members"
    by (simp_all add: unorientable_def outer_members_def sample_lost_osm_def sample_lost_members_def sample_members_def node_point_def)
qed

lemma buildPolygon_rings_witness:
  "buildPolygon sample_geometry sample_lost_osm sample_lost_members = None
    \<and> (\<exists>res. buildPolygon sample_geometry sample_osm sample_members = Some res \<and> (\<forall>mp. res = Inr mp \<longrightarrow> size (mp_edges mp) \<le> 4))"
proof -
  note f64_of_int_zero
  then have nz: "\<not> f_eq (f64_of_int 1) 0" "\<not> f_eq (f64_of_int 2) 0"
    using f_eq_of_int_iff [of 1 0] f_eq_of_int_iff [of 2 0] by (simp_all add: small_int_def)
  have "ring_Orientation sample_geometry [] = None" by (simp add: sample_geometry_def)
  then have lost: "buildPolygon sample_geometry sample_lost_osm sample_lost_members = None"
    using buildPolygon_rings [OF sample_geometry_laws, of sample_lost_osm sample_lost_members] sample_unorientable(1) by blast
  have four: "size (sum_list (map (member_edges sample_osm) sample_members)) = 4"
    using nz by (simp add: sample_members_def member_edges_def sample_osm_def sample_segments_def sample_corner_def node_point_def)
  note B = buildPolygon_rings [OF sample_geometry_laws, of sample_osm sample_members]
  obtain res where res: "buildPolygon sample_geometry sample_osm sample_members = Some res" using B sample_unorientable(2) by blast
  have "size (mp_edges mp) \<le> 4" if "res = Inr mp" for mp
  proof -
    have "mp_edges mp \<subseteq># sum_list (map (member_edges sample_osm) sample_members)" using B res that by blast
    then show ?thesis using size_mset_mono four by metis
  qed
  then show ?thesis using lost res by blast
qed

end
