(* ===== verification/Tee.thy ===== *)
theory Tee
  imports Prelude
begin

section \<open>Copies of an iterator\<close>

text \<open>
  \<^verbatim>\<open>geoparser/save.go\<close>, \<open>Tee\<close>: a goroutine sends every value of the source to \<open>n\<close> channels, and
  each copy is an iterator over one of them. A copy whose loop is left early drains its
  channel; one that nobody ranges over does not. Several savers run at the same time, so the
  whole is a transition system in which any step that is possible may be the next one. A
  channel here has room for at least one value (\<open>saveWorker\<close> uses 1); without a buffer a
  send would wait for its receiver.
\<close>

datatype copy_mode = NotStarted | Reading | Draining | Finished | Abandoned

record 'v tee =
  t_pos :: nat
  t_k :: nat
  t_closed :: bool
  t_chs :: "'v list list"
  t_modes :: "copy_mode list"
  t_got :: "'v list list"

definition tee_init :: "nat \<Rightarrow> 'v tee" where
  "tee_init n = \<lparr>t_pos = 0, t_k = 0, t_closed = False, t_chs = replicate n [], t_modes = replicate n NotStarted, t_got = replicate n []\<rparr>"

text \<open>
  The source is at value \<open>t_pos\<close> and about to send it to channel \<open>t_k\<close>. \<open>Abandoned\<close> is a copy whose
  saver returned before it ranged over it.
\<close>

inductive tee_step :: "'v list \<Rightarrow> nat \<Rightarrow> nat \<Rightarrow> 'v tee \<Rightarrow> 'v tee \<Rightarrow> bool"
  for src :: "'v list" and n :: nat and bufferSize :: nat where
  send: "t_pos s < length src \<Longrightarrow> t_k s < n \<Longrightarrow> length (t_chs s ! t_k s) < bufferSize
    \<Longrightarrow> tee_step src n bufferSize s
          (s\<lparr>t_chs := (t_chs s)[t_k s := t_chs s ! t_k s @ [src ! t_pos s]], t_k := t_k s + 1\<rparr>)"
| next_value: "t_pos s < length src \<Longrightarrow> t_k s = n \<Longrightarrow> tee_step src n bufferSize s (s\<lparr>t_pos := t_pos s + 1, t_k := 0\<rparr>)"
| close_all: "t_pos s = length src \<Longrightarrow> \<not> t_closed s \<Longrightarrow> tee_step src n bufferSize s (s\<lparr>t_closed := True\<rparr>)"
| start: "j < n \<Longrightarrow> t_modes s ! j = NotStarted \<Longrightarrow> tee_step src n bufferSize s (s\<lparr>t_modes := (t_modes s)[j := Reading]\<rparr>)"
| abandon: "j < n \<Longrightarrow> t_modes s ! j = NotStarted \<Longrightarrow> tee_step src n bufferSize s (s\<lparr>t_modes := (t_modes s)[j := Abandoned]\<rparr>)"
| receive: "j < n \<Longrightarrow> t_modes s ! j = Reading \<Longrightarrow> t_chs s ! j = v # rest
    \<Longrightarrow> tee_step src n bufferSize s (s\<lparr>t_chs := (t_chs s)[j := rest], t_got := (t_got s)[j := t_got s ! j @ [v]]\<rparr>)"
| break_off: "j < n \<Longrightarrow> t_modes s ! j = Reading \<Longrightarrow> t_chs s ! j = v # rest
    \<Longrightarrow> tee_step src n bufferSize s
          (s\<lparr>t_chs := (t_chs s)[j := rest], t_got := (t_got s)[j := t_got s ! j @ [v]], t_modes := (t_modes s)[j := Draining]\<rparr>)"
| drain: "j < n \<Longrightarrow> t_modes s ! j = Draining \<Longrightarrow> t_chs s ! j = v # rest
    \<Longrightarrow> tee_step src n bufferSize s (s\<lparr>t_chs := (t_chs s)[j := rest]\<rparr>)"
| finish: "j < n \<Longrightarrow> t_modes s ! j = Reading \<Longrightarrow> t_chs s ! j = [] \<Longrightarrow> t_closed s
    \<Longrightarrow> tee_step src n bufferSize s (s\<lparr>t_modes := (t_modes s)[j := Finished]\<rparr>)"

definition tee_reachable :: "'v list \<Rightarrow> nat \<Rightarrow> nat \<Rightarrow> 'v tee \<Rightarrow> bool" where
  "tee_reachable src n bufferSize s \<longleftrightarrow> (tee_step src n bufferSize)\<^sup>*\<^sup>* (tee_init n) s"

subsection \<open>The invariant\<close>

text \<open>How many values have been sent to channel \<open>j\<close>.\<close>

definition sent_to :: "'v tee \<Rightarrow> nat \<Rightarrow> nat" where
  "sent_to s j = t_pos s + (if j < t_k s then 1 else 0)"

definition tee_inv :: "'v list \<Rightarrow> nat \<Rightarrow> nat \<Rightarrow> 'v tee \<Rightarrow> bool" where
  "tee_inv src n bufferSize s \<longleftrightarrow>
     length (t_chs s) = n \<and> length (t_modes s) = n \<and> length (t_got s) = n
     \<and> t_pos s \<le> length src \<and> t_k s \<le> n \<and> (t_pos s = length src \<longrightarrow> t_k s = 0) \<and> (t_closed s \<longrightarrow> t_pos s = length src)
     \<and> (\<forall>j < n. length (t_chs s ! j) \<le> bufferSize
          \<and> (t_modes s ! j \<in> {NotStarted, Abandoned} \<longrightarrow> t_chs s ! j = take (sent_to s j) src \<and> t_got s ! j = [])
          \<and> (t_modes s ! j = Reading \<longrightarrow> t_got s ! j @ t_chs s ! j = take (sent_to s j) src)
          \<and> (t_modes s ! j = Finished \<longrightarrow> t_closed s \<and> t_got s ! j = src))"

lemma tee_inv_init: "tee_inv src n bufferSize (tee_init n)"
  by (simp add: tee_inv_def tee_init_def sent_to_def)

lemma tee_inv_step:
  assumes "tee_step src n bufferSize s s'" "tee_inv src n bufferSize s"
  shows "tee_inv src n bufferSize s'"
  using assms
proof cases
  case send
  have "take (Suc (t_pos s)) src = take (t_pos s) src @ [src ! t_pos s]"
    using send(2) by (simp add: take_Suc_conv_app_nth)
  then show ?thesis using assms(2) send
    by (auto simp: tee_inv_def sent_to_def nth_list_update less_Suc_eq split: if_splits simp flip: append_assoc)
next
  case next_value
  then show ?thesis using assms(2) by (auto simp: tee_inv_def sent_to_def)
qed (use assms(2) in \<open>auto simp: tee_inv_def sent_to_def nth_list_update\<close>)

interpretation tee_run: preserved "tee_step src n bufferSize" "tee_inv src n bufferSize" for src n bufferSize
  by unfold_locales (rule tee_inv_step)

lemma tee_inv_reachable: "tee_reachable src n bufferSize s \<Longrightarrow> tee_inv src n bufferSize s"
  unfolding tee_reachable_def using tee_run.inv_steps tee_inv_init by blast

lemma tee_copy:
  assumes "tee_inv src n bufferSize s" "j < n"
  shows "length (t_chs s ! j) \<le> bufferSize"
    and "t_modes s ! j \<in> {NotStarted, Abandoned} \<Longrightarrow> t_chs s ! j = take (sent_to s j) src"
    and "t_modes s ! j = Reading \<Longrightarrow> t_got s ! j @ t_chs s ! j = take (sent_to s j) src"
    and "t_modes s ! j = Finished \<Longrightarrow> t_closed s \<and> t_got s ! j = src"
  using assms by (auto simp: tee_inv_def)

subsection \<open>Progress\<close>

definition tee_done :: "'v tee \<Rightarrow> bool" where
  "tee_done s \<longleftrightarrow> t_closed s
     \<and> (\<forall>j < length (t_modes s). t_modes s ! j = Finished \<or> t_modes s ! j = Draining \<and> t_chs s ! j = [])"

lemma copy_step:
  assumes "j < n" "t_modes s ! j \<noteq> Abandoned" "t_modes s ! j \<noteq> Finished"
    and "t_modes s ! j \<noteq> NotStarted \<Longrightarrow> t_chs s ! j \<noteq> [] \<or> t_modes s ! j = Reading \<and> t_closed s"
  shows "\<exists>s'. tee_step src n bufferSize s s'"
proof (cases "t_modes s ! j")
  case NotStarted
  then show ?thesis using assms(1) tee_step.start by blast
next
  case Reading
  show ?thesis
  proof (cases "t_chs s ! j")
    case Nil
    then have "t_closed s" using assms(4) Reading by simp
    with Nil show ?thesis using tee_step.finish [OF assms(1) Reading] by blast
  next
    case (Cons v rest)
    then show ?thesis using tee_step.receive [OF assms(1) Reading Cons] by blast
  qed
next
  case Draining
  then obtain v rest where "t_chs s ! j = v # rest" using assms(4) by (cases "t_chs s ! j") simp_all
  then show ?thesis using tee_step.drain [OF assms(1) Draining] by blast
qed (use assms in auto)

lemma tee_progress:
  assumes inv: "tee_inv src n bufferSize s" and b: "0 < bufferSize"
    and none: "\<forall>j < n. t_modes s ! j \<noteq> Abandoned" and "\<not> tee_done s"
  shows "\<exists>s'. tee_step src n bufferSize s s'"
proof (cases "t_pos s < length src")
  case True
  have open_: "\<not> t_closed s" using inv True by (auto simp: tee_inv_def)
  have k: "t_k s \<le> n" using inv by (simp add: tee_inv_def)
  show ?thesis
  proof (cases "t_k s = n \<or> length (t_chs s ! t_k s) < bufferSize")
    case True
    show ?thesis
    proof (cases "t_k s = n")
      case True
      then show ?thesis using tee_step.next_value [OF \<open>t_pos s < length src\<close>] by blast
    next
      case False
      with True k have "t_k s < n" "length (t_chs s ! t_k s) < bufferSize" by auto
      then show ?thesis using tee_step.send [OF \<open>t_pos s < length src\<close>] by blast
    qed
  next
    case False
    then have "t_k s < n" "t_chs s ! t_k s \<noteq> []" using k b by auto
    moreover have "t_modes s ! t_k s \<noteq> Finished" using tee_copy(4) [OF inv \<open>t_k s < n\<close>] open_ by blast
    ultimately show ?thesis using copy_step none by blast
  qed
next
  case False
  then have len: "t_pos s = length src" using inv by (simp add: tee_inv_def)
  show ?thesis
  proof (cases "t_closed s")
    case True
    then obtain j where "j < n" "t_modes s ! j \<noteq> Finished" "t_modes s ! j = Draining \<Longrightarrow> t_chs s ! j \<noteq> []"
      using assms(4) inv by (auto simp: tee_done_def tee_inv_def)
    then show ?thesis using copy_step [of j n s src bufferSize] none True by (cases "t_modes s ! j") auto
  next
    case False
    then show ?thesis using len tee_step.close_all by blast
  qed
qed

definition mode_cost :: "copy_mode \<Rightarrow> nat" where
  "mode_cost m = (case m of NotStarted \<Rightarrow> 2 | Reading \<Rightarrow> 1 | _ \<Rightarrow> 0)"

definition tee_cost :: "'v list \<Rightarrow> nat \<Rightarrow> 'v tee \<Rightarrow> nat" where
  "tee_cost src n s = 2 * ((length src - t_pos s) * (n + 1) - t_k s) + sum_list (map length (t_chs s))
     + sum_list (map mode_cost (t_modes s)) + (if t_closed s then 0 else 1)"

lemma tee_step_cost:
  assumes "tee_step src n bufferSize s s'" "tee_inv src n bufferSize s"
  shows "tee_cost src n s' < tee_cost src n s"
proof -
  have len: "length (t_chs s) = n" "length (t_modes s) = n" using assms(2) by (simp_all add: tee_inv_def)
  have big: "t_k s < (length src - t_pos s) * (n + 1)" if "t_pos s < length src" "t_k s \<le> n"
  proof -
    have "1 * (n + 1) \<le> (length src - t_pos s) * (n + 1)" using that(1) by (intro mult_le_mono1) simp
    then have "n + 1 \<le> (length src - t_pos s) * (n + 1)" by (simp only: mult_1)
    with that(2) show ?thesis by (rule less_le_trans [OF le_imp_less_Suc, unfolded Suc_eq_plus1])
  qed
  show ?thesis
    using assms(1)
  proof cases
    case send
    then show ?thesis using big len sum_list_map_update [of "t_k s" "t_chs s" length "t_chs s ! t_k s @ [src ! t_pos s]"]
      by (simp add: tee_cost_def)
  next
    case next_value
    then obtain d where "length src - t_pos s = Suc d" by (cases "length src - t_pos s") auto
    then have "length src - Suc (t_pos s) = d" by simp
    then show ?thesis using next_value \<open>length src - t_pos s = Suc d\<close> by (simp add: tee_cost_def)
  next
    case (receive j v rest)
    then show ?thesis using len sum_list_map_update [of j "t_chs s" length rest] by (simp add: tee_cost_def)
  next
    case (break_off j v rest)
    then show ?thesis using len sum_list_map_update [of j "t_chs s" length rest] sum_list_map_update [of j "t_modes s" mode_cost Draining]
      by (simp add: tee_cost_def mode_cost_def)
  next
    case (drain j v rest)
    then show ?thesis using len sum_list_map_update [of j "t_chs s" length rest] by (simp add: tee_cost_def)
  next
    case (start j)
    then show ?thesis using len sum_list_map_update [of j "t_modes s" mode_cost Reading] by (simp add: tee_cost_def mode_cost_def)
  next
    case (abandon j)
    then show ?thesis using len sum_list_map_update [of j "t_modes s" mode_cost Abandoned] by (simp add: tee_cost_def mode_cost_def)
  next
    case (finish j)
    then show ?thesis using len sum_list_map_update [of j "t_modes s" mode_cost Finished] by (simp add: tee_cost_def mode_cost_def)
  qed (simp add: tee_cost_def)
qed

lemma abandoned_stays:
  "(tee_step src n bufferSize)\<^sup>*\<^sup>* s s' \<Longrightarrow> t_modes s ! j = Abandoned \<Longrightarrow> t_modes s' ! j = Abandoned"
proof (induction rule: rtranclp_induct)
  case (step s' s'')
  have keep: "xs[i := v] ! j = Abandoned" if "xs ! j = Abandoned" "xs ! i \<noteq> Abandoned" for xs :: "copy_mode list" and i v
    using that by (cases "i = j") simp_all
  from step.hyps(2) step.IH [OF step.prems] show ?case by cases (auto intro: keep)
qed

lemma abandoned_blocks:
  assumes "tee_inv src n bufferSize s" "j < n" "t_modes s ! j = Abandoned" "bufferSize < length src"
  shows "\<not> t_closed s"
proof
  assume "t_closed s"
  then have "t_chs s ! j = src" using tee_copy(2) [OF assms(1,2)] assms(1,3) by (simp add: tee_inv_def sent_to_def)
  then show False using tee_copy(1) [OF assms(1,2)] assms(4) by simp
qed

subsection \<open>Properties\<close>

text \<open>
  A copy whose loop ran to its end has seen exactly the values of the source, in order,
  however the savers and the source were interleaved; until then it has seen a prefix.
\<close>

theorem tee_copies_source:
  assumes "tee_reachable src n bufferSize s" and "j < n"
  shows "(t_modes s ! j = Finished \<longrightarrow> t_got s ! j = src)
    \<and> (t_modes s ! j = Reading \<longrightarrow> (\<exists>rest. t_got s ! j @ rest = src))"
proof -
  note inv = tee_inv_reachable [OF assms(1)]
  have "\<exists>rest. t_got s ! j @ rest = src" if "t_modes s ! j = Reading"
  proof -
    have "t_got s ! j @ t_chs s ! j @ drop (sent_to s j) src = src"
      using tee_copy(3) [OF inv assms(2) that] by (metis append_assoc append_take_drop_id)
    then show ?thesis by blast
  qed
  then show ?thesis using tee_copy(4) [OF inv assms(2)] by blast
qed

text \<open>
  C33. As long as every saver ranges over its copy the copies never block each other: until all
  loops have ended some step is possible, and every step makes a natural number smaller.
\<close>

theorem tee_never_blocks:
  assumes "tee_reachable src n bufferSize s" and "0 < bufferSize" and "\<forall>j < n. t_modes s ! j \<noteq> Abandoned"
  shows "(tee_done s \<or> (\<exists>s'. tee_step src n bufferSize s s'))
    \<and> (\<forall>s'. tee_step src n bufferSize s s' \<longrightarrow> tee_cost src n s' < tee_cost src n s)"
  using tee_progress [OF tee_inv_reachable [OF assms(1)] assms(2,3)] tee_step_cost [OF _ tee_inv_reachable [OF assms(1)]] by blast

text \<open>
  C34. When one saver returns before it ranges over its copy, as it does when its first write
  fails, and there are more values than a channel holds, then no other saver's loop ever
  ends: the source waits for the abandoned channel forever.
\<close>

theorem abandoned_copy_blocks_all:
  assumes "tee_reachable src n bufferSize s" and "j < n" and "t_modes s ! j = Abandoned" and "bufferSize < length src"
    and "(tee_step src n bufferSize)\<^sup>*\<^sup>* s s'"
  shows "\<not> t_closed s' \<and> (\<forall>i < n. t_modes s' ! i \<noteq> Finished)"
proof -
  have inv: "tee_inv src n bufferSize s'" using tee_run.inv_steps [OF assms(5)] tee_inv_reachable [OF assms(1)] by blast
  have "\<not> t_closed s'" by (rule abandoned_blocks [OF inv assms(2) abandoned_stays [OF assms(5,3)] assms(4)])
  then show ?thesis using tee_copy(4) [OF inv] by blast
qed

subsection \<open>Witnesses\<close>

lemma tee_copies_source_witness:
  "\<exists>s. tee_reachable [7 :: nat] 1 1 s \<and> t_modes s ! 0 = Finished \<and> t_got s ! 0 = [7]"
proof -
  let ?st = "\<lambda>p k c ch m g. \<lparr>t_pos = p, t_k = k, t_closed = c, t_chs = [ch], t_modes = [m], t_got = [g]\<rparr> :: nat tee"
  let ?R = "tee_step [7 :: nat] 1 1"
  have "?R (?st 0 0 False [] NotStarted []) (?st 0 0 False [] Reading [])"
    using tee_step.start [of 0 1 "?st 0 0 False [] NotStarted []" "[7]" 1] by simp
  moreover have "?R (?st 0 0 False [] Reading []) (?st 0 1 False [7] Reading [])"
    using tee_step.send [of "?st 0 0 False [] Reading []" "[7]" 1 1] by simp
  moreover have "?R (?st 0 1 False [7] Reading []) (?st 1 0 False [7] Reading [])"
    using tee_step.next_value [of "?st 0 1 False [7] Reading []" "[7]" 1 1] by simp
  moreover have "?R (?st 1 0 False [7] Reading []) (?st 1 0 False [] Reading [7])"
    using tee_step.receive [of 0 1 "?st 1 0 False [7] Reading []" 7 "[]" "[7]" 1] by simp
  moreover have "?R (?st 1 0 False [] Reading [7]) (?st 1 0 True [] Reading [7])"
    using tee_step.close_all [of "?st 1 0 False [] Reading [7]" "[7]" 1 1] by simp
  moreover have "?R (?st 1 0 True [] Reading [7]) (?st 1 0 True [] Finished [7])"
    using tee_step.finish [of 0 1 "?st 1 0 True [] Reading [7]" "[7]" 1] by simp
  ultimately have r: "tee_reachable [7] 1 1 (?st 1 0 True [] Finished [7])"
    unfolding tee_reachable_def tee_init_def by (auto intro: converse_rtranclp_into_rtranclp)
  then show ?thesis using tee_copies_source [OF r, of 0] by (intro exI [of _ "?st 1 0 True [] Finished [7]"]) simp
qed

lemma tee_never_blocks_witness: "\<exists>s'. tee_step [7 :: nat, 8] 2 1 (tee_init 2) s'"
proof -
  have "tee_reachable [7 :: nat, 8] 2 1 (tee_init 2)" by (simp add: tee_reachable_def)
  from tee_never_blocks [OF this] show ?thesis by (simp add: tee_init_def tee_done_def less_Suc_eq numeral_2_eq_2)
qed

lemma abandoned_copy_blocks_all_witness:
  "\<exists>s. tee_reachable [7 :: nat, 8] 2 1 s \<and> t_modes s ! 0 = Abandoned \<and> \<not> t_closed s"
proof -
  let ?s = "(tee_init 2 :: nat tee)\<lparr>t_modes := [Abandoned, NotStarted]\<rparr>"
  have "tee_step [7, 8] 2 1 (tee_init 2) ?s" 
    using tee_step.abandon [of 0 2 "tee_init 2 :: nat tee" "[7, 8]" 1] by (simp add: tee_init_def numeral_2_eq_2)
  then have r: "tee_reachable [7, 8] 2 1 ?s" by (simp add: tee_reachable_def)
  have m: "t_modes ?s ! 0 = Abandoned" by (simp add: tee_init_def numeral_2_eq_2)
  from abandoned_copy_blocks_all [OF r _ m _ rtranclp.rtrancl_refl] show ?thesis using r m by auto
qed

end
