(* ===== verification/OsmRun.thy ===== *)
theory OsmRun
  imports Binary "HOL-Library.Multiset"
begin

section \<open>A run of the generator and its errors\<close>

text \<open>
  \<open>ParseOSMData\<close> of \<^verbatim>\<open>geoparser/geogen.go\<close> with \<open>parseDatabase\<close> of \<^verbatim>\<open>fill_cache.go\<close>, as processes: a
  loop hands the objects of the database to a pool of goroutines, these send the points of their
  object over a channel of ten places, and the saver receives them through \<open>Tee\<close>. An object is
  the list of its points. \<open>db\<close> is the error with which the database ends, if any, \<open>fmt\<close> the
  error of an unknown output format, and \<open>save\<close> what the savers return for the points they got.

  \<open>saveWorker\<close> returns at once when a format is unknown. The goroutine of \<open>Tee\<close> still
  receives two points then: one fills the channel that nobody reads, the next stays in its hand.
\<close>

record 'p osm_run =
  or_objs :: "'p list list"
  or_pool :: "'p list list"
  or_chan :: "'p list"
  or_closed :: bool
  or_read :: "'p list"
  or_parser :: "error option option"
  or_saver :: "error option option"

definition osm_init :: "'p list list \<Rightarrow> 'p osm_run" where
  "osm_init objs = \<lparr>or_objs = objs, or_pool = [], or_chan = [], or_closed = False, or_read = [], or_parser = None, or_saver = None\<rparr>"

definition parsedPointsSize :: nat where
  "parsedPointsSize = 10"

definition abandoned_room :: nat where
  "abandoned_room = 2"

inductive osm_step :: "nat \<Rightarrow> error option \<Rightarrow> error option \<Rightarrow> ('p list \<Rightarrow> error option) \<Rightarrow> 'p osm_run \<Rightarrow> 'p osm_run \<Rightarrow> bool"
  for threads :: nat and db :: "error option" and fmt :: "error option" and save :: "'p list \<Rightarrow> error option" where
  hand: "or_objs s = obj # objs \<Longrightarrow> length (or_pool s) < threads
    \<Longrightarrow> osm_step threads db fmt save s (s\<lparr>or_objs := objs, or_pool := or_pool s @ [obj]\<rparr>)"
| send: "or_pool s = as @ (p # ps) # bs \<Longrightarrow> length (or_chan s) < parsedPointsSize
    \<Longrightarrow> osm_step threads db fmt save s (s\<lparr>or_pool := as @ ps # bs, or_chan := or_chan s @ [p]\<rparr>)"
| ended: "or_pool s = as @ [] # bs \<Longrightarrow> osm_step threads db fmt save s (s\<lparr>or_pool := as @ bs\<rparr>)"
| receive: "or_chan s = p # ps \<Longrightarrow> fmt = None \<or> length (or_read s) < abandoned_room
    \<Longrightarrow> osm_step threads db fmt save s (s\<lparr>or_chan := ps, or_read := or_read s @ [p]\<rparr>)"
| parsed: "db = None \<Longrightarrow> or_objs s = [] \<Longrightarrow> or_pool s = [] \<Longrightarrow> or_parser s = None
    \<Longrightarrow> osm_step threads db fmt save s (s\<lparr>or_parser := Some None, or_closed := True\<rparr>)"
| failed: "db = Some err \<Longrightarrow> or_objs s = [] \<Longrightarrow> or_parser s = None
    \<Longrightarrow> osm_step threads db fmt save s (s\<lparr>or_parser := Some (Some err)\<rparr>)"
| saved: "fmt = None \<Longrightarrow> or_chan s = [] \<Longrightarrow> or_closed s \<Longrightarrow> or_saver s = None
    \<Longrightarrow> osm_step threads db fmt save s (s\<lparr>or_saver := Some (save (or_read s))\<rparr>)"
| rejected: "fmt = Some err \<Longrightarrow> or_saver s = None
    \<Longrightarrow> osm_step threads db fmt save s (s\<lparr>or_saver := Some (Some err)\<rparr>)"

inductive_cases osm_stepE [elim]: "osm_step threads db fmt save s s'"

text \<open>\<open>wg.Wait\<close> returns when both have returned.\<close>

definition osm_over :: "'p osm_run \<Rightarrow> bool" where
  "osm_over s \<longleftrightarrow> or_parser s \<noteq> None \<and> or_saver s \<noteq> None"

subsection \<open>The invariant\<close>

definition osm_inv :: "nat \<Rightarrow> error option \<Rightarrow> error option \<Rightarrow> ('p list \<Rightarrow> error option) \<Rightarrow> 'p list list \<Rightarrow> 'p osm_run \<Rightarrow> bool" where
  "osm_inv threads db fmt save objs s \<longleftrightarrow>
     mset (concat (or_objs s)) + mset (concat (or_pool s)) + mset (or_chan s) + mset (or_read s) = mset (concat objs)
     \<and> length (or_chan s) \<le> parsedPointsSize \<and> length (or_pool s) \<le> threads
     \<and> (or_closed s \<longleftrightarrow> or_parser s = Some None)
     \<and> (or_parser s \<noteq> None \<longrightarrow> or_parser s = Some db \<and> or_objs s = [] \<and> (db = None \<longrightarrow> or_pool s = []))
     \<and> (fmt \<noteq> None \<longrightarrow> length (or_read s) \<le> abandoned_room)
     \<and> (or_saver s \<noteq> None \<longrightarrow> or_saver s = Some (case fmt of Some err \<Rightarrow> Some err | None \<Rightarrow> save (or_read s)))
     \<and> (fmt = None \<and> or_saver s \<noteq> None \<longrightarrow> or_closed s \<and> or_chan s = [])"

lemma osm_inv_init: "osm_inv threads db fmt save objs (osm_init objs)"
  by (simp add: osm_inv_def osm_init_def)

lemma osm_inv_step:
  assumes "osm_step threads db fmt save s s'" "osm_inv threads db fmt save objs s"
  shows "osm_inv threads db fmt save objs s'"
  using assms by cases (auto simp: osm_inv_def ac_simps split: option.splits)

interpretation osm: preserved "osm_step threads db fmt save" "osm_inv threads db fmt save objs" for threads db fmt save objs
  by unfold_locales (rule osm_inv_step)

lemmas osm_inv_steps = osm.inv_steps [OF _ osm_inv_init]

subsection \<open>Every run stops\<close>

definition osm_cost :: "'p osm_run \<Rightarrow> nat" where
  "osm_cost s = sum_list (map (\<lambda>ps. 2 * length ps + 2) (or_objs s)) + sum_list (map (\<lambda>ps. 2 * length ps + 1) (or_pool s))
     + length (or_chan s) + (if or_parser s = None then 1 else 0) + (if or_saver s = None then 1 else 0)"

lemma osm_step_cost: "osm_step threads db fmt save s s' \<Longrightarrow> osm_cost s' < osm_cost s"
  by (erule osm_stepE) (simp_all add: osm_cost_def)

subsection \<open>When it goes on\<close>

lemma pool_moves:
  assumes "or_pool s \<noteq> []" "length (or_chan s) < parsedPointsSize"
  shows "\<exists>s'. osm_step threads db fmt save s s'"
proof -
  obtain a as where a: "or_pool s = [] @ a # as" using assms(1) by (cases "or_pool s") simp_all
  show ?thesis
  proof (cases a)
    case Nil
    then have "or_pool s = [] @ [] # as" using a by simp
    then show ?thesis using osm_step.ended by blast
  next
    case (Cons p ps)
    then have "or_pool s = [] @ (p # ps) # as" using a by simp
    from osm_step.send [OF this assms(2)] show ?thesis by blast
  qed
qed

lemma parser_moves:
  assumes "0 < threads" "or_parser s = None" "length (or_chan s) < parsedPointsSize \<or> or_pool s = []"
  shows "\<exists>s'. osm_step threads db fmt save s s'"
proof (cases "or_pool s = []")
  case True
  show ?thesis
  proof (cases "or_objs s")
    case Nil
    then show ?thesis using True assms(2) osm_step.parsed osm_step.failed by (cases db) blast+
  next
    case (Cons obj objs)
    moreover have "length (or_pool s) < threads" using True assms(1) by simp
    ultimately show ?thesis using osm_step.hand by blast
  qed
qed (use pool_moves assms(3) in blast)

lemma good_run_moves:
  assumes "osm_inv threads None None save objs s" "0 < threads" "\<not> osm_over s"
  shows "\<exists>s'. osm_step threads None None save s s'"
proof (cases "or_chan s")
  case Nil
  show ?thesis
  proof (cases "or_parser s")
    case None
    moreover have "length (or_chan s) < parsedPointsSize" by (simp add: Nil parsedPointsSize_def)
    ultimately show ?thesis using parser_moves [OF assms(2)] by blast
  next
    case (Some e)
    then have "or_closed s" "or_saver s = None" using assms(1,3) by (auto simp: osm_inv_def osm_over_def)
    then show ?thesis using osm_step.saved Nil by blast
  qed
next
  case (Cons p ps)
  then show ?thesis using osm_step.receive [OF Cons] by blast
qed

lemma rejected_run_moves:
  assumes "osm_inv threads None (Some err) save objs s" "0 < threads" "\<not> osm_over s"
    and "length (concat objs) \<le> parsedPointsSize + abandoned_room"
  shows "\<exists>s'. osm_step threads None (Some err) save s s'"
proof (cases "or_saver s")
  case None
  then show ?thesis using osm_step.rejected by blast
next
  case (Some e)
  then have p: "or_parser s = None" using assms(3) by (simp add: osm_over_def)
  show ?thesis
  proof (cases "length (or_read s) < abandoned_room \<and> or_chan s \<noteq> []")
    case True
    then show ?thesis using osm_step.receive by (metis list.exhaust)
  next
    case False
    have "mset (concat (or_objs s)) + mset (concat (or_pool s)) + mset (or_chan s) + mset (or_read s) = mset (concat objs)"
      using assms(1) by (simp add: osm_inv_def)
    then have len: "length (concat (or_objs s)) + length (concat (or_pool s)) + length (or_chan s) + length (or_read s) = length (concat objs)"
      by (metis size_mset size_union)
    show ?thesis
    proof (cases "length (or_chan s) < parsedPointsSize")
      case True
      then show ?thesis using parser_moves [OF assms(2) p] by blast
    next
      case full: False
      then have "or_chan s \<noteq> []" by (auto simp: parsedPointsSize_def)
      then have "length (concat (or_pool s)) = 0"
        using full False len assms(4) by (simp add: parsedPointsSize_def abandoned_room_def not_less del: length_concat length_0_conv)
      then show ?thesis
      proof (cases "or_pool s")
        case Nil
        then show ?thesis using parser_moves [OF assms(2) p] by blast
      next
        case (Cons a as)
        then have "or_pool s = [] @ [] # as" using \<open>length (concat (or_pool s)) = 0\<close> by simp
        then show ?thesis using osm_step.ended by blast
      qed
    qed
  qed
qed

interpretation good_run: process "osm_step threads None None save" "\<lambda>s. 0 < threads \<and> osm_inv threads None None save objs s" osm_over osm_cost
  for threads save objs
  by unfold_locales (auto intro: osm_inv_step good_run_moves osm_step_cost)

interpretation rejected_run: process "osm_step threads None (Some err) save"
  "\<lambda>s. 0 < threads \<and> length (concat objs) \<le> parsedPointsSize + abandoned_room \<and> osm_inv threads None (Some err) save objs s" osm_over osm_cost
  for threads err save objs
  by unfold_locales (auto intro: osm_inv_step rejected_run_moves osm_step_cost)

subsection \<open>Returning and hanging\<close>

lemma good_run_returns:
  assumes "0 < threads" and "(osm_step threads None None save)\<^sup>*\<^sup>* (osm_init objs) s"
  shows "(\<forall>s'. osm_step threads None None save s s' \<longrightarrow> osm_cost s' < osm_cost s)
    \<and> (\<exists>s'. (osm_step threads None None save)\<^sup>*\<^sup>* s s' \<and> osm_over s')
    \<and> (osm_over s \<longrightarrow> mset (or_read s) = mset (concat objs) \<and> or_parser s = Some None \<and> or_saver s = Some (save (or_read s)))"
proof -
  have inv: "0 < threads \<and> osm_inv threads None None save objs (osm_init objs)" using assms(1) osm_inv_init by blast
  show ?thesis using good_run.runs [OF inv assms(2)] osm_inv_steps [OF assms(2)] by (auto simp: osm_inv_def osm_over_def)
qed

lemma bad_run_hangs:
  assumes "0 < threads"
  shows "\<not> (\<exists>s. (osm_step threads (Some err) None save)\<^sup>*\<^sup>* (osm_init objs) s \<and> osm_over s)
    \<and> ((\<exists>s. (osm_step threads None (Some err) save)\<^sup>*\<^sup>* (osm_init objs) s \<and> osm_over s) \<longleftrightarrow> length (concat objs) \<le> 12)"
proof (intro conjI iffI)
  show "\<not> (\<exists>s. (osm_step threads (Some err) None save)\<^sup>*\<^sup>* (osm_init objs) s \<and> osm_over s)"
  proof -
    have "\<not> osm_over s" if "osm_inv threads (Some err) None save objs s" for s
      using that by (auto simp: osm_inv_def osm_over_def)
    then show "\<not> (\<exists>s. (osm_step threads (Some err) None save)\<^sup>*\<^sup>* (osm_init objs) s \<and> osm_over s)"
      using osm_inv_steps by blast
  qed
next
  assume "\<exists>s. (osm_step threads None (Some err) save)\<^sup>*\<^sup>* (osm_init objs) s \<and> osm_over s"
  then obtain s where s: "osm_inv threads None (Some err) save objs s" "osm_over s" using osm_inv_steps by blast
  then have "mset (or_chan s) + mset (or_read s) = mset (concat objs)" "length (or_chan s) \<le> 10" "length (or_read s) \<le> 2"
    by (auto simp: osm_inv_def osm_over_def parsedPointsSize_def abandoned_room_def)
  moreover from this(1) have "length (or_chan s) + length (or_read s) = length (concat objs)" by (metis size_mset size_union)
  ultimately show "length (concat objs) \<le> 12" by linarith
next
  assume "length (concat objs) \<le> 12"
  then have small: "length (concat objs) \<le> parsedPointsSize + abandoned_room" by (simp add: parsedPointsSize_def abandoned_room_def)
  show "\<exists>s. (osm_step threads None (Some err) save)\<^sup>*\<^sup>* (osm_init objs) s \<and> osm_over s"
    by (rule rejected_run.ends) (use assms small osm_inv_init in blast)
qed

subsection \<open>The property\<close>

text \<open>
  C36. When \<open>ParseOSMData\<close> returns. Every step makes a measure smaller, so every run stops. Without
  an error of the database and with known formats it stops with both goroutines returned, from every state on
  the way, the savers have got exactly the points of all objects, and the result is
  theirs. But with known formats an error of the database is never reported: no reachable
  state is one in which both have returned. And an unknown format is reported only if
  the database has at most twelve points; with more the pool blocks on the channel for ever.
\<close>

theorem generator_returns:
  assumes "0 < threads"
  shows "(\<forall>s s'. osm_step threads db fmt save s s' \<longrightarrow> osm_cost s' < osm_cost s)
    \<and> (\<forall>s. (osm_step threads None None save)\<^sup>*\<^sup>* (osm_init objs) s \<longrightarrow> (\<exists>s'. (osm_step threads None None save)\<^sup>*\<^sup>* s s' \<and> osm_over s')
         \<and> (osm_over s \<longrightarrow> mset (or_read s) = mset (concat objs) \<and> or_parser s = Some None \<and> or_saver s = Some (save (or_read s))))
    \<and> \<not> (\<exists>s. (osm_step threads (Some err) None save)\<^sup>*\<^sup>* (osm_init objs) s \<and> osm_over s)
    \<and> ((\<exists>s. (osm_step threads None (Some err) save)\<^sup>*\<^sup>* (osm_init objs) s \<and> osm_over s) \<longleftrightarrow> length (concat objs) \<le> 12)"
  by (intro conjI allI impI osm_step_cost conjunct2 [OF good_run_returns [OF assms], THEN conjunct1]
      conjunct2 [OF conjunct2 [OF good_run_returns [OF assms]], THEN mp] conjunct1 [OF bad_run_hangs [OF assms]] conjunct2 [OF bad_run_hangs [OF assms]])

subsection \<open>Witness\<close>

lemma generator_returns_witness:
  "(\<exists>s. (osm_step 2 None None (\<lambda>_ :: nat list. None))\<^sup>*\<^sup>* (osm_init [[1], [2, 3]]) s \<and> osm_over s)
    \<and> (\<exists>s. (osm_step 2 None (Some (Err ''unsupported format'')) (\<lambda>_ :: nat list. None))\<^sup>*\<^sup>* (osm_init [replicate 12 0]) s \<and> osm_over s)
    \<and> \<not> (\<exists>s. (osm_step 2 None (Some (Err ''unsupported format'')) (\<lambda>_ :: nat list. None))\<^sup>*\<^sup>* (osm_init [replicate 13 0]) s \<and> osm_over s)"
proof (intro conjI)
  note W = generator_returns [where threads = 2 and save = "\<lambda>_ :: nat list. None" and err = "Err ''unsupported format''", OF zero_less_numeral]
  note returns = W [THEN conjunct2, THEN conjunct1, rule_format, THEN conjunct1] and full = W [THEN conjunct2, THEN conjunct2, THEN conjunct2]
  show "\<exists>s. (osm_step 2 None None (\<lambda>_ :: nat list. None))\<^sup>*\<^sup>* (osm_init [[1], [2, 3]]) s \<and> osm_over s"
    by (rule returns [OF rtranclp.rtrancl_refl])
  show "\<exists>s. (osm_step 2 None (Some (Err ''unsupported format'')) (\<lambda>_ :: nat list. None))\<^sup>*\<^sup>* (osm_init [replicate 12 0]) s \<and> osm_over s"
    unfolding full by simp
  show "\<not> (\<exists>s. (osm_step 2 None (Some (Err ''unsupported format'')) (\<lambda>_ :: nat list. None))\<^sup>*\<^sup>* (osm_init [replicate 13 0]) s \<and> osm_over s)"
    unfolding full by simp
qed

end
