(* ===== verification/Localize.thy ===== *)
theory Localize
  imports GeomMaker CacheModel RangeIndex
begin

section \<open>Names and their localisation\<close>

text \<open>
  \<^verbatim>\<open>geoparser/localize.go\<close>, \<^verbatim>\<open>cache.go\<close>, \<^verbatim>\<open>calc.go\<close>, \<^verbatim>\<open>config.go\<close> and the state of
  \<^verbatim>\<open>geogen.go\<close>: a first pass over the relations remembers translated names and the
  borders of places and regions; names of objects are looked up in them later. The tags of
  \<^verbatim>\<open>paulmach/osm\<close>, the concurrent map of \<^verbatim>\<open>xsync\<close> and the geometry are parameters. A
  \<open>unique.Handle\<close> of a string is the string. A panic is \<^const>\<open>None\<close>.
\<close>

definition str :: "string \<Rightarrow> gostring" where
  "str s = map of_char s"

subsection \<open>What the generator uses\<close>

record osm_tags =
  tag_Find :: "tags \<Rightarrow> gostring \<Rightarrow> gostring"
  tag_Has :: "tags \<Rightarrow> gostring \<Rightarrow> bool"
  tag_Map :: "tags \<Rightarrow> gostring \<Rightarrow> gostring"

record 'm str_map =
  lc_New :: 'm
  lc_Load :: "'m \<Rightarrow> gostring \<Rightarrow> gostring option"
  lc_Store :: "'m \<Rightarrow> gostring \<Rightarrow> gostring \<Rightarrow> 'm"

text \<open>
  \<open>Sample\<close> is the random sampling of a box for the relation with the given number: its
  corners, the distance and the number of attempts.
\<close>

record ('q, 'm, 'b) gen_env =
  g_tags :: osm_tags
  g_map :: "'m str_map"
  g_orb :: orb
  g_qtree :: "'q qtree"
  g_btree :: "(unit, 'b) btree"
  g_geometry :: geometry
  g_osm :: osm_db
  BoundIsZero :: "orb_bound \<Rightarrow> bool"
  RingCentroid :: "ring \<Rightarrow> orb_point"
  PolygonCentroid :: "polygon \<Rightarrow> orb_point"
  ToInterval :: "line_string \<Rightarrow> f64 \<Rightarrow> line_string"
  Sample :: "int \<Rightarrow> f64 \<Rightarrow> f64 \<Rightarrow> f64 \<Rightarrow> f64 \<Rightarrow> f64 \<Rightarrow> int \<Rightarrow> orb_point list"

record osm_relation =
  rel_ID :: int
  rel_Tags :: tags
  rel_Members :: "member list"

subsection \<open>The state of the generator\<close>

record config =
  Threads :: int
  cfg_Version :: u32
  PreferredLocalization :: gostring
  HighwayPointsDistance :: f64

definition ConfigDefault :: "int \<Rightarrow> config" where
  "ConfigDefault gomaxprocs = \<lparr>Threads = gomaxprocs, cfg_Version = 1, PreferredLocalization = [], HighwayPointsDistance = f64_of_int 150\<rparr>"

record geo_zone =
  gz_Name :: gostring
  gz_Bounds :: orb_bound
  gz_Polygon :: multi_polygon

record ('q, 'm, 'b) geo_gen =
  gg_config :: config
  placeIndex :: "(gostring, 'q) border_tree"
  regionIndex :: "(gostring, 'q) border_tree"
  localizationCache :: 'm
  parsedNodes :: 'b
  parsedNodesDupes :: u64
  parsedWays :: 'b
  parsedWaysDupes :: u64
  parsedRelations :: 'b
  parsedRelationsDupes :: u64
  gg_regions :: "geo_zone list"
  gg_countries :: "geo_zone list"

definition NewGeoGen :: "('q, 'm, 'b) gen_env \<Rightarrow> config \<Rightarrow> ('q, 'm, 'b) geo_gen" where
  "NewGeoGen E config =
     \<lparr>gg_config = config, placeIndex = NewBorderTree (g_qtree E), regionIndex = NewBorderTree (g_qtree E),
      localizationCache = lc_New (g_map E),
      parsedNodes = New (g_btree E), parsedNodesDupes = 0, parsedWays = New (g_btree E), parsedWaysDupes = 0,
      parsedRelations = New (g_btree E), parsedRelationsDupes = 0, gg_regions = [], gg_countries = []\<rparr>"

definition ResetCache :: "('q, 'm, 'b) gen_env \<Rightarrow> ('q, 'm, 'b) geo_gen \<Rightarrow> ('q, 'm, 'b) geo_gen" where
  "ResetCache E f =
     f\<lparr>placeIndex := NewBorderTree (g_qtree E), regionIndex := NewBorderTree (g_qtree E), localizationCache := lc_New (g_map E)\<rparr>"

subsection \<open>Names of an object\<close>

definition nameKey :: gostring where "nameKey = str ''name''"
definition cityAddrKey :: gostring where "cityAddrKey = str ''addr:city''"
definition addrStreetKey :: gostring where "addrStreetKey = str ''addr:street''"

definition localizedName :: "('q, 'm, 'b) gen_env \<Rightarrow> ('q, 'm, 'b) geo_gen \<Rightarrow> tags \<Rightarrow> gostring" where
  "localizedName E f tags =
     (let name = tag_Find (g_tags E) tags nameKey; pref = PreferredLocalization (gg_config f) in
      if pref \<noteq> [] then
        (let localized = tag_Find (g_tags E) tags (nameKey @ str '':'' @ pref) in
         if localized \<noteq> [] then localized
         else
           (case lc_Load (g_map E) (localizationCache f) name of
              Some localized \<Rightarrow> localized
            | None \<Rightarrow> name))
      else name)"

definition getHighwayName :: "('q, 'm, 'b) gen_env \<Rightarrow> ('q, 'm, 'b) geo_gen \<Rightarrow> tags \<Rightarrow> gostring" where
  "getHighwayName E f tags =
     (let ref = tag_Find (g_tags E) tags (str ''ref''); highwayName = localizedName E f tags in
      (if ref \<noteq> [] then ref @ str '' '' else []) @ (if highwayName \<noteq> [] then highwayName else []))"

text \<open>\<open>out, _ := index.QueryPoint(point)\<close>: the empty text when no border contains the point.\<close>

definition calcPlace :: "('q, 'm, 'b) gen_env \<Rightarrow> ('q, 'm, 'b) geo_gen \<Rightarrow> orb_point \<Rightarrow> gostring option" where
  "calcPlace E f point = do {
     r \<leftarrow> QueryPoint (g_orb E) (g_qtree E) (placeIndex f) point;
     Some (case r of Some out \<Rightarrow> out | None \<Rightarrow> [])
   }"

definition calcRegion :: "('q, 'm, 'b) gen_env \<Rightarrow> ('q, 'm, 'b) geo_gen \<Rightarrow> orb_point \<Rightarrow> gostring option" where
  "calcRegion E f point = do {
     r \<leftarrow> QueryPoint (g_orb E) (g_qtree E) (regionIndex f) point;
     Some (case r of Some out \<Rightarrow> out | None \<Rightarrow> [])
   }"

definition localizedCityAddr :: "('q, 'm, 'b) gen_env \<Rightarrow> ('q, 'm, 'b) geo_gen \<Rightarrow> tags \<Rightarrow> orb_point \<Rightarrow> gostring option" where
  "localizedCityAddr E f tags point =
     (let name = tag_Find (g_tags E) tags cityAddrKey; pref = PreferredLocalization (gg_config f) in
      if pref = [] then (if name \<noteq> [] then Some name else calcPlace E f point)
      else
        (let localized = tag_Find (g_tags E) tags (cityAddrKey @ str '':'' @ pref) in
         if localized \<noteq> [] then Some localized
         else
           (case lc_Load (g_map E) (localizationCache f) name of
              Some localized \<Rightarrow> Some localized
            | None \<Rightarrow> do {
                calcPlaceName \<leftarrow> calcPlace E f point;
                Some (if calcPlaceName \<noteq> [] then
                    (case lc_Load (g_map E) (localizationCache f) calcPlaceName of
                       Some localized \<Rightarrow> localized
                     | None \<Rightarrow> calcPlaceName)
                  else name)
              })))"

definition localizedStreetName :: "('q, 'm, 'b) gen_env \<Rightarrow> ('q, 'm, 'b) geo_gen \<Rightarrow> tags \<Rightarrow> gostring" where
  "localizedStreetName E f tags =
     (let name = tag_Find (g_tags E) tags addrStreetKey; pref = PreferredLocalization (gg_config f) in
      if pref = [] then name
      else
        (let localized = tag_Find (g_tags E) tags (addrStreetKey @ str '':'' @ pref) in
         if localized \<noteq> [] then localized
         else
           (case lc_Load (g_map E) (localizationCache f) name of
              Some localized \<Rightarrow> localized
            | None \<Rightarrow> name)))"

definition localizedRegion :: "('q, 'm, 'b) gen_env \<Rightarrow> ('q, 'm, 'b) geo_gen \<Rightarrow> orb_point \<Rightarrow> gostring option" where
  "localizedRegion E f point = do {
     regionName \<leftarrow> calcRegion E f point;
     Some (if regionName \<noteq> [] then
         (case lc_Load (g_map E) (localizationCache f) regionName of
            Some localized \<Rightarrow> localized
          | None \<Rightarrow> regionName)
       else [])
   }"

subsection \<open>Filling the caches\<close>

definition cacheLocalization :: "('q, 'm, 'b) gen_env \<Rightarrow> ('q, 'm, 'b) geo_gen \<Rightarrow> tags \<Rightarrow> ('q, 'm, 'b) geo_gen" where
  "cacheLocalization E f tags =
     (let officialName = tag_Find (g_tags E) tags nameKey;
          localized = tag_Find (g_tags E) tags (nameKey @ str '':'' @ PreferredLocalization (gg_config f)) in
      if officialName \<noteq> [] \<and> localized \<noteq> [] \<and> officialName \<noteq> localized
      then f\<lparr>localizationCache := lc_Store (g_map E) (localizationCache f) officialName localized\<rparr>
      else f)"

definition cacheRelPlace :: "('q, 'm, 'b) gen_env \<Rightarrow> osm_relation \<Rightarrow> ('q, 'm, 'b) geo_gen \<Rightarrow> ('q, 'm, 'b) geo_gen option" where
  "cacheRelPlace E rel f =
     (let name = tag_Find (g_tags E) (rel_Tags rel) nameKey; tags = tag_Map (g_tags E) (rel_Tags rel) in
      if tags (str ''type'') = str ''multipolygon'' \<or> tags (str ''type'') = str ''boundary'' then do {
        r \<leftarrow> buildPolygon (g_geometry E) (g_osm E) (rel_Members rel);
        Some (case r of
            Inl err \<Rightarrow> f
          | Inr mpoly \<Rightarrow>
              if BoundIsZero E (Bound (g_orb E) mpoly) \<or> length mpoly = 0 then f
              else if name = [] then f
              else
                (let f = cacheLocalization E f (rel_Tags rel) in
                 f\<lparr>placeIndex := InsertBorder (g_orb E) (g_qtree E) (placeIndex f) name mpoly\<rparr>))
      }
      else Some f)"

definition cacheRelRegion :: "('q, 'm, 'b) gen_env \<Rightarrow> osm_relation \<Rightarrow> ('q, 'm, 'b) geo_gen \<Rightarrow> ('q, 'm, 'b) geo_gen option" where
  "cacheRelRegion E rel f =
     (let name = tag_Find (g_tags E) (rel_Tags rel) nameKey; tags = tag_Map (g_tags E) (rel_Tags rel) in
      if tags (str ''type'') = str ''multipolygon'' \<or> tags (str ''type'') = str ''boundary'' then do {
        r \<leftarrow> buildPolygon (g_geometry E) (g_osm E) (rel_Members rel);
        Some (case r of
            Inl err \<Rightarrow> f
          | Inr mpoly \<Rightarrow>
              if BoundIsZero E (Bound (g_orb E) mpoly) \<or> length mpoly = 0 then f
              else if name = [] then f
              else
                (let f = cacheLocalization E f (rel_Tags rel) in
                 f\<lparr>regionIndex := InsertBorder (g_orb E) (g_qtree E) (regionIndex f) name mpoly\<rparr>))
      }
      else Some f)"

text \<open>The \<open>switch\<close> of \<open>cacheRel\<close>.\<close>

datatype rel_cache = AsRegion | AsPlace | NamesOnly | NotCached

definition rel_cache_kind :: "osm_tags \<Rightarrow> tags \<Rightarrow> rel_cache" where
  "rel_cache_kind T tags =
     (let kind = tag_Find T tags (str ''type'') in
      if kind \<in> set (map str [''boundary'', ''multipolygon'']) then
        (if tag_Find T tags (str ''admin_level'') = str ''4'' then AsRegion
         else if tag_Find T tags (str ''place'')
             \<in> set (map str [''city'', ''town'', ''village'', ''hamlet'', ''isolated_dwelling'', ''farm'']) then AsPlace
         else NotCached)
      else if kind \<in> set (map str [''associatedStreet'', ''route'']) then NamesOnly
      else NotCached)"

definition cacheRel :: "('q, 'm, 'b) gen_env \<Rightarrow> osm_relation \<Rightarrow> ('q, 'm, 'b) geo_gen \<Rightarrow> ('q, 'm, 'b) geo_gen option" where
  "cacheRel E rel f =
     (case rel_cache_kind (g_tags E) (rel_Tags rel) of
        AsRegion \<Rightarrow> cacheRelRegion E rel f
      | AsPlace \<Rightarrow> cacheRelPlace E rel f
      | NamesOnly \<Rightarrow> Some (cacheLocalization E f (rel_Tags rel))
      | NotCached \<Rightarrow> Some f)"

text \<open>
  The relations are cached by several goroutines; the list is in the order in which they
  do it. An error of the database ends the loop after the relations before it.
\<close>

fun fillRelCache :: "('q, 'm, 'b) gen_env \<Rightarrow> osm_relation result list \<Rightarrow> ('q, 'm, 'b) geo_gen
    \<Rightarrow> (error option \<times> ('q, 'm, 'b) geo_gen) option" where
  "fillRelCache E [] f = Some (None, f)"
| "fillRelCache E (Inl err # rels) f = Some (Some err, f)"
| "fillRelCache E (Inr rel # rels) f = do { f \<leftarrow> cacheRel E rel f; fillRelCache E rels f }"

subsection \<open>The contents of the caches\<close>

definition str_map_laws :: "'m str_map \<Rightarrow> bool" where
  "str_map_laws M \<longleftrightarrow> lc_Load M (lc_New M) = Map.empty \<and> (\<forall>m k v. lc_Load M (lc_Store M m k v) = (lc_Load M m)(k \<mapsto> v))"

text \<open>What one relation contributes: its border with its name, and the translation of its name.\<close>

definition rel_border :: "('q, 'm, 'b) gen_env \<Rightarrow> osm_relation \<Rightarrow> (gostring \<times> multi_polygon) option" where
  "rel_border E rel =
     (let name = tag_Find (g_tags E) (rel_Tags rel) nameKey; ty = tag_Map (g_tags E) (rel_Tags rel) (str ''type'') in
      case buildPolygon (g_geometry E) (g_osm E) (rel_Members rel) of
        Some (Inr mpoly) \<Rightarrow>
          if (ty = str ''multipolygon'' \<or> ty = str ''boundary'') \<and> \<not> BoundIsZero E (Bound (g_orb E) mpoly) \<and> mpoly \<noteq> [] \<and> name \<noteq> []
          then Some (name, mpoly) else None
      | _ \<Rightarrow> None)"

definition place_border :: "('q, 'm, 'b) gen_env \<Rightarrow> osm_relation \<Rightarrow> (gostring \<times> multi_polygon) option" where
  "place_border E rel = (if rel_cache_kind (g_tags E) (rel_Tags rel) = AsPlace then rel_border E rel else None)"

definition region_border :: "('q, 'm, 'b) gen_env \<Rightarrow> osm_relation \<Rightarrow> (gostring \<times> multi_polygon) option" where
  "region_border E rel = (if rel_cache_kind (g_tags E) (rel_Tags rel) = AsRegion then rel_border E rel else None)"

definition translation :: "('q, 'm, 'b) gen_env \<Rightarrow> gostring \<Rightarrow> osm_relation \<Rightarrow> (gostring \<times> gostring) option" where
  "translation E pref rel =
     (let official = tag_Find (g_tags E) (rel_Tags rel) nameKey;
          localized = tag_Find (g_tags E) (rel_Tags rel) (nameKey @ str '':'' @ pref);
          used = (rel_cache_kind (g_tags E) (rel_Tags rel) = NamesOnly \<or> place_border E rel \<noteq> None \<or> region_border E rel \<noteq> None) in
      if used \<and> official \<noteq> [] \<and> localized \<noteq> [] \<and> official \<noteq> localized then Some (official, localized) else None)"

definition somes :: "('a \<Rightarrow> 'b option) \<Rightarrow> 'a list \<Rightarrow> 'b list" where
  "somes f xs = concat (map (\<lambda>x. case f x of None \<Rightarrow> [] | Some y \<Rightarrow> [y]) xs)"

lemma somes_simps [simp]:
  "somes f [] = []" "somes f (x # xs) = (case f x of None \<Rightarrow> somes f xs | Some y \<Rightarrow> y # somes f xs)"
  "somes f (xs @ ys) = somes f xs @ somes f ys"
  by (simp_all add: somes_def split: option.splits)

lemma set_somes [simp]: "set (somes f xs) = {y. \<exists>x \<in> set xs. f x = Some y}"
  by (induction xs) (auto split: option.splits)

lemma length_somes: "length (somes f xs) \<le> length xs"
  by (induction xs) (auto split: option.splits)

text \<open>The caches hold what the relations contribute; the last translation of a name counts.\<close>

definition caches_of :: "('q, 'm, 'b) gen_env \<Rightarrow> config \<Rightarrow> osm_relation list \<Rightarrow> ('q, 'm, 'b) geo_gen \<Rightarrow> bool" where
  "caches_of E cfg rels f \<longleftrightarrow>
     gg_config f = cfg
     \<and> placeIndex f = insert_all (g_orb E) (g_qtree E) (somes (place_border E) rels) (NewBorderTree (g_qtree E))
     \<and> regionIndex f = insert_all (g_orb E) (g_qtree E) (somes (region_border E) rels) (NewBorderTree (g_qtree E))
     \<and> lc_Load (g_map E) (localizationCache f) = map_of (rev (somes (translation E (PreferredLocalization cfg)) rels))"

lemma insert_all_snoc: "insert_all G Q (xs @ [(d, b)]) bt = InsertBorder G Q (insert_all G Q xs bt) d b"
  by (simp add: insert_all_def)

lemma caches_of_new: "str_map_laws (g_map E) \<Longrightarrow> caches_of E cfg [] (NewGeoGen E cfg)"
  by (simp add: caches_of_def NewGeoGen_def insert_all_def str_map_laws_def)

text \<open>A relation that does not panic when it is assembled, by \<open>buildPolygon_rings\<close>.\<close>

definition orientable :: "('q, 'm, 'b) gen_env \<Rightarrow> osm_relation \<Rightarrow> bool" where
  "orientable E rel \<longleftrightarrow> \<not> unorientable (g_osm E) (rel_Members rel)"

lemma orientable_polygon:
  assumes "geometry_laws (g_geometry E)" "orientable E rel"
  obtains res where "buildPolygon (g_geometry E) (g_osm E) (rel_Members rel) = Some res"
  using buildPolygon_ok(1) [OF assms(1), of "g_osm E" "rel_Members rel"] assms(2) by (auto simp: orientable_def)

lemma cacheRel_border:
  "cacheRelPlace E rel f = Some f' \<Longrightarrow> f' = (case rel_border E rel of None \<Rightarrow> f
      | Some (name, mpoly) \<Rightarrow> (cacheLocalization E f (rel_Tags rel))
          \<lparr>placeIndex := InsertBorder (g_orb E) (g_qtree E) (placeIndex f) name mpoly\<rparr>)"
  "cacheRelRegion E rel f = Some f' \<Longrightarrow> f' = (case rel_border E rel of None \<Rightarrow> f
      | Some (name, mpoly) \<Rightarrow> (cacheLocalization E f (rel_Tags rel))
          \<lparr>regionIndex := InsertBorder (g_orb E) (g_qtree E) (regionIndex f) name mpoly\<rparr>)"
proof -
  have pick: "placeIndex (cacheLocalization E f t) = placeIndex f" "regionIndex (cacheLocalization E f t) = regionIndex f" for t
    by (simp_all add: cacheLocalization_def Let_def)
  show "cacheRelPlace E rel f = Some f' \<Longrightarrow> f' = (case rel_border E rel of None \<Rightarrow> f
      | Some (name, mpoly) \<Rightarrow> (cacheLocalization E f (rel_Tags rel))
          \<lparr>placeIndex := InsertBorder (g_orb E) (g_qtree E) (placeIndex f) name mpoly\<rparr>)"
    by (auto simp: cacheRelPlace_def rel_border_def pick Let_def split: option.splits sum.splits if_splits bind_splits)
  show "cacheRelRegion E rel f = Some f' \<Longrightarrow> f' = (case rel_border E rel of None \<Rightarrow> f
      | Some (name, mpoly) \<Rightarrow> (cacheLocalization E f (rel_Tags rel))
          \<lparr>regionIndex := InsertBorder (g_orb E) (g_qtree E) (regionIndex f) name mpoly\<rparr>)"
    by (auto simp: cacheRelRegion_def rel_border_def pick Let_def split: option.splits sum.splits if_splits bind_splits)
qed

lemma cacheLocalization_effect:
  assumes "str_map_laws (g_map E)"
  shows "lc_Load (g_map E) (localizationCache (cacheLocalization E f t))
      = (let official = tag_Find (g_tags E) t nameKey;
             localized = tag_Find (g_tags E) t (nameKey @ str '':'' @ PreferredLocalization (gg_config f)) in
         if official \<noteq> [] \<and> localized \<noteq> [] \<and> official \<noteq> localized
         then (lc_Load (g_map E) (localizationCache f))(official \<mapsto> localized) else lc_Load (g_map E) (localizationCache f))"
    and "gg_config (cacheLocalization E f t) = gg_config f" "placeIndex (cacheLocalization E f t) = placeIndex f"
    "regionIndex (cacheLocalization E f t) = regionIndex f"
  using assms by (simp_all add: cacheLocalization_def Let_def str_map_laws_def)

lemma cacheRel_caches:
  assumes M: "str_map_laws (g_map E)" and f: "caches_of E cfg rels f" and f': "cacheRel E rel f = Some f'"
  shows "caches_of E cfg (rels @ [rel]) f'"
proof -
  note B = cacheRel_border [of E rel f f']
  note L = cacheLocalization_effect [OF M, of f]
  note defs = cacheRel_def place_border_def region_border_def translation_def Let_def
  obtain cfg_eq: "cfg = gg_config f" and pl: "placeIndex f = insert_all (g_orb E) (g_qtree E) (somes (place_border E) rels) (NewBorderTree (g_qtree E))"
    and rg: "regionIndex f = insert_all (g_orb E) (g_qtree E) (somes (region_border E) rels) (NewBorderTree (g_qtree E))"
    and lc: "lc_Load (g_map E) (localizationCache f) = map_of (rev (somes (translation E (PreferredLocalization cfg)) rels))"
    using f by (simp add: caches_of_def)
  show ?thesis
  proof (cases "rel_cache_kind (g_tags E) (rel_Tags rel)")
    case AsRegion
    then have "cacheRelRegion E rel f = Some f'" using f' by (simp add: cacheRel_def)
    note f'_eq = B(2) [OF this]
    show ?thesis
      unfolding caches_of_def somes_simps cfg_eq f'_eq
      by (cases "rel_border E rel") (auto simp: AsRegion defs L pl rg lc [unfolded cfg_eq] insert_all_snoc)
  next
    case AsPlace
    then have "cacheRelPlace E rel f = Some f'" using f' by (simp add: cacheRel_def)
    note f'_eq = B(1) [OF this]
    show ?thesis
      unfolding caches_of_def somes_simps cfg_eq f'_eq
      by (cases "rel_border E rel") (auto simp: AsPlace defs L pl rg lc [unfolded cfg_eq] insert_all_snoc)
  next
    case NamesOnly
    then have f'_eq: "f' = cacheLocalization E f (rel_Tags rel)" using f' by (simp add: cacheRel_def)
    show ?thesis
      unfolding caches_of_def somes_simps cfg_eq f'_eq by (auto simp: NamesOnly defs L pl rg lc [unfolded cfg_eq])
  next
    case NotCached
    then have f'_eq: "f' = f" using f' by (simp add: cacheRel_def)
    show ?thesis
      unfolding caches_of_def somes_simps cfg_eq f'_eq by (auto simp: NotCached defs pl rg lc [unfolded cfg_eq])
  qed
qed

text \<open>However the filling ends, the caches hold what the relations contribute; with relations that can be assembled it ends.\<close>

lemma fillRelCache_caches:
  assumes "str_map_laws (g_map E)" "caches_of E cfg rels0 f" "fillRelCache E (map Inr rels) f = Some (err, f')"
  shows "err = None \<and> caches_of E cfg (rels0 @ rels) f'"
  using assms(2,3)
proof (induction rels arbitrary: rels0 f)
  case (Cons rel rels)
  obtain f1 where f1: "cacheRel E rel f = Some f1" "fillRelCache E (map Inr rels) f1 = Some (err, f')"
    using Cons.prems(2) by (auto split: bind_splits)
  from Cons.IH [OF cacheRel_caches [OF assms(1) Cons.prems(1) f1(1)] f1(2)] show ?case by simp
qed simp

lemma cacheRel_total:
  assumes "geometry_laws (g_geometry E)" "orientable E rel"
  shows "cacheRel E rel f \<noteq> None"
proof -
  obtain res where "buildPolygon (g_geometry E) (g_osm E) (rel_Members rel) = Some res" by (rule orientable_polygon [OF assms])
  then show ?thesis by (simp add: cacheRel_def cacheRelPlace_def cacheRelRegion_def Let_def split: rel_cache.split)
qed

lemma fillRelCache_total:
  assumes "geometry_laws (g_geometry E)" "\<forall>rel \<in> set rels. orientable E rel"
  shows "\<exists>err f'. fillRelCache E (map Inr rels) f = Some (err, f')"
  using assms(2)
proof (induction rels arbitrary: f)
  case (Cons rel rels)
  obtain f1 where "cacheRel E rel f = Some f1" using cacheRel_total [OF assms(1)] Cons.prems by fastforce
  then show ?case using Cons by simp
qed simp

lemma fills_caches:
  assumes "geometry_laws (g_geometry E)" "str_map_laws (g_map E)" "\<forall>rel \<in> set rels. orientable E rel"
  obtains f where "fillRelCache E (map Inr rels) (NewGeoGen E cfg) = Some (None, f)" "caches_of E cfg rels f"
  using fillRelCache_total [OF assms(1,3), of "NewGeoGen E cfg"] fillRelCache_caches [OF assms(2) caches_of_new [OF assms(2), of cfg], of rels] by fastforce

subsection \<open>What the lookups answer\<close>

definition is_translation :: "('q, 'm, 'b) gen_env \<Rightarrow> gostring \<Rightarrow> osm_relation list \<Rightarrow> gostring \<Rightarrow> gostring \<Rightarrow> bool" where
  "is_translation E pref rels official result \<longleftrightarrow>
     (\<exists>rel \<in> set rels. translation E pref rel = Some (official, result))
     \<or> result = official \<and> (\<forall>rel \<in> set rels. \<forall>v. translation E pref rel \<noteq> Some (official, v))"

text \<open>The point lies in a border of that name.\<close>

definition covers_point :: "('q, 'm, 'b) gen_env \<Rightarrow> (osm_relation \<Rightarrow> (gostring \<times> multi_polygon) option) \<Rightarrow> osm_relation list
    \<Rightarrow> orb_point \<Rightarrow> gostring \<Rightarrow> bool" where
  "covers_point E border rels p name \<longleftrightarrow>
     (\<exists>rel \<in> set rels. \<exists>mpoly. border rel = Some (name, mpoly) \<and> in_rect (Bound (g_orb E) mpoly) p
        \<and> MultiPolygonContains (g_orb E) (DouglasPeucker (g_orb E) mpoly) p)"

lemma translation_nonempty: "translation E pref rel = Some (k, v) \<Longrightarrow> k \<noteq> [] \<and> v \<noteq> []"
  by (auto simp: translation_def Let_def split: if_splits)

lemma cached_translation:
  assumes "caches_of E cfg rels f"
  shows "is_translation E (PreferredLocalization cfg) rels k (case lc_Load (g_map E) (localizationCache f) k of Some v \<Rightarrow> v | None \<Rightarrow> k)"
proof -
  let ?es = "rev (somes (translation E (PreferredLocalization cfg)) rels)"
  have lc: "lc_Load (g_map E) (localizationCache f) = map_of ?es" using assms by (simp add: caches_of_def)
  show ?thesis
  proof (cases "map_of ?es k")
    case None
    then have "\<forall>rel \<in> set rels. \<forall>v. translation E (PreferredLocalization cfg) rel \<noteq> Some (k, v)"
      by (auto simp: map_of_eq_None_iff image_iff)
    then show ?thesis by (simp add: lc None is_translation_def)
  next
    case (Some v)
    then have "(k, v) \<in> set ?es" by (rule map_of_SomeD)
    then show ?thesis using Some by (auto simp: lc is_translation_def)
  qed
qed

lemma border_name_nonempty: "rel_border E rel = Some (n, mp) \<Longrightarrow> n \<noteq> []"
  by (auto simp: rel_border_def Let_def split: option.splits sum.splits if_splits)

lemma border_names:
  "\<forall>rel n mp. place_border E rel = Some (n, mp) \<longrightarrow> n \<noteq> []" "\<forall>rel n mp. region_border E rel = Some (n, mp) \<longrightarrow> n \<noteq> []"
  by (auto simp: place_border_def region_border_def dest: border_name_nonempty split: if_splits)

lemma query_answer:
  assumes Q: "qtree_laws (g_qtree E) rects" and n: "length rels < 2 ^ 63"
    and bt: "bt = insert_all (g_orb E) (g_qtree E) (somes border rels) (NewBorderTree (g_qtree E))"
    and ne: "\<forall>rel n mp. border rel = Some (n, mp) \<longrightarrow> n \<noteq> []"
  shows "\<exists>out. do { r \<leftarrow> QueryPoint (g_orb E) (g_qtree E) bt p; Some (case r of Some out \<Rightarrow> out | None \<Rightarrow> []) } = Some out
    \<and> (if out = [] then \<forall>m. \<not> covers_point E border rels p m else covers_point E border rels p out)"
proof -
  have "length (somes border rels) < 2 ^ 63" using length_somes n by (rule le_less_trans)
  from QueryPoint_answer [OF Q this bt, of p] obtain answer where a: "QueryPoint (g_orb E) (g_qtree E) bt p = Some answer"
    "\<forall>d. answer = Some d \<longrightarrow> (\<exists>b. (d, b) \<in> set (somes border rels) \<and> in_rect (Bound (g_orb E) b) p \<and> MultiPolygonContains (g_orb E) (DouglasPeucker (g_orb E) b) p)"
    "answer = None \<longrightarrow> (\<forall>(d, b) \<in> set (somes border rels). \<not> (in_rect (Bound (g_orb E) b) p \<and> MultiPolygonContains (g_orb E) (DouglasPeucker (g_orb E) b) p))"
    by blast
  show ?thesis
  proof (cases answer)
    case None
    then show ?thesis using a(1,3) by (auto simp: covers_point_def)
  next
    case (Some d)
    then have c: "covers_point E border rels p d" using a(2) by (auto simp: covers_point_def)
    then have "d \<noteq> []" using ne by (auto simp: covers_point_def)
    then show ?thesis using a(1) Some c by simp
  qed
qed

lemma calcPlace_answer:
  assumes "qtree_laws (g_qtree E) rects" "length rels < 2 ^ 63" "caches_of E cfg rels f"
  obtains out where "calcPlace E f p = Some out"
    "if out = [] then \<forall>m. \<not> covers_point E (place_border E) rels p m else covers_point E (place_border E) rels p out"
proof -
  have "placeIndex f = insert_all (g_orb E) (g_qtree E) (somes (place_border E) rels) (NewBorderTree (g_qtree E))"
    using assms(3) by (simp add: caches_of_def)
  from query_answer [OF assms(1,2) this border_names(1), where p = p] show thesis using that by (auto simp: calcPlace_def)
qed

lemma calcRegion_answer:
  assumes "qtree_laws (g_qtree E) rects" "length rels < 2 ^ 63" "caches_of E cfg rels f"
  obtains out where "calcRegion E f p = Some out"
    "if out = [] then \<forall>m. \<not> covers_point E (region_border E) rels p m else covers_point E (region_border E) rels p out"
proof -
  have "regionIndex f = insert_all (g_orb E) (g_qtree E) (somes (region_border E) rels) (NewBorderTree (g_qtree E))"
    using assms(3) by (simp add: caches_of_def)
  from query_answer [OF assms(1,2) this border_names(2), where p = p] show thesis using that by (auto simp: calcRegion_def)
qed

lemma is_translation_nonempty: "is_translation E pref rels n r \<Longrightarrow> n \<noteq> [] \<Longrightarrow> r \<noteq> []"
  by (auto simp: is_translation_def dest: translation_nonempty)

lemma localizedRegion_answer:
  assumes "qtree_laws (g_qtree E) rects" "length rels < 2 ^ 63" "caches_of E cfg rels f"
  shows "\<exists>r. localizedRegion E f p = Some r
    \<and> (if r = [] then \<forall>m. \<not> covers_point E (region_border E) rels p m
       else \<exists>n. covers_point E (region_border E) rels p n \<and> is_translation E (PreferredLocalization cfg) rels n r)"
proof -
  obtain out where out: "calcRegion E f p = Some out"
    "if out = [] then \<forall>m. \<not> covers_point E (region_border E) rels p m else covers_point E (region_border E) rels p out"
    by (rule calcRegion_answer [OF assms])
  show ?thesis
  proof (cases "out = []")
    case False
    note t = cached_translation [OF assms(3), of out]
    then show ?thesis using out False is_translation_nonempty [OF t] by (auto simp: localizedRegion_def)
  qed (use out in \<open>simp add: localizedRegion_def\<close>)
qed

text \<open>The city: a tag, or the place around the point; with a preferred language the place wins over an untranslated tag.\<close>

definition city_spec :: "('q, 'm, 'b) gen_env \<Rightarrow> gostring \<Rightarrow> osm_relation list \<Rightarrow> tags \<Rightarrow> orb_point \<Rightarrow> gostring \<Rightarrow> bool" where
  "city_spec E pref rels tags p c =
     (let name = tag_Find (g_tags E) tags cityAddrKey; own = tag_Find (g_tags E) tags (cityAddrKey @ str '':'' @ pref);
          place = (\<lambda>n. covers_point E (place_border E) rels p n) in
      if pref = [] then
        (if name \<noteq> [] then c = name else if c = [] then \<forall>n. \<not> place n else place c)
      else if own \<noteq> [] then c = own
      else if \<exists>rel \<in> set rels. \<exists>v. translation E pref rel = Some (name, v) then \<exists>rel \<in> set rels. translation E pref rel = Some (name, c)
      else if \<exists>n. place n then \<exists>n. place n \<and> is_translation E pref rels n c
      else c = name)"

lemma cached_known:
  assumes "caches_of E cfg rels f"
  shows "lc_Load (g_map E) (localizationCache f) k = None \<longleftrightarrow> \<not> (\<exists>rel \<in> set rels. \<exists>v. translation E (PreferredLocalization cfg) rel = Some (k, v))"
    and "lc_Load (g_map E) (localizationCache f) k = Some v \<Longrightarrow> \<exists>rel \<in> set rels. translation E (PreferredLocalization cfg) rel = Some (k, v)"
proof -
  have lc: "lc_Load (g_map E) (localizationCache f) = map_of (rev (somes (translation E (PreferredLocalization cfg)) rels))"
    using assms by (simp add: caches_of_def)
  show "lc_Load (g_map E) (localizationCache f) k = None \<longleftrightarrow> \<not> (\<exists>rel \<in> set rels. \<exists>v. translation E (PreferredLocalization cfg) rel = Some (k, v))"
    by (auto simp: lc map_of_eq_None_iff image_iff)
  show "\<exists>rel \<in> set rels. translation E (PreferredLocalization cfg) rel = Some (k, v)" if "lc_Load (g_map E) (localizationCache f) k = Some v"
    using map_of_SomeD [OF that [unfolded lc]] by simp
qed

lemma localizedCityAddr_answer:
  assumes "qtree_laws (g_qtree E) rects" "length rels < 2 ^ 63" "caches_of E cfg rels f"
  shows "\<exists>c. localizedCityAddr E f tags p = Some c \<and> city_spec E (PreferredLocalization cfg) rels tags p c"
proof -
  have cfg: "gg_config f = cfg" using assms(3) by (simp add: caches_of_def)
  obtain out where out: "calcPlace E f p = Some out"
    "if out = [] then \<forall>m. \<not> covers_point E (place_border E) rels p m else covers_point E (place_border E) rels p out"
    by (rule calcPlace_answer [OF assms])
  have place: "(\<exists>n. covers_point E (place_border E) rels p n) \<longleftrightarrow> out \<noteq> []" using out(2) by (auto split: if_splits)
  let ?name = "tag_Find (g_tags E) tags cityAddrKey" and ?pref = "PreferredLocalization cfg"
  note K = cached_known [OF assms(3)]
  note T = cached_translation [OF assms(3), of out]
  show ?thesis
  proof (cases "?pref = []")
    case True
    then show ?thesis using out by (simp add: localizedCityAddr_def city_spec_def cfg Let_def)
  next
    case pref: False
    show ?thesis
    proof (cases "lc_Load (g_map E) (localizationCache f) ?name")
      case None
      then have "\<not> (\<exists>rel \<in> set rels. \<exists>v. translation E ?pref rel = Some (?name, v))" using K(1) by blast
      then show ?thesis using pref None out T place
        by (auto simp: localizedCityAddr_def city_spec_def cfg Let_def simp del: not_ex split: if_splits)
    next
      case (Some v)
      then have "\<exists>rel \<in> set rels. translation E ?pref rel = Some (?name, v)" by (rule K(2))
      then show ?thesis using pref Some by (auto simp: localizedCityAddr_def city_spec_def cfg Let_def)
    qed
  qed
qed

subsection \<open>Properties\<close>

text \<open>
  C16. Filling the caches does not panic when every relation can be assembled, that is, when none has as
  its only outer member a way without a direction of which no node has coordinates. Afterwards, with a preferred language, the name and the
  street of any object are its own tag in that language if it has one, otherwise the
  translation that some relation gives for the tag without language, and that tag itself
  when no relation gives one, whatever the order in which the relations were read.
\<close>

theorem names_translated:
  assumes "geometry_laws (g_geometry E)" and "str_map_laws (g_map E)" and "PreferredLocalization cfg \<noteq> []"
    and "pref = PreferredLocalization cfg" and "\<forall>rel \<in> set rels. orientable E rel"
  shows "\<exists>f. fillRelCache E (map Inr rels) (NewGeoGen E cfg) = Some (None, f)
    \<and> (\<forall>(key, name) \<in> {(nameKey, localizedName E f), (addrStreetKey, localizedStreetName E f)}. \<forall>tags.
         let own = tag_Find (g_tags E) tags (key @ str '':'' @ pref) in
         if own \<noteq> [] then name tags = own else is_translation E pref rels (tag_Find (g_tags E) tags key) (name tags))"
proof -
  obtain f where f: "fillRelCache E (map Inr rels) (NewGeoGen E cfg) = Some (None, f)" "caches_of E cfg rels f"
    by (rule fills_caches [OF assms(1,2,5)])
  have "gg_config f = cfg" using f(2) by (simp add: caches_of_def)
  then show ?thesis using f(1) cached_translation [OF f(2)] assms(3,4)
    by (intro exI [of _ f]) (auto simp: localizedName_def localizedStreetName_def Let_def)
qed

text \<open>
  C17. After the caches are filled the region and the city of a position are found without a panic.
  The region is the name of a region border that contains the position, translated if a
  relation translates it, and empty only if none contains it. The city is the one of the
  tags or of a place border, in the order of \<open>city_spec\<close>.
\<close>

theorem position_names:
  assumes "geometry_laws (g_geometry E)" and "str_map_laws (g_map E)" and "qtree_laws (g_qtree E) rects"
    and "length rels < 2 ^ 63" and "fillRelCache E (map Inr rels) (NewGeoGen E cfg) = Some (err, f)"
  shows "(\<exists>r. localizedRegion E f p = Some r
      \<and> (if r = [] then \<forall>m. \<not> covers_point E (region_border E) rels p m
         else \<exists>n. covers_point E (region_border E) rels p n \<and> is_translation E (PreferredLocalization cfg) rels n r))
    \<and> (\<exists>c. localizedCityAddr E f tags p = Some c \<and> city_spec E (PreferredLocalization cfg) rels tags p c)"
proof -
  have "caches_of E cfg rels f" using fillRelCache_caches [OF assms(2) caches_of_new [OF assms(2), of cfg] assms(5)] by simp
  from localizedRegion_answer [OF assms(3,4) this] localizedCityAddr_answer [OF assms(3,4) this] show ?thesis by blast
qed

subsection \<open>Witnesses\<close>

definition sample_osm_tags :: osm_tags where
  "sample_osm_tags = \<lparr>tag_Find = \<lambda>ts k. case map_of ts k of Some v \<Rightarrow> v | None \<Rightarrow> [], tag_Has = \<lambda>ts k. map_of ts k \<noteq> None,
     tag_Map = \<lambda>ts k. case map_of (rev ts) k of Some v \<Rightarrow> v | None \<Rightarrow> []\<rparr>"

definition list_str_map :: "(gostring \<times> gostring) list str_map" where
  "list_str_map = \<lparr>lc_New = [], lc_Load = map_of, lc_Store = \<lambda>m k v. (k, v) # m\<rparr>"

lemma list_str_map_laws: "str_map_laws list_str_map"
  by (auto simp: str_map_laws_def list_str_map_def)

definition sample_way :: "int \<Rightarrow> osm_way" where
  "sample_way i = \<lparr>w_ID = i, w_Tags = [],
     w_Nodes = map (\<lambda>(x, y). \<lparr>wn_ID = 0, wn_Lat = f64_of_int y, wn_Lon = f64_of_int x\<rparr>) [(1, 1), (2, 1), (2, 2), (1, 1)]\<rparr>"

definition sample_gen :: "(((orb_point \<times> orb_point) \<times> u64) list, (gostring \<times> gostring) list, unit segment list) gen_env" where
  "sample_gen = \<lparr>g_tags = sample_osm_tags, g_map = list_str_map, g_orb = sample_orb, g_qtree = list_qtree, g_btree = list_btree,
     g_geometry = sample_geometry\<lparr>ring_Closed := \<lambda>_. True\<rparr>, g_osm = \<lparr>GetNode = \<lambda>_. Inl (Err ''no node''), GetWay = \<lambda>i. Inr (sample_way i)\<rparr>,
     BoundIsZero = \<lambda>_. False, RingCentroid = hd, PolygonCentroid = \<lambda>p. hd (hd p), ToInterval = \<lambda>l _. l,
     Sample = \<lambda>_ x y _ _ _ _. [(x, y)]\<rparr>"

definition sample_config :: config where
  "sample_config = \<lparr>Threads = 2, cfg_Version = 1, PreferredLocalization = str ''en'', HighwayPointsDistance = f64_of_int 150\<rparr>"

text \<open>A region \<open>A\<close>, in English \<open>B\<close>.\<close>

definition sample_region :: osm_relation where
  "sample_region = \<lparr>rel_ID = 5,
     rel_Tags = map (\<lambda>(k, v). (str k, str v)) [(''type'', ''boundary''), (''admin_level'', ''4''), (''name'', ''A''), (''name:en'', ''B'')],
     rel_Members = [\<lparr>m_Type = TypeWay, m_Role = ''outer'', m_Ref = 1, m_Orientation = 0\<rparr>]\<rparr>"

lemma sample_gen_laws: "geometry_laws (g_geometry sample_gen)" "str_map_laws (g_map sample_gen)" "qtree_laws (g_qtree sample_gen) set"
  using sample_geometry_laws by (simp_all add: sample_gen_def list_str_map_laws list_qtree_laws geometry_laws_def)

lemma sample_nonzero: "\<not> f_eq (f64_of_int 1) 0" "\<not> f_eq (f64_of_int 2) 0"
proof -
  note f64_of_int_zero
  then show "\<not> f_eq (f64_of_int 1) 0" "\<not> f_eq (f64_of_int 2) 0"
    using f_eq_of_int_iff [of 1 0] f_eq_of_int_iff [of 2 0] by (simp_all add: small_int_def)
qed

lemma sample_polygon:
  "buildPolygon (g_geometry sample_gen) (g_osm sample_gen) (rel_Members sample_region)
   = Some (Inr [[map (\<lambda>(x, y). sample_corner x y) [(1, 1), (2, 1), (2, 2), (1, 1)]]])"
  using sample_nonzero
  by (simp add: sample_gen_def sample_region_def buildPolygon_def add_member_def sample_way_def node_point_def ms_Ring_def orient_def
      sample_geometry_def valid_ring_def join_def join_loop.simps compact_def sample_corner_def)

lemma sample_orientable: "\<forall>rel \<in> set [sample_region]. orientable sample_gen rel"
  using sample_nonzero
  by (simp add: orientable_def unorientable_def outer_members_def sample_gen_def sample_region_def sample_way_def node_point_def)

lemmas sample_texts = str_def nameKey_def sample_region_def sample_osm_tags_def rel_cache_kind_def

lemma sample_kind: "rel_cache_kind sample_osm_tags (rel_Tags sample_region) = AsRegion"
  by (simp add: sample_texts)

lemma sample_name:
  "tag_Find sample_osm_tags (rel_Tags sample_region) nameKey = str ''A''"
  "tag_Find sample_osm_tags (rel_Tags sample_region) (nameKey @ str '':'' @ str ''en'') = str ''B''"
  "tag_Map sample_osm_tags (rel_Tags sample_region) (str ''type'') = str ''boundary''"
  "str ''A'' \<noteq> []" "str ''B'' \<noteq> []" "str ''A'' \<noteq> str ''B''" "str ''en'' \<noteq> []"
  by (simp_all add: sample_texts)

lemma sample_region_facts:
  "region_border sample_gen sample_region = Some (str ''A'', [[map (\<lambda>(x, y). sample_corner x y) [(1, 1), (2, 1), (2, 2), (1, 1)]]])"
  "translation sample_gen (str ''en'') sample_region = Some (str ''A'', str ''B'')"
proof -
  have T: "g_tags sample_gen = sample_osm_tags" "BoundIsZero sample_gen b = False" for b by (simp_all add: sample_gen_def)
  show b: "region_border sample_gen sample_region = Some (str ''A'', [[map (\<lambda>(x, y). sample_corner x y) [(1, 1), (2, 1), (2, 2), (1, 1)]]])"
    by (simp add: region_border_def rel_border_def sample_polygon T sample_kind sample_name Let_def)
  show "translation sample_gen (str ''en'') sample_region = Some (str ''A'', str ''B'')"
    by (simp add: translation_def b T sample_name Let_def)
qed

lemma names_translated_witness:
  "\<exists>f. fillRelCache sample_gen [Inr sample_region] (NewGeoGen sample_gen sample_config) = Some (None, f)
    \<and> localizedName sample_gen f [(str ''name'', str ''A'')] = str ''B''"
proof -
  have pref: "PreferredLocalization sample_config \<noteq> []" "str ''en'' = PreferredLocalization sample_config"
    using sample_name(7) by (simp_all add: sample_config_def)
  obtain f where f: "fillRelCache sample_gen (map Inr [sample_region]) (NewGeoGen sample_gen sample_config) = Some (None, f)"
    and n: "\<forall>tags. let own = tag_Find (g_tags sample_gen) tags (nameKey @ str '':'' @ str ''en'') in
         if own \<noteq> [] then localizedName sample_gen f tags = own
         else is_translation sample_gen (str ''en'') [sample_region] (tag_Find (g_tags sample_gen) tags nameKey) (localizedName sample_gen f tags)"
    using names_translated [OF sample_gen_laws(1,2) pref sample_orientable] by auto
  have "tag_Find (g_tags sample_gen) [(str ''name'', str ''A'')] (nameKey @ str '':'' @ str ''en'') = []"
    "tag_Find (g_tags sample_gen) [(str ''name'', str ''A'')] nameKey = str ''A''"
    by (simp_all add: sample_gen_def sample_osm_tags_def str_def nameKey_def)
  then have "is_translation sample_gen (str ''en'') [sample_region] (str ''A'') (localizedName sample_gen f [(str ''name'', str ''A'')])"
    using n [rule_format, of "[(str ''name'', str ''A'')]"] by (simp add: Let_def)
  then show ?thesis using f sample_region_facts(2) by (auto simp: is_translation_def)
qed

lemma position_names_witness:
  "\<exists>f. fillRelCache sample_gen [Inr sample_region] (NewGeoGen sample_gen sample_config) = Some (None, f)
    \<and> localizedRegion sample_gen f (f64_of_int 1, f64_of_int 1) = Some (str ''B'')"
proof -
  let ?p = "(f64_of_int 1, f64_of_int 1)"
  obtain f where f: "fillRelCache sample_gen (map Inr [sample_region]) (NewGeoGen sample_gen sample_config) = Some (None, f)"
    by (rule fills_caches [OF sample_gen_laws(1,2) sample_orientable])
  have "covers_point sample_gen (region_border sample_gen) [sample_region] ?p (str ''A'')"
    by (simp add: covers_point_def sample_region_facts) (simp add: sample_gen_def sample_orb_def sample_corner_def in_rect_def small_int_def)
  moreover have "n = str ''A''" if "covers_point sample_gen (region_border sample_gen) [sample_region] ?p n" for n
    using that by (auto simp: covers_point_def sample_region_facts)
  moreover have "PreferredLocalization sample_config = str ''en''" by (simp add: sample_config_def)
  moreover obtain r where "localizedRegion sample_gen f ?p = Some r"
    "if r = [] then \<forall>m. \<not> covers_point sample_gen (region_border sample_gen) [sample_region] ?p m
     else \<exists>n. covers_point sample_gen (region_border sample_gen) [sample_region] ?p n
       \<and> is_translation sample_gen (PreferredLocalization sample_config) [sample_region] n r"
    using position_names [OF sample_gen_laws _ f, of ?p] by auto
  ultimately have "localizedRegion sample_gen f ?p = Some r \<and> is_translation sample_gen (str ''en'') [sample_region] (str ''A'') r"
    by (metis (no_types, lifting))
  then have "localizedRegion sample_gen f ?p = Some (str ''B'')" using sample_region_facts(2) by (auto simp: is_translation_def)
  then show ?thesis using f by auto
qed

end
