(* ===== verification/Unmarshal.thy ===== *)
theory Unmarshal
  imports Float64 Binary Localize
begin

section \<open>The fast parser of positions\<close>

text \<open>
  \<^verbatim>\<open>server/unmarshal.go\<close>, \<open>unmarshalPointsListFast\<close>: a list of pairs of numbers is read in one pass
  over the bytes. The state is the rest of the data, \<open>data[i:]\<close>, so a test \<open>i < n\<close> is a
  test for the empty list; \<open>strconv.ParseFloat\<close> is a parameter. Reserving room for the
  result has no effect on its value.
\<close>

definition is_space :: "byte \<Rightarrow> bool" where
  "is_space c \<longleftrightarrow> c = 0x20 \<or> c = 0x0A \<or> c = 0x09 \<or> c = 0x0D"

definition skip_space :: "byte list \<Rightarrow> byte list" where
  "skip_space s = dropWhile is_space s"

definition is_num_char :: "byte \<Rightarrow> bool" where
  "is_num_char c \<longleftrightarrow> 0x30 \<le> c \<and> c \<le> 0x39 \<or> c = 0x2D \<or> c = 0x2E \<or> c = 0x65 \<or> c = 0x45"

definition parse_coord :: "(gostring \<Rightarrow> f64 result) \<Rightarrow> byte list \<Rightarrow> (f64 \<times> byte list) result" where
  "parse_coord PF s =
     (let s = skip_space s; num = takeWhile is_num_char s; s = dropWhile is_num_char s in
      if num = [] then Inr (0, skip_space s)
      else
        (case PF num of
           Inl err \<Rightarrow> Inl (Wrap ''invalid number'' err)
         | Inr x \<Rightarrow> Inr (x, skip_space s)))"

definition parse_pair :: "(gostring \<Rightarrow> f64 result) \<Rightarrow> byte list \<Rightarrow> ((f64 \<times> f64) \<times> byte list) result" where
  "parse_pair PF s =
     (case parse_coord PF s of
        Inl err \<Rightarrow> Inl err
      | Inr (x, s) \<Rightarrow>
          (case s of
             c # s \<Rightarrow>
               if c = 0x2C then map_sum (\<lambda>e. e) (\<lambda>(y, s). ((x, y), s)) (parse_coord PF s)
               else Inl (Err ''invalid format: expected ',' between coordinates'')
           | [] \<Rightarrow> Inl (Err ''invalid format: expected ',' between coordinates'')))"

text \<open>One point after its opening bracket, to the next closing bracket.\<close>

definition parse_point :: "(gostring \<Rightarrow> f64 result) \<Rightarrow> byte list \<Rightarrow> ((f64 \<times> f64) \<times> byte list) result" where
  "parse_point PF s =
     (case parse_pair PF s of
        Inl err \<Rightarrow> Inl err
      | Inr (p, s) \<Rightarrow>
          (case dropWhile (\<lambda>c. c \<noteq> 0x5D) s of
             [] \<Rightarrow> Inl (Err ''invalid format: expected ']' at end of point'')
           | c # s \<Rightarrow> Inr (p, s)))"

lemma length_skip_space: "length (skip_space s) \<le> length s"
  by (simp add: skip_space_def length_dropWhile_le)

lemma parse_coord_shorter: "parse_coord PF s = Inr (x, s') \<Longrightarrow> length s' \<le> length s"
proof -
  have "length (skip_space (dropWhile is_num_char (skip_space s))) \<le> length s"
    using length_skip_space [of s] length_skip_space [of "dropWhile is_num_char (skip_space s)"] length_dropWhile_le [of is_num_char "skip_space s"]
    by linarith
  then show "parse_coord PF s = Inr (x, s') \<Longrightarrow> length s' \<le> length s"
    by (auto simp: parse_coord_def Let_def split: if_splits sum.splits)
qed

lemma parse_pair_cases:
  assumes "parse_pair PF s = Inr (q, t)"
  obtains x y s1 where "parse_coord PF s = Inr (x, 0x2C # s1)" "parse_coord PF s1 = Inr (y, t)" "q = (x, y)"
  using assms by (cases "parse_coord PF s"; cases "parse_coord PF (tl (snd (projr (parse_coord PF s))))")
    (auto simp: parse_pair_def split: list.splits if_splits)

lemma parse_point_shorter:
  assumes "parse_point PF s = Inr (p, s')"
  shows "length s' < length s"
proof -
  obtain q t c where t: "parse_pair PF s = Inr (q, t)" "dropWhile (\<lambda>c. c \<noteq> 0x5D) t = c # s'"
    using assms by (auto simp: parse_point_def split: sum.splits list.splits)
  have "length t \<le> length s"
  proof (rule parse_pair_cases [OF t(1)])
    fix x y s1
    assume "parse_coord PF s = Inr (x, 0x2C # s1)" "parse_coord PF s1 = Inr (y, t)"
    from parse_coord_shorter [OF this(1)] parse_coord_shorter [OF this(2)] show ?thesis by simp
  qed
  moreover have "length (c # s') \<le> length t" using length_dropWhile_le [of "\<lambda>c. c \<noteq> 0x5D" t] t(2) by simp
  ultimately show ?thesis by simp
qed

definition expected_open :: "string \<Rightarrow> error" where
  "expected_open what = Err (''invalid format: expected '' @ [CHR 0x27, CHR 0x5B, CHR 0x27] @ what)"

lemma skip_space_Cons: "skip_space s = c # t \<Longrightarrow> length t < length s"
  using length_skip_space [of s] by simp

text \<open>The loop over the points, with the rest of the data and the result so far.\<close>

function points_loop :: "(gostring \<Rightarrow> f64 result) \<Rightarrow> byte list \<Rightarrow> (f64 \<times> f64) list \<Rightarrow> error option \<times> (f64 \<times> f64) list" where
  "points_loop PF s result =
     (if s = [] then (None, result)
      else
        (case skip_space s of
           [] \<Rightarrow> (Some (expected_open '' for point''), result)
         | c # s \<Rightarrow>
             if c = 0x5D then (None, result)
             else if c \<noteq> 0x5B then (Some (expected_open '' for point''), result)
             else
               (case parse_point PF s of
                  Inl err \<Rightarrow> (Some err, result)
                | Inr (p, s) \<Rightarrow>
                    (case skip_space s of
                       [] \<Rightarrow> (None, result @ [p])
                     | c # t \<Rightarrow>
                         if c = 0x2C then points_loop PF t (result @ [p])
                         else if c = 0x5D then (None, result @ [p])
                         else points_loop PF (c # t) (result @ [p])))))"
  by pat_completeness auto

termination
proof (relation "measure (\<lambda>(PF, s, result). length s)", goal_cases)
  case (2 PF s result c t err p u d v)
  then have "length t < length s" "length u < length t" "length v < length u"
    using skip_space_Cons [of s c t] parse_point_shorter [of PF t p u] skip_space_Cons [of u d v] by auto
  then show ?case by simp
next
  case (3 PF s result c t err p u d v)
  then have "length t < length s" "length u < length t" "length v < length u"
    using skip_space_Cons [of s c t] parse_point_shorter [of PF t p u] skip_space_Cons [of u d v] by auto
  then show ?case by simp
qed simp

declare points_loop.simps [simp del]

definition unmarshalPointsListFast :: "(gostring \<Rightarrow> f64 result) \<Rightarrow> byte list \<Rightarrow> (f64 \<times> f64) list \<Rightarrow> error option \<times> (f64 \<times> f64) list" where
  "unmarshalPointsListFast PF data result =
     (case skip_space data of
        [] \<Rightarrow> (Some (expected_open []), result)
      | c # s \<Rightarrow> if c \<noteq> 0x5B then (Some (expected_open []), result) else points_loop PF s result)"

subsection \<open>The texts that are meant\<close>

definition spaces :: "byte list \<Rightarrow> bool" where
  "spaces s \<longleftrightarrow> list_all is_space s"

text \<open>A number that \<open>ParseFloat\<close> reads, in spaces; two of them in brackets; a list of those.\<close>

definition coord_text :: "(gostring \<Rightarrow> f64 result) \<Rightarrow> f64 \<Rightarrow> byte list \<Rightarrow> bool" where
  "coord_text PF x t \<longleftrightarrow>
     (\<exists>a num b. t = a @ num @ b \<and> spaces a \<and> spaces b \<and> num \<noteq> [] \<and> list_all is_num_char num \<and> PF num = Inr x)"

definition pair_text :: "(gostring \<Rightarrow> f64 result) \<Rightarrow> f64 \<times> f64 \<Rightarrow> byte list \<Rightarrow> bool" where
  "pair_text PF p t \<longleftrightarrow> (\<exists>a b. t = 0x5B # a @ 0x2C # b @ [0x5D] \<and> coord_text PF (fst p) a \<and> coord_text PF (snd p) b)"

inductive list_text :: "(gostring \<Rightarrow> f64 result) \<Rightarrow> (f64 \<times> f64) list \<Rightarrow> byte list \<Rightarrow> bool" for PF :: "gostring \<Rightarrow> f64 result" where
  empty: "spaces a \<Longrightarrow> list_text PF [] (a @ [0x5D])"
| one: "spaces a \<Longrightarrow> pair_text PF p t \<Longrightarrow> spaces b \<Longrightarrow> list_text PF [p] (a @ t @ b @ [0x5D])"
| more: "spaces a \<Longrightarrow> pair_text PF p t \<Longrightarrow> spaces b \<Longrightarrow> list_text PF ps u \<Longrightarrow> ps \<noteq> [] \<Longrightarrow> list_text PF (p # ps) (a @ t @ b @ 0x2C # u)"

lemma skip_spaces: "spaces a \<Longrightarrow> skip_space (a @ t) = skip_space t"
  unfolding spaces_def skip_space_def by (rule dropWhile_append2) (simp add: list_all_iff)

lemma skip_none [simp]: "\<not> is_space c \<Longrightarrow> skip_space (c # t) = c # t"
  by (simp add: skip_space_def)

lemma marks [simp]: "\<not> is_space 0x5B" "\<not> is_space 0x5D" "\<not> is_space 0x2C" "\<not> is_num_char 0x2C" "\<not> is_num_char 0x5D"
  by (simp_all add: is_space_def is_num_char_def)

lemma num_not_space: "is_num_char c \<Longrightarrow> \<not> is_space c"
  by (auto simp: is_num_char_def is_space_def)

lemma parse_coord_text:
  assumes "coord_text PF x t" "\<not> is_space c" "\<not> is_num_char c"
  shows "parse_coord PF (t @ c # rest) = Inr (x, c # rest)"
proof -
  obtain a num b where t: "t = a @ num @ b" "spaces a" "spaces b" "num \<noteq> []" "list_all is_num_char num" "PF num = Inr x"
    using assms(1) by (auto simp: coord_text_def)
  have stop: "b @ c # rest = [] \<or> \<not> is_num_char (hd (b @ c # rest))"
    using t(3) assms(3) num_not_space by (cases b) (auto simp: spaces_def)
  have "skip_space (t @ c # rest) = num @ b @ c # rest"
    using t(4,5) num_not_space by (cases num) (simp_all add: t(1) skip_spaces [OF t(2)])
  moreover have "takeWhile is_num_char (num @ b @ c # rest) = num" "dropWhile is_num_char (num @ b @ c # rest) = b @ c # rest"
    using t(5) stop by (simp_all add: list_all_iff takeWhile_eq_Nil_iff dropWhile_eq_self_iff)
  moreover have "skip_space (b @ c # rest) = c # rest" using assms(2) by (simp add: skip_spaces [OF t(3)])
  ultimately show ?thesis using t(4,6) by (simp add: parse_coord_def Let_def)
qed

lemma parse_pair_text:
  assumes "pair_text PF p t"
  shows "\<exists>u. t = 0x5B # u \<and> parse_point PF (u @ rest) = Inr (p, rest)"
proof -
  obtain a b where t: "t = 0x5B # a @ 0x2C # b @ [0x5D]" "coord_text PF (fst p) a" "coord_text PF (snd p) b"
    using assms by (auto simp: pair_text_def)
  have "parse_pair PF ((a @ 0x2C # b @ [0x5D]) @ rest) = Inr (p, 0x5D # rest)"
    using parse_coord_text [OF t(2), of "0x2C" "b @ 0x5D # rest"] parse_coord_text [OF t(3), of "0x5D" rest]
    by (simp add: parse_pair_def)
  then show ?thesis using t(1) by (simp add: parse_point_def)
qed

lemma points_loop_pair:
  assumes "spaces a" "pair_text PF p t" "spaces b" "\<not> is_space c"
  shows "points_loop PF (a @ t @ b @ c # u) result
    = (if c = 0x2C then points_loop PF u (result @ [p]) else if c = 0x5D then (None, result @ [p]) else points_loop PF (c # u) (result @ [p]))"
proof -
  obtain t' where t: "t = 0x5B # t'" "parse_point PF (t' @ b @ c # u) = Inr (p, b @ c # u)"
    using parse_pair_text [OF assms(2), of "b @ c # u"] by auto
  have "skip_space (a @ t @ b @ c # u) = 0x5B # t' @ b @ c # u" by (simp add: skip_spaces [OF assms(1)] t(1))
  moreover have "skip_space (b @ c # u) = c # u" using assms(4) by (simp add: skip_spaces [OF assms(3)])
  moreover have "a @ t @ b @ c # u \<noteq> []" by simp
  ultimately show ?thesis by (subst points_loop.simps) (simp only: if_False list.case if_True sum.case prod.case t(2), simp)
qed

subsection \<open>Properties\<close>

text \<open>
  C37. A list of pairs is read as it is written: when a text is an opening bracket and then pairs
  of numbers in brackets, with commas between them and any spaces around every mark, the
  parser returns no error and appends the numbers, in order, to the result it was given, whatever
  follows the closing bracket.
\<close>

theorem fast_parser_reads:
  assumes "spaces a" and "list_text PF ps t"
  shows "unmarshalPointsListFast PF (a @ 0x5B # t @ rest) result = (None, result @ ps)"
proof -
  have "points_loop PF (t @ rest) result = (None, result @ ps)"
    using assms(2)
  proof (induction ps t arbitrary: result)
    case (empty a)
    then show ?case by (subst points_loop.simps) (simp add: skip_spaces)
  next
    case (one a p t b)
    then show ?case using points_loop_pair [of a PF p t b "0x5D" rest result] by simp
  next
    case (more a p t b ps u)
    then show ?case using points_loop_pair [of a PF p t b "0x2C" "u @ rest" result] by simp
  qed
  then show ?thesis by (simp add: unmarshalPointsListFast_def skip_spaces [OF assms(1)])
qed

text \<open>More is accepted than JSON: an unclosed list, a missing comma, coordinates left out, anything after the second one.\<close>

lemma fast_parser_lenient:
  "unmarshalPointsListFast PF (str ''['') result = (None, result)"
  "unmarshalPointsListFast PF (str ''[[,]'') result = (None, result @ [(0, 0)])"
  "unmarshalPointsListFast PF (str ''[[,][,]]'') result = (None, result @ [(0, 0), (0, 0)])"
  "unmarshalPointsListFast PF (str ''[[,x]]'') result = (None, result @ [(0, 0)])"
  by (simp_all add: unmarshalPointsListFast_def str_def points_loop.simps parse_point_def parse_pair_def parse_coord_def skip_space_def
      is_space_def is_num_char_def Let_def)

subsection \<open>A witness\<close>

lemma fast_parser_reads_witness:
  "unmarshalPointsListFast (\<lambda>s. Inr (f64_of_int (int (length s)))) (str '' [[1, 22]]'') [] = (None, [(f64_of_int 1, f64_of_int 2)])"
proof -
  let ?PF = "\<lambda>s :: gostring. (Inr (f64_of_int (int (length s))) :: f64 result)"
  have "coord_text ?PF (f64_of_int 1) [0x31]" "coord_text ?PF (f64_of_int 2) [0x20, 0x32, 0x32]"
    unfolding coord_text_def
    by (rule exI [of _ "[]"], rule exI [of _ "[0x31]"], rule exI [of _ "[]"], simp add: spaces_def is_num_char_def)
      (rule exI [of _ "[0x20]"], rule exI [of _ "[0x32, 0x32]"], rule exI [of _ "[]"], simp add: spaces_def is_num_char_def is_space_def)
  then have "pair_text ?PF (f64_of_int 1, f64_of_int 2) (0x5B # [0x31] @ 0x2C # [0x20, 0x32, 0x32] @ [0x5D])"
    unfolding pair_text_def by fastforce
  from list_text.one [OF _ this, of "[]" "[]"]
  have "list_text ?PF [(f64_of_int 1, f64_of_int 2)] ([] @ (0x5B # [0x31] @ 0x2C # [0x20, 0x32, 0x32] @ [0x5D]) @ [] @ [0x5D])"
    by (simp add: spaces_def)
  from fast_parser_reads [OF _ this, of "[0x20]" "[]" "[]"] show ?thesis by (simp add: spaces_def is_space_def str_def)
qed

end
