(* ===== verification/Parser.thy ===== *)
theory Parser
  imports Localize
begin

section \<open>Parsing of objects\<close>

text \<open>
  \<^verbatim>\<open>geoparser/parser.go\<close> and \<open>parseDatabase\<close> of \<^verbatim>\<open>fill_cache.go\<close>: what points and zones a
  node, a way or a relation gives, with every way and every relation parsed only once. The
  objects are parsed by several goroutines: a transition system says how their steps
  interleave. The caches are filled before and only read here.
\<close>

record osm_node =
  n_ID :: int
  n_Lat :: f64
  n_Lon :: f64
  n_Tags :: tags

datatype osm_object = ObjNode osm_node | ObjWay osm_way | ObjRelation osm_relation

record geo_point =
  gp_Point :: orb_point
  gp_Name :: gostring
  gp_Street :: gostring
  gp_HouseNumber :: gostring
  gp_City :: gostring
  gp_Region :: gostring
  gp_Country :: gostring
  gp_Weight :: byte

definition weightBuilding :: byte where "weightBuilding = 10"
definition weightRoad :: byte where "weightRoad = 5"
definition weightAreaIndustrial :: byte where "weightAreaIndustrial = 3"
definition weightAreaProtected :: byte where "weightAreaProtected = 2"

definition isBuilding :: "osm_tags \<Rightarrow> tags \<Rightarrow> bool" where
  "isBuilding T tags \<longleftrightarrow> tag_Has T tags (str ''addr:housenumber'') \<and> tag_Has T tags (str ''addr:street'') \<and> tag_Has T tags (str ''building'')"

text \<open>The point of a building with these tags.\<close>

definition building_point :: "('q, 'm, 'b) gen_env \<Rightarrow> ('q, 'm, 'b) geo_gen \<Rightarrow> tags \<Rightarrow> orb_point \<Rightarrow> geo_point option" where
  "building_point E f tags point = do {
     city \<leftarrow> localizedCityAddr E f tags point;
     region \<leftarrow> localizedRegion E f point;
     Some \<lparr>gp_Point = point, gp_Name = localizedName E f tags, gp_Street = localizedStreetName E f tags,
       gp_HouseNumber = tag_Find (g_tags E) tags (str ''addr:housenumber''), gp_City = city, gp_Region = region,
       gp_Country = [], gp_Weight = weightBuilding\<rparr>
   }"

definition parseNode :: "('q, 'm, 'b) gen_env \<Rightarrow> ('q, 'm, 'b) geo_gen \<Rightarrow> osm_node \<Rightarrow> geo_point list option" where
  "parseNode E f node =
     (if isBuilding (g_tags E) (n_Tags node)
      then map_option (\<lambda>p. [p]) (building_point E f (n_Tags node) (n_Lon node, n_Lat node))
      else Some [])"

subsection \<open>Ways\<close>

definition calcWayCenter :: "('q, 'm, 'b) gen_env \<Rightarrow> osm_way \<Rightarrow> orb_point" where
  "calcWayCenter E way =
     (let poly = makeLineString (g_osm E) (w_Nodes way) in
      if length poly = 0 then (0, 0) else RingCentroid E poly)"

definition parseWayBuilding :: "('q, 'm, 'b) gen_env \<Rightarrow> ('q, 'm, 'b) geo_gen \<Rightarrow> osm_way \<Rightarrow> geo_point list option" where
  "parseWayBuilding E f way =
     (let point = calcWayCenter E way in
      if f_eq (fst point) 0 \<and> f_eq (snd point) 0 then Some []
      else map_option (\<lambda>p. [p]) (building_point E f (w_Tags way) point))"

text \<open>One point of a road; a road without a street is named by its number and name.\<close>

definition highway_point :: "('q, 'm, 'b) gen_env \<Rightarrow> ('q, 'm, 'b) geo_gen \<Rightarrow> tags \<Rightarrow> orb_point \<Rightarrow> geo_point option" where
  "highway_point E f tags point =
     (let name = getHighwayName E f tags; street = localizedStreetName E f tags;
          (name, street) = (if street = [] then ([], name) else (name, street)) in
      do {
        city \<leftarrow> localizedCityAddr E f tags point;
        region \<leftarrow> localizedRegion E f point;
        Some \<lparr>gp_Point = point, gp_Name = name, gp_Street = street, gp_HouseNumber = [], gp_City = city, gp_Region = region,
          gp_Country = [], gp_Weight = weightRoad\<rparr>
      })"

definition parseWayHighway :: "('q, 'm, 'b) gen_env \<Rightarrow> ('q, 'm, 'b) geo_gen \<Rightarrow> osm_way \<Rightarrow> geo_point list option" where
  "parseWayHighway E f way =
     (let ls = ToInterval E (makeLineString (g_osm E) (w_Nodes way)) (HighwayPointsDistance (gg_config f)) in
      if length ls = 0 then Some [] else those (map (highway_point E f (w_Tags way)) ls))"

text \<open>What a way gives when it is parsed for the first time.\<close>

definition way_points :: "('q, 'm, 'b) gen_env \<Rightarrow> ('q, 'm, 'b) geo_gen \<Rightarrow> osm_way \<Rightarrow> geo_point list option" where
  "way_points E f way =
     (if isBuilding (g_tags E) (w_Tags way) then parseWayBuilding E f way
      else if tag_Find (g_tags E) (w_Tags way) (str ''highway'')
          \<in> set (map str [''motorway'', ''trunk'', ''primary'', ''secondary'', ''tertiary'']) then parseWayHighway E f way
      else Some [])"

definition parseWay :: "('q, 'm, 'b) gen_env \<Rightarrow> osm_way \<Rightarrow> ('q, 'm, 'b) geo_gen \<Rightarrow> (geo_point list \<times> ('q, 'm, 'b) geo_gen) option" where
  "parseWay E way f =
     (case SetIfAbsent (g_btree E) (parsedWays f) (w_ID way) () of
        (False, t) \<Rightarrow> Some ([], f\<lparr>parsedWays := t, parsedWaysDupes := parsedWaysDupes f + 1\<rparr>)
      | (True, t) \<Rightarrow> map_option (\<lambda>ps. (ps, f\<lparr>parsedWays := t\<rparr>)) (way_points E f way))"

subsection \<open>Relations\<close>

text \<open>\<open>0.01/2\<close>\<close>

definition area_distance :: f64 where
  "area_distance = F64 0x3F747AE147AE147B"

definition fillPolygonWithPoints :: "('q, 'm, 'b) gen_env \<Rightarrow> int \<Rightarrow> multi_polygon \<Rightarrow> f64 \<Rightarrow> orb_point list" where
  "fillPolygonWithPoints E i poly distance =
     (let bound = Bound (g_orb E) poly;
          sampled = Sample E i (fst (fst bound)) (snd (fst bound)) (fst (snd bound)) (snd (snd bound)) distance 10 in
      filter (MultiPolygonContains (g_orb E) poly) sampled)"

definition parseRelationBuilding :: "('q, 'm, 'b) gen_env \<Rightarrow> ('q, 'm, 'b) geo_gen \<Rightarrow> osm_relation \<Rightarrow> geo_point list option" where
  "parseRelationBuilding E f rel =
     (if tag_Find (g_tags E) (rel_Tags rel) (str ''type'') = str ''multipolygon'' then do {
        r \<leftarrow> buildPolygon (g_geometry E) (g_osm E) (rel_Members rel);
        (case r of
           Inl err \<Rightarrow> Some []
         | Inr mpoly \<Rightarrow>
             if length mpoly = 0 then Some []
             else those (map (\<lambda>poly. building_point E f (rel_Tags rel) (PolygonCentroid E poly)) mpoly))
      }
      else Some [])"

definition area_point :: "('q, 'm, 'b) gen_env \<Rightarrow> ('q, 'm, 'b) geo_gen \<Rightarrow> tags \<Rightarrow> byte \<Rightarrow> gostring \<Rightarrow> orb_point \<Rightarrow> geo_point option" where
  "area_point E f tags weight name p = do {
     city \<leftarrow> localizedCityAddr E f tags p;
     region \<leftarrow> localizedRegion E f p;
     Some \<lparr>gp_Point = p, gp_Name = name, gp_Street = [], gp_HouseNumber = [], gp_City = city, gp_Region = region,
       gp_Country = [], gp_Weight = weight\<rparr>
   }"

definition parseRelationArea :: "('q, 'm, 'b) gen_env \<Rightarrow> ('q, 'm, 'b) geo_gen \<Rightarrow> osm_relation \<Rightarrow> byte \<Rightarrow> geo_point list option" where
  "parseRelationArea E f rel weight =
     (let name = localizedName E f (rel_Tags rel) in
      if name = [] then Some []
      else do {
        r \<leftarrow> buildPolygon (g_geometry E) (g_osm E) (rel_Members rel);
        (case r of
           Inl err \<Rightarrow> Some []
         | Inr poly \<Rightarrow>
             those (map (area_point E f (rel_Tags rel) weight name) (fillPolygonWithPoints E (rel_ID rel) poly area_distance)))
      })"

text \<open>The zone of a region or a country, if it has a name and its borders close.\<close>

definition relation_zone :: "('q, 'm, 'b) gen_env \<Rightarrow> ('q, 'm, 'b) geo_gen \<Rightarrow> osm_relation \<Rightarrow> geo_zone list option" where
  "relation_zone E f rel =
     (let name = localizedName E f (rel_Tags rel) in
      if name = [] then Some []
      else do {
        r \<leftarrow> buildPolygon (g_geometry E) (g_osm E) (rel_Members rel);
        Some (case r of
            Inl err \<Rightarrow> []
          | Inr poly \<Rightarrow>
              let poly = DouglasPeucker (g_orb E) poly in [\<lparr>gz_Name = name, gz_Bounds = Bound (g_orb E) poly, gz_Polygon = poly\<rparr>])
      })"

definition parseRelationRegion :: "('q, 'm, 'b) gen_env \<Rightarrow> osm_relation \<Rightarrow> ('q, 'm, 'b) geo_gen \<Rightarrow> ('q, 'm, 'b) geo_gen option" where
  "parseRelationRegion E rel f = map_option (\<lambda>zs. f\<lparr>gg_regions := gg_regions f @ zs\<rparr>) (relation_zone E f rel)"

definition parseRelationCountry :: "('q, 'm, 'b) gen_env \<Rightarrow> osm_relation \<Rightarrow> ('q, 'm, 'b) geo_gen \<Rightarrow> ('q, 'm, 'b) geo_gen option" where
  "parseRelationCountry E rel f = map_option (\<lambda>zs. f\<lparr>gg_countries := gg_countries f @ zs\<rparr>) (relation_zone E f rel)"

text \<open>One member of a road relation.\<close>

definition parse_member :: "('q, 'm, 'b) gen_env \<Rightarrow> member \<Rightarrow> geo_point list \<times> ('q, 'm, 'b) geo_gen
    \<Rightarrow> (geo_point list \<times> ('q, 'm, 'b) geo_gen) option" where
  "parse_member E m s =
     (case s of (out, f) \<Rightarrow>
        if m_Type m \<noteq> TypeWay then Some (out, f)
        else
          (case GetWay (g_osm E) (m_Ref m) of
             Inl err \<Rightarrow> Some (out, f)
           | Inr way \<Rightarrow> map_option (\<lambda>(ps, f). (out @ ps, f)) (parseWay E way f)))"

definition parseRelationHighway :: "('q, 'm, 'b) gen_env \<Rightarrow> osm_relation \<Rightarrow> ('q, 'm, 'b) geo_gen
    \<Rightarrow> (geo_point list \<times> ('q, 'm, 'b) geo_gen) option" where
  "parseRelationHighway E rel f = for_each (parse_member E) (rel_Members rel) ([], f)"

text \<open>\<open>strings.Contains\<close>\<close>

definition str_contains :: "gostring \<Rightarrow> gostring \<Rightarrow> bool" where
  "str_contains s substr \<longleftrightarrow> list_ex (\<lambda>i. take (length substr) (drop i s) = substr) [0..<length s + 1]"

text \<open>The \<open>switch\<close> of \<open>parseRelation\<close>.\<close>

datatype rel_kind = RelArea byte | RelBuilding | RelRegion | RelCountry | RelRoad | RelOther

definition relation_kind :: "osm_tags \<Rightarrow> tags \<Rightarrow> rel_kind" where
  "relation_kind T tags =
     (let kind = tag_Find T tags (str ''type'') in
      if kind = str ''multipolygon'' \<or> kind = str ''boundary'' then
        (if tag_Find T tags (str ''landuse'') = str ''quarry'' \<or> tag_Find T tags (str ''landuse'') = str ''industrial''
         then RelArea weightAreaIndustrial
         else if tag_Find T tags (str ''boundary'') = str ''protected_area'' then RelArea weightAreaProtected
         else if isBuilding T tags then RelBuilding
         else if tag_Find T tags (str ''boundary'') = str ''administrative'' then
           (if tag_Find T tags (str ''admin_level'') = str ''4'' then RelRegion
            else if tag_Find T tags (str ''admin_level'') = str ''2'' then RelCountry
            else RelOther)
         else RelOther)
      else if kind = str ''building'' then
        (if tag_Find T tags (str ''route'') = str ''road'' \<and> str_contains (tag_Find T tags (str ''network'')) (str ''national'')
         then RelRoad else RelOther)
      else RelOther)"

text \<open>What a relation does when it is parsed for the first time, roads apart.\<close>

definition parse_fresh_relation :: "('q, 'm, 'b) gen_env \<Rightarrow> osm_relation \<Rightarrow> ('q, 'm, 'b) geo_gen
    \<Rightarrow> (geo_point list \<times> ('q, 'm, 'b) geo_gen) option" where
  "parse_fresh_relation E rel f =
     (case relation_kind (g_tags E) (rel_Tags rel) of
        RelArea weight \<Rightarrow> map_option (\<lambda>ps. (ps, f)) (parseRelationArea E f rel weight)
      | RelBuilding \<Rightarrow> map_option (\<lambda>ps. (ps, f)) (parseRelationBuilding E f rel)
      | RelRegion \<Rightarrow> map_option (\<lambda>f. ([], f)) (parseRelationRegion E rel f)
      | RelCountry \<Rightarrow> map_option (\<lambda>f. ([], f)) (parseRelationCountry E rel f)
      | RelRoad \<Rightarrow> parseRelationHighway E rel f
      | RelOther \<Rightarrow> Some ([], f))"

text \<open>The check whether a relation is parsed for the first time.\<close>

definition claim_relation :: "('q, 'm, 'b) gen_env \<Rightarrow> osm_relation \<Rightarrow> ('q, 'm, 'b) geo_gen \<Rightarrow> bool \<times> ('q, 'm, 'b) geo_gen" where
  "claim_relation E rel f =
     (case SetIfAbsent (g_btree E) (parsedRelations f) (rel_ID rel) () of
        (False, t) \<Rightarrow> (False, f\<lparr>parsedRelations := t, parsedRelationsDupes := parsedRelationsDupes f + 1\<rparr>)
      | (True, t) \<Rightarrow> (True, f\<lparr>parsedRelations := t\<rparr>))"

definition parseRelation :: "('q, 'm, 'b) gen_env \<Rightarrow> osm_relation \<Rightarrow> ('q, 'm, 'b) geo_gen
    \<Rightarrow> (geo_point list \<times> ('q, 'm, 'b) geo_gen) option" where
  "parseRelation E rel f =
     (case claim_relation E rel f of
        (False, f) \<Rightarrow> Some ([], f)
      | (True, f) \<Rightarrow> parse_fresh_relation E rel f)"

definition parseObject :: "('q, 'm, 'b) gen_env \<Rightarrow> osm_object \<Rightarrow> ('q, 'm, 'b) geo_gen
    \<Rightarrow> (geo_point list \<times> ('q, 'm, 'b) geo_gen) option" where
  "parseObject E obj f =
     (case obj of
        ObjNode node \<Rightarrow> map_option (\<lambda>ps. (ps, f)) (parseNode E f node)
      | ObjWay way \<Rightarrow> parseWay E way f
      | ObjRelation rel \<Rightarrow> parseRelation E rel f)"

end
