(* ===== verification/ParseRun.thy ===== *)
theory ParseRun
  imports Parser OsmRun
begin

section \<open>Parsing the database\<close>

text \<open>
  \<open>parseDatabase\<close> of \<^verbatim>\<open>geoparser/fill_cache.go\<close> hands every object to a pool of
  goroutines that all parse at the same time. They share the two indices of parsed ids, the lists
  of zones and the channel of points, which has ten places (\<open>parsedPointsSize\<close>). A goroutine is a
  \<open>task\<close>; a step parses an object, or one member of a road relation: each of these claims at most one way
  or relation, and what it appends afterwards to the zones does not depend on the other goroutines. Then
  the goroutine sends its points one by one, each when the channel has room, while the saver
  receives them. Any step that is possible may be the next one; the limit on the number of
  goroutines only leaves fewer of them. An object whose parsing panics has no step.
\<close>

datatype task = Waiting osm_object | OnRoad "member list" "geo_point list" | Sending "geo_point list" | Parsed

text \<open>\<open>ps_sent\<close> are the points that the saver has received.\<close>

record ('q, 'm, 'b) parse_state =
  ps_gen :: "('q, 'm, 'b) geo_gen"
  ps_tasks :: "task list"
  ps_chan :: "geo_point list"
  ps_sent :: "geo_point list"

definition parse_init :: "('q, 'm, 'b) geo_gen \<Rightarrow> osm_object list \<Rightarrow> ('q, 'm, 'b) parse_state" where
  "parse_init f objs = \<lparr>ps_gen = f, ps_tasks = map Waiting objs, ps_chan = [], ps_sent = []\<rparr>"

definition is_road :: "('q, 'm, 'b) gen_env \<Rightarrow> osm_object \<Rightarrow> bool" where
  "is_road E obj \<longleftrightarrow> (case obj of ObjRelation rel \<Rightarrow> relation_kind (g_tags E) (rel_Tags rel) = RelRoad | _ \<Rightarrow> False)"

inductive parse_step :: "('q, 'm, 'b) gen_env \<Rightarrow> ('q, 'm, 'b) parse_state \<Rightarrow> ('q, 'm, 'b) parse_state \<Rightarrow> bool"
  for E :: "('q, 'm, 'b) gen_env" where
  object: "i < length (ps_tasks s) \<Longrightarrow> ps_tasks s ! i = Waiting obj \<Longrightarrow> \<not> is_road E obj
    \<Longrightarrow> parseObject E obj (ps_gen s) = Some (ps, f)
    \<Longrightarrow> parse_step E s (s\<lparr>ps_gen := f, ps_tasks := (ps_tasks s)[i := Sending ps]\<rparr>)"
| road: "i < length (ps_tasks s) \<Longrightarrow> ps_tasks s ! i = Waiting (ObjRelation rel) \<Longrightarrow> is_road E (ObjRelation rel)
    \<Longrightarrow> claim_relation E rel (ps_gen s) = (fresh, f)
    \<Longrightarrow> parse_step E s (s\<lparr>ps_gen := f, ps_tasks := (ps_tasks s)[i := if fresh then OnRoad (rel_Members rel) [] else Parsed]\<rparr>)"
| member: "i < length (ps_tasks s) \<Longrightarrow> ps_tasks s ! i = OnRoad (m # ms) out
    \<Longrightarrow> parse_member E m (out, ps_gen s) = Some (out', f)
    \<Longrightarrow> parse_step E s (s\<lparr>ps_gen := f, ps_tasks := (ps_tasks s)[i := OnRoad ms out']\<rparr>)"
| collected: "i < length (ps_tasks s) \<Longrightarrow> ps_tasks s ! i = OnRoad [] out
    \<Longrightarrow> parse_step E s (s\<lparr>ps_tasks := (ps_tasks s)[i := Sending out]\<rparr>)"
| send: "i < length (ps_tasks s) \<Longrightarrow> ps_tasks s ! i = Sending (p # ps) \<Longrightarrow> length (ps_chan s) < parsedPointsSize
    \<Longrightarrow> parse_step E s (s\<lparr>ps_tasks := (ps_tasks s)[i := Sending ps], ps_chan := ps_chan s @ [p]\<rparr>)"
| sent: "i < length (ps_tasks s) \<Longrightarrow> ps_tasks s ! i = Sending []
    \<Longrightarrow> parse_step E s (s\<lparr>ps_tasks := (ps_tasks s)[i := Parsed]\<rparr>)"
| receive: "ps_chan s = p # ps \<Longrightarrow> parse_step E s (s\<lparr>ps_chan := ps, ps_sent := ps_sent s @ [p]\<rparr>)"

text \<open>All goroutines have ended and the saver has received every point.\<close>

definition parse_done :: "('q, 'm, 'b) parse_state \<Rightarrow> bool" where
  "parse_done s \<longleftrightarrow> (\<forall>t \<in> set (ps_tasks s). t = Parsed) \<and> ps_chan s = []"

subsection \<open>What a database gives\<close>

definition road_ways :: "('q, 'm, 'b) gen_env \<Rightarrow> member list \<Rightarrow> osm_way set" where
  "road_ways E ms = {way. \<exists>m \<in> set ms. m_Type m = TypeWay \<and> GetWay (g_osm E) (m_Ref m) = Inr way}"

text \<open>The ways and relations that are met, each once.\<close>

definition met_ways :: "('q, 'm, 'b) gen_env \<Rightarrow> osm_object set \<Rightarrow> osm_way set" where
  "met_ways E objs = {way. ObjWay way \<in> objs}
     \<union> (\<Union>rel \<in> {rel. ObjRelation rel \<in> objs \<and> is_road E (ObjRelation rel)}. road_ways E (rel_Members rel))"

definition met_relations :: "osm_object set \<Rightarrow> osm_relation set" where
  "met_relations objs = {rel. ObjRelation rel \<in> objs}"

definition relation_points :: "('q, 'm, 'b) gen_env \<Rightarrow> ('q, 'm, 'b) geo_gen \<Rightarrow> osm_relation \<Rightarrow> geo_point list option" where
  "relation_points E f rel =
     (case relation_kind (g_tags E) (rel_Tags rel) of
        RelArea weight \<Rightarrow> parseRelationArea E f rel weight
      | RelBuilding \<Rightarrow> parseRelationBuilding E f rel
      | _ \<Rightarrow> Some [])"

definition zones_of_kind :: "rel_kind \<Rightarrow> ('q, 'm, 'b) gen_env \<Rightarrow> ('q, 'm, 'b) geo_gen \<Rightarrow> osm_relation \<Rightarrow> geo_zone list option" where
  "zones_of_kind k E f rel = (if relation_kind (g_tags E) (rel_Tags rel) = k then relation_zone E f rel else Some [])"

definition node_points :: "('q, 'm, 'b) gen_env \<Rightarrow> ('q, 'm, 'b) geo_gen \<Rightarrow> osm_object \<Rightarrow> geo_point list option" where
  "node_points E f obj = (case obj of ObjNode node \<Rightarrow> parseNode E f node | _ \<Rightarrow> Some [])"

definition tally :: "('a \<Rightarrow> 'b list option) \<Rightarrow> 'a set \<Rightarrow> 'b multiset" where
  "tally g X = (\<Sum>x \<in> X. mset (the (g x)))"

definition all_points :: "('q, 'm, 'b) gen_env \<Rightarrow> ('q, 'm, 'b) geo_gen \<Rightarrow> osm_object list \<Rightarrow> geo_point multiset" where
  "all_points E f objs = sum_list (map (\<lambda>obj. mset (the (node_points E f obj))) objs)
     + tally (way_points E f) (met_ways E (set objs)) + tally (relation_points E f) (met_relations (set objs))"

text \<open>Objects with the same number are the same object, and numbers are positive and not the largest one.\<close>

definition ids_ok :: "('q, 'm, 'b) gen_env \<Rightarrow> osm_object set \<Rightarrow> bool" where
  "ids_ok E objs \<longleftrightarrow>
     inj_on w_ID (met_ways E objs) \<and> (\<forall>way \<in> met_ways E objs. key_fits (w_ID way))
     \<and> inj_on rel_ID (met_relations objs) \<and> (\<forall>rel \<in> met_relations objs. key_fits (rel_ID rel))"

subsection \<open>Only the caches matter\<close>

definition same_caches :: "('q, 'm, 'b) geo_gen \<Rightarrow> ('q, 'm, 'b) geo_gen \<Rightarrow> bool" where
  "same_caches f f' \<longleftrightarrow> gg_config f' = gg_config f \<and> placeIndex f' = placeIndex f \<and> regionIndex f' = regionIndex f
     \<and> localizationCache f' = localizationCache f"

lemma same_caches_names:
  assumes "same_caches f f'"
  shows "localizedName E f' = localizedName E f" "localizedStreetName E f' = localizedStreetName E f"
    "localizedCityAddr E f' = localizedCityAddr E f" "localizedRegion E f' = localizedRegion E f" "getHighwayName E f' = getHighwayName E f"
proof -
  have e: "gg_config f' = gg_config f" "placeIndex f' = placeIndex f" "regionIndex f' = regionIndex f"
    "localizationCache f' = localizationCache f"
    using assms by (simp_all add: same_caches_def)
  show n: "localizedName E f' = localizedName E f" by (intro ext) (simp only: localizedName_def e)
  show "localizedStreetName E f' = localizedStreetName E f" by (intro ext) (simp only: localizedStreetName_def e)
  show "localizedCityAddr E f' = localizedCityAddr E f" by (intro ext) (simp only: localizedCityAddr_def calcPlace_def e)
  show "localizedRegion E f' = localizedRegion E f" by (intro ext) (simp only: localizedRegion_def calcRegion_def e)
  show "getHighwayName E f' = getHighwayName E f" by (intro ext) (simp only: getHighwayName_def n)
qed

lemma same_caches_points:
  assumes "same_caches f f'"
  shows "parseNode E f' = parseNode E f" "way_points E f' = way_points E f" "relation_zone E f' = relation_zone E f"
    "parseRelationArea E f' = parseRelationArea E f" "parseRelationBuilding E f' = parseRelationBuilding E f"
proof -
  note N = same_caches_names [OF assms]
  have b: "building_point E f' = building_point E f" by (intro ext) (simp only: building_point_def N)
  have h: "highway_point E f' = highway_point E f" by (intro ext) (simp only: highway_point_def N)
  have a: "area_point E f' = area_point E f" by (intro ext) (simp only: area_point_def N)
  have c: "gg_config f' = gg_config f" using assms by (simp add: same_caches_def)
  show "parseNode E f' = parseNode E f" by (intro ext) (simp only: parseNode_def b)
  show "way_points E f' = way_points E f"
    by (intro ext) (simp only: way_points_def parseWayBuilding_def parseWayHighway_def b h c)
  show "relation_zone E f' = relation_zone E f" by (intro ext) (simp only: relation_zone_def N)
  show "parseRelationArea E f' = parseRelationArea E f" by (intro ext) (simp only: parseRelationArea_def a N)
  show "parseRelationBuilding E f' = parseRelationBuilding E f" by (intro ext) (simp only: parseRelationBuilding_def b)
qed

subsection \<open>Nothing panics\<close>

lemma those_total: "(\<And>x. x \<in> set xs \<Longrightarrow> f x \<noteq> None) \<Longrightarrow> those (map f xs) \<noteq> None"
  by (induction xs) (auto split: option.splits)

lemma names_total:
  assumes "qtree_laws (g_qtree E) rects" "length rels < 2 ^ 63" "caches_of E cfg rels f"
  shows "building_point E f tags p \<noteq> None" "highway_point E f tags p \<noteq> None" "area_point E f tags weight name p \<noteq> None"
proof -
  obtain c where "localizedCityAddr E f tags p = Some c" using localizedCityAddr_answer [OF assms] by blast
  moreover obtain r where "localizedRegion E f p = Some r" using localizedRegion_answer [OF assms] by blast
  ultimately show "building_point E f tags p \<noteq> None" "highway_point E f tags p \<noteq> None" "area_point E f tags weight name p \<noteq> None"
    by (simp_all add: building_point_def highway_point_def area_point_def Let_def split: prod.split)
qed

lemma ways_total:
  assumes "qtree_laws (g_qtree E) rects" "length rels < 2 ^ 63" "caches_of E cfg rels f"
  shows "parseNode E f node \<noteq> None" "way_points E f way \<noteq> None"
proof -
  note T = names_total [OF assms]
  show "parseNode E f node \<noteq> None" using T by (simp add: parseNode_def)
  show "way_points E f way \<noteq> None"
    using T those_total [of "ToInterval E (makeLineString (g_osm E) (w_Nodes way)) (HighwayPointsDistance (gg_config f))" "highway_point E f (w_Tags way)"]
    by (simp add: way_points_def parseWayBuilding_def parseWayHighway_def Let_def)
qed

lemma relations_total:
  assumes "geometry_laws (g_geometry E)" "qtree_laws (g_qtree E) rects" "length rels < 2 ^ 63" "caches_of E cfg rels f" "orientable E rel"
  shows "relation_zone E f rel \<noteq> None" "relation_points E f rel \<noteq> None"
proof -
  note T = names_total [OF assms(2-4)]
  obtain res where res: "buildPolygon (g_geometry E) (g_osm E) (rel_Members rel) = Some res" by (rule orientable_polygon [OF assms(1,5)])
  show "relation_zone E f rel \<noteq> None" by (simp add: relation_zone_def res Let_def)
  have all: "those (map (area_point E f tags w name) xs) \<noteq> None" "those (map (\<lambda>poly. building_point E f tags (g poly)) ys) \<noteq> None"
    for tags w name xs ys and g :: "polygon \<Rightarrow> orb_point" by (rule those_total, rule T)+
  have a: "parseRelationArea E f rel w \<noteq> None" for w
    using all(1) res by (simp add: parseRelationArea_def Let_def split: sum.split)
  have b: "parseRelationBuilding E f rel \<noteq> None"
    using all(2) res by (simp add: parseRelationBuilding_def split: sum.split)
  show "relation_points E f rel \<noteq> None" using a b by (simp add: relation_points_def split: rel_kind.split)
qed

subsection \<open>What has been parsed\<close>

text \<open>
  The ways \<open>Cw\<close> and the relations \<open>Cr\<close> have been parsed: the indices hold their numbers, the zones
  are theirs, and \<open>pts\<close> are their points.
\<close>

definition parsed :: "('q, 'm, 'b) gen_env \<Rightarrow> ('b \<Rightarrow> bool) \<Rightarrow> ('q, 'm, 'b) geo_gen \<Rightarrow> osm_object set
    \<Rightarrow> ('q, 'm, 'b) geo_gen \<Rightarrow> geo_point multiset \<Rightarrow> osm_way set \<Rightarrow> osm_relation set \<Rightarrow> bool" where
  "parsed E ok f0 objs f pts Cw Cr \<longleftrightarrow>
     same_caches f0 f \<and> finite Cw \<and> finite Cr \<and> Cw \<subseteq> met_ways E objs \<and> Cr \<subseteq> met_relations objs
     \<and> index_ok (g_btree E) ok (parsedWays f) \<and> index_ok (g_btree E) ok (parsedRelations f)
     \<and> (\<forall>way \<in> met_ways E objs. Get (g_btree E) (parsedWays f) (w_ID way) = None \<longleftrightarrow> way \<notin> Cw)
     \<and> (\<forall>rel \<in> met_relations objs. Get (g_btree E) (parsedRelations f) (rel_ID rel) = None \<longleftrightarrow> rel \<notin> Cr)
     \<and> pts = tally (way_points E f0) Cw + tally (relation_points E f0) Cr
     \<and> mset (gg_regions f) = tally (zones_of_kind RelRegion E f0) Cr
     \<and> mset (gg_countries f) = tally (zones_of_kind RelCountry E f0) Cr"

lemma tally_insert: "finite X \<Longrightarrow> tally g (insert x X) = (if x \<in> X then tally g X else mset (the (g x)) + tally g X)"
  by (simp add: tally_def insert_absorb)

definition parse_ready :: "('q, 'm, 'b) gen_env \<Rightarrow> ('b \<Rightarrow> bool) \<Rightarrow> ('q, 'm, 'b) geo_gen \<Rightarrow> osm_object set \<Rightarrow> bool" where
  "parse_ready E ok f0 objs \<longleftrightarrow> btree_laws (g_btree E) ok \<and> ids_ok E objs
     \<and> (\<forall>node. parseNode E f0 node \<noteq> None) \<and> (\<forall>way. way_points E f0 way \<noteq> None)"

text \<open>No relation panics.\<close>

definition relations_ok :: "('q, 'm, 'b) gen_env \<Rightarrow> ('q, 'm, 'b) geo_gen \<Rightarrow> osm_object set \<Rightarrow> bool" where
  "relations_ok E f0 objs \<longleftrightarrow> (\<forall>rel \<in> met_relations objs. relation_zone E f0 rel \<noteq> None \<and> relation_points E f0 rel \<noteq> None)"

lemma parsed_way:
  assumes R: "parse_ready E ok f0 objs" and P: "parsed E ok f0 objs f pts Cw Cr" and w: "way \<in> met_ways E objs"
  shows "\<exists>ps f'. parseWay E way f = Some (ps, f') \<and> parsed E ok f0 objs f' (pts + mset ps) (insert way Cw) Cr
    \<and> length ps \<le> length (the (way_points E f0 way))"
proof -
  have L: "btree_laws (g_btree E) ok" and k: "key_fits (w_ID way)" and inj: "inj_on w_ID (met_ways E objs)"
    using R w by (auto simp: parse_ready_def ids_ok_def)
  have ix: "index_ok (g_btree E) ok (parsedWays f)" using P by (simp add: parsed_def)
  note S = SetIfAbsent_ok [OF L ix k, of "()"]
  obtain b t where sia: "SetIfAbsent (g_btree E) (parsedWays f) (w_ID way) () = (b, t)" by fastforce
  have cw: "Get (g_btree E) (parsedWays f) (w_ID way) = None \<longleftrightarrow> way \<notin> Cw" using P w by (simp add: parsed_def)
  have b: "b \<longleftrightarrow> way \<notin> Cw" using S(2) sia cw by simp
  have get: "Get (g_btree E) t (w_ID v) = None \<longleftrightarrow> v \<notin> insert way Cw" if "v \<in> met_ways E objs" for v
    using S(3) sia cw P that inj_onD [OF inj _ that w] by (auto simp: parsed_def)
  have "way_points E f0 way \<noteq> None" using R unfolding parse_ready_def by blast
  then obtain ps where ps: "way_points E f0 way = Some ps" by blast
  then have ps': "way_points E f way = Some ps" using P same_caches_points(2) by (metis parsed_def)
  show ?thesis
  proof (cases "way \<in> Cw")
    case True
    then have "parseWay E way f = Some ([], f\<lparr>parsedWays := t, parsedWaysDupes := parsedWaysDupes f + 1\<rparr>)"
      using sia b by (simp add: parseWay_def)
    then show ?thesis using P get S(1) sia True by (auto simp: parsed_def same_caches_def insert_absorb)
  next
    case False
    then have "parseWay E way f = Some (ps, f\<lparr>parsedWays := t\<rparr>)" using sia b ps' by (simp add: parseWay_def)
    moreover have "parsed E ok f0 objs (f\<lparr>parsedWays := t\<rparr>) (pts + mset ps) (insert way Cw) Cr"
    proof -
      have g: "\<forall>v \<in> met_ways E objs. Get (g_btree E) t (w_ID v) = None \<longleftrightarrow> v \<notin> insert way Cw" using get by blast
      have i: "index_ok (g_btree E) ok t" using S(1) sia by simp
      have "finite Cw" using P by (simp add: parsed_def)
      note T = tally_insert [OF this, where x = way]
      show ?thesis using P g i w unfolding parsed_def by (simp add: T False ps same_caches_def ac_simps)
    qed
    ultimately show ?thesis using ps by auto
  qed
qed

text \<open>A relation other than a road.\<close>

lemma claim_relation_parsed:
  assumes R: "parse_ready E ok f0 objs" and P: "parsed E ok f0 objs f pts Cw Cr" and r: "rel \<in> met_relations objs"
    and c: "claim_relation E rel f = (fresh, f')"
  shows "fresh \<longleftrightarrow> rel \<notin> Cr" "same_caches f0 f'" "index_ok (g_btree E) ok (parsedRelations f')"
    "\<forall>v \<in> met_relations objs. Get (g_btree E) (parsedRelations f') (rel_ID v) = None \<longleftrightarrow> v \<notin> insert rel Cr"
    "parsedWays f' = parsedWays f" "gg_regions f' = gg_regions f" "gg_countries f' = gg_countries f"
proof -
  have L: "btree_laws (g_btree E) ok" and k: "key_fits (rel_ID rel)" and inj: "inj_on rel_ID (met_relations objs)"
    using R r by (auto simp: parse_ready_def ids_ok_def)
  have ix: "index_ok (g_btree E) ok (parsedRelations f)" using P by (simp add: parsed_def)
  note S = SetIfAbsent_ok [OF L ix k, of "()"]
  obtain b t where sia: "SetIfAbsent (g_btree E) (parsedRelations f) (rel_ID rel) () = (b, t)" by fastforce
  have cr: "Get (g_btree E) (parsedRelations f) (rel_ID rel) = None \<longleftrightarrow> rel \<notin> Cr" using P r by (simp add: parsed_def)
  have t: "parsedRelations f' = t" and fb: "fresh = b" using c sia by (auto simp: claim_relation_def split: bool.splits)
  show "fresh \<longleftrightarrow> rel \<notin> Cr" using S(2) sia cr fb by simp
  show "index_ok (g_btree E) ok (parsedRelations f')" using S(1) sia t by simp
  show "\<forall>v \<in> met_relations objs. Get (g_btree E) (parsedRelations f') (rel_ID v) = None \<longleftrightarrow> v \<notin> insert rel Cr"
    using S(3) sia cr P inj_onD [OF inj _ _ r] unfolding t by (auto simp: parsed_def)
  show "same_caches f0 f'" "parsedWays f' = parsedWays f" "gg_regions f' = gg_regions f" "gg_countries f' = gg_countries f"
    using c P by (auto simp: claim_relation_def parsed_def same_caches_def split: bool.splits prod.splits)
qed

text \<open>A relation that has been claimed adds its points and its zones.\<close>

lemma parsed_fresh:
  assumes P: "parsed E ok f0 objs f pts Cw Cr" and r: "rel \<in> met_relations objs" "rel \<notin> Cr"
    and c: "claim_relation E rel f = (True, f1)" and R: "parse_ready E ok f0 objs"
    and f': "same_caches f0 f'" "parsedWays f' = parsedWays f1" "parsedRelations f' = parsedRelations f1"
    and rg: "mset (gg_regions f') = mset (the (zones_of_kind RelRegion E f0 rel)) + mset (gg_regions f1)"
    and ct: "mset (gg_countries f') = mset (the (zones_of_kind RelCountry E f0 rel)) + mset (gg_countries f1)"
  shows "parsed E ok f0 objs f' (pts + mset (the (relation_points E f0 rel))) Cw (insert rel Cr)"
proof -
  note C = claim_relation_parsed [OF R P r(1) c]
  have "finite Cr" using P by (simp add: parsed_def)
  note T = tally_insert [OF this, where x = rel]
  show ?thesis
    using P C(3-7) f' rg ct r unfolding parsed_def by (simp add: T ac_simps)
qed

lemma parsed_relation:
  assumes R: "parse_ready E ok f0 objs" and P: "parsed E ok f0 objs f pts Cw Cr" and r: "rel \<in> met_relations objs"
    and nr: "relation_kind (g_tags E) (rel_Tags rel) \<noteq> RelRoad" and res: "parseRelation E rel f = Some (ps, f')"
  shows "parsed E ok f0 objs f' (pts + mset ps) Cw (insert rel Cr)"
    and "length ps \<le> length (the (relation_points E f0 rel))"
proof -
  obtain fresh f1 where c: "claim_relation E rel f = (fresh, f1)" by fastforce
  note C = claim_relation_parsed [OF R P r c]
  note N = same_caches_points [OF C(2), where E = E]
  have "parsed E ok f0 objs f' (pts + mset ps) Cw (insert rel Cr) \<and> length ps \<le> length (the (relation_points E f0 rel))"
  proof (cases fresh)
    case False
    then have "rel \<in> Cr" using C(1) by simp
    then have "insert rel Cr = Cr" by blast
    moreover have "ps = []" "f' = f1" using res c False by (simp_all add: parseRelation_def)
    moreover have "parsed E ok f0 objs f1 pts Cw Cr" using P C(2-7) \<open>insert rel Cr = Cr\<close> by (simp add: parsed_def)
    ultimately show ?thesis by simp
  next
    case True
    then have new: "rel \<notin> Cr" and c: "claim_relation E rel f = (True, f1)" using C(1) c by simp_all
    have run: "parse_fresh_relation E rel f1 = Some (ps, f')" using c res by (simp add: parseRelation_def)
    have pts: "relation_points E f0 rel = Some ps"
      and f': "same_caches f0 f'" "parsedWays f' = parsedWays f1" "parsedRelations f' = parsedRelations f1"
      and z: "gg_regions f' = gg_regions f1 @ the (zones_of_kind RelRegion E f0 rel)"
        "gg_countries f' = gg_countries f1 @ the (zones_of_kind RelCountry E f0 rel)"
      using run nr C(2) by (cases "relation_kind (g_tags E) (rel_Tags rel)";
        auto simp: parse_fresh_relation_def relation_points_def zones_of_kind_def parseRelationRegion_def parseRelationCountry_def N same_caches_def)+
    have "parsed E ok f0 objs f' (pts + mset (the (relation_points E f0 rel))) Cw (insert rel Cr)"
      by (rule parsed_fresh [OF P r new c R f']) (simp_all add: z add.commute)
    then show ?thesis using pts by simp
  qed
  then show "parsed E ok f0 objs f' (pts + mset ps) Cw (insert rel Cr)"
    and "length ps \<le> length (the (relation_points E f0 rel))" by blast+
qed

text \<open>A relation that has its points and zones does not panic.\<close>

lemma parseRelation_total:
  assumes "same_caches f0 f" "relation_kind (g_tags E) (rel_Tags rel) \<noteq> RelRoad"
    and "relation_zone E f0 rel \<noteq> None" "relation_points E f0 rel \<noteq> None"
  shows "parseRelation E rel f \<noteq> None"
proof -
  obtain fresh f1 where c: "claim_relation E rel f = (fresh, f1)" by fastforce
  have "same_caches f0 f1" using c assms(1) by (auto simp: claim_relation_def same_caches_def split: bool.splits prod.splits)
  note N = same_caches_points [OF this, where E = E]
  show ?thesis
    using assms(2-4) c
    by (cases fresh; cases "relation_kind (g_tags E) (rel_Tags rel)")
      (auto simp: parseRelation_def parse_fresh_relation_def relation_points_def parseRelationRegion_def parseRelationCountry_def N)
qed

lemma parsed_road:
  assumes R: "parse_ready E ok f0 objs" and P: "parsed E ok f0 objs f pts Cw Cr" and r: "rel \<in> met_relations objs"
    and road: "relation_kind (g_tags E) (rel_Tags rel) = RelRoad" and c: "claim_relation E rel f = (fresh, f')"
  shows "parsed E ok f0 objs f' pts Cw (insert rel Cr)"
proof -
  note C = claim_relation_parsed [OF R P r c]
  show ?thesis
  proof (cases fresh)
    case False
    then have "insert rel Cr = Cr" using C(1) by blast
    then show ?thesis using P C(2-7) by (simp add: parsed_def)
  next
    case True
    then have "rel \<notin> Cr" "claim_relation E rel f = (True, f')" using C(1) c by simp_all
    moreover have "the (relation_points E f0 rel) = []" "the (zones_of_kind RelRegion E f0 rel) = []"
      "the (zones_of_kind RelCountry E f0 rel) = []" using road by (simp_all add: relation_points_def zones_of_kind_def)
    ultimately show ?thesis using parsed_fresh [OF P r _ _ R C(2) refl refl] by simp
  qed
qed

subsection \<open>The invariant of a run\<close>

lemma balance:
  fixes sent :: "'a multiset"
  assumes "sent + rest = all + pts" "rest' + old = rest + new" "sent' + new + pts = sent + old + pts'"
  shows "sent' + rest' = all + pts'"
proof (rule multiset_eqI)
  fix x
  have "count sent x + count rest x = count all x + count pts x" "count rest' x + count old x = count rest x + count new x"
    "count sent' x + count new x + count pts x = count sent x + count old x + count pts' x"
    using assms by (metis count_union)+
  then show "count (sent' + rest') x = count (all + pts') x" by simp
qed

definition pending :: "('q, 'm, 'b) gen_env \<Rightarrow> ('q, 'm, 'b) geo_gen \<Rightarrow> task \<Rightarrow> geo_point multiset" where
  "pending E f t = (case t of Waiting obj \<Rightarrow> mset (the (node_points E f obj)) | OnRoad ms out \<Rightarrow> mset out
     | Sending ps \<Rightarrow> mset ps | Parsed \<Rightarrow> {#})"

definition task_ways :: "('q, 'm, 'b) gen_env \<Rightarrow> task \<Rightarrow> osm_way set" where
  "task_ways E t = (case t of OnRoad ms out \<Rightarrow> road_ways E ms | _ \<Rightarrow> {})"

definition taken :: "osm_way set \<Rightarrow> osm_relation set \<Rightarrow> osm_object \<Rightarrow> bool" where
  "taken Cw Cr obj = (case obj of ObjNode node \<Rightarrow> True | ObjWay way \<Rightarrow> way \<in> Cw | ObjRelation rel \<Rightarrow> rel \<in> Cr)"

text \<open>
  Every object waits or has been taken, and the ways of a road that was taken have been
  parsed or are still to be parsed by a goroutine. The points that were received, that are
  in the channel and that goroutines hold are those of what has been parsed.
\<close>

definition run_inv :: "('q, 'm, 'b) gen_env \<Rightarrow> ('b \<Rightarrow> bool) \<Rightarrow> ('q, 'm, 'b) geo_gen \<Rightarrow> osm_object list
    \<Rightarrow> ('q, 'm, 'b) parse_state \<Rightarrow> geo_point multiset \<Rightarrow> osm_way set \<Rightarrow> osm_relation set \<Rightarrow> bool" where
  "run_inv E ok f0 objs s pts Cw Cr \<longleftrightarrow>
     parsed E ok f0 (set objs) (ps_gen s) pts Cw Cr
     \<and> mset (ps_sent s) + mset (ps_chan s) + sum_list (map (pending E f0) (ps_tasks s))
         = sum_list (map (\<lambda>obj. mset (the (node_points E f0 obj))) objs) + pts
     \<and> (\<forall>obj. Waiting obj \<in> set (ps_tasks s) \<longrightarrow> obj \<in> set objs)
     \<and> (\<forall>obj \<in> set objs. Waiting obj \<in> set (ps_tasks s) \<or> taken Cw Cr obj)
     \<and> (\<forall>t \<in> set (ps_tasks s). task_ways E t \<subseteq> met_ways E (set objs))
     \<and> (\<forall>rel \<in> Cr. is_road E (ObjRelation rel) \<longrightarrow> road_ways E (rel_Members rel) \<subseteq> Cw \<union> (\<Union>t \<in> set (ps_tasks s). task_ways E t))"

lemma taken_mono: "taken Cw Cr obj \<Longrightarrow> Cw \<subseteq> Cw' \<Longrightarrow> Cr \<subseteq> Cr' \<Longrightarrow> taken Cw' Cr' obj"
  by (auto simp: taken_def split: osm_object.splits)

lemma set_update_cases:
  assumes "i < length ts"
  shows "set (ts[i := v]) \<subseteq> insert v (set ts)" "v \<in> set (ts[i := v])" "t \<in> set ts \<Longrightarrow> t = ts ! i \<or> t \<in> set (ts[i := v])"
proof -
  show "set (ts[i := v]) \<subseteq> insert v (set ts)" by (rule set_update_subset_insert)
  show "v \<in> set (ts[i := v])" using assms by (rule set_update_memI)
  assume "t \<in> set ts"
  then obtain j where "j < length ts" "t = ts ! j" by (auto simp: in_set_conv_nth)
  then show "t = ts ! i \<or> t \<in> set (ts[i := v])" by (cases "j = i") (auto simp: in_set_conv_nth intro!: exI [of _ j])
qed

text \<open>One goroutine makes a step from the task \<open>ps_tasks s ! i\<close> to \<open>v\<close>.\<close>

lemma run_inv_update:
  assumes I: "run_inv E ok f0 objs s pts Cw Cr" and i: "i < length (ps_tasks s)"
    and P: "parsed E ok f0 (set objs) f pts' Cw' Cr'" and sub: "Cw \<subseteq> Cw'" "Cr \<subseteq> Cr'"
    and count: "mset chan' + pending E f0 v + pts = mset (ps_chan s) + pending E f0 (ps_tasks s ! i) + pts'"
    and v: "\<forall>obj. v \<noteq> Waiting obj" "task_ways E v \<subseteq> met_ways E (set objs)"
    and t: "\<forall>obj. ps_tasks s ! i = Waiting obj \<longrightarrow> taken Cw' Cr' obj" "task_ways E (ps_tasks s ! i) \<subseteq> Cw' \<union> task_ways E v"
    and new: "\<forall>rel \<in> Cr'. is_road E (ObjRelation rel) \<longrightarrow> rel \<in> Cr \<or> road_ways E (rel_Members rel) \<subseteq> Cw' \<union> task_ways E v"
  shows "run_inv E ok f0 objs (s\<lparr>ps_gen := f, ps_tasks := (ps_tasks s)[i := v], ps_chan := chan'\<rparr>) pts' Cw' Cr'"
proof -
  let ?ts = "ps_tasks s" and ?ts' = "(ps_tasks s)[i := v]" and ?N = "sum_list (map (\<lambda>obj. mset (the (node_points E f0 obj))) objs)"
  note U = set_update_cases [OF i, where v = v]
  have all: "mset (ps_sent s) + mset (ps_chan s) + sum_list (map (pending E f0) ?ts) = ?N + pts" using I by (simp add: run_inv_def)
  have "mset (ps_sent s) + mset chan' + pending E f0 v + pts = mset (ps_sent s) + mset (ps_chan s) + pending E f0 (ps_tasks s ! i) + pts'"
    using count by (simp add: add.assoc)
  from balance [OF all sum_list_map_update [OF i] this]
  have sum: "mset (ps_sent s) + mset chan' + sum_list (map (pending E f0) ?ts') = ?N + pts'" .
  have waits: "\<forall>obj. Waiting obj \<in> set ?ts' \<longrightarrow> obj \<in> set objs"
    using I U(1) v(1) unfolding run_inv_def by blast
  have met: "\<forall>t \<in> set ?ts'. task_ways E t \<subseteq> met_ways E (set objs)" using I U(1) v(2) unfolding run_inv_def by blast
  have obj: "\<forall>obj \<in> set objs. Waiting obj \<in> set ?ts' \<or> taken Cw' Cr' obj"
  proof
    fix obj assume "obj \<in> set objs"
    then have "Waiting obj \<in> set ?ts \<or> taken Cw Cr obj" using I by (simp add: run_inv_def)
    then show "Waiting obj \<in> set ?ts' \<or> taken Cw' Cr' obj" using U(3) t(1) taken_mono [OF _ sub] by metis
  qed
  have ways: "(\<Union>t \<in> set ?ts. task_ways E t) \<subseteq> Cw' \<union> (\<Union>t \<in> set ?ts'. task_ways E t)" using U(2,3) t(2) by blast
  have road: "\<forall>rel \<in> Cr'. is_road E (ObjRelation rel) \<longrightarrow> road_ways E (rel_Members rel) \<subseteq> Cw' \<union> (\<Union>t \<in> set ?ts'. task_ways E t)"
  proof (intro ballI impI)
    fix rel assume "rel \<in> Cr'" "is_road E (ObjRelation rel)"
    then consider "rel \<in> Cr" "is_road E (ObjRelation rel)" | "road_ways E (rel_Members rel) \<subseteq> Cw' \<union> task_ways E v" using new by blast
    then show "road_ways E (rel_Members rel) \<subseteq> Cw' \<union> (\<Union>t \<in> set ?ts'. task_ways E t)"
    proof cases
      case 1
      then have "road_ways E (rel_Members rel) \<subseteq> Cw \<union> (\<Union>t \<in> set ?ts. task_ways E t)" using I by (simp add: run_inv_def)
      then show ?thesis using ways sub(1) by blast
    next
      case 2
      then show ?thesis using U(2) by blast
    qed
  qed
  show ?thesis unfolding run_inv_def using P sum waits obj met road by simp
qed

lemma run_inv_init:
  assumes "btree_laws (g_btree E) ok" and "parsedWays f0 = New (g_btree E)" "parsedRelations f0 = New (g_btree E)"
    and "gg_regions f0 = []" "gg_countries f0 = []"
  shows "run_inv E ok f0 objs (parse_init f0 objs) {#} {} {}"
proof -
  have new: "index_ok (g_btree E) ok (New (g_btree E))"
    using assms(1) by (simp add: index_ok_def New_def btree_laws_def segs_def seg_wf_def merged_def)
  have "Get (g_btree E) (New (g_btree E)) k = None" for k
  proof -
    have "\<not> covers (segs (g_btree E) (New (g_btree E))) k v" for v
      using assms(1) by (simp add: covers_def segs_def New_def btree_laws_def)
    then show ?thesis using Get_covers [OF assms(1) new, of k] by (metis not_None_eq)
  qed
  then have "parsed E ok f0 (set objs) f0 {#} {} {}"
    using new assms by (simp add: parsed_def same_caches_def tally_def)
  moreover have "pending E f0 \<circ> Waiting = (\<lambda>obj. mset (the (node_points E f0 obj)))"
    by (simp add: fun_eq_iff pending_def)
  ultimately show ?thesis by (auto simp: run_inv_def parse_init_def task_ways_def)
qed

lemma met_waysI:
  "ObjWay way \<in> objs \<Longrightarrow> way \<in> met_ways E objs"
  "ObjRelation rel \<in> objs \<Longrightarrow> is_road E (ObjRelation rel) \<Longrightarrow> road_ways E (rel_Members rel) \<subseteq> met_ways E objs"
  by (auto simp: met_ways_def)

text \<open>Parsing an object other than a road, and parsing one member of a road.\<close>

definition member_size :: "('q, 'm, 'b) gen_env \<Rightarrow> ('q, 'm, 'b) geo_gen \<Rightarrow> member \<Rightarrow> nat" where
  "member_size E f m =
     (if m_Type m = TypeWay then (case GetWay (g_osm E) (m_Ref m) of Inl err \<Rightarrow> 0 | Inr way \<Rightarrow> length (the (way_points E f way))) else 0)"

definition object_size :: "('q, 'm, 'b) gen_env \<Rightarrow> ('q, 'm, 'b) geo_gen \<Rightarrow> osm_object \<Rightarrow> nat" where
  "object_size E f obj =
     (case obj of
        ObjNode node \<Rightarrow> length (the (parseNode E f node))
      | ObjWay way \<Rightarrow> length (the (way_points E f way))
      | ObjRelation rel \<Rightarrow> length (the (relation_points E f rel)))"

lemma parsed_object:
  assumes R: "parse_ready E ok f0 (set objs)" and P: "parsed E ok f0 (set objs) f pts Cw Cr" and o: "obj \<in> set objs" "\<not> is_road E obj"
    and res: "parseObject E obj f = Some (ps, f')"
  shows "\<exists>pts' Cw' Cr'. parsed E ok f0 (set objs) f' pts' Cw' Cr' \<and> length ps \<le> object_size E f0 obj
    \<and> mset ps + pts = mset (the (node_points E f0 obj)) + pts' \<and> Cw \<subseteq> Cw' \<and> Cr \<subseteq> Cr' \<and> taken Cw' Cr' obj
    \<and> (\<forall>rel \<in> Cr'. is_road E (ObjRelation rel) \<longrightarrow> rel \<in> Cr)"
proof (cases obj)
  case (ObjNode node)
  have "parseNode E f node = parseNode E f0 node" using P same_caches_points(1) by (metis parsed_def)
  then have "parseNode E f0 node = Some ps" "f' = f" using res ObjNode by (auto simp: parseObject_def)
  then show ?thesis using P ObjNode by (intro exI [of _ pts] exI [of _ Cw] exI [of _ Cr])
    (simp add: node_points_def taken_def object_size_def)
next
  case (ObjWay way)
  have "parsed E ok f0 (set objs) f' (pts + mset ps) (insert way Cw) Cr \<and> length ps \<le> length (the (way_points E f0 way))"
    using parsed_way [OF R P] met_waysI(1) o(1) res unfolding ObjWay by (fastforce simp: parseObject_def)
  then show ?thesis using ObjWay
    by (intro exI [of _ "pts + mset ps"] exI [of _ "insert way Cw"] exI [of _ Cr])
      (auto simp: node_points_def taken_def object_size_def add.commute)
next
  case (ObjRelation rel)
  then have nr: "relation_kind (g_tags E) (rel_Tags rel) \<noteq> RelRoad" "rel \<in> met_relations (set objs)"
    and res: "parseRelation E rel f = Some (ps, f')"
    using o res by (simp_all add: is_road_def met_relations_def parseObject_def)
  from parsed_relation [OF R P nr(2,1) res] show ?thesis using ObjRelation o(2)
    by (intro exI [of _ "pts + mset ps"] exI [of _ Cw] exI [of _ "insert rel Cr"])
      (auto simp: node_points_def taken_def object_size_def add.commute)
qed

lemma parseObject_total:
  assumes R: "parse_ready E ok f0 (set objs)" and P: "parsed E ok f0 (set objs) f pts Cw Cr" and T: "relations_ok E f0 (set objs)"
    and o: "obj \<in> set objs" "\<not> is_road E obj"
  shows "parseObject E obj f \<noteq> None"
proof (cases obj)
  case (ObjNode node)
  have "parseNode E f node = parseNode E f0 node" using P same_caches_points(1) by (metis parsed_def)
  moreover have "parseNode E f0 node \<noteq> None" using R unfolding parse_ready_def by blast
  ultimately show ?thesis using ObjNode by (simp add: parseObject_def)
next
  case (ObjWay way)
  have "parseWay E way f \<noteq> None" using parsed_way [OF R P] met_waysI(1) o(1) unfolding ObjWay by fastforce
  then show ?thesis using ObjWay by (simp add: parseObject_def)
next
  case (ObjRelation rel)
  have c: "same_caches f0 f" using P by (simp add: parsed_def)
  have k: "relation_kind (g_tags E) (rel_Tags rel) \<noteq> RelRoad" "rel \<in> met_relations (set objs)"
    using o ObjRelation by (simp_all add: is_road_def met_relations_def)
  have "relation_zone E f0 rel \<noteq> None" "relation_points E f0 rel \<noteq> None"
    using T k(2) unfolding relations_ok_def by blast+
  then have "parseRelation E rel f \<noteq> None" by (rule parseRelation_total [OF c k(1)])
  then show ?thesis using ObjRelation by (simp add: parseObject_def)
qed

lemma parsed_member:
  assumes R: "parse_ready E ok f0 (set objs)" and P: "parsed E ok f0 (set objs) f pts Cw Cr"
    and w: "road_ways E (m # ms) \<subseteq> met_ways E (set objs)"
  shows "\<exists>out' f' pts' Cw'. parse_member E m (out, f) = Some (out', f') \<and> parsed E ok f0 (set objs) f' pts' Cw' Cr
    \<and> mset out' + pts = mset out + pts' \<and> Cw \<subseteq> Cw' \<and> road_ways E (m # ms) \<subseteq> Cw' \<union> road_ways E ms
    \<and> length out' \<le> length out + member_size E f0 m"
proof (cases "m_Type m = TypeWay \<and> (\<exists>way. GetWay (g_osm E) (m_Ref m) = Inr way)")
  case True
  then obtain way where way: "m_Type m = TypeWay" "GetWay (g_osm E) (m_Ref m) = Inr way" by blast
  then have "way \<in> met_ways E (set objs)" using w by (auto simp: road_ways_def)
  then obtain ps f' where "parseWay E way f = Some (ps, f')" "parsed E ok f0 (set objs) f' (pts + mset ps) (insert way Cw) Cr"
    "length ps \<le> length (the (way_points E f0 way))"
    using parsed_way [OF R P] by blast
  then show ?thesis using way
    by (intro exI [of _ "out @ ps"] exI [of _ f'] exI [of _ "pts + mset ps"] exI [of _ "insert way Cw"])
      (auto simp: parse_member_def road_ways_def member_size_def ac_simps)
next
  case False
  then have "parse_member E m (out, f) = Some (out, f)" by (auto simp: parse_member_def split: sum.splits)
  then show ?thesis using P False
    by (intro exI [of _ out] exI [of _ f] exI [of _ pts] exI [of _ Cw]) (auto simp: road_ways_def)
qed

lemma run_inv_task:
  assumes "run_inv E ok f0 objs s pts Cw Cr" "i < length (ps_tasks s)"
  shows "ps_tasks s ! i = Waiting obj \<Longrightarrow> obj \<in> set objs" "task_ways E (ps_tasks s ! i) \<subseteq> met_ways E (set objs)"
  using assms nth_mem [OF assms(2)] unfolding run_inv_def by force+

lemma run_inv_object:
  assumes R: "parse_ready E ok f0 (set objs)" and I: "run_inv E ok f0 objs s pts Cw Cr"
    and i: "i < length (ps_tasks s)" "ps_tasks s ! i = Waiting obj" "\<not> is_road E obj" and res: "parseObject E obj (ps_gen s) = Some (ps, f)"
  shows "(\<exists>pts' Cw' Cr'. run_inv E ok f0 objs (s\<lparr>ps_gen := f, ps_tasks := (ps_tasks s)[i := Sending ps]\<rparr>) pts' Cw' Cr')
    \<and> length ps \<le> object_size E f0 obj"
proof -
  have P: "parsed E ok f0 (set objs) (ps_gen s) pts Cw Cr" using I by (simp add: run_inv_def)
  obtain pts' Cw' Cr' where o: "parsed E ok f0 (set objs) f pts' Cw' Cr'" "length ps \<le> object_size E f0 obj"
    "mset ps + pts = mset (the (node_points E f0 obj)) + pts'" "Cw \<subseteq> Cw'" "Cr \<subseteq> Cr'" "taken Cw' Cr' obj"
    "\<forall>rel \<in> Cr'. is_road E (ObjRelation rel) \<longrightarrow> rel \<in> Cr"
    using parsed_object [OF R P run_inv_task(1) [OF I i(1,2)] i(3) res] by blast
  have "mset (ps_chan s) + pending E f0 (Sending ps) + pts = mset (ps_chan s) + pending E f0 (ps_tasks s ! i) + pts'"
    using o(3) i(2) by (simp add: pending_def add.assoc)
  from run_inv_update [OF I i(1) o(1,4,5) this] o i(2)
  have "run_inv E ok f0 objs (s\<lparr>ps_gen := f, ps_tasks := (ps_tasks s)[i := Sending ps], ps_chan := ps_chan s\<rparr>) pts' Cw' Cr'"
    by (auto simp: task_ways_def)
  then show ?thesis using o(2) by auto
qed

lemma run_inv_road:
  assumes R: "parse_ready E ok f0 (set objs)" and I: "run_inv E ok f0 objs s pts Cw Cr"
    and i: "i < length (ps_tasks s)" "ps_tasks s ! i = Waiting (ObjRelation rel)" "is_road E (ObjRelation rel)"
    and c: "claim_relation E rel (ps_gen s) = (fresh, f)"
  shows "run_inv E ok f0 objs (s\<lparr>ps_gen := f, ps_tasks := (ps_tasks s)[i := if fresh then OnRoad (rel_Members rel) [] else Parsed]\<rparr>)
    pts Cw (insert rel Cr)"
proof -
  let ?v = "if fresh then OnRoad (rel_Members rel) [] else Parsed"
  have P: "parsed E ok f0 (set objs) (ps_gen s) pts Cw Cr" using I by (simp add: run_inv_def)
  have o: "ObjRelation rel \<in> set objs" using run_inv_task(1) [OF I i(1,2)] .
  then have r: "rel \<in> met_relations (set objs)" and k: "relation_kind (g_tags E) (rel_Tags rel) = RelRoad"
    using i(3) by (simp_all add: met_relations_def is_road_def)
  have fresh: "fresh \<longleftrightarrow> rel \<notin> Cr" by (rule claim_relation_parsed(1) [OF R P r c])
  have "mset (ps_chan s) + pending E f0 ?v + pts = mset (ps_chan s) + pending E f0 (ps_tasks s ! i) + pts"
    by (simp add: i(2) pending_def node_points_def)
  from run_inv_update [OF I i(1) parsed_road [OF R P r k c] _ _ this]
  have "run_inv E ok f0 objs (s\<lparr>ps_gen := f, ps_tasks := (ps_tasks s)[i := ?v], ps_chan := ps_chan s\<rparr>) pts Cw (insert rel Cr)"
    using met_waysI(2) [OF o i(3)] fresh i(2) by (auto simp: task_ways_def taken_def subset_insertI)
  then show ?thesis by simp
qed

lemma run_inv_member:
  assumes R: "parse_ready E ok f0 (set objs)" and I: "run_inv E ok f0 objs s pts Cw Cr"
    and i: "i < length (ps_tasks s)" "ps_tasks s ! i = OnRoad (m # ms) out"
  shows "\<exists>out' f pts' Cw'. parse_member E m (out, ps_gen s) = Some (out', f) \<and> length out' \<le> length out + member_size E f0 m
    \<and> run_inv E ok f0 objs (s\<lparr>ps_gen := f, ps_tasks := (ps_tasks s)[i := OnRoad ms out']\<rparr>) pts' Cw' Cr"
proof -
  have P: "parsed E ok f0 (set objs) (ps_gen s) pts Cw Cr" using I by (simp add: run_inv_def)
  have w: "road_ways E (m # ms) \<subseteq> met_ways E (set objs)" using run_inv_task(2) [OF I i(1)] i(2) by (simp add: task_ways_def)
  obtain out' f pts' Cw' where o: "parse_member E m (out, ps_gen s) = Some (out', f)" "parsed E ok f0 (set objs) f pts' Cw' Cr"
    "mset out' + pts = mset out + pts'" "Cw \<subseteq> Cw'" "road_ways E (m # ms) \<subseteq> Cw' \<union> road_ways E ms"
    "length out' \<le> length out + member_size E f0 m"
    using parsed_member [OF R P w] by blast
  have "mset (ps_chan s) + pending E f0 (OnRoad ms out') + pts = mset (ps_chan s) + pending E f0 (ps_tasks s ! i) + pts'"
    using o(3) i(2) by (simp add: pending_def add.assoc)
  from run_inv_update [OF I i(1) o(2,4) subset_refl this] have
    "run_inv E ok f0 objs (s\<lparr>ps_gen := f, ps_tasks := (ps_tasks s)[i := OnRoad ms out'], ps_chan := ps_chan s\<rparr>) pts' Cw' Cr"
    using o(5) i(2) w by (auto simp: task_ways_def road_ways_def)
  then show ?thesis using o(1,6) by auto
qed

text \<open>The steps that only move points.\<close>

lemma run_inv_move:
  assumes I: "run_inv E ok f0 objs s pts Cw Cr" and i: "i < length (ps_tasks s)"
    and t: "\<forall>obj. ps_tasks s ! i \<noteq> Waiting obj" "task_ways E (ps_tasks s ! i) = {}" and v: "\<forall>obj. v \<noteq> Waiting obj" "task_ways E v = {}"
    and count: "mset chan' + pending E f0 v = mset (ps_chan s) + pending E f0 (ps_tasks s ! i)"
  shows "run_inv E ok f0 objs (s\<lparr>ps_tasks := (ps_tasks s)[i := v], ps_chan := chan'\<rparr>) pts Cw Cr"
proof -
  have P: "parsed E ok f0 (set objs) (ps_gen s) pts Cw Cr" using I by (simp add: run_inv_def)
  have "mset chan' + pending E f0 v + pts = mset (ps_chan s) + pending E f0 (ps_tasks s ! i) + pts" by (simp only: count)
  from run_inv_update [OF I i P subset_refl subset_refl this v(1)] t v(2)
  have "run_inv E ok f0 objs (s\<lparr>ps_gen := ps_gen s, ps_tasks := (ps_tasks s)[i := v], ps_chan := chan'\<rparr>) pts Cw Cr" by auto
  then show ?thesis by simp
qed

lemma run_inv_step:
  assumes R: "parse_ready E ok f0 (set objs)" and I: "run_inv E ok f0 objs s pts Cw Cr" and step: "parse_step E s s'"
  shows "\<exists>pts' Cw' Cr'. run_inv E ok f0 objs s' pts' Cw' Cr'"
  using step
proof cases
  case (object i obj ps f)
  show ?thesis unfolding object(1) using run_inv_object [OF R I object(2-5)] by blast
next
  case (road i rel fresh f)
  show ?thesis unfolding road(1) using run_inv_road [OF R I road(2-5)] by blast
next
  case (member i m ms out out' f)
  then show ?thesis using run_inv_member [OF R I member(2,3)] by auto
next
  case (collected i out)
  have "run_inv E ok f0 objs (s\<lparr>ps_tasks := (ps_tasks s)[i := Sending out], ps_chan := ps_chan s\<rparr>) pts Cw Cr"
    by (rule run_inv_move [OF I collected(2)]) (simp_all add: collected(3) task_ways_def road_ways_def pending_def)
  then have "run_inv E ok f0 objs s' pts Cw Cr" unfolding collected(1) by simp
  then show ?thesis by blast
next
  case (send i p ps)
  have "run_inv E ok f0 objs s' pts Cw Cr" unfolding send(1)
    by (rule run_inv_move [OF I send(2)]) (simp_all add: send(3) task_ways_def pending_def)
  then show ?thesis by blast
next
  case (sent i)
  have "run_inv E ok f0 objs (s\<lparr>ps_tasks := (ps_tasks s)[i := Parsed], ps_chan := ps_chan s\<rparr>) pts Cw Cr"
    by (rule run_inv_move [OF I sent(2)]) (simp_all add: sent(3) task_ways_def pending_def)
  then have "run_inv E ok f0 objs s' pts Cw Cr" unfolding sent(1) by simp
  then show ?thesis by blast
next
  case (receive p ps)
  have "run_inv E ok f0 objs s' pts Cw Cr" using I unfolding receive(1) run_inv_def by (simp add: receive(2))
  then show ?thesis by blast
qed

definition parse_inv :: "('q, 'm, 'b) gen_env \<Rightarrow> ('b \<Rightarrow> bool) \<Rightarrow> ('q, 'm, 'b) geo_gen \<Rightarrow> osm_object list \<Rightarrow> ('q, 'm, 'b) parse_state \<Rightarrow> bool" where
  "parse_inv E ok f0 objs s \<longleftrightarrow> parse_ready E ok f0 (set objs) \<and> (\<exists>pts Cw Cr. run_inv E ok f0 objs s pts Cw Cr)"

lemma parse_inv_step: "parse_inv E ok f0 objs s \<Longrightarrow> parse_step E s s' \<Longrightarrow> parse_inv E ok f0 objs s'"
  unfolding parse_inv_def using run_inv_step by blast

subsection \<open>The end of a run\<close>

text \<open>A goroutine that has not ended can make a step as long as the channel has room.\<close>

lemma task_moves:
  assumes R: "parse_ready E ok f0 (set objs)" and I: "run_inv E ok f0 objs s pts Cw Cr" and T: "relations_ok E f0 (set objs)"
    and i: "i < length (ps_tasks s)" "ps_tasks s ! i \<noteq> Parsed" and room: "length (ps_chan s) < parsedPointsSize"
  shows "\<exists>s'. parse_step E s s' \<and> ps_tasks s' ! i \<noteq> ps_tasks s ! i"
proof (cases "ps_tasks s ! i")
  case (Waiting obj)
  show ?thesis
  proof (cases "is_road E obj")
    case False
    have "parsed E ok f0 (set objs) (ps_gen s) pts Cw Cr" using I by (simp add: run_inv_def)
    then have "parseObject E obj (ps_gen s) \<noteq> None" using parseObject_total [OF R _ T run_inv_task(1) [OF I i(1) Waiting] False] by blast
    then obtain ps f where r: "parseObject E obj (ps_gen s) = Some (ps, f)" by fastforce
    show ?thesis by (rule exI, rule conjI, rule parse_step.object [OF i(1) Waiting False r]) (simp add: i(1) Waiting)
  next
    case True
    then obtain rel where rel: "obj = ObjRelation rel" by (auto simp: is_road_def split: osm_object.splits)
    obtain fresh f where r: "claim_relation E rel (ps_gen s) = (fresh, f)" by fastforce
    show ?thesis
      by (rule exI, rule conjI, rule parse_step.road [OF i(1) Waiting [unfolded rel] True [unfolded rel] r]) (simp add: i(1) Waiting)
  qed
next
  case (OnRoad ms out)
  show ?thesis
  proof (cases ms)
    case Nil
    with OnRoad have t: "ps_tasks s ! i = OnRoad [] out" by simp
    show ?thesis by (rule exI, rule conjI, rule parse_step.collected [OF i(1) t]) (simp add: i(1) t)
  next
    case (Cons m ms')
    with OnRoad have t: "ps_tasks s ! i = OnRoad (m # ms') out" by simp
    obtain out' f where r: "parse_member E m (out, ps_gen s) = Some (out', f)" using run_inv_member [OF R I i(1) t] by blast
    show ?thesis by (rule exI, rule conjI, rule parse_step.member [OF i(1) t r]) (simp add: i(1) t)
  qed
next
  case (Sending ps)
  show ?thesis
  proof (cases ps)
    case Nil
    with Sending have t: "ps_tasks s ! i = Sending []" by simp
    show ?thesis by (rule exI, rule conjI, rule parse_step.sent [OF i(1) t]) (simp add: i(1) t)
  next
    case (Cons p ps')
    with Sending have t: "ps_tasks s ! i = Sending (p # ps')" by simp
    show ?thesis by (rule exI, rule conjI, rule parse_step.send [OF i(1) t room]) (simp add: i(1) t)
  qed
qed (use i in simp)

lemma parse_progress:
  assumes R: "parse_ready E ok f0 (set objs)" and I: "run_inv E ok f0 objs s pts Cw Cr" and T: "relations_ok E f0 (set objs)"
    and "\<not> parse_done s"
  shows "\<exists>s'. parse_step E s s'"
proof (cases "ps_chan s")
  case Nil
  then obtain i where "i < length (ps_tasks s)" "ps_tasks s ! i \<noteq> Parsed"
    using assms(4) by (auto simp: parse_done_def in_set_conv_nth)
  from task_moves [OF R I T this] show ?thesis using Nil by (auto simp: parsedPointsSize_def)
next
  case (Cons p ps)
  from parse_step.receive [OF Cons] show ?thesis by blast
qed

text \<open>Every step makes the cost smaller: the points that are still to be parsed, sent and received, and the goroutines' other steps.\<close>

definition road_cost :: "('q, 'm, 'b) gen_env \<Rightarrow> ('q, 'm, 'b) geo_gen \<Rightarrow> member list \<Rightarrow> nat" where
  "road_cost E f ms = sum_list (map (\<lambda>m. 1 + 2 * member_size E f m) ms)"

definition task_cost :: "('q, 'm, 'b) gen_env \<Rightarrow> ('q, 'm, 'b) geo_gen \<Rightarrow> task \<Rightarrow> nat" where
  "task_cost E f t =
     (case t of
        Waiting obj \<Rightarrow> 3 + 2 * object_size E f obj + (case obj of ObjRelation rel \<Rightarrow> road_cost E f (rel_Members rel) | _ \<Rightarrow> 0)
      | OnRoad ms out \<Rightarrow> 2 + road_cost E f ms + 2 * length out
      | Sending ps \<Rightarrow> 1 + 2 * length ps
      | Parsed \<Rightarrow> 0)"

definition parse_cost :: "('q, 'm, 'b) gen_env \<Rightarrow> ('q, 'm, 'b) geo_gen \<Rightarrow> ('q, 'm, 'b) parse_state \<Rightarrow> nat" where
  "parse_cost E f s = sum_list (map (task_cost E f) (ps_tasks s)) + length (ps_chan s)"

lemma parse_step_cost:
  assumes "parse_inv E ok f0 objs s" "parse_step E s s'"
  shows "parse_cost E f0 s' < parse_cost E f0 s"
proof -
  obtain pts Cw Cr where R: "parse_ready E ok f0 (set objs)" and I: "run_inv E ok f0 objs s pts Cw Cr"
    using assms(1) unfolding parse_inv_def by blast
  have less: "sum_list (map (task_cost E f0) ((ps_tasks s)[i := v])) + n < sum_list (map (task_cost E f0) (ps_tasks s)) + m"
    if "i < length (ps_tasks s)" "task_cost E f0 v + n < task_cost E f0 (ps_tasks s ! i) + m" for i v n m
    using sum_list_map_update [OF that(1), of "task_cost E f0" v] that(2) by linarith
  show ?thesis
    using assms(2)
  proof cases
    case (object i obj ps f)
    have "length ps \<le> object_size E f0 obj" using run_inv_object [OF R I object(2-5)] by blast
    then show ?thesis unfolding object(1) parse_cost_def using less [OF object(2), of "Sending ps" 0 0] by (simp add: object(3) task_cost_def)
  next
    case (road i rel fresh f)
    show ?thesis unfolding road(1) parse_cost_def
      using less [OF road(2), of "if fresh then OnRoad (rel_Members rel) [] else Parsed" 0 0] by (simp add: road(3) task_cost_def)
  next
    case (member i m ms out out' f)
    have "length out' \<le> length out + member_size E f0 m" using run_inv_member [OF R I member(2,3)] member(4) by auto
    then show ?thesis unfolding member(1) parse_cost_def
      using less [OF member(2), of "OnRoad ms out'" 0 0] by (simp add: member(3) task_cost_def road_cost_def)
  next
    case (collected i out)
    show ?thesis unfolding collected(1) parse_cost_def using less [OF collected(2), of "Sending out" 0 0] by (simp add: collected(3) task_cost_def road_cost_def)
  next
    case (send i p ps)
    show ?thesis unfolding send(1) parse_cost_def using less [OF send(2), of "Sending ps" "Suc (length (ps_chan s))" "length (ps_chan s)"] by (simp add: send(3) task_cost_def)
  next
    case (sent i)
    show ?thesis unfolding sent(1) parse_cost_def using less [OF sent(2), of Parsed 0 0] by (simp add: sent(3) task_cost_def)
  next
    case (receive p ps)
    then show ?thesis by (simp add: parse_cost_def)
  qed
qed

lemma run_inv_done:
  assumes I: "run_inv E ok f0 objs s pts Cw Cr" and d: "parse_done s"
  shows "mset (ps_sent s) = all_points E f0 objs"
    and "mset (gg_regions (ps_gen s)) = tally (zones_of_kind RelRegion E f0) (met_relations (set objs))"
    and "mset (gg_countries (ps_gen s)) = tally (zones_of_kind RelCountry E f0) (met_relations (set objs))"
proof -
  have P: "parsed E ok f0 (set objs) (ps_gen s) pts Cw Cr" using I by (simp add: run_inv_def)
  have parsed: "\<forall>t \<in> set (ps_tasks s). t = Parsed" and received: "ps_chan s = []" using d by (simp_all add: parse_done_def)
  then have taken: "\<forall>obj \<in> set objs. taken Cw Cr obj" using I unfolding run_inv_def by blast
  have none: "(\<Union>t \<in> set (ps_tasks s). task_ways E t) = {}" using parsed by (auto simp: task_ways_def)
  have cr: "Cr = met_relations (set objs)" using taken P by (force simp: met_relations_def parsed_def taken_def)
  have "met_ways E (set objs) \<subseteq> Cw"
  proof
    fix way assume "way \<in> met_ways E (set objs)"
    then consider "ObjWay way \<in> set objs"
      | rel where "ObjRelation rel \<in> set objs" "is_road E (ObjRelation rel)" "way \<in> road_ways E (rel_Members rel)"
      by (auto simp: met_ways_def)
    then show "way \<in> Cw"
    proof cases
      case 1
      then show ?thesis using taken by (auto simp: taken_def)
    next
      case 2
      then have "rel \<in> Cr" by (simp add: cr met_relations_def)
      then show ?thesis using I 2(2,3) none unfolding run_inv_def by blast
    qed
  qed
  then have cw: "Cw = met_ways E (set objs)" using P by (auto simp: parsed_def)
  have "sum_list (map (pending E f0) ts) = {#}" if "\<forall>t \<in> set ts. t = Parsed" for ts
    using that by (induction ts) (simp_all add: pending_def)
  then have "sum_list (map (pending E f0) (ps_tasks s)) = {#}" using parsed by blast
  then show "mset (ps_sent s) = all_points E f0 objs"
    using I P by (simp add: run_inv_def received parsed_def all_points_def cr cw add.assoc)
  show "mset (gg_regions (ps_gen s)) = tally (zones_of_kind RelRegion E f0) (met_relations (set objs))"
    "mset (gg_countries (ps_gen s)) = tally (zones_of_kind RelCountry E f0) (met_relations (set objs))"
    using P by (simp_all add: parsed_def cr)
qed

interpretation parse_keep: preserved "parse_step E" "parse_inv E ok f0 objs" for E ok f0 objs
  by unfold_locales (rule parse_inv_step)

interpretation parse_run: process "parse_step E" "\<lambda>s. relations_ok E f0 (set objs) \<and> parse_inv E ok f0 objs s" parse_done "parse_cost E f0"
  for E ok f0 objs
proof unfold_locales
  show "relations_ok E f0 (set objs) \<and> parse_inv E ok f0 objs s'"
    if "relations_ok E f0 (set objs) \<and> parse_inv E ok f0 objs s" "parse_step E s s'" for s s'
    using that parse_inv_step by blast
  show "\<exists>s'. parse_step E s s'" if "relations_ok E f0 (set objs) \<and> parse_inv E ok f0 objs s" "\<not> parse_done s" for s
    using that parse_progress unfolding parse_inv_def by blast
  show "parse_cost E f0 s' < parse_cost E f0 s"
    if "relations_ok E f0 (set objs) \<and> parse_inv E ok f0 objs s" "parse_step E s s'" for s s'
    using that parse_step_cost by blast
qed

text \<open>The channel never holds more than it has places.\<close>

interpretation parse_room: preserved "parse_step E" "\<lambda>s. length (ps_chan s) \<le> parsedPointsSize" for E
  by unfold_locales (erule parse_step.cases; simp)

subsection \<open>From the caches to the run\<close>

text \<open>What the generator relies on in the code it calls.\<close>

definition env_laws :: "('q, 'm, 'b) gen_env \<Rightarrow> ('q \<Rightarrow> ((orb_point \<times> orb_point) \<times> u64) set) \<Rightarrow> ('b \<Rightarrow> bool) \<Rightarrow> bool" where
  "env_laws E rects ok \<longleftrightarrow> geometry_laws (g_geometry E) \<and> str_map_laws (g_map E) \<and> qtree_laws (g_qtree E) rects \<and> btree_laws (g_btree E) ok"

lemma cacheRel_keeps:
  "cacheRel E rel f = Some f' \<Longrightarrow> parsedWays f' = parsedWays f \<and> parsedRelations f' = parsedRelations f
    \<and> gg_regions f' = gg_regions f \<and> gg_countries f' = gg_countries f"
  by (auto simp: cacheRel_def cacheRelPlace_def cacheRelRegion_def cacheLocalization_def Let_def
      split: rel_cache.splits if_splits sum.splits bind_splits)

lemma fillRelCache_keeps:
  "fillRelCache E rels f = Some (e, f') \<Longrightarrow> parsedWays f' = parsedWays f \<and> parsedRelations f' = parsedRelations f
    \<and> gg_regions f' = gg_regions f \<and> gg_countries f' = gg_countries f"
proof (induction E rels f rule: fillRelCache.induct)
  case (3 E rel rels f)
  then obtain f1 where "cacheRel E rel f = Some f1" "fillRelCache E rels f1 = Some (e, f')" by (auto split: bind_splits)
  then show ?case using "3.IH" cacheRel_keeps by metis
qed simp_all

lemma generator_ready:
  assumes L: "env_laws E rects ok" and n: "length rels < 2 ^ 63" and ids: "ids_ok E (set objs)"
    and fill: "fillRelCache E (map Inr rels) (NewGeoGen E cfg) = Some (err, f0)"
  shows "parse_inv E ok f0 objs (parse_init f0 objs)"
    and "\<forall>rel. ObjRelation rel \<in> set objs \<longrightarrow> orientable E rel \<Longrightarrow> relations_ok E f0 (set objs)"
proof -
  have laws: "geometry_laws (g_geometry E)" "str_map_laws (g_map E)" "qtree_laws (g_qtree E) rects" "btree_laws (g_btree E) ok"
    using L by (simp_all add: env_laws_def)
  have c: "caches_of E cfg rels f0"
    using fillRelCache_caches [OF laws(2) caches_of_new [OF laws(2), of cfg] fill] by simp
  from ways_total [OF laws(3) n this] have "parse_ready E ok f0 (set objs)"
    using laws(4) ids unfolding parse_ready_def by blast
  moreover have "run_inv E ok f0 objs (parse_init f0 objs) {#} {} {}"
    by (rule run_inv_init [OF laws(4)]) (use fillRelCache_keeps [OF fill] in \<open>simp_all add: NewGeoGen_def\<close>)
  ultimately show "parse_inv E ok f0 objs (parse_init f0 objs)" unfolding parse_inv_def by blast
  show "relations_ok E f0 (set objs)" if "\<forall>rel. ObjRelation rel \<in> set objs \<longrightarrow> orientable E rel"
    using that relations_total [OF laws(1,3) n c] unfolding relations_ok_def met_relations_def by blast
qed

lemma parse_result:
  assumes "env_laws E rects ok" and "length rels < 2 ^ 63" and "ids_ok E (set objs)"
    and "fillRelCache E (map Inr rels) (NewGeoGen E cfg) = Some (err, f0)"
    and "(parse_step E)\<^sup>*\<^sup>* (parse_init f0 objs) s" and "parse_done s"
  shows "mset (ps_sent s) = all_points E f0 objs
    \<and> mset (gg_regions (ps_gen s)) = tally (zones_of_kind RelRegion E f0) (met_relations (set objs))
    \<and> mset (gg_countries (ps_gen s)) = tally (zones_of_kind RelCountry E f0) (met_relations (set objs))"
proof -
  have "parse_inv E ok f0 objs s" by (rule parse_keep.inv_steps [OF assms(5) generator_ready(1) [OF assms(1-4)]])
  then obtain pts Cw Cr where "run_inv E ok f0 objs s pts Cw Cr" unfolding parse_inv_def by blast
  from run_inv_done [OF this assms(6)] show ?thesis by blast
qed

subsection \<open>Properties\<close>

text \<open>
  C7. However the goroutines interleave, the same database gives the same points and zones: when
  all of them have ended, the points that the saver received are those of every node, of every way
  met as an object or as a member of a road, and of every relation, each way and each
  relation counted once, and the zones are those of the region and country relations.
\<close>

theorem parse_interleavings:
  assumes "env_laws E rects ok" and "length rels < 2 ^ 63" and "ids_ok E (set objs)"
    and "fillRelCache E (map Inr rels) (NewGeoGen E cfg) = Some (err, f0)"
    and "(parse_step E)\<^sup>*\<^sup>* (parse_init f0 objs) s" and "parse_done s"
  shows "mset (ps_sent s) = all_points E f0 objs
    \<and> mset (gg_regions (ps_gen s)) = tally (zones_of_kind RelRegion E f0) (met_relations (set objs))
    \<and> mset (gg_countries (ps_gen s)) = tally (zones_of_kind RelCountry E f0) (met_relations (set objs))"
  by (rule parse_result [OF assms])

text \<open>
  C35. While the saver receives, parsing always ends and, when every relation can be assembled, does not panic. In every
  state that is reached the channel holds at most ten points; every goroutine that has not ended can
  make a step unless the channel is full; the saver can receive when it is not empty; every step makes a natural number
  smaller; and a state in which all goroutines have ended and all points are received can be reached.
\<close>

theorem parse_ends:
  assumes "env_laws E rects ok" and "length rels < 2 ^ 63" and "ids_ok E (set objs)"
    and "fillRelCache E (map Inr rels) (NewGeoGen E cfg) = Some (err, f0)"
    and "\<forall>rel. ObjRelation rel \<in> set objs \<longrightarrow> orientable E rel"
    and "(parse_step E)\<^sup>*\<^sup>* (parse_init f0 objs) s"
  shows "length (ps_chan s) \<le> parsedPointsSize
    \<and> (\<forall>i < length (ps_tasks s). ps_tasks s ! i \<noteq> Parsed \<and> length (ps_chan s) < parsedPointsSize
         \<longrightarrow> (\<exists>s'. parse_step E s s' \<and> ps_tasks s' ! i \<noteq> ps_tasks s ! i))
    \<and> (\<forall>p ps. ps_chan s = p # ps \<longrightarrow> parse_step E s (s\<lparr>ps_chan := ps, ps_sent := ps_sent s @ [p]\<rparr>))
    \<and> (parse_done s \<or> (\<exists>s'. parse_step E s s')) \<and> (\<forall>s'. parse_step E s s' \<longrightarrow> parse_cost E f0 s' < parse_cost E f0 s)
    \<and> (\<exists>s'. (parse_step E)\<^sup>*\<^sup>* s s' \<and> parse_done s')"
proof -
  note G = generator_ready [OF assms(1-4)]
  have start: "relations_ok E f0 (set objs) \<and> parse_inv E ok f0 objs (parse_init f0 objs)" using G assms(5) by blast
  have T: "relations_ok E f0 (set objs)" using start by blast
  have "parse_inv E ok f0 objs s" by (rule parse_keep.inv_steps [OF assms(6) G(1)])
  then obtain pts Cw Cr where R: "parse_ready E ok f0 (set objs)" and I: "run_inv E ok f0 objs s pts Cw Cr" unfolding parse_inv_def by blast
  have "length (ps_chan (parse_init f0 objs)) \<le> parsedPointsSize" by (simp add: parse_init_def)
  from parse_room.inv_steps [OF assms(6) this] task_moves [OF R I T] parse_step.receive parse_run.runs [OF start assms(6)]
  show ?thesis by blast
qed

subsection \<open>Witnesses\<close>

text \<open>A building that the database lists twice.\<close>

definition sample_building :: osm_way where
  "sample_building = (sample_way 7)\<lparr>w_Tags := map (\<lambda>(k, v). (str k, str v)) [(''building'', ''yes''), (''addr:housenumber'', ''1''), (''addr:street'', ''S'')]\<rparr>"

definition sample_objects :: "osm_object list" where
  "sample_objects = [ObjWay sample_building, ObjWay sample_building]"

lemma sample_met: "met_ways sample_gen (set sample_objects) = {sample_building}" "met_relations (set sample_objects) = {}"
  by (auto simp: met_ways_def met_relations_def sample_objects_def is_road_def)

lemma sample_ids: "ids_ok sample_gen (set sample_objects)"
  by (simp add: ids_ok_def sample_met key_fits_def is_i64_def sample_building_def sample_way_def)

lemma sample_env_laws: "env_laws sample_gen set (sorted_wrt (\<lambda>a b. Lo a < Lo b))"
  using sample_gen_laws list_btree_laws by (simp add: env_laws_def sample_gen_def)

lemma sample_filled:
  obtains f where "fillRelCache sample_gen (map Inr [sample_region]) (NewGeoGen sample_gen sample_config) = Some (None, f)"
    "caches_of sample_gen sample_config [sample_region] f"
  by (rule fills_caches [OF sample_gen_laws(1,2) sample_orientable])

lemma sample_all_points:
  assumes "caches_of sample_gen sample_config [sample_region] f"
  shows "size (all_points sample_gen f sample_objects) = 1"
proof -
  have b: "isBuilding (g_tags sample_gen) (w_Tags sample_building)"
    by (simp add: isBuilding_def sample_gen_def sample_osm_tags_def sample_building_def str_def)
  have "makeLineString (g_osm sample_gen) (w_Nodes sample_building) = map (\<lambda>(x, y). sample_corner x y) [(1, 1), (2, 1), (2, 2), (1, 1)]"
    using sample_nonzero by (simp add: sample_gen_def sample_building_def sample_way_def node_point_def sample_corner_def)
  then have "calcWayCenter sample_gen sample_building = (f64_of_int 1, f64_of_int 1)"
    by (simp add: calcWayCenter_def Let_def) (simp add: sample_gen_def sample_corner_def)
  moreover have "building_point sample_gen f tags p \<noteq> None" for tags p
    by (rule names_total(1) [OF sample_gen_laws(3) _ assms]) simp
  moreover from this obtain q where "building_point sample_gen f (w_Tags sample_building) (f64_of_int 1, f64_of_int 1) = Some q" by blast
  ultimately have "size (mset (the (way_points sample_gen f sample_building))) = 1"
    using b sample_nonzero by (simp add: way_points_def parseWayBuilding_def)
  then show ?thesis by (simp add: all_points_def sample_met tally_def node_points_def) (simp add: sample_objects_def)
qed

lemma sample_objects_orientable: "\<forall>rel. ObjRelation rel \<in> set sample_objects \<longrightarrow> orientable sample_gen rel"
  by (simp add: sample_objects_def)

lemma parse_ends_witness:
  "\<exists>f s. fillRelCache sample_gen [Inr sample_region] (NewGeoGen sample_gen sample_config) = Some (None, f)
    \<and> (parse_step sample_gen)\<^sup>*\<^sup>* (parse_init f sample_objects) s \<and> parse_done s"
proof (rule sample_filled)
  fix f assume f: "fillRelCache sample_gen (map Inr [sample_region]) (NewGeoGen sample_gen sample_config) = Some (None, f)"
  then show ?thesis using parse_ends [OF sample_env_laws _ sample_ids f sample_objects_orientable rtranclp.rtrancl_refl] by auto
qed

lemma parse_interleavings_witness:
  "\<exists>f s. (parse_step sample_gen)\<^sup>*\<^sup>* (parse_init f sample_objects) s \<and> parse_done s \<and> length (ps_sent s) = 1"
proof (rule sample_filled)
  fix f assume f: "fillRelCache sample_gen (map Inr [sample_region]) (NewGeoGen sample_gen sample_config) = Some (None, f)"
    and c: "caches_of sample_gen sample_config [sample_region] f"
  have "\<exists>s. (parse_step sample_gen)\<^sup>*\<^sup>* (parse_init f sample_objects) s \<and> parse_done s"
    using parse_run.ends [OF conjI [OF generator_ready(2,1) [OF sample_env_laws _ sample_ids f]]] sample_objects_orientable by simp
  then obtain s where s: "(parse_step sample_gen)\<^sup>*\<^sup>* (parse_init f sample_objects) s" "parse_done s" by blast
  have "mset (ps_sent s) = all_points sample_gen f sample_objects"
    using parse_interleavings [OF sample_env_laws _ sample_ids f s] by simp
  then have "length (ps_sent s) = 1" using sample_all_points [OF c] by (metis size_mset)
  then show ?thesis using s by blast
qed

end
