(* ===== verification/Generate.thy ===== *)
theory Generate
  imports ParseRun CacheSaver
begin

section \<open>Generating a cache\<close>

text \<open>
  \<open>ParseOSMData\<close> of \<^verbatim>\<open>geoparser/geogen.go\<close> and \<open>saveWorker\<close> of \<^verbatim>\<open>geoparser/save.go\<close>: the
  caches are filled, the database is parsed, and the points and zones are saved in the format
  of each output. The points are those that the saver received from the channel; every output's saver gets a
  copy of them, which \<open>Tee\<close> shows to be complete.
\<close>

definition save_point :: "geo_point \<Rightarrow> cache_point" where
  "save_point p = \<lparr>pX = fst (gp_Point p), pY = snd (gp_Point p),
     pData = \<lparr>ci_Name = gp_Name p, ci_Street = gp_Street p, ci_HouseNumber = gp_HouseNumber p, ci_City = gp_City p,
       ci_Region = gp_Region p, ci_Weight = gp_Weight p\<rparr>\<rparr>"

definition save_zone :: "byte \<Rightarrow> geo_zone \<Rightarrow> zone" where
  "save_zone kind z = \<lparr>z_Type = kind, z_Name = gz_Name z, z_Bounds = gz_Bounds z, z_Polygon = gz_Polygon z\<rparr>"

definition save_zones :: "geo_zone list \<Rightarrow> geo_zone list \<Rightarrow> zone list" where
  "save_zones regions countries = map (save_zone ZoneRegion) regions @ map (save_zone ZoneCountry) countries"

definition save_meta :: "config \<Rightarrow> 't \<Rightarrow> 't metadata" where
  "save_meta cfg now = \<lparr>md_Version = cfg_Version cfg, md_Locale = PreferredLocalization cfg, md_DateCreated = now\<rparr>"

text \<open>An output has a format and a writer in a state.\<close>

record 'w parse_output =
  po_Format :: gostring
  po_Writer :: "'w writer"
  po_State :: 'w

text \<open>What the savers share: the formats' libraries and the order in which a map is visited.\<close>

record 't save_env =
  sv_lib :: mathlib
  sv_loaders :: "'t loaders"
  sv_vis1 :: "(gostring \<times> int) list \<Rightarrow> (gostring \<times> int) list"
  sv_vis2 :: "(gostring \<times> u32) list \<Rightarrow> (gostring \<times> u32) list"

definition save_output :: "'t save_env \<Rightarrow> cache_point list \<Rightarrow> zone list \<Rightarrow> 't metadata \<Rightarrow> 'w parse_output
    \<Rightarrow> (error option \<times> 'w) option result" where
  "save_output V pts zones meta o' =
     (if po_Format o' = str ''v1'' then
        Inr (SaveV1 (v1_pb (sv_loaders V)) (cal (sv_loaders V)) (sv_vis1 V) pts zones meta (po_Writer o') (po_State o'))
      else if po_Format o' = str ''v2'' then
        Inr (SaveV2 (sv_lib V) (v2_pb (sv_loaders V)) (cal (sv_loaders V)) (sv_vis2 V) pts zones meta (po_Writer o') (po_State o'))
      else Inl (Err ''unsupported format''))"

text \<open>The loop over the outputs returns at the first unknown format; otherwise every saver has its result.\<close>

fun save_outputs :: "'t save_env \<Rightarrow> cache_point list \<Rightarrow> zone list \<Rightarrow> 't metadata \<Rightarrow> 'w parse_output list
    \<Rightarrow> (error option \<times> 'w) option list result" where
  "save_outputs V pts zones meta [] = Inr []"
| "save_outputs V pts zones meta (o' # os) =
     (case save_output V pts zones meta o' of
        Inl err \<Rightarrow> Inl err
      | Inr r \<Rightarrow>
          (case save_outputs V pts zones meta os of
             Inl err \<Rightarrow> Inl err
           | Inr rs \<Rightarrow> Inr (r # rs)))"

definition saveWorker :: "'t save_env \<Rightarrow> config \<Rightarrow> 't \<Rightarrow> geo_point list \<Rightarrow> geo_zone list \<Rightarrow> geo_zone list \<Rightarrow> 'w parse_output list
    \<Rightarrow> (error option \<times> 'w) option list result" where
  "saveWorker V cfg now pts regions countries outputs =
     save_outputs V (map save_point pts) (save_zones regions countries) (save_meta cfg now) outputs"

text \<open>A run of the generator without an error of the database, from the caches to the last object.\<close>

definition generates :: "('q, 'm, 'b) gen_env \<Rightarrow> config \<Rightarrow> osm_relation list \<Rightarrow> osm_object list \<Rightarrow> ('q, 'm, 'b) geo_gen
    \<Rightarrow> ('q, 'm, 'b) parse_state \<Rightarrow> bool" where
  "generates E cfg rels objs f0 s \<longleftrightarrow>
     fillRelCache E (map Inr rels) (NewGeoGen E cfg) = Some (None, f0)
     \<and> (parse_step E)\<^sup>*\<^sup>* (parse_init f0 objs) s \<and> parse_done s"

lemma save_outputs_nth:
  "save_outputs V pts zones meta outputs = Inr results \<Longrightarrow> length results = length outputs
    \<and> (\<forall>i < length outputs. save_output V pts zones meta (outputs ! i) = Inr (results ! i))"
proof (induction outputs arbitrary: results)
  case (Cons o' os)
  then show ?case by (auto simp: nth_Cons split: sum.splits nat.splits)
qed simp

lemma worker_saves_v1:
  assumes "saveWorker V cfg now pts regions countries outputs = Inr results"
    and "i < length outputs" and "po_Format (outputs ! i) = str ''v1''" and "results ! i = Some (None, w')"
  shows "SaveV1 (v1_pb (sv_loaders V)) (cal (sv_loaders V)) (sv_vis1 V) (map save_point pts) (save_zones regions countries) (save_meta cfg now)
      (po_Writer (outputs ! i)) (po_State (outputs ! i)) = Some (None, w')"
proof -
  have "save_output V (map save_point pts) (save_zones regions countries) (save_meta cfg now) (outputs ! i) = Inr (results ! i)"
    using save_outputs_nth [OF assms(1) [unfolded saveWorker_def]] assms(2) by blast
  then show ?thesis using assms(3,4) by (simp add: save_output_def)
qed

lemma generates_contents:
  assumes "env_laws E rects ok" and "length rels < 2 ^ 63" and "ids_ok E (set objs)" and "generates E cfg rels objs f0 s"
  shows "mset (map save_point (ps_sent s)) = image_mset save_point (all_points E f0 objs)"
    and "mset (save_zones (gg_regions (ps_gen s)) (gg_countries (ps_gen s)))
      = image_mset (save_zone ZoneRegion) (tally (zones_of_kind RelRegion E f0) (met_relations (set objs)))
        + image_mset (save_zone ZoneCountry) (tally (zones_of_kind RelCountry E f0) (met_relations (set objs)))"
proof -
  have run: "fillRelCache E (map Inr rels) (NewGeoGen E cfg) = Some (None, f0)" "(parse_step E)\<^sup>*\<^sup>* (parse_init f0 objs) s" "parse_done s"
    using assms(4) by (simp_all add: generates_def)
  from parse_result [OF assms(1-3) run]
  show "mset (map save_point (ps_sent s)) = image_mset save_point (all_points E f0 objs)"
    and "mset (save_zones (gg_regions (ps_gen s)) (gg_countries (ps_gen s)))
      = image_mset (save_zone ZoneRegion) (tally (zones_of_kind RelRegion E f0) (met_relations (set objs)))
        + image_mset (save_zone ZoneCountry) (tally (zones_of_kind RelCountry E f0) (met_relations (set objs)))"
    by (simp_all add: save_zones_def)
qed

subsection \<open>Properties\<close>

text \<open>
  C6. From the database to the cache and back: when a run of the generator has ended and a v1
  output was saved without an error, the file loads, its points are exactly those of the
  database, each way and relation once, and its zones are the region and country relations,
  with their geometry rounded to \<^verbatim>\<open>float32\<close>.
\<close>

theorem generated_cache_loads:
  assumes "env_laws E rects ok" and "length rels < 2 ^ 63" and "ids_ok E (set objs)" and "generates E cfg rels objs f0 s"
    and "saveWorker V cfg now (ps_sent s) (gg_regions (ps_gen s)) (gg_countries (ps_gen s)) outputs = Inr results"
    and "i < length outputs" and "po_Format (outputs ! i) = str ''v1''" and "results ! i = Some (None, w')"
    and "writer_ok (po_Writer (outputs ! i)) out" and "out (po_State (outputs ! i)) = []"
    and "v1_protos_ok (v1_pb (sv_loaders V))" and "v1_small (v1_pb (sv_loaders V))" and "\<forall>kvs. mset (sv_vis1 V kvs) = mset kvs"
    and "length (ps_sent s) + length (gg_regions (ps_gen s)) + length (gg_countries (ps_gen s)) < 2 ^ 32"
    and "readable_time (cal (sv_loaders V)) now" and "bytes_of st = out w'" and "whole_first_read st"
  shows "\<exists>pts zones. LoadFromReader (sv_loaders V) st = Some (Inr (pts, stored_zones zones))
    \<and> mset pts = image_mset save_point (all_points E f0 objs)
    \<and> mset zones = image_mset (save_zone ZoneRegion) (tally (zones_of_kind RelRegion E f0) (met_relations (set objs)))
        + image_mset (save_zone ZoneCountry) (tally (zones_of_kind RelCountry E f0) (met_relations (set objs)))"
proof -
  let ?zones = "save_zones (gg_regions (ps_gen s)) (gg_countries (ps_gen s))"
  have "length (map save_point (ps_sent s)) + length ?zones < 2 ^ 32" "readable_time (cal (sv_loaders V)) (md_DateCreated (save_meta cfg now))"
    using assms(14,15) by (simp_all add: save_zones_def save_meta_def)
  then have "LoadFromReader (sv_loaders V) st = Some (Inr (map save_point (ps_sent s), stored_zones ?zones))"
    by (rule v1_file_loaded [OF assms(9-13) _ _ worker_saves_v1 [OF assms(5-8)] assms(16,17)])
  then show ?thesis using generates_contents [OF assms(1-4)] by blast
qed

subsection \<open>Witness\<close>

text \<open>A database with one house and one region, saved in the v1 format.\<close>

definition sample_orb0 :: orb where
  "sample_orb0 = \<lparr>Bound = \<lambda>_. zero_bound, DouglasPeucker = \<lambda>_. [], MultiPolygonContains = \<lambda>_ _. False\<rparr>"

definition sample_admin :: osm_relation where
  "sample_admin = \<lparr>rel_ID = 9,
     rel_Tags = map (\<lambda>(k, v). (str k, str v)) [(''type'', ''boundary''), (''boundary'', ''administrative''), (''admin_level'', ''4''), (''name'', ''R'')],
     rel_Members = rel_Members sample_region\<rparr>"

definition sample_house :: osm_node where
  "sample_house = \<lparr>n_ID = 3, n_Lat = f64_of_int 50, n_Lon = f64_of_int 30,
     n_Tags = map (\<lambda>(k, v). (str k, str v)) [(''building'', ''yes''), (''addr:housenumber'', ''1''), (''addr:street'', ''B''),
       (''addr:city'', ''C''), (''name'', ''A'')]\<rparr>"

definition sample_database :: "osm_object list" where
  "sample_database = [ObjNode sample_house, ObjRelation sample_admin]"

definition sample_save :: "nat save_env" where
  "sample_save = \<lparr>sv_lib = sample_lib,
     sv_loaders = sample_loaders\<lparr>v1_pb := sample_v1_protos\<lparr>points_pb := table_proto [[sample_pb_point\<lparr>pp_Weight := 10\<rparr>]]\<rparr>\<rparr>,
     sv_vis1 = \<lambda>kvs. kvs, sv_vis2 = \<lambda>kvs. kvs\<rparr>"

definition sample_outputs :: "byte list parse_output list" where
  "sample_outputs = [\<lparr>po_Format = str ''v1'', po_Writer = buffer_write, po_State = []\<rparr>]"

definition sample_gen0 :: "(((orb_point \<times> orb_point) \<times> u64) list, (gostring \<times> gostring) list, unit segment list) gen_env" where
  "sample_gen0 = sample_gen\<lparr>g_orb := sample_orb0\<rparr>"

lemma sample_gen0_simps [simp]:
  "g_tags sample_gen0 = sample_osm_tags" "g_map sample_gen0 = list_str_map" "g_orb sample_gen0 = sample_orb0"
  "g_geometry sample_gen0 = g_geometry sample_gen" "g_osm sample_gen0 = g_osm sample_gen" "g_qtree sample_gen0 = list_qtree"
  "g_btree sample_gen0 = list_btree"
  by (simp_all add: sample_gen0_def) (simp_all add: sample_gen_def)

lemma sample_gen0_laws: "env_laws sample_gen0 set (sorted_wrt (\<lambda>a b. Lo a < Lo b))"
  using sample_env_laws by (simp add: env_laws_def) (simp add: sample_gen_def)

abbreviation sample_new :: "(((orb_point \<times> orb_point) \<times> u64) list, (gostring \<times> gostring) list, unit segment list) geo_gen" where
  "sample_new \<equiv> NewGeoGen sample_gen0 sample_config"

lemma sample_admin_tags:
  "relation_kind sample_osm_tags (rel_Tags sample_admin) = RelRegion"
  "tag_Find sample_osm_tags (rel_Tags sample_admin) nameKey = str ''R''"
  "tag_Find sample_osm_tags (rel_Tags sample_admin) (nameKey @ str '':'' @ str ''en'') = []"
  by (simp_all add: relation_kind_def isBuilding_def sample_admin_def sample_osm_tags_def str_def nameKey_def)

lemma sample_house_tags:
  "isBuilding sample_osm_tags (n_Tags sample_house)"
  "tag_Find sample_osm_tags (n_Tags sample_house) nameKey = str ''A''"
  "tag_Find sample_osm_tags (n_Tags sample_house) (nameKey @ str '':'' @ str ''en'') = []"
  "tag_Find sample_osm_tags (n_Tags sample_house) addrStreetKey = str ''B''"
  "tag_Find sample_osm_tags (n_Tags sample_house) (addrStreetKey @ str '':'' @ str ''en'') = []"
  "tag_Find sample_osm_tags (n_Tags sample_house) cityAddrKey = str ''C''"
  "tag_Find sample_osm_tags (n_Tags sample_house) (cityAddrKey @ str '':'' @ str ''en'') = []"
  "tag_Find sample_osm_tags (n_Tags sample_house) (str ''addr:housenumber'') = str ''1''"
  by (simp_all add: isBuilding_def sample_house_def sample_osm_tags_def str_def nameKey_def addrStreetKey_def cityAddrKey_def)

text \<open>Caches without a translation and without a border around a place.\<close>

definition sample_plain :: "(((orb_point \<times> orb_point) \<times> u64) list, (gostring \<times> gostring) list, unit segment list) geo_gen \<Rightarrow> bool" where
  "sample_plain f \<longleftrightarrow> (\<forall>k. lc_Load list_str_map (localizationCache f) k = None) \<and> PreferredLocalization (gg_config f) = str ''en''
     \<and> (\<forall>q. calcPlace sample_gen0 f q = Some [] \<and> calcRegion sample_gen0 f q = Some [])"

lemma sample_plainD:
  assumes "sample_plain f"
  shows "lc_Load list_str_map (localizationCache f) k = None" "PreferredLocalization (gg_config f) = str ''en''"
    "calcPlace sample_gen0 f q = Some []" "calcRegion sample_gen0 f q = Some []"
  using assms unfolding sample_plain_def by blast+

lemma sample_new_plain: "sample_plain sample_new"
  by (simp add: sample_plain_def NewGeoGen_def list_str_map_def sample_config_def calcPlace_def calcRegion_def QueryPoint_def NewBorderTree_def
      list_qtree_def)

definition sample_house_point :: geo_point where
  "sample_house_point = \<lparr>gp_Point = (f64_of_int 30, f64_of_int 50), gp_Name = [65], gp_Street = [66], gp_HouseNumber = [49], gp_City = [67],
     gp_Region = [], gp_Country = [], gp_Weight = 10\<rparr>"

lemma sample_parseNode:
  assumes "sample_plain f"
  shows "parseNode sample_gen0 f sample_house = Some [sample_house_point]"
proof -
  have e: "str ''en'' \<noteq> []" "str ''A'' = [65]" "str ''B'' = [66]" "str ''C'' = [67]" "str ''1'' = [49]" by (simp_all add: str_def)
  have "n_Lon sample_house = f64_of_int 30" "n_Lat sample_house = f64_of_int 50" by (simp_all add: sample_house_def)
  then show ?thesis
    by (simp add: parseNode_def building_point_def localizedName_def localizedStreetName_def localizedCityAddr_def localizedRegion_def
        sample_house_tags sample_plainD [OF assms] sample_house_point_def weightBuilding_def e Let_def)
qed

lemma sample_generated_zone:
  assumes "sample_plain f"
  shows "zones_of_kind RelRegion sample_gen0 f sample_admin = Some [\<lparr>gz_Name = str ''R'', gz_Bounds = zero_bound, gz_Polygon = []\<rparr>]"
proof -
  have "localizedName sample_gen0 f (rel_Tags sample_admin) = str ''R''"
    by (simp add: localizedName_def sample_plainD [OF assms] sample_admin_tags Let_def)
  moreover have "str ''R'' \<noteq> []" by (simp add: str_def)
  moreover have "rel_Members sample_admin = rel_Members sample_region" by (simp add: sample_admin_def)
  ultimately show ?thesis
    by (simp add: zones_of_kind_def relation_zone_def sample_admin_tags sample_polygon Let_def) (simp add: sample_orb0_def)
qed

lemma sample_database_met: "met_ways sample_gen0 (set sample_database) = {}" "met_relations (set sample_database) = {sample_admin}"
  by (auto simp: sample_database_def met_ways_def met_relations_def is_road_def sample_admin_tags)

lemma sample_database_ids: "ids_ok sample_gen0 (set sample_database)"
  by (simp add: ids_ok_def sample_database_met key_fits_def is_i64_def) (simp add: sample_admin_def)

lemma sample_database_points:
  assumes "sample_plain f"
  shows "all_points sample_gen0 f sample_database = {#sample_house_point#}"
  by (simp add: all_points_def sample_database_met tally_def relation_points_def sample_admin_tags)
    (simp add: sample_database_def node_points_def sample_parseNode [OF assms])

lemma sample_database_zones:
  assumes "sample_plain f"
  shows "tally (zones_of_kind RelRegion sample_gen0 f) (met_relations (set sample_database))
      = {#\<lparr>gz_Name = str ''R'', gz_Bounds = zero_bound, gz_Polygon = []\<rparr>#}"
    and "tally (zones_of_kind RelCountry sample_gen0 f) (met_relations (set sample_database)) = {#}"
  by (simp_all add: sample_database_met tally_def sample_generated_zone [OF assms]) (simp add: zones_of_kind_def sample_admin_tags)

lemma sample_database_orientable: "\<forall>rel. ObjRelation rel \<in> set sample_database \<longrightarrow> orientable sample_gen0 rel"
  using sample_orientable by (simp add: sample_database_def orientable_def sample_admin_def)

lemma sample_run:
  assumes fill: "fillRelCache sample_gen0 (map Inr rels) sample_new = Some (None, f)" and "sample_plain f" and n: "length rels < 2 ^ 63"
  obtains s where "generates sample_gen0 sample_config rels sample_database f s" "ps_sent s = [sample_house_point]"
    "gg_regions (ps_gen s) = [\<lparr>gz_Name = str ''R'', gz_Bounds = zero_bound, gz_Polygon = []\<rparr>]" "gg_countries (ps_gen s) = []"
proof -
  obtain s where s: "(parse_step sample_gen0)\<^sup>*\<^sup>* (parse_init f sample_database) s" "parse_done s"
    using parse_run.ends [OF conjI [OF generator_ready(2,1) [OF sample_gen0_laws n sample_database_ids fill]]] sample_database_orientable by blast
  note res = parse_result [OF sample_gen0_laws n sample_database_ids fill s]
  have "ps_sent s = [sample_house_point]" "gg_countries (ps_gen s) = []"
    "gg_regions (ps_gen s) = [\<lparr>gz_Name = str ''R'', gz_Bounds = zero_bound, gz_Polygon = []\<rparr>]"
    using res by (simp_all add: sample_database_points [OF assms(2)] sample_database_zones [OF assms(2)] mset_single_iff)
  moreover have "generates sample_gen0 sample_config rels sample_database f s" using fill s by (simp add: generates_def)
  ultimately show thesis using that by blast
qed

lemma sample_generates:
  obtains s where "generates sample_gen0 sample_config [] sample_database sample_new s" "ps_sent s = [sample_house_point]"
    "gg_regions (ps_gen s) = [\<lparr>gz_Name = str ''R'', gz_Bounds = zero_bound, gz_Polygon = []\<rparr>]" "gg_countries (ps_gen s) = []"
proof (rule sample_run [of "[]" sample_new])
  show "fillRelCache sample_gen0 (map Inr []) sample_new = Some (None, sample_new)" by simp
qed (simp_all add: sample_new_plain that)

abbreviation sample_v1_file :: "byte list" where
  "sample_v1_file \<equiv> MAGIC_BYTES @ put_u32 1 @ put_u32 1 @ [0, 0, 0, 0, 0]"

lemma sample_saved:
  "save_output sample_save [save_point sample_house_point] sample_zones (sample_meta\<lparr>md_DateCreated := 4\<rparr>) (sample_outputs ! 0)
    = Inr (Some (None, sample_v1_file))"
proof -
  have md: "\<lparr>cm_Version = 1, cm_DateCreated = replicate 3 48, cm_Locale = [101, 110]\<rparr> = metadata_message sample_calendar sample_meta"
    by (simp add: metadata_message_def sample_calendar_def sample_meta_def)
  have c: "cacheFromPoints sample_calendar (\<lambda>kvs. kvs) [save_point sample_house_point] sample_zones (sample_meta\<lparr>md_DateCreated := 4\<rparr>)
      = Some (sample_v1_cache\<lparr>c_Points := [sample_pb_point\<lparr>pp_Weight := 10\<rparr>]\<rparr>)"
    by (simp add: cacheFromPoints_def save_point_def sample_house_point_def sample_zones_def sample_meta_def sample_calendar_def sample_v1_cache_def
      add_point_def add_zone_def um_Add_def newUniqueMap_def um_Slice_def put_def Let_def i64_def
      sample_pb_point_def sample_pb_zone_def mapMultiPolygonFromOrb_def replicate_2)
  show ?thesis
    by (simp add: save_output_def sample_outputs_def sample_save_def sample_loaders_def c md SaveV1_def write_one_def buffer_write_def v1_Save_def
        sample_v1_cache_def sample_v1_protos_def chunks_of.simps blobChunkSize_def zone_blobs_def cache_header_of_def COMPATIBILITY_LEVEL_v1_def)
qed

lemma sample_worker:
  assumes "ps_sent s = [sample_house_point]" "gg_countries (ps_gen s) = []"
    "gg_regions (ps_gen s) = [\<lparr>gz_Name = str ''R'', gz_Bounds = zero_bound, gz_Polygon = []\<rparr>]"
  shows "saveWorker sample_save sample_config 4 (ps_sent s) (gg_regions (ps_gen s)) (gg_countries (ps_gen s)) sample_outputs
    = Inr [Some (None, sample_v1_file)]"
proof -
  have z: "save_zones (gg_regions (ps_gen s)) (gg_countries (ps_gen s)) = sample_zones" "save_meta sample_config 4 = sample_meta\<lparr>md_DateCreated := 4\<rparr>"
    by (simp_all add: assms save_zones_def save_zone_def sample_zones_def str_def save_meta_def sample_config_def sample_meta_def)
  show ?thesis using sample_saved by (simp add: saveWorker_def z assms(1)) (simp add: sample_outputs_def)
qed

lemma sample_save_laws:
  "v1_protos_ok (v1_pb (sv_loaders sample_save))" "v1_small (v1_pb (sv_loaders sample_save))" "readable_time (cal (sv_loaders sample_save)) 4"
  "po_Format (sample_outputs ! 0) = str ''v1''" "po_Writer (sample_outputs ! 0) = buffer_write" "po_State (sample_outputs ! 0) = []" "0 < length sample_outputs"
  "mset (sv_vis1 sample_save kvs) = mset kvs"
  using sample_calendar_readable(1)
  by (simp_all add: sample_save_def sample_outputs_def v1_protos_ok_def v1_small_def sample_v1_protos_def table_proto_ok table_proto_small
      sample_loaders_def sample_meta_def)

lemma generated_cache_loads_witness:
  "\<exists>s bytes zones. generates sample_gen0 sample_config [] sample_database sample_new s
    \<and> saveWorker sample_save sample_config 4 (ps_sent s) (gg_regions (ps_gen s)) (gg_countries (ps_gen s)) sample_outputs = Inr [Some (None, bytes)]
    \<and> LoadFromReader (sv_loaders sample_save) (stream_of bytes) = Some (Inr ([save_point sample_house_point], stored_zones zones))
    \<and> mset zones = mset sample_zones"
proof (rule sample_generates)
  fix s
  assume s: "generates sample_gen0 sample_config [] sample_database sample_new s" "ps_sent s = [sample_house_point]"
    "gg_regions (ps_gen s) = [\<lparr>gz_Name = str ''R'', gz_Bounds = zero_bound, gz_Polygon = []\<rparr>]" "gg_countries (ps_gen s) = []"
  note save = sample_worker [OF s(2,4,3)]
  from generated_cache_loads [OF sample_gen0_laws _ sample_database_ids s(1) save sample_save_laws(7,4) _ _ _ sample_save_laws(1,2) _ _ sample_save_laws(3),
      where out = "\<lambda>s. s" and st = "stream_of sample_v1_file"]
  obtain pts zones where l: "LoadFromReader (sv_loaders sample_save) (stream_of sample_v1_file) = Some (Inr (pts, stored_zones zones))"
    "mset pts = image_mset save_point {#sample_house_point#}"
    "mset zones = image_mset (save_zone ZoneRegion) {#\<lparr>gz_Name = str ''R'', gz_Bounds = zero_bound, gz_Polygon = []\<rparr>#}"
    using buffer_write_ok whole_stream_of [of sample_v1_file] by (auto simp: sample_save_laws s(2-4) sample_database_points [OF sample_new_plain] sample_database_zones [OF sample_new_plain])
  have "mset zones = mset sample_zones" unfolding l(3) by (simp add: save_zone_def sample_zones_def str_def)
  moreover have "pts = [save_point sample_house_point]" using l(2) by (simp add: mset_single_iff)
  ultimately show ?thesis using s(1) save l(1) by blast
qed

end
