(* ===== verification/Server.thy ===== *)
theory Server
  imports CacheModel
begin

section \<open>The HTTP server\<close>

text \<open>
  \<^verbatim>\<open>server/server.go\<close>: the two request handlers and the pool of goroutines that answers a
  long list of positions. The geocoder, the number parser and the JSON encoders are
  parameters. The pool is a transition system: a producer sends the positions' numbers
  through a channel, workers take them from it, and any step that is possible may be the
  next one.
\<close>

subsection \<open>The pool\<close>

type_synonym position = "f64 \<times> f64"
type_synonym finder = "f64 \<Rightarrow> f64 \<Rightarrow> geo_model_info \<times> bool"

datatype worker = Idle | Busy nat | Exited

record pool =
  p_next :: nat
  p_closed :: bool
  p_chan :: "nat list"
  p_workers :: "worker list"
  p_res :: "geo_model_info list"

definition pool_init :: "position list \<Rightarrow> nat \<Rightarrow> pool" where
  "pool_init pts threads = \<lparr>p_next = 0, p_closed = False, p_chan = [], p_workers = replicate threads Idle,
     p_res = replicate (length pts) empty_info\<rparr>"

definition answer_of :: "finder \<Rightarrow> position list \<Rightarrow> nat \<Rightarrow> geo_model_info" where
  "answer_of geo pts i = fst (geo (fst (pts ! i)) (snd (pts ! i)))"

text \<open>The channel holds at most as many numbers as there are workers.\<close>

inductive pool_step :: "finder \<Rightarrow> position list \<Rightarrow> nat \<Rightarrow> pool \<Rightarrow> pool \<Rightarrow> bool"
  for geo :: finder and pts :: "position list" and threads :: nat where
  send: "p_next s < length pts \<Longrightarrow> length (p_chan s) < threads
    \<Longrightarrow> pool_step geo pts threads s (s\<lparr>p_chan := p_chan s @ [p_next s], p_next := p_next s + 1\<rparr>)"
| close: "p_next s = length pts \<Longrightarrow> \<not> p_closed s \<Longrightarrow> pool_step geo pts threads s (s\<lparr>p_closed := True\<rparr>)"
| receive: "w < length (p_workers s) \<Longrightarrow> p_workers s ! w = Idle \<Longrightarrow> p_chan s = i # rest
    \<Longrightarrow> pool_step geo pts threads s (s\<lparr>p_chan := rest, p_workers := (p_workers s)[w := Busy i]\<rparr>)"
| store: "w < length (p_workers s) \<Longrightarrow> p_workers s ! w = Busy i
    \<Longrightarrow> pool_step geo pts threads s (s\<lparr>p_res := (p_res s)[i := answer_of geo pts i], p_workers := (p_workers s)[w := Idle]\<rparr>)"
| exit: "w < length (p_workers s) \<Longrightarrow> p_workers s ! w = Idle \<Longrightarrow> p_chan s = [] \<Longrightarrow> p_closed s
    \<Longrightarrow> pool_step geo pts threads s (s\<lparr>p_workers := (p_workers s)[w := Exited]\<rparr>)"

definition pool_reachable :: "finder \<Rightarrow> position list \<Rightarrow> nat \<Rightarrow> pool \<Rightarrow> bool" where
  "pool_reachable geo pts threads s \<longleftrightarrow> (pool_step geo pts threads)\<^sup>*\<^sup>* (pool_init pts threads) s"

text \<open>\<open>wg.Wait()\<close> returns when every worker has exited.\<close>

definition pool_done :: "pool \<Rightarrow> bool" where
  "pool_done s \<longleftrightarrow> (\<forall>w \<in> set (p_workers s). w = Exited)"

text \<open>What \<open>multithreadedFind\<close> may return.\<close>

definition multithreadedFind :: "finder \<Rightarrow> position list \<Rightarrow> nat \<Rightarrow> geo_model_info list \<Rightarrow> bool" where
  "multithreadedFind geo pts threads res \<longleftrightarrow> (\<exists>s. pool_reachable geo pts threads s \<and> pool_done s \<and> p_res s = res)"

subsection \<open>The handlers\<close>

record response =
  status :: int
  body :: "byte list"

definition StatusOK :: int where "StatusOK = 200"
definition StatusNoContent :: int where "StatusNoContent = 204"
definition StatusBadRequest :: int where "StatusBadRequest = 400"
definition StatusInternalServerError :: int where "StatusInternalServerError = 500"

record counters =
  addressCallCount :: int
  addressMultiCallCount :: int
  addressesEncoded :: int

record json =
  ParseFloat :: "gostring \<Rightarrow> f64 result"
  MarshalInfo :: "geo_model_info \<Rightarrow> byte list result"
  MarshalInfoList :: "geo_model_info list \<Rightarrow> byte list result"
  UnmarshalPoints :: "byte list \<Rightarrow> position list result"
  ErrorText :: "error \<Rightarrow> byte list"

text \<open>
  An unset status is 200. When marshalling fails the handler sets an error and goes on: the
  status becomes 200 again and the body empty.
\<close>

definition RGeoCodeHandler :: "json \<Rightarrow> finder \<Rightarrow> gostring \<Rightarrow> gostring \<Rightarrow> counters \<Rightarrow> response \<times> counters" where
  "RGeoCodeHandler J geo latS lonS c =
     (let c = c\<lparr>addressCallCount := addressCallCount c + 1, addressesEncoded := addressesEncoded c + 1\<rparr> in
      (case ParseFloat J latS of
         Inl e \<Rightarrow> (\<lparr>status = StatusBadRequest, body = []\<rparr>, c)
       | Inr lat \<Rightarrow>
         (case ParseFloat J lonS of
            Inl e \<Rightarrow> (\<lparr>status = StatusBadRequest, body = []\<rparr>, c)
          | Inr lon \<Rightarrow>
            (case geo lat lon of
               (i, False) \<Rightarrow> (\<lparr>status = StatusNoContent, body = []\<rparr>, c)
             | (i, True) \<Rightarrow>
                 (\<lparr>status = StatusOK, body = (case MarshalInfo J i of Inl e \<Rightarrow> [] | Inr out \<Rightarrow> out)\<rparr>, c)))))"

text \<open>Go's integer division truncates; by zero it panics.\<close>

definition go_div :: "int \<Rightarrow> int \<Rightarrow> int option" where
  "go_div a b = (if b = 0 then None else Some (sgn a * sgn b * (\<bar>a\<bar> div \<bar>b\<bar>)))"

definition thread_count :: "int \<Rightarrow> int \<Rightarrow> int \<Rightarrow> int option" where
  "thread_count n pointsPerThread gomaxprocs = do {
     q \<leftarrow> go_div n pointsPerThread;
     h \<leftarrow> go_div gomaxprocs 2;
     Some (min (max 2 q) h)
   }"

text \<open>\<open>mt\<close> is the list that \<open>multithreadedFind\<close> returned for its arguments.\<close>

definition RGeoMultipleCodeHandler :: "json \<Rightarrow> finder \<Rightarrow> int \<Rightarrow> int \<Rightarrow> (position list \<Rightarrow> nat \<Rightarrow> geo_model_info list)
    \<Rightarrow> byte list \<Rightarrow> counters \<Rightarrow> (response \<times> counters) option" where
  "RGeoMultipleCodeHandler J geo pointsPerThread gomaxprocs mt request c =
     (let c = c\<lparr>addressMultiCallCount := addressMultiCallCount c + 1\<rparr> in
      (case UnmarshalPoints J request of
         Inl e \<Rightarrow> Some (\<lparr>status = StatusBadRequest, body = map of_char ''failed to parse request: '' @ ErrorText J e\<rparr>, c)
       | Inr req \<Rightarrow>
         (let c = c\<lparr>addressesEncoded := addressesEncoded c + int (length req)\<rparr> in do {
            res \<leftarrow> (if int (length req) < pointsPerThread then Some (map (\<lambda>p. fst (geo (fst p) (snd p))) req)
                     else map_option (\<lambda>threads. mt req (nat threads)) (thread_count (int (length req)) pointsPerThread gomaxprocs));
            Some (case MarshalInfoList J res of
                Inl e \<Rightarrow> (\<lparr>status = StatusInternalServerError, body = []\<rparr>, c)
              | Inr data \<Rightarrow> (\<lparr>status = StatusOK, body = data\<rparr>, c))
          })))"

subsection \<open>The invariant of the pool\<close>

text \<open>
  Every number below \<open>p_next\<close> is in the channel, or with a worker, or stored; the stored answers
  are right. A worker exits only after the channel is closed and empty.
\<close>

definition pool_inv :: "finder \<Rightarrow> position list \<Rightarrow> nat \<Rightarrow> pool \<Rightarrow> bool" where
  "pool_inv geo pts threads s \<longleftrightarrow>
     p_next s \<le> length pts \<and> length (p_workers s) = threads \<and> length (p_res s) = length pts
     \<and> (\<forall>i \<in> set (p_chan s). i < length pts)
     \<and> (\<forall>i. Busy i \<in> set (p_workers s) \<longrightarrow> i < length pts)
     \<and> (p_closed s \<longrightarrow> p_next s = length pts)
     \<and> (Exited \<in> set (p_workers s) \<longrightarrow> p_closed s \<and> p_chan s = [])
     \<and> (\<forall>i < p_next s. i \<in> set (p_chan s) \<or> Busy i \<in> set (p_workers s) \<or> p_res s ! i = answer_of geo pts i)"

lemma pool_inv_init: "pool_inv geo pts threads (pool_init pts threads)"
  by (simp add: pool_inv_def pool_init_def)

lemma pool_inv_step:
  assumes "pool_step geo pts threads s s'" "pool_inv geo pts threads s"
  shows "pool_inv geo pts threads s'"
  using assms
proof cases
  case send
  then show ?thesis using assms(2) by (auto simp: pool_inv_def less_Suc_eq)
next
  case close
  then show ?thesis using assms(2) by (auto simp: pool_inv_def)
next
  case (receive w i rest)
  have kept: "Busy j \<in> set ((p_workers s)[w := Busy i])" if "Busy j \<in> set (p_workers s)" for j
    using that receive(3) by (metis in_set_conv_nth length_list_update nth_list_update_neq worker.distinct(1))
  have here: "Busy i \<in> set ((p_workers s)[w := Busy i])" using receive(2) by (simp add: set_update_memI)
  have sub: "set ((p_workers s)[w := Busy i]) \<subseteq> insert (Busy i) (set (p_workers s))" by (rule set_update_subset_insert)
  show ?thesis using assms(2) receive here sub by (auto simp: pool_inv_def intro: kept)
next
  case (store w i)
  have kept: "Busy j \<in> set ((p_workers s)[w := Idle])" if "Busy j \<in> set (p_workers s)" "j \<noteq> i" for j
    using that store(3) by (metis in_set_conv_nth length_list_update nth_list_update_neq worker.inject)
  have sub: "set ((p_workers s)[w := Idle]) \<subseteq> insert Idle (set (p_workers s))" by (rule set_update_subset_insert)
  have "Busy i \<in> set (p_workers s)" using store(2,3) by (metis nth_mem)
  then have "i < length pts" using assms(2) by (simp add: pool_inv_def)
  then show ?thesis using assms(2) store sub by (auto simp: pool_inv_def nth_list_update intro: kept)
next
  case (exit w)
  have kept: "Busy j \<in> set ((p_workers s)[w := Exited])" if "Busy j \<in> set (p_workers s)" for j
    using that exit(3) by (metis in_set_conv_nth length_list_update nth_list_update_neq worker.distinct(1))
  have sub: "set ((p_workers s)[w := Exited]) \<subseteq> insert Exited (set (p_workers s))" by (rule set_update_subset_insert)
  show ?thesis using assms(2) exit sub by (auto simp: pool_inv_def intro: kept)
qed

lemma pool_inv_reachable: "pool_reachable geo pts threads s \<Longrightarrow> pool_inv geo pts threads s"
  unfolding pool_reachable_def by (induction rule: rtranclp_induct) (auto intro: pool_inv_init pool_inv_step)

lemma pool_result:
  assumes "pool_reachable geo pts threads s" "pool_done s" "0 < threads"
  shows "p_res s = map (\<lambda>p. fst (geo (fst p) (snd p))) pts"
proof -
  note I = pool_inv_reachable [OF assms(1), unfolded pool_inv_def]
  have "p_workers s \<noteq> []" using I assms(3) by auto
  then have "Exited \<in> set (p_workers s)" using assms(2) by (auto simp: pool_done_def neq_Nil_conv)
  then have c: "p_chan s = []" "p_next s = length pts" using I by auto
  have "Busy i \<notin> set (p_workers s)" for i using assms(2) by (auto simp: pool_done_def)
  then have "p_res s ! i = answer_of geo pts i" if "i < length pts" for i using I c that by auto
  then show ?thesis using I by (intro nth_equalityI) (simp_all add: answer_of_def)
qed

subsection \<open>The pool never blocks and always ends\<close>

text \<open>Until all workers have exited some step is possible, and every step makes a measure smaller.\<close>

lemma pool_progress:
  assumes "pool_inv geo pts threads s" "\<not> pool_done s"
  shows "\<exists>s'. pool_step geo pts threads s s'"
proof -
  obtain w where w: "w < length (p_workers s)" "p_workers s ! w \<noteq> Exited"
    using assms(2) by (auto simp: pool_done_def in_set_conv_nth)
  have t: "0 < threads" using assms(1) w(1) by (auto simp: pool_inv_def)
  show ?thesis
  proof (cases "p_workers s ! w")
    case Idle
    show ?thesis
    proof (cases "p_chan s")
      case Nil
      then show ?thesis
      proof (cases "p_next s < length pts")
        case True
        then show ?thesis using Nil t pool_step.send [of s pts threads geo] by auto
      next
        case False
        then have "p_next s = length pts" using assms(1) by (simp add: pool_inv_def)
        then show ?thesis using exit [OF w(1) Idle Nil] close by blast
      qed
    qed (use receive w(1) Idle in blast)
  qed (use store w in blast)+
qed

definition worker_cost :: "worker \<Rightarrow> nat" where
  "worker_cost w = (case w of Idle \<Rightarrow> 1 | Busy _ \<Rightarrow> 2 | Exited \<Rightarrow> 0)"

definition pool_cost :: "position list \<Rightarrow> pool \<Rightarrow> nat" where
  "pool_cost pts s = 3 * (length pts - p_next s) + 2 * length (p_chan s) + sum_list (map worker_cost (p_workers s))
     + (if p_closed s then 0 else 1)"

lemma pool_step_cost:
  assumes "pool_step geo pts threads s s'"
  shows "pool_cost pts s' < pool_cost pts s"
  using assms
proof cases
  case (receive w i rest)
  then show ?thesis using sum_list_map_update [of w "p_workers s" worker_cost "Busy i"] by (simp add: pool_cost_def worker_cost_def)
next
  case (store w i)
  then show ?thesis using sum_list_map_update [of w "p_workers s" worker_cost Idle] by (simp add: pool_cost_def worker_cost_def)
next
  case (exit w)
  then show ?thesis using sum_list_map_update [of w "p_workers s" worker_cost Exited] by (simp add: pool_cost_def worker_cost_def)
qed (simp_all add: pool_cost_def)

interpretation pool_run: process "pool_step geo pts threads" "pool_inv geo pts threads" pool_done "pool_cost pts" for geo pts threads
  by unfold_locales (auto intro: pool_inv_step pool_progress pool_step_cost)

lemma pool_without_workers: "pool_reachable geo pts 0 s \<Longrightarrow> p_workers s = [] \<and> p_res s = replicate (length pts) empty_info"
  unfolding pool_reachable_def
proof (induction rule: rtranclp_induct)
  case (step s s')
  from step.hyps(2) step.IH show ?case by cases auto
qed (simp add: pool_init_def)

text \<open>
  The handler of a list of positions, on a machine with at least two processors: a request
  that does not parse is answered with 400; otherwise the answer is 200 with the list of what
  the geocoder answers, in order, the same whether the pool is used or not.
\<close>

lemma multi_handler_answers:
  assumes "\<And>pts n. multithreadedFind geo pts n (mt pts n)" and "2 \<le> gomaxprocs" and "0 < pointsPerThread"
  shows "\<exists>c'. RGeoMultipleCodeHandler J geo pointsPerThread gomaxprocs mt request c =
    Some (case UnmarshalPoints J request of
        Inl e \<Rightarrow> \<lparr>status = 400, body = map of_char ''failed to parse request: '' @ ErrorText J e\<rparr>
      | Inr req \<Rightarrow>
          (case MarshalInfoList J (map (\<lambda>p. fst (geo (fst p) (snd p))) req) of
             Inl e \<Rightarrow> \<lparr>status = 500, body = []\<rparr>
           | Inr data \<Rightarrow> \<lparr>status = 200, body = data\<rparr>), c')"
proof -
  have h: "go_div gomaxprocs 2 = Some (gomaxprocs div 2)" using assms(2) by (simp add: go_div_def)
  have t: "\<exists>t. thread_count (int n) pointsPerThread gomaxprocs = Some t \<and> 0 < nat t" for n :: nat
    using assms(2,3) h by (auto simp: thread_count_def go_div_def)
  have "mt req n = map (\<lambda>p. fst (geo (fst p) (snd p))) req" if "0 < n" for req n
    using assms(1) [of req n] that pool_result by (auto simp: multithreadedFind_def)
  then have m: "map_option (\<lambda>threads. mt req (nat threads)) (thread_count (int (length req)) pointsPerThread gomaxprocs)
      = Some (map (\<lambda>p. fst (geo (fst p) (snd p))) req)" for req
    using t [of "length req"] by auto
  show ?thesis
    by (auto simp: RGeoMultipleCodeHandler_def m StatusOK_def StatusBadRequest_def StatusInternalServerError_def split: sum.splits)
qed

text \<open>With one processor a list of at least \<open>pointsPerThread\<close> positions is given to no worker at all.\<close>

lemma one_processor_handler:
  assumes "\<And>pts n. multithreadedFind geo pts n (mt pts n)" and "UnmarshalPoints J request = Inr req"
    and "0 < pointsPerThread" and "pointsPerThread \<le> int (length req)"
  shows "\<exists>c'. RGeoMultipleCodeHandler J geo pointsPerThread 1 mt request c =
    Some (case MarshalInfoList J (replicate (length req) empty_info) of
        Inl e \<Rightarrow> \<lparr>status = 500, body = []\<rparr>
      | Inr data \<Rightarrow> \<lparr>status = 200, body = data\<rparr>, c')"
proof -
  have "thread_count (int (length req)) pointsPerThread 1 = Some 0"
    using assms(3) by (simp add: thread_count_def go_div_def)
  moreover have "mt req 0 = replicate (length req) empty_info"
    using assms(1) [of req 0] pool_without_workers by (auto simp: multithreadedFind_def)
  ultimately show ?thesis
    using assms(2,4) by (auto simp: RGeoMultipleCodeHandler_def StatusOK_def StatusInternalServerError_def split: sum.splits)
qed

subsection \<open>The geocoder behind the handlers\<close>

text \<open>
  The server knows the geocoder by the interface \<open>Geocoder\<close> of \<^verbatim>\<open>geocoder/locator.go\<close>, its
  method \<open>Find\<close>. The handlers rely on it to return.
\<close>

definition finder_of :: "('g \<Rightarrow> f64 \<Rightarrow> f64 \<Rightarrow> (geo_model_info \<times> bool) option) \<Rightarrow> 'g \<Rightarrow> finder" where
  "finder_of ask g lat lon = the (ask g lat lon)"

locale geocoder_interface =
  fixes ready :: "'g \<Rightarrow> bool" and ask :: "'g \<Rightarrow> f64 \<Rightarrow> f64 \<Rightarrow> (geo_model_info \<times> bool) option"
  assumes ask_total: "ready g \<Longrightarrow> ask g lat lon \<noteq> None"
begin

lemma finder_answers: "ready g \<Longrightarrow> ask g lat lon = Some (finder_of ask g lat lon)"
  using ask_total by (simp add: finder_of_def)

lemma pool_finds:
  assumes "ready g" "multithreadedFind (finder_of ask g) pts threads res" "0 < threads"
  shows "map Some res = map (\<lambda>p. map_option fst (ask g (fst p) (snd p))) pts"
  using assms(2,3) pool_result finder_answers [OF assms(1)] by (auto simp: multithreadedFind_def)

lemma list_handler:
  assumes "ready g" "\<And>pts n. multithreadedFind (finder_of ask g) pts n (mt pts n)" "2 \<le> gomaxprocs" "0 < pointsPerThread"
    and "UnmarshalPoints J request = Inr req"
  shows "\<exists>res c'. map Some res = map (\<lambda>p. map_option fst (ask g (fst p) (snd p))) req
    \<and> RGeoMultipleCodeHandler J (finder_of ask g) pointsPerThread gomaxprocs mt request c
      = Some (case MarshalInfoList J res of Inl e \<Rightarrow> \<lparr>status = 500, body = []\<rparr> | Inr data \<Rightarrow> \<lparr>status = 200, body = data\<rparr>, c')"
proof -
  have "map Some (map (\<lambda>p. fst (finder_of ask g (fst p) (snd p))) req) = map (\<lambda>p. map_option fst (ask g (fst p) (snd p))) req"
    using finder_answers [OF assms(1)] by simp
  moreover obtain c' where "RGeoMultipleCodeHandler J (finder_of ask g) pointsPerThread gomaxprocs mt request c
      = Some (case MarshalInfoList J (map (\<lambda>p. fst (finder_of ask g (fst p) (snd p))) req) of
          Inl e \<Rightarrow> \<lparr>status = 500, body = []\<rparr> | Inr data \<Rightarrow> \<lparr>status = 200, body = data\<rparr>, c')"
    using multi_handler_answers [OF assms(2-4), of J request c] assms(5) by auto
  ultimately show ?thesis by blast
qed

lemma single_handler:
  assumes "ready g" "ParseFloat J latS = Inr lat" "ParseFloat J lonS = Inr lon"
  shows "\<exists>i ok c'. ask g lat lon = Some (i, ok)
    \<and> RGeoCodeHandler J (finder_of ask g) latS lonS c
      = (if ok then \<lparr>status = 200, body = (case MarshalInfo J i of Inl e \<Rightarrow> [] | Inr data \<Rightarrow> data)\<rparr> else \<lparr>status = 204, body = []\<rparr>, c')"
proof -
  obtain i ok where "ask g lat lon = Some (i, ok)" "finder_of ask g lat lon = (i, ok)"
    using finder_answers [OF assms(1)] by (metis surj_pair)
  then show ?thesis using assms(2,3) by (auto simp: RGeoCodeHandler_def StatusOK_def StatusNoContent_def split: bool.splits)
qed

text \<open>Every request, also one that does not parse, and on any number of processors.\<close>

lemma every_single_request:
  assumes "ready g"
  shows "case ParseFloat J latS of Inl e \<Rightarrow> \<exists>c'. RGeoCodeHandler J (finder_of ask g) latS lonS c = (\<lparr>status = 400, body = []\<rparr>, c')
    | Inr lat \<Rightarrow>
        (case ParseFloat J lonS of Inl e \<Rightarrow> \<exists>c'. RGeoCodeHandler J (finder_of ask g) latS lonS c = (\<lparr>status = 400, body = []\<rparr>, c')
         | Inr lon \<Rightarrow> \<exists>i ok c'. ask g lat lon = Some (i, ok)
             \<and> RGeoCodeHandler J (finder_of ask g) latS lonS c
               = (if ok then \<lparr>status = 200, body = (case MarshalInfo J i of Inl e \<Rightarrow> [] | Inr data \<Rightarrow> data)\<rparr> else \<lparr>status = 204, body = []\<rparr>, c'))"
proof (cases "ParseFloat J latS")
  case (Inl e)
  then show ?thesis by (simp add: RGeoCodeHandler_def StatusBadRequest_def Let_def)
next
  case (Inr lat)
  note lat = this
  show ?thesis
  proof (cases "ParseFloat J lonS")
    case (Inl e)
    then show ?thesis using lat by (simp add: RGeoCodeHandler_def StatusBadRequest_def Let_def)
  next
    case (Inr lon)
    show ?thesis unfolding lat Inr sum.case by (rule single_handler [OF assms lat Inr])
  qed
qed

lemma every_list_request:
  assumes "ready g" "\<And>pts n. multithreadedFind (finder_of ask g) pts n (mt pts n)" "1 \<le> gomaxprocs" "0 < pointsPerThread"
  shows "case UnmarshalPoints J request of
      Inl e \<Rightarrow> \<exists>c'. RGeoMultipleCodeHandler J (finder_of ask g) pointsPerThread gomaxprocs mt request c
        = Some (\<lparr>status = 400, body = map of_char ''failed to parse request: '' @ ErrorText J e\<rparr>, c')
    | Inr req \<Rightarrow> \<exists>res c'.
        (if gomaxprocs = 1 \<and> pointsPerThread \<le> int (length req) then res = replicate (length req) empty_info
         else map Some res = map (\<lambda>p. map_option fst (ask g (fst p) (snd p))) req)
        \<and> RGeoMultipleCodeHandler J (finder_of ask g) pointsPerThread gomaxprocs mt request c
          = Some (case MarshalInfoList J res of Inl e \<Rightarrow> \<lparr>status = 500, body = []\<rparr> | Inr data \<Rightarrow> \<lparr>status = 200, body = data\<rparr>, c')"
proof (cases "UnmarshalPoints J request")
  case (Inl e)
  then show ?thesis by (simp add: RGeoMultipleCodeHandler_def StatusBadRequest_def Let_def)
next
  case (Inr req)
  consider "2 \<le> gomaxprocs" | "gomaxprocs = 1" "pointsPerThread \<le> int (length req)" | "gomaxprocs = 1" "int (length req) < pointsPerThread"
    using assms(3) by linarith
  then show ?thesis
  proof cases
    case 1
    then show ?thesis using list_handler [OF assms(1,2) 1 assms(4) Inr, of c] Inr by simp
  next
    case 2
    then show ?thesis using one_processor_handler [OF assms(2) Inr assms(4) 2(2), of c] Inr by simp
  next
    case 3
    let ?res = "map (\<lambda>p. fst (finder_of ask g (fst p) (snd p))) req"
    have res: "if gomaxprocs = 1 \<and> pointsPerThread \<le> int (length req) then ?res = replicate (length req) empty_info
        else map Some ?res = map (\<lambda>p. map_option fst (ask g (fst p) (snd p))) req"
      using 3 finder_answers [OF assms(1)] by simp
    have "\<exists>c'. RGeoMultipleCodeHandler J (finder_of ask g) pointsPerThread gomaxprocs mt request c
        = Some (case MarshalInfoList J ?res of Inl e \<Rightarrow> \<lparr>status = 500, body = []\<rparr> | Inr data \<Rightarrow> \<lparr>status = 200, body = data\<rparr>, c')"
      using 3 Inr by (cases "MarshalInfoList J ?res") (simp_all add: RGeoMultipleCodeHandler_def Let_def StatusOK_def StatusInternalServerError_def)
    with res show ?thesis unfolding Inr sum.case by blast
  qed
qed

end

subsection \<open>Properties\<close>

text \<open>
  With at least one worker, whatever the order in which the goroutines run, the pool returns
  for every position what the geocoder answers for it, in the order of the positions.
\<close>

theorem multithreadedFind_answers:
  assumes "multithreadedFind geo pts threads res" and "0 < threads"
  shows "res = map (\<lambda>p. fst (geo (fst p) (snd p))) pts"
  using assms pool_result by (auto simp: multithreadedFind_def)

text \<open>
  C31. The pool never blocks before all its workers have exited, and it cannot run forever: in
  every state it reaches some step is possible until it is done, every step makes a natural
  number smaller, and a final state can be reached.
\<close>

theorem multithreadedFind_ends:
  assumes "pool_reachable geo pts threads s"
  shows "(pool_done s \<or> (\<exists>s'. pool_step geo pts threads s s'))
    \<and> (\<forall>s'. pool_step geo pts threads s s' \<longrightarrow> pool_cost pts s' < pool_cost pts s)
    \<and> (\<exists>s'. (pool_step geo pts threads)\<^sup>*\<^sup>* s s' \<and> pool_done s')"
  using assms unfolding pool_reachable_def by (rule pool_run.runs [OF pool_inv_init])

text \<open>
  C32. On a machine with one processor half of the processors is zero: for a request of at least
  \<open>pointsPerThread\<close> positions no worker is started, the wait ends at once, and the answer is 200
  with an empty record for every position, whatever the geocoder knows.
\<close>

theorem one_processor_answers_nothing:
  assumes "\<And>pts n. multithreadedFind geo pts n (mt pts n)" and "UnmarshalPoints J request = Inr req"
    and "0 < pointsPerThread" and "pointsPerThread \<le> int (length req)"
  shows "\<exists>c'. RGeoMultipleCodeHandler J geo pointsPerThread 1 mt request c =
    Some (case MarshalInfoList J (replicate (length req) empty_info) of
        Inl e \<Rightarrow> \<lparr>status = 500, body = []\<rparr>
      | Inr data \<Rightarrow> \<lparr>status = 200, body = data\<rparr>, c')"
  using assms by (rule one_processor_handler)

subsection \<open>Witnesses\<close>

definition sample_finder :: finder where
  "sample_finder lat lon = (empty_info\<lparr>Name := [65]\<rparr>, True)"

definition sample_json :: json where
  "sample_json = \<lparr>ParseFloat = \<lambda>_. Inr 0, MarshalInfo = \<lambda>i. Inr (Name i), MarshalInfoList = \<lambda>is. Inr (concat (map Name is)),
     UnmarshalPoints = \<lambda>bs. if bs = [] then Inl (Err ''EOF'') else Inr (replicate (length bs) (0, 0)), ErrorText = \<lambda>_. []\<rparr>"

text \<open>Every number of workers has an outcome.\<close>

definition some_outcome :: "finder \<Rightarrow> position list \<Rightarrow> nat \<Rightarrow> geo_model_info list" where
  "some_outcome geo pts n = (if n = 0 then replicate (length pts) empty_info else map (\<lambda>p. fst (geo (fst p) (snd p))) pts)"

lemma some_outcome_ok: "multithreadedFind geo pts n (some_outcome geo pts n)"
proof -
  obtain s where s: "pool_reachable geo pts n s" "pool_done s"
    unfolding pool_reachable_def using pool_run.ends [OF pool_inv_init [of geo pts n]] by blast
  then have "p_res s = some_outcome geo pts n"
    using pool_result [OF s] pool_without_workers by (auto simp: some_outcome_def)
  then show ?thesis using s by (auto simp: multithreadedFind_def)
qed

lemma multithreadedFind_answers_witness:
  "some_outcome sample_finder [(0, 0), (1, 1)] 3 = [empty_info\<lparr>Name := [65]\<rparr>, empty_info\<lparr>Name := [65]\<rparr>]"
  using multithreadedFind_answers [OF some_outcome_ok, of 3 sample_finder "[(0, 0), (1, 1)]"] by (simp add: sample_finder_def)

lemma multithreadedFind_ends_witness:
  "\<exists>s. (pool_step sample_finder [(0, 0), (1, 1)] 2)\<^sup>*\<^sup>* (pool_init [(0, 0), (1, 1)] 2) s \<and> pool_done s"
  using multithreadedFind_ends [of sample_finder "[(0, 0), (1, 1)]" 2 "pool_init [(0, 0), (1, 1)] 2"] by (simp add: pool_reachable_def)

lemma multi_handler_answers_witness:
  "\<exists>c'. RGeoMultipleCodeHandler sample_json sample_finder 2 2 (some_outcome sample_finder) [0, 0, 0]
     \<lparr>addressCallCount = 0, addressMultiCallCount = 0, addressesEncoded = 0\<rparr> = Some (\<lparr>status = 200, body = [65, 65, 65]\<rparr>, c')"
  using multi_handler_answers [OF some_outcome_ok, of 2 2 sample_json sample_finder "[0, 0, 0]"]
  by (simp add: sample_json_def sample_finder_def)

lemma one_processor_answers_nothing_witness:
  "\<exists>c'. RGeoMultipleCodeHandler sample_json sample_finder 2 1 (some_outcome sample_finder) [0, 0, 0]
     \<lparr>addressCallCount = 0, addressMultiCallCount = 0, addressesEncoded = 0\<rparr> = Some (\<lparr>status = 200, body = []\<rparr>, c')"
  using one_processor_answers_nothing [OF some_outcome_ok, of sample_json "[0, 0, 0]" "[(0, 0), (0, 0), (0, 0)]" 2 sample_finder]
  by (simp add: sample_json_def empty_info_def)

end
