(* ===== verification/Serve.thy ===== *)
theory Serve
  imports Geocoder Server
begin

section \<open>The serve command\<close>

text \<open>
  \<open>serve\<close> and \<open>detectV2Cache\<close> of \<^verbatim>\<open>cmd/main.go\<close>: the flags are checked, the format of the
  cache file decides whether it is opened in place or loaded into memory, and the server runs
  with the geocoder. Listening, profiling and the garbage collector are left out.
\<close>

record serve_flags =
  fl_points :: gostring
  fl_searchRadius :: f64
  fl_pointsPerThread :: int

definition default_serve_flags :: "gostring \<Rightarrow> serve_flags" where
  "default_serve_flags points_flag = \<lparr>fl_points = points_flag, fl_searchRadius = 0, fl_pointsPerThread = 1000\<rparr>"

datatype 'q geocoder_handle = InMemory "'q r_geo_coder" | OnDisk "'q r_geo_coder_disk"

definition handle_Find :: "'q borders_env \<Rightarrow> 'q geocoder_handle \<Rightarrow> f64 \<Rightarrow> f64 \<Rightarrow> (geo_model_info \<times> bool) option" where
  "handle_Find E g lat lon = (case g of InMemory f \<Rightarrow> Find E f lat lon | OnDisk d \<Rightarrow> disk_Find E d lat lon)"

definition defaultSearchRadius :: f64 where
  "defaultSearchRadius = F64 0x3F847AE147AE147B"

definition serve_radius :: "f64 \<Rightarrow> f64" where
  "serve_radius radius = (if radius \<le> 0 \<or> f64_of_int 180 < radius then defaultSearchRadius else radius)"

text \<open>Two calls of \<open>Read\<close>, whose numbers of bytes are not looked at.\<close>

definition detectV2Cache :: "filesystem \<Rightarrow> gostring \<Rightarrow> bool" where
  "detectV2Cache F file =
     (case fs_Open F file of
        Inl err \<Rightarrow> False
      | Inr st \<Rightarrow>
          (case Read 4 st of
             ((magic, Some err), st) \<Rightarrow> False
           | ((magic, None), st) \<Rightarrow>
               if fill 4 magic \<noteq> MAGIC_BYTES then False
               else
                 (case Read 4 st of
                    ((compatBuf, Some err), st) \<Rightarrow> False
                  | ((compatBuf, None), st) \<Rightarrow> u32_of (fill 4 compatBuf) = COMPATIBILITY_LEVEL_v2)))"

definition serve :: "filesystem \<Rightarrow> mathlib \<Rightarrow> 'q borders_env \<Rightarrow> 't loaders \<Rightarrow> serve_flags \<Rightarrow> ('q geocoder_handle \<times> int) result option" where
  "serve F M E L flags =
     (let radius = serve_radius (fl_searchRadius flags);
          pointsPerThread = (if fl_pointsPerThread flags \<le> 0 then 1000 else fl_pointsPerThread flags);
          opts = [WithLogger, SearchRadius radius] in
      if detectV2Cache F (fl_points flags) then
        map_option (map_sum (\<lambda>e. e) (\<lambda>d. (OnDisk d, pointsPerThread))) (LoadGeoCoderFromFileDisk F E L (fl_points flags) opts)
      else
        map_option (map_sum (\<lambda>e. e) (\<lambda>f. (InMemory f, pointsPerThread))) (LoadGeoCoderFromFile F M E L (fl_points flags) opts))"

text \<open>An uncompressed file: opened it reads as a whole, mapped it is read at any place.\<close>

definition file_holds :: "filesystem \<Rightarrow> gostring \<Rightarrow> byte list \<Rightarrow> bool" where
  "file_holds F name bytes \<longleftrightarrow> fs_Open F name = Inr \<lparr>st_chunks = [bytes], st_end = EOF\<rparr>
     \<and> (\<exists>r. fs_mmap F name = Inr r \<and> reads_file r bytes) \<and> \<not> has_suffix name [0x2E, 0x7A, 0x73, 0x74]"

subsection \<open>The search radius\<close>

lemma default_radius_bits: "\<not> is_nan defaultSearchRadius" "f64_neg defaultSearchRadius = False" "f64_mag defaultSearchRadius = 0x3F847AE147AE147B"
  by (simp_all add: defaultSearchRadius_def is_nan_def f64_neg_def f64_mag_def inf_mag_def hidden_bit_def)

lemma default_radius: "\<not> is_nan defaultSearchRadius" "0 \<le> f64_key defaultSearchRadius" "f64_key defaultSearchRadius \<le> f64_key (f64_of_int 1)"
proof -
  show n: "\<not> is_nan defaultSearchRadius" by (rule default_radius_bits)
  show "0 \<le> f64_key defaultSearchRadius" by (simp add: f64_key_def default_radius_bits)
  have split: "0x3F847AE147AE147B div (2 ^ 52) = (1016 :: nat)" "0x3F847AE147AE147B mod (2 ^ 52) < (2 ^ 52 :: nat)" by simp_all
  have "mag_val 0x3F847AE147AE147B \<le> (2 ^ 52 + 2 ^ 52) * 2 ^ 1015"
    unfolding mag_val_def hidden_bit_def by simp
  also have "\<dots> = (2 :: nat) ^ 53 * 2 ^ 1015" by simp
  also have "\<dots> \<le> 2 ^ 1074" unfolding power_add [symmetric] by (rule power_increasing) simp_all
  finally have "sval defaultSearchRadius \<le> sval (f64_of_int 1)"
    using small_int_exact(1) [of 1] by (simp add: sval_def default_radius_bits small_int_def unit_scale_def)
  then show "f64_key defaultSearchRadius \<le> f64_key (f64_of_int 1)"
    using n small_int_exact(2) [of 1] by (simp add: sval_le_iff is_fin_iff small_int_def)
qed

lemma serve_radius_bounds:
  assumes "\<not> is_nan (serve_radius r)"
  shows "0 \<le> f64_key (serve_radius r)" "f64_key (serve_radius r) \<le> f64_key (f64_of_int 180)"
proof -
  have "f64_key (f64_of_int 1) \<le> f64_key (f64_of_int 180)" using f64_of_int_le_iff [of 1 180] by (simp add: f64_le_iff small_int_def)
  then have "0 \<le> f64_key (serve_radius r) \<and> f64_key (serve_radius r) \<le> f64_key (f64_of_int 180)"
    using default_radius assms
    by (cases "r \<le> 0 \<or> f64_of_int 180 < r") (auto simp: serve_radius_def f64_le_iff f64_less_iff)
  then show "0 \<le> f64_key (serve_radius r)" "f64_key (serve_radius r) \<le> f64_key (f64_of_int 180)" by simp_all
qed

lemma default_serve_radius: "serve_radius (fl_searchRadius (default_serve_flags file_name)) = defaultSearchRadius"
  by (simp add: serve_radius_def default_serve_flags_def f64_le_iff is_nan_def f64_mag_def zero_f64_def inf_mag_def hidden_bit_def)

lemma serve_radius_finite: "\<not> is_pos_inf (serve_radius r * serve_radius r)"
proof (cases "is_nan (serve_radius r)")
  case True
  then show ?thesis using f64_square_nan [OF True] nan64_is_nan is_inf_not_nan by (auto simp: is_pos_inf_def)
next
  case False
  let ?x = "serve_radius r" and ?m = "f64_of_int 180"
  have "f64_key (?x * ?x) \<le> f64_key (?m * ?m)"
    using serve_radius_bounds [OF False] by (intro f64_square_mono) (use False in simp_all)
  also have "?m * ?m = f64_of_int 32400" by (simp add: small_int_def)
  also have "f64_key (f64_of_int 32400) < int inf_mag"
    using small_int_exact(2) [of 32400] abs_f64_key [of "f64_of_int 32400"] by (simp add: small_int_def is_fin_def)
  finally show ?thesis using f64_inf_key by (auto simp: is_pos_inf_def split: if_splits)
qed

subsection \<open>The format of a file\<close>

lemma detect_bytes:
  assumes "file_holds F name bytes" "8 \<le> length bytes" "take 4 bytes = MAGIC_BYTES"
  shows "detectV2Cache F name \<longleftrightarrow> u32_of (drop 4 bytes) = COMPATIBILITY_LEVEL_v2"
proof -
  have "Read 4 \<lparr>st_chunks = [bytes], st_end = EOF\<rparr> = ((MAGIC_BYTES, None), \<lparr>st_chunks = [drop 4 bytes], st_end = EOF\<rparr>)"
    using assms(2,3) by (simp add: Read_def)
  moreover have "fst (Read 4 \<lparr>st_chunks = [drop 4 bytes], st_end = EOF\<rparr>) = (take 4 (drop 4 bytes), None)"
    by (simp add: Read_def)
  moreover have "fill 4 MAGIC_BYTES = MAGIC_BYTES" "fill 4 (take 4 (drop 4 bytes)) = take 4 (drop 4 bytes)"
    using assms(2) by (simp_all add: fill_def MAGIC_BYTES_def)
  ultimately show ?thesis
    using assms(1) by (auto simp: detectV2Cache_def file_holds_def u32_of_def split: prod.splits)
qed

lemma v1_file_prefix:
  assumes "writer_ok w out" and "out s = []"
    and "v1_protos_ok P" and "v1_small P" and "\<forall>kvs. mset (vis kvs) = mset kvs"
    and "length pts + length zones < 2 ^ 32" and "readable_time T (md_DateCreated meta)"
    and "SaveV1 P T vis pts zones meta w s = Some (None, s')"
  shows "take 4 (out s') = MAGIC_BYTES" "u32_of (drop 4 (out s')) = COMPATIBILITY_LEVEL_v1" "8 \<le> length (out s')"
proof -
  obtain s1 s2 where p: "write_one w MAGIC_BYTES s = (None, s1)" "write_one w (put_u32 COMPATIBILITY_LEVEL_v1) s1 = (None, s2)"
    "out s2 = out s @ MAGIC_BYTES @ put_u32 COMPATIBILITY_LEVEL_v1" by (rule prefix_written [OF assms(1)])
  have save: "v1_Save P T vis w pts zones meta s2 = Some (None, s')" using assms(8) p(1,2) by (simp add: SaveV1_def)
  obtain t' where t': "reads_time T (md_DateCreated meta) t'" by (rule readable_timeE [OF assms(7)])
  obtain body where "out s' = out s2 @ body" by (rule v1_Save_Load [OF assms(1,3,4,5,6) t' save]) blast
  then have "out s' = MAGIC_BYTES @ put_u32 COMPATIBILITY_LEVEL_v1 @ body" using p(3) assms(2) by simp
  then show "take 4 (out s') = MAGIC_BYTES" "u32_of (drop 4 (out s')) = COMPATIBILITY_LEVEL_v1" "8 \<le> length (out s')"
    by (simp_all add: length_MAGIC u32_of_put)
qed

lemma concat_pieces: "concat (pieces n c) = c"
  by (induction n c rule: pieces.induct) (simp add: pieces.simps)

lemma buffered_file:
  assumes "8 \<le> length bytes"
  shows "bytes_of (buffered (4 * 1024 * 1024) \<lparr>st_chunks = [bytes], st_end = EOF\<rparr>) = bytes"
    "whole_first_read (buffered (4 * 1024 * 1024) \<lparr>st_chunks = [bytes], st_end = EOF\<rparr>)"
  using assms by (simp_all add: bytes_of_def buffered_def concat_pieces whole_first_read_def pieces.simps [of _ bytes])

subsection \<open>Both formats are served alike\<close>

lemma loadOptions_serve: "o_searchRadius (loadOptions [WithLogger, SearchRadius r]) = r"
  by (simp add: loadOptions_def)

lemma served_alike:
  assumes "writer_ok w out" and "out s = []" and "window_narrows M (length pts)" and "length pts + length zones < 2 ^ 32"
    and "v1_protos_ok (v1_pb L)" and "v1_small (v1_pb L)" and "v2_protos_ok (v2_pb L)" and "v2_fits (v2_pb L) (cal L) pts zones meta"
    and "\<forall>kvs :: (gostring \<times> int) list. mset (vis1 kvs) = mset kvs" and "\<forall>kvs. mset (vis2 kvs) = mset kvs"
    and "readable_time (cal L) (md_DateCreated meta)"
    and "SaveV1 (v1_pb L) (cal L) vis1 pts zones meta w s = Some (None, s1)"
    and "SaveV2 M (v2_pb L) (cal L) vis2 pts zones meta w s = Some (None, s2)"
    and "file_holds F name1 (out s1)" and "file_holds F name2 (out s2)" and "length (out s2) < 2 ^ 63" and "short_texts pts"
  shows "\<exists>g1 g2 n. serve F M E L (flags\<lparr>fl_points := name1\<rparr>) = Some (Inr (g1, n))
    \<and> serve F M E L (flags\<lparr>fl_points := name2\<rparr>) = Some (Inr (g2, n)) \<and> 0 < n
    \<and> (\<forall>lat lon. handle_Find E g1 lat lon = handle_Find E g2 lat lon)"
proof -
  define opts where "opts = [WithLogger, SearchRadius (serve_radius (fl_searchRadius flags))]"
  define st where "st = buffered (4 * 1024 * 1024) \<lparr>st_chunks = [out s1], st_end = EOF\<rparr>"
  note v1 = v1_file_prefix [OF assms(1,2,5,6,9,4,11,12)]
  obtain r where r: "fs_mmap F name2 = Inr r" "reads_file r (out s2)" using assms(15) by (auto simp: file_holds_def)
  have v2: "take 4 (out s2) = MAGIC_BYTES" "u32_of (drop 4 (out s2)) = COMPATIBILITY_LEVEL_v2" "8 \<le> length (out s2)"
    by (rule readable_timeE [OF assms(11)], rule v2_file_opened [OF assms(1-3,7,8,10) _ assms(13) r(2) assms(16)], assumption, blast)+
  have open1: "openReader F name1 = Inr \<lparr>st_chunks = [out s1], st_end = EOF\<rparr>"
    using assms(14) by (simp add: openReader_def file_holds_def)
  have detect: "\<not> detectV2Cache F name1" "detectV2Cache F name2"
    using detect_bytes [OF assms(14) v1(3,1)] detect_bytes [OF assms(15) v2(3,1)] v1(2) v2(2)
    by (simp_all add: COMPATIBILITY_LEVEL_v1_def COMPATIBILITY_LEVEL_v2_def)
  obtain f d where fd: "LoadGeoCoderFromReader M E L st opts = Some (Inr f)" "LoadGeoCoderFromFileDisk F E L name2 opts = Some (Inr d)"
    "m_searchRadius f = o_searchRadius (loadOptions opts)" "d_searchRadius d = o_searchRadius (loadOptions opts)"
    "\<forall>lat lon radius. \<not> is_pos_inf (radius * radius) \<longrightarrow> FindInRadius E f lat lon radius = disk_FindInRadius E d lat lon radius"
    using geocoders_agree [where E = E and opts = opts, OF assms(1-13) buffered_file [OF v1(3)] r assms(16,17)] unfolding st_def by blast
  have "handle_Find E (InMemory f) lat lon = handle_Find E (OnDisk d) lat lon" for lat lon
    using fd(3-5) serve_radius_finite [of "fl_searchRadius flags"]
    by (simp add: handle_Find_def Find_def disk_Find_def opts_def loadOptions_serve)
  moreover have "LoadGeoCoderFromFile F M E L name1 opts = Some (Inr f)"
    using fd(1) open1 by (simp add: LoadGeoCoderFromFile_def st_def)
  ultimately show ?thesis
    using detect fd(2) by (intro exI [of _ "InMemory f"] exI [of _ "OnDisk d"]) (simp add: serve_def opts_def Let_def)
qed

text \<open>
  The format of the cache file does not change what the server answers. When the same
  points and zones are saved in both formats to uncompressed files, and no text has a NUL byte
  or more than 512 bytes, \<open>serve\<close> tells the two files apart by their first eight bytes, loads
  each, hands the same positive number of points per thread to the server, and both geocoders
  give the same answer at every place. No radius has to be excluded: the flag is brought into
  \<open>(0, 180]\<close> before it is used, or is not a number.
\<close>

theorem serve_formats_agree:
  assumes "writer_ok w out" and "out s = []" and "window_narrows M (length pts)" and "length pts + length zones < 2 ^ 32"
    and "v1_protos_ok (v1_pb L)" and "v1_small (v1_pb L)" and "v2_protos_ok (v2_pb L)" and "v2_fits (v2_pb L) (cal L) pts zones meta"
    and "\<forall>kvs :: (gostring \<times> int) list. mset (vis1 kvs) = mset kvs" and "\<forall>kvs. mset (vis2 kvs) = mset kvs"
    and "readable_time (cal L) (md_DateCreated meta)"
    and "SaveV1 (v1_pb L) (cal L) vis1 pts zones meta w s = Some (None, s1)"
    and "SaveV2 M (v2_pb L) (cal L) vis2 pts zones meta w s = Some (None, s2)"
    and "file_holds F name1 (out s1)" and "file_holds F name2 (out s2)" and "length (out s2) < 2 ^ 63" and "short_texts pts"
  shows "\<exists>g1 g2 n. serve F M E L (flags\<lparr>fl_points := name1\<rparr>) = Some (Inr (g1, n))
    \<and> serve F M E L (flags\<lparr>fl_points := name2\<rparr>) = Some (Inr (g2, n)) \<and> 0 < n
    \<and> (\<forall>lat lon. handle_Find E g1 lat lon = handle_Find E g2 lat lon)"
  by (rule served_alike [OF assms])

subsection \<open>A witness\<close>

definition sample_cache_files :: "byte list \<Rightarrow> byte list \<Rightarrow> filesystem" where
  "sample_cache_files v1 v2 =
     (let bytes = \<lambda>name. if name = [1] then v1 else v2 in
      \<lparr>fs_Open = \<lambda>name. Inr \<lparr>st_chunks = [bytes name], st_end = EOF\<rparr>, fs_zstd = Inr, fs_mmap = \<lambda>name. Inr (file_reader (bytes name))\<rparr>)"

lemma sample_cache_files_hold: "file_holds (sample_cache_files v1 v2) [1] v1" "file_holds (sample_cache_files v1 v2) [2] v2"
  using file_reader_ok by (auto simp: file_holds_def sample_cache_files_def has_suffix_def)

lemma serve_formats_agree_witness:
  "\<exists>v1 v2 g1 g2 n. SaveV1 sample_v1_protos sample_calendar (\<lambda>kvs. kvs) sample_pts sample_zones sample_meta buffer_write [] = Some (None, v1)
    \<and> SaveV2 sample_lib sample_v2_protos sample_calendar (\<lambda>kvs. kvs) sample_pts sample_zones sample_meta buffer_write [] = Some (None, v2)
    \<and> serve (sample_cache_files v1 v2) sample_lib sample_env sample_loaders \<lparr>fl_points = [1], fl_searchRadius = f64_of_int 2, fl_pointsPerThread = 0\<rparr> = Some (Inr (g1, n))
    \<and> serve (sample_cache_files v1 v2) sample_lib sample_env sample_loaders \<lparr>fl_points = [2], fl_searchRadius = f64_of_int 2, fl_pointsPerThread = 0\<rparr> = Some (Inr (g2, n))
    \<and> handle_Find sample_env g1 (f64_of_int 50) (f64_of_int 30) = handle_Find sample_env g2 (f64_of_int 50) (f64_of_int 30)"
proof -
  obtain v2 where v2: "SaveV2 sample_lib sample_v2_protos sample_calendar (\<lambda>kvs. kvs) sample_pts sample_zones sample_meta buffer_write [] = Some (None, v2)"
    "length v2 < 2 ^ 63" using sample_SaveV2 by blast
  have n: "window_narrows sample_lib (length sample_pts)" "length sample_pts + length sample_zones < 2 ^ 32" "short_texts sample_pts"
    by (simp_all add: small_window_narrows sample_pts_def sample_zones_def short_texts_def info_strings_def)
  have L: "v1_pb sample_loaders = sample_v1_protos" "v2_pb sample_loaders = sample_v2_protos" "cal sample_loaders = sample_calendar"
    by (simp_all add: sample_loaders_def)
  have ids: "\<forall>kvs :: (gostring \<times> int) list. mset ((\<lambda>kvs. kvs) kvs) = mset kvs" "\<forall>kvs :: (gostring \<times> u32) list. mset ((\<lambda>kvs. kvs) kvs) = mset kvs"
    by simp_all
  from serve_formats_agree [where L = sample_loaders and E = sample_env and flags = "\<lparr>fl_points = [], fl_searchRadius = f64_of_int 2, fl_pointsPerThread = 0\<rparr>",
      unfolded L, OF buffer_write_ok refl n(1,2) sample_v1_ok(1,2) sample_v2_ok sample_v2_fits ids sample_calendar_readable(1) sample_SaveV1 v2(1)
      sample_cache_files_hold v2(2) n(3)] sample_SaveV1 v2(1)
  show ?thesis by (simp only: serve_flags.simps) blast
qed

end
