(* ===== verification/Pipeline.thy ===== *)
theory Pipeline
  imports Generate Serve Geocoder_Search
begin

section \<open>From the database to the answers\<close>

text \<open>
  The stages composed: \<open>ParseOSMData\<close> of \<^verbatim>\<open>geoparser/geogen.go\<close> parses a database and writes a
  cache, \<open>serve\<close> of \<^verbatim>\<open>cmd/main.go\<close> loads it, and the geocoder answers.
\<close>

lemma serve_radius_ok:
  assumes "\<not> is_nan r"
  shows "is_fin (serve_radius r)" "0 \<le> serve_radius r"
proof -
  have n: "\<not> is_nan (serve_radius r)" using assms default_radius(1) by (simp add: serve_radius_def)
  note b = serve_radius_bounds [OF n]
  have "is_fin (f64_of_int 180)" using small_int_exact(2) [of 180] by (simp add: small_int_def)
  then have "f64_mag (serve_radius r) < inf_mag"
    using b abs_f64_key [of "f64_of_int 180"] abs_f64_key [of "serve_radius r"] by (simp add: is_fin_def)
  then show "is_fin (serve_radius r)" by (simp add: is_fin_def)
  show "0 \<le> serve_radius r" using b(1) n by (simp add: f64_nonneg_iff)
qed

lemma loaded_radius:
  "LoadGeoCoderFromReader M E L st opts = Some (Inr f) \<Longrightarrow> m_searchRadius f = o_searchRadius (loadOptions opts)"
  by (auto simp: LoadGeoCoderFromReader_def newRGeoCoder_def Let_def split: option.splits sum.splits prod.splits bind_splits if_splits)

lemma file_stream:
  assumes "file_holds F name bytes" "8 \<le> length bytes"
  shows "LoadGeoCoderFromFile F M E L name opts
    = LoadGeoCoderFromReader M E L (buffered (4 * 1024 * 1024) \<lparr>st_chunks = [bytes], st_end = EOF\<rparr>) opts"
  using assms by (simp add: LoadGeoCoderFromFile_def openReader_def file_holds_def)

subsection \<open>The composition\<close>

text \<open>
  From the database to the answer. A cache that the generator saved in the v1 format is served,
  and for a position with finite coordinates the answer is a point of some object of the
  database within the search radius, or, only when no object has a point nearer than the radius,
  what the borders alone say. Its region and country come from a region or country relation
  around the position, and are missing only if there is none; a region stored with the point
  has precedence. Nothing panics on the way.
\<close>

theorem database_served:
  assumes "env_laws E rects ok" and "length rels < 2 ^ 63" and "ids_ok E (set objs)" and "generates E cfg rels objs f0 s"
    and "saveWorker V cfg now (ps_sent s) (gg_regions (ps_gen s)) (gg_countries (ps_gen s)) outputs = Inr results"
    and "i < length outputs" and "po_Format (outputs ! i) = str ''v1''" and "results ! i = Some (None, w')"
    and "writer_ok (po_Writer (outputs ! i)) out" and "out (po_State (outputs ! i)) = []"
    and "v1_protos_ok (v1_pb (sv_loaders V))" and "v1_small (v1_pb (sv_loaders V))" and "\<forall>kvs. mset (sv_vis1 V kvs) = mset kvs"
    and "length (ps_sent s) + length (gg_regions (ps_gen s)) + length (gg_countries (ps_gen s)) < 2 ^ 32"
    and "readable_time (cal (sv_loaders V)) now"
    and "file_holds F (fl_points flags) (out w')" and "window_narrows M (length (ps_sent s))" and "qtree_laws (e_qtree B) held"
    and "\<forall>p \<in># all_points E f0 objs. is_fin (fst (gp_Point p)) \<and> is_fin (snd (gp_Point p))" and "is_fin lat" and "is_fin lon"
    and "\<not> is_nan (fl_searchRadius flags)" and "r = serve_radius (fl_searchRadius flags)"
  shows "\<exists>g n zones region country. serve F M B (sv_loaders V) flags = Some (Inr (g, n)) \<and> 0 < n
    \<and> mset zones = image_mset (save_zone ZoneRegion) (tally (zones_of_kind RelRegion E f0) (met_relations (set objs)))
        + image_mset (save_zone ZoneCountry) (tally (zones_of_kind RelCountry E f0) (met_relations (set objs)))
    \<and> zone_answer B (stored_zones zones) ZoneRegion lat lon region \<and> zone_answer B (stored_zones zones) ZoneCountry lat lon country
    \<and> ((\<exists>p \<in># all_points E f0 objs. dist_to lat lon (save_point p) \<le> r * r
          \<and> handle_Find B g lat lon = Some (completed region country (pData (save_point p)), True))
       \<or> (\<forall>p \<in># all_points E f0 objs. \<not> dist_to lat lon (save_point p) < r * r)
          \<and> handle_Find B g lat lon = Some (borders_only region country))"
proof -
  define opts where "opts = [WithLogger, SearchRadius r]"
  define st where "st = buffered (4 * 1024 * 1024) \<lparr>st_chunks = [out w'], st_end = EOF\<rparr>"
  define zones where "zones = save_zones (gg_regions (ps_gen s)) (gg_countries (ps_gen s))"
  let ?pts = "map save_point (ps_sent s)"
  note save = worker_saves_v1 [OF assms(5-8), folded zones_def]
  note contents = generates_contents [OF assms(1-4), folded zones_def]
  have small: "length ?pts + length zones < 2 ^ 32" "readable_time (cal (sv_loaders V)) (md_DateCreated (save_meta cfg now))"
    using assms(14,15) by (simp_all add: zones_def save_zones_def save_meta_def)
  note head = v1_file_prefix [OF assms(9-13) small save]
  have l: "LoadFromReader (sv_loaders V) st = Some (Inr (?pts, stored_zones zones))"
    unfolding st_def by (rule v1_file_loaded [OF assms(9-13) small save buffered_file [OF head(3)]])
  have pts: "set ?pts = save_point ` set_mset (all_points E f0 objs)" using contents(1) by (metis set_image_mset set_mset_mset)
  have n: "window_narrows M (length ?pts)" using assms(17) by simp
  have search: "search_ok ?pts lat lon r"
    using assms(19-21) serve_radius_ok [OF assms(22)] serve_radius_finite [of "fl_searchRadius flags"]
    unfolding search_ok_def pts assms(23) by (auto simp: save_point_def)
  have "length (stored_zones zones) \<le> length zones + length zones"
    unfolding stored_zones_def by (simp add: add_mono)
  then have zn: "length (stored_zones zones) < 2 ^ 63" using small(1) by simp
  obtain f region country where f: "LoadGeoCoderFromReader M B (sv_loaders V) st opts = Some (Inr f)"
    "zone_answer B (stored_zones zones) ZoneRegion lat lon region" "zone_answer B (stored_zones zones) ZoneCountry lat lon country"
    "(\<exists>p \<in> set ?pts. dist_to lat lon p \<le> r * r \<and> FindInRadius B f lat lon r = Some (completed region country (pData p), True))
       \<or> (\<forall>p \<in> set ?pts. \<not> dist_to lat lon p < r * r) \<and> FindInRadius B f lat lon r = Some (borders_only region country)"
    using search_answer [OF l n assms(18) zn search, of opts] by blast
  have "\<not> detectV2Cache F (fl_points flags)"
    using detect_bytes [OF assms(16) head(3,1)] head(2) by (simp add: COMPATIBILITY_LEVEL_v1_def COMPATIBILITY_LEVEL_v2_def)
  then obtain k where k: "serve F M B (sv_loaders V) flags = Some (Inr (InMemory f, k))" "0 < k"
    using f(1) file_stream [OF assms(16) head(3), of M B "sv_loaders V" opts] unfolding st_def opts_def assms(23)
    by (simp add: serve_def Let_def)
  have "handle_Find B (InMemory f) lat lon = FindInRadius B f lat lon r"
    using loaded_radius [OF f(1)] by (simp add: handle_Find_def Find_def opts_def loadOptions_serve)
  then have "(\<exists>p \<in># all_points E f0 objs. dist_to lat lon (save_point p) \<le> r * r
          \<and> handle_Find B (InMemory f) lat lon = Some (completed region country (pData (save_point p)), True))
       \<or> (\<forall>p \<in># all_points E f0 objs. \<not> dist_to lat lon (save_point p) < r * r)
          \<and> handle_Find B (InMemory f) lat lon = Some (borders_only region country)"
    using f(4) unfolding pts by (simp only: ball_simps bex_simps)
  then show ?thesis using k f(2,3) contents(2) by blast
qed

subsection \<open>A witness\<close>

lemma database_served_witness:
  "\<exists>s bytes g n region country. generates sample_gen0 sample_config [] sample_database sample_new s
    \<and> saveWorker sample_save sample_config 4 (ps_sent s) (gg_regions (ps_gen s)) (gg_countries (ps_gen s)) sample_outputs = Inr [Some (None, bytes)]
    \<and> serve (sample_cache_files bytes bytes) sample_lib sample_env (sv_loaders sample_save)
        \<lparr>fl_points = [1], fl_searchRadius = f64_of_int 2, fl_pointsPerThread = 0\<rparr> = Some (Inr (g, n))
    \<and> handle_Find sample_env g (f64_of_int 50) (f64_of_int 30) = Some (completed region country (pData (save_point sample_house_point)), True)"
proof (rule sample_generates)
  fix s
  assume s: "generates sample_gen0 sample_config [] sample_database sample_new s" "ps_sent s = [sample_house_point]"
    "gg_regions (ps_gen s) = [\<lparr>gz_Name = str ''R'', gz_Bounds = zero_bound, gz_Polygon = []\<rparr>]" "gg_countries (ps_gen s) = []"
  note save = sample_worker [OF s(2,4,3)]
  define flags where "flags = \<lparr>fl_points = [1], fl_searchRadius = f64_of_int 2, fl_pointsPerThread = 0\<rparr>"
  have r: "serve_radius (f64_of_int 2) = f64_of_int 2"
    using f64_of_int_le_iff [of 2 0] by (simp add: serve_radius_def small_int_def f64_of_int_zero)
  have fin: "is_fin (f64_of_int 30)" "is_fin (f64_of_int 50)" "\<not> is_nan (f64_of_int 2)"
    using small_int_exact(2) [of 30] small_int_exact(2) [of 50] small_int_exact(2) [of 2] by (simp_all add: small_int_def is_fin_iff)
  have near: "dist_to (f64_of_int 50) (f64_of_int 30) (save_point sample_house_point) = f64_of_int 0"
    by (simp add: dist_to_def sqrtDist_def save_point_def sample_house_point_def small_int_def Let_def)
  have less: "f64_of_int 0 < f64_of_int 2 * f64_of_int 2" by (simp add: small_int_def)
  have h: "\<forall>kvs. mset (sv_vis1 sample_save kvs) = mset kvs" "window_narrows sample_lib (length (ps_sent s))"
    "length (ps_sent s) + length (gg_regions (ps_gen s)) + length (gg_countries (ps_gen s)) < 2 ^ 32" "length ([] :: osm_relation list) < 2 ^ 63"
    by (simp_all add: sample_save_laws(8) s(2-4) small_window_narrows)
  have held: "file_holds (sample_cache_files sample_v1_file sample_v1_file) (fl_points flags) sample_v1_file"
    using sample_cache_files_hold(1) by (simp add: flags_def)
  from database_served [where out = "\<lambda>s. s", OF sample_gen0_laws h(4) sample_database_ids s(1) save sample_save_laws(7,4) _ _ _ sample_save_laws(1,2) h(1,3) sample_save_laws(3) held h(2)
      sample_search(2) _ fin(2,1) _ refl]
  obtain g n region country where g: "serve (sample_cache_files sample_v1_file sample_v1_file) sample_lib sample_env (sv_loaders sample_save) flags = Some (Inr (g, n))"
    "handle_Find sample_env g (f64_of_int 50) (f64_of_int 30) = Some (completed region country (pData (save_point sample_house_point)), True)"
    using fin near less buffer_write_ok unfolding sample_database_points [OF sample_new_plain] by (auto simp: sample_save_laws flags_def sample_house_point_def r)
  then show ?thesis using s(1) save unfolding flags_def by blast
qed

end
