(* ===== verification/Concurrently.thy ===== *)
theory Concurrently
  imports Prelude
begin

section \<open>Several iterators at once\<close>

text \<open>
  \<open>iterConcurrently\<close> of \<^verbatim>\<open>geoparser/fill_cache.go\<close>: a goroutine for each source sends its items
  into one channel, another waits for them and closes it, and the caller of the iterator receives.
  The sources run at any speed. \<open>go_on\<close> is what the caller's \<open>yield\<close> returns for an item.
\<close>

record 'a merge_run =
  mr_sources :: "'a list list"
  mr_out :: "'a list"
  mr_closed :: bool
  mr_yielded :: "'a list"
  mr_returned :: bool

definition merge_init :: "'a list list \<Rightarrow> 'a merge_run" where
  "merge_init sources = \<lparr>mr_sources = sources, mr_out = [], mr_closed = False, mr_yielded = [], mr_returned = False\<rparr>"

text \<open>The channel has room for one item of each source.\<close>

inductive merge_step :: "('a \<Rightarrow> bool) \<Rightarrow> 'a merge_run \<Rightarrow> 'a merge_run \<Rightarrow> bool"
  for go_on :: "'a \<Rightarrow> bool" where
  send: "i < length (mr_sources s) \<Longrightarrow> mr_sources s ! i = x # rest \<Longrightarrow> length (mr_out s) < length (mr_sources s)
    \<Longrightarrow> merge_step go_on s (s\<lparr>mr_sources := (mr_sources s)[i := rest], mr_out := mr_out s @ [x]\<rparr>)"
| close: "\<forall>source \<in> set (mr_sources s). source = [] \<Longrightarrow> \<not> mr_closed s \<Longrightarrow> merge_step go_on s (s\<lparr>mr_closed := True\<rparr>)"
| yields: "mr_out s = x # rest \<Longrightarrow> \<not> mr_returned s
    \<Longrightarrow> merge_step go_on s (s\<lparr>mr_out := rest, mr_yielded := mr_yielded s @ [x], mr_returned := \<not> go_on x\<rparr>)"
| ends: "mr_out s = [] \<Longrightarrow> mr_closed s \<Longrightarrow> \<not> mr_returned s \<Longrightarrow> merge_step go_on s (s\<lparr>mr_returned := True\<rparr>)"

definition iterConcurrently :: "('a \<Rightarrow> bool) \<Rightarrow> 'a list list \<Rightarrow> 'a list \<Rightarrow> bool" where
  "iterConcurrently go_on sources items \<longleftrightarrow>
     (\<exists>s. (merge_step go_on)\<^sup>*\<^sup>* (merge_init sources) s \<and> mr_returned s \<and> items = mr_yielded s)"

subsection \<open>Merging\<close>

text \<open>A merge keeps the order of each source.\<close>

inductive merges :: "'a list list \<Rightarrow> 'a list \<Rightarrow> bool" where
  merges_done: "\<forall>source \<in> set sources. source = [] \<Longrightarrow> merges sources []"
| merges_next: "i < length sources \<Longrightarrow> sources ! i = x # rest \<Longrightarrow> merges (sources[i := rest]) items \<Longrightarrow> merges sources (x # items)"

lemma mset_concat_update:
  assumes "i < length xss" "xss ! i = x # rest"
  shows "mset (concat xss) = add_mset x (mset (concat (xss[i := rest])))"
proof -
  have "xss = take i xss @ (x # rest) # drop (Suc i) xss" using assms by (metis id_take_nth_drop)
  then have "mset (concat xss) = mset (concat (take i xss)) + mset (x # rest) + mset (concat (drop (Suc i) xss))"
    by (metis concat.simps(2) concat_append mset_append union_assoc)
  moreover have "xss[i := rest] = take i xss @ rest # drop (Suc i) xss" using assms(1) by (rule upd_conv_take_nth_drop)
  ultimately show ?thesis by simp
qed

lemma merges_mset: "merges sources items \<Longrightarrow> mset items = mset (concat sources)"
proof (induction rule: merges.induct)
  case (merges_done sources)
  then have "concat sources = []" by simp
  then show ?case by simp
next
  case (merges_next i sources x rest items)
  then show ?case using mset_concat_update [OF merges_next.hyps(1,2)] by simp
qed

lemma some_merge: "\<exists>items. merges sources items"
proof (induction "length (concat sources)" arbitrary: sources)
  case 0
  then have "\<forall>source \<in> set sources. source = []" by simp
  then show ?case using merges_done by blast
next
  case (Suc n)
  then have "\<exists>source \<in> set sources. source \<noteq> []" by (metis concat_eq_Nil_conv length_0_conv nat.simps(3))
  then obtain i x rest where i: "i < length sources" "sources ! i = x # rest" by (metis in_set_conv_nth neq_Nil_conv)
  have "length (concat sources) = Suc (length (concat (sources[i := rest])))"
    using mset_concat_update [OF i] by (metis size_add_mset size_mset)
  then obtain items where "merges (sources[i := rest]) items" using Suc by (metis nat.inject)
  then show ?case using merges_next [OF i] by blast
qed

subsection \<open>The invariant\<close>

text \<open>Whatever merges what is left completes what was sent to a merge of the sources.\<close>

definition merge_inv :: "('a \<Rightarrow> bool) \<Rightarrow> 'a list list \<Rightarrow> 'a merge_run \<Rightarrow> bool" where
  "merge_inv go_on sources s \<longleftrightarrow>
     (\<forall>items. merges (mr_sources s) items \<longrightarrow> merges sources (mr_yielded s @ mr_out s @ items))
     \<and> (mr_closed s \<longrightarrow> (\<forall>source \<in> set (mr_sources s). source = []))
     \<and> (mr_returned s \<longrightarrow> mr_closed s \<and> mr_out s = [] \<or> (\<exists>items x. mr_yielded s = items @ [x] \<and> \<not> go_on x))
     \<and> (\<forall>x \<in> set (butlast (mr_yielded s)). go_on x) \<and> (\<not> mr_returned s \<longrightarrow> (\<forall>x \<in> set (mr_yielded s). go_on x))"

lemma merge_inv_init: "merge_inv go_on sources (merge_init sources)"
  by (simp add: merge_inv_def merge_init_def)

lemma merge_inv_step:
  assumes "merge_inv go_on sources s" "merge_step go_on s s'"
  shows "merge_inv go_on sources s'"
  using assms(2,1)
proof cases
  case (send i x rest)
  have "\<not> mr_closed s" using send(2,3) assms(1) nth_mem [OF send(2)] by (auto simp: merge_inv_def)
  then show ?thesis using assms(1) send merges_next [OF send(2,3)] by (auto simp: merge_inv_def)
qed (auto simp: merge_inv_def butlast_append)

definition merge_cost :: "'a merge_run \<Rightarrow> nat" where
  "merge_cost s = 2 * length (concat (mr_sources s)) + length (mr_out s) + (if mr_closed s then 0 else 1) + (if mr_returned s then 0 else 1)"

lemma merge_step_cost:
  assumes "merge_step go_on s s'"
  shows "merge_cost s' < merge_cost s"
  using assms
proof cases
  case (send i x rest)
  then have "length (concat (mr_sources s)) = Suc (length (concat ((mr_sources s)[i := rest])))"
    using mset_concat_update [OF send(2,3)] by (metis size_add_mset size_mset)
  then show ?thesis using send(1) by (simp add: merge_cost_def)
qed (simp_all add: merge_cost_def)

lemma merge_progress:
  assumes "\<not> mr_returned s"
  shows "\<exists>s'. merge_step go_on s s'"
proof (cases "mr_out s")
  case Nil
  show ?thesis
  proof (cases "\<forall>source \<in> set (mr_sources s). source = []")
    case True
    then show ?thesis using merge_step.close [OF True] merge_step.ends [OF Nil _ assms] by blast
  next
    case False
    then obtain i x rest where i: "i < length (mr_sources s)" "mr_sources s ! i = x # rest" by (metis in_set_conv_nth neq_Nil_conv)
    then have "length (mr_out s) < length (mr_sources s)" using Nil by (cases "mr_sources s") simp_all
    from merge_step.send [OF i this] show ?thesis by blast
  qed
next
  case (Cons x rest)
  from merge_step.yields [OF this assms] show ?thesis by blast
qed

interpretation merge: process "merge_step go_on" "merge_inv go_on sources" mr_returned merge_cost for go_on sources
  by unfold_locales (auto intro: merge_inv_step merge_progress merge_step_cost)

subsection \<open>What is yielded\<close>

lemma iterConcurrently_ends: "\<exists>items. iterConcurrently go_on sources items"
  using merge.ends [OF merge_inv_init] by (auto simp: iterConcurrently_def)

text \<open>The items yielded begin a merge of the sources, and end it unless the caller stopped at one.\<close>

lemma iterConcurrently_yields:
  assumes "iterConcurrently go_on sources items"
  shows "\<exists>more. merges sources (items @ more)
    \<and> ((more = [] \<and> (\<forall>x \<in> set items. go_on x)) \<or> (\<exists>xs x. items = xs @ [x] \<and> \<not> go_on x \<and> (\<forall>y \<in> set xs. go_on y)))"
proof -
  obtain s where s: "(merge_step go_on)\<^sup>*\<^sup>* (merge_init sources) s" "mr_returned s" "items = mr_yielded s"
    using assms(1) by (auto simp: iterConcurrently_def)
  have inv: "merge_inv go_on sources s" by (rule merge.inv_steps [OF s(1) merge_inv_init])
  show ?thesis
  proof (cases "\<exists>xs x. items = xs @ [x] \<and> \<not> go_on x")
    case True
    obtain more where "merges (mr_sources s) more" using some_merge by blast
    then have "merges sources (items @ mr_out s @ more)" using inv s(3) by (simp add: merge_inv_def)
    moreover obtain xs x where "items = xs @ [x]" "\<not> go_on x" using True by blast
    moreover from this have "\<forall>y \<in> set xs. go_on y" using inv s(3) by (simp add: merge_inv_def)
    ultimately show ?thesis by blast
  next
    case False
    then have "mr_closed s" "mr_out s = []" using inv s(2,3) by (auto simp: merge_inv_def)
    then have "merges (mr_sources s) []" using inv merges_done by (auto simp: merge_inv_def)
    then have "merges sources (items @ [])" using inv s(3) \<open>mr_out s = []\<close> by (auto simp: merge_inv_def)
    moreover have "\<forall>x \<in> set items. go_on x"
    proof (cases items rule: rev_cases)
      case (snoc xs x)
      then have "\<forall>y \<in> set xs. go_on y" using inv s(3) by (simp add: merge_inv_def)
      then show ?thesis using False snoc by auto
    qed simp
    ultimately show ?thesis by blast
  qed
qed

text \<open>Every merge of the sources can come, when the caller does not stop.\<close>

lemma merge_runs:
  assumes "merges sources items" "\<forall>x \<in> set items. go_on x"
    and "mr_sources s = sources" "mr_out s = []" "\<not> mr_closed s" "\<not> mr_returned s"
  shows "\<exists>s'. (merge_step go_on)\<^sup>*\<^sup>* s s' \<and> mr_returned s' \<and> mr_yielded s' = mr_yielded s @ items"
  using assms
proof (induction arbitrary: s rule: merges.induct)
  case (merges_done sources)
  let ?c = "s\<lparr>mr_closed := True\<rparr>"
  have "merge_step go_on s ?c" by (rule merge_step.close) (use merges_done in simp_all)
  moreover have "merge_step go_on ?c (?c\<lparr>mr_returned := True\<rparr>)" by (rule merge_step.ends) (use merges_done in simp_all)
  ultimately have "(merge_step go_on)\<^sup>*\<^sup>* s (?c\<lparr>mr_returned := True\<rparr>)" by (meson converse_rtranclp_into_rtranclp r_into_rtranclp)
  then show ?case by (intro exI [of _ "?c\<lparr>mr_returned := True\<rparr>"]) simp
next
  case (merges_next i sources x rest items)
  let ?a = "s\<lparr>mr_sources := (mr_sources s)[i := rest], mr_out := mr_out s @ [x]\<rparr>"
  let ?b = "?a\<lparr>mr_out := [], mr_yielded := mr_yielded ?a @ [x], mr_returned := \<not> go_on x\<rparr>"
  have "length (mr_out s) < length (mr_sources s)" using merges_next.hyps(1) merges_next.prems(2,3) by (cases sources) simp_all
  then have "merge_step go_on s ?a" using merges_next.hyps(1,2) merges_next.prems(2) by (intro merge_step.send) simp_all
  moreover have "merge_step go_on ?a ?b" by (rule merge_step.yields) (use merges_next.prems in simp_all)
  ultimately have ab: "(merge_step go_on)\<^sup>*\<^sup>* s ?b" by (meson converse_rtranclp_into_rtranclp r_into_rtranclp)
  obtain s' where "(merge_step go_on)\<^sup>*\<^sup>* ?b s'" "mr_returned s'" "mr_yielded s' = mr_yielded ?b @ items"
    using merges_next.IH [of ?b] merges_next.prems by auto
  then show ?case using rtranclp_trans [OF ab] by (intro exI [of _ s']) auto
qed

lemma iterConcurrently_iff:
  assumes "\<forall>x \<in> set (concat sources). go_on x"
  shows "iterConcurrently go_on sources items \<longleftrightarrow> merges sources items"
proof
  assume "merges sources items"
  moreover from merges_mset [OF this] have "\<forall>x \<in> set items. go_on x" using assms by (metis set_mset_mset)
  ultimately show "iterConcurrently go_on sources items"
    using merge_runs [of sources items go_on "merge_init sources"] by (auto simp: merge_init_def iterConcurrently_def)
next
  assume "iterConcurrently go_on sources items"
  from iterConcurrently_yields [OF this] obtain more where m: "merges sources (items @ more)"
    "more = [] \<or> (\<exists>xs x. items = xs @ [x] \<and> \<not> go_on x)" by blast
  have "\<forall>x \<in> set items. go_on x" using merges_mset [OF m(1)] assms by (metis UnI1 set_append set_mset_mset)
  then have "more = []" using m(2) by auto
  then show "merges sources items" using m(1) by simp
qed

end
