(* ===== verification/Commands.thy ===== *)
theory Commands
  imports Pipeline Concurrently
begin

section \<open>The generate command\<close>

text \<open>
  \<open>generate\<close> of \<^verbatim>\<open>cmd/main.go\<close>: the flags are checked, the maps are opened, the output files are
  created, and the generator fills them. What it calls outside the repository is in
  \<open>command_env\<close>: the set-up of telemetry and profiling by its error, the maps, the database
  and the files that it creates. Reading the flags \<open>threads\<close> and \<open>cache-format\<close> has no
  effect, and the collector of statistics runs beside it (\<open>Collector\<close>).
\<close>

record generate_flags =
  gf_output :: "gostring option"
  gf_outputV2 :: "gostring option"
  gf_input :: "gostring list"
  gf_threads :: int
  gf_version :: int
  gf_localization :: gostring
  gf_profile :: bool
  gf_heap :: bool

definition default_generate_flags :: generate_flags where
  "default_generate_flags = \<lparr>gf_output = None, gf_outputV2 = None, gf_input = [], gf_threads = 0, gf_version = 0,
     gf_localization = str ''official'', gf_profile = False, gf_heap = False\<rparr>"

text \<open>Each iterator of the database yields its items and errors.\<close>

record osm_db =
  db_Nodes :: "osm_node result list"
  db_Ways :: "osm_way result list"
  db_Relations :: "osm_relation result list"

record ('r, 'w) command_env =
  ce_gomaxprocs :: int
  ce_telemetry :: "error option"
  ce_profile :: "error option"
  ce_heap :: "error option"
  ce_mmap :: "gostring \<Rightarrow> 'r result"
  ce_OpenMultiDB :: "'r list \<Rightarrow> osm_db result"
  ce_create :: "gostring \<Rightarrow> ('w writer \<times> 'w) result"

fun open_inputs :: "(gostring \<Rightarrow> 'r result) \<Rightarrow> gostring list \<Rightarrow> 'r list result" where
  "open_inputs mmap [] = Inr []"
| "open_inputs mmap (input # inputs) =
     (case mmap input of
        Inl err \<Rightarrow> Inl err
      | Inr r \<Rightarrow> map_sum (\<lambda>err. err) ((#) r) (open_inputs mmap inputs))"

definition generate_config :: "int \<Rightarrow> generate_flags \<Rightarrow> config" where
  "generate_config gomaxprocs gf =
     (ConfigDefault gomaxprocs)\<lparr>PreferredLocalization := (if gf_localization gf = str ''official'' then [] else gf_localization gf),
       cfg_Version := word_of_int (gf_version gf)\<rparr>"

definition setup_telemetry :: "('r, 'w) command_env \<Rightarrow> unit result" where
  "setup_telemetry X = (case ce_telemetry X of Some err \<Rightarrow> Inl (Wrap ''error setting up telemetry'' err) | None \<Rightarrow> Inr ())"

definition open_database :: "('r, 'w) command_env \<Rightarrow> generate_flags \<Rightarrow> osm_db result" where
  "open_database X gf =
     (case (if gf_profile gf then ce_profile X else None) of
        Some err \<Rightarrow> Inl err
      | None \<Rightarrow>
          (case open_inputs (ce_mmap X) (gf_input gf) of
             Inl err \<Rightarrow> Inl err
           | Inr readers \<Rightarrow> ce_OpenMultiDB X readers))"

definition generate_setup :: "('r, 'w) command_env \<Rightarrow> generate_flags \<Rightarrow> (config \<times> osm_db) result" where
  "generate_setup X gf =
     (case setup_telemetry X of
        Inl err \<Rightarrow> Inl err
      | Inr _ \<Rightarrow>
          (case open_database X gf of
             Inl err \<Rightarrow> Inl err
           | Inr db \<Rightarrow> Inr (generate_config (ce_gomaxprocs X) gf, db)))"

lemma default_generate_config:
  "generate_config n default_generate_flags = (ConfigDefault n)\<lparr>cfg_Version := 0\<rparr>"
  by (simp add: generate_config_def default_generate_flags_def ConfigDefault_def)

subsection \<open>The outputs\<close>

definition rgc_path :: "gostring \<Rightarrow> gostring" where
  "rgc_path path = (if has_suffix path (str ''.rgc'') then path else path @ str ''.rgc'')"

text \<open>An empty name is no output.\<close>

definition open_output :: "('r, 'w) command_env \<Rightarrow> gostring \<Rightarrow> gostring option \<Rightarrow> (gostring \<times> 'w parse_output) list result" where
  "open_output X format flag =
     (let path = (case flag of None \<Rightarrow> [] | Some path \<Rightarrow> path) in
      if path = [] then Inr []
      else map_sum (\<lambda>err. err) (\<lambda>(w, s). [(rgc_path path, \<lparr>po_Format = format, po_Writer = w, po_State = s\<rparr>)]) (ce_create X (rgc_path path)))"

text \<open>The outputs that were created, also when the second cannot be.\<close>

definition open_outputs :: "('r, 'w) command_env \<Rightarrow> generate_flags \<Rightarrow> error option \<times> (gostring \<times> 'w parse_output) list" where
  "open_outputs X gf =
     (case open_output X (str ''v1'') (gf_output gf) of
        Inl err \<Rightarrow> (Some err, [])
      | Inr v1 \<Rightarrow>
          (case open_output X (str ''v2'') (gf_outputV2 gf) of
             Inl err \<Rightarrow> (Some err, v1)
           | Inr v2 \<Rightarrow> (None, v1 @ v2)))"

subsection \<open>The run\<close>

definition castIterToObject :: "('i \<Rightarrow> osm_object) \<Rightarrow> 'i result list \<Rightarrow> osm_object result list" where
  "castIterToObject obj source = map (map_sum (\<lambda>err. err) obj) source"

definition object_sources :: "osm_db \<Rightarrow> osm_object result list list" where
  "object_sources db = [castIterToObject ObjNode (db_Nodes db), castIterToObject ObjWay (db_Ways db), castIterToObject ObjRelation (db_Relations db)]"

text \<open>
  A run of \<open>ParseOSMData\<close> that returns: without an error of the database, as \<open>OsmRun\<close> shows, so its loop over the
  objects goes on to the end. The result has what each saver returned.
\<close>

definition ParseOSMData :: "('q, 'm, 'b) gen_env \<Rightarrow> 't save_env \<Rightarrow> 't \<Rightarrow> config \<Rightarrow> osm_db \<Rightarrow> 'w parse_output list
    \<Rightarrow> (error option \<times> 'w) option list \<Rightarrow> bool" where
  "ParseOSMData E V now cfg db outputs results \<longleftrightarrow>
     (\<exists>rels objs f0 s. db_Relations db = map Inr rels \<and> iterConcurrently (\<lambda>x. \<not> isl x) (object_sources db) (map Inr objs)
        \<and> generates E cfg rels objs f0 s
        \<and> saveWorker V cfg now (ps_sent s) (gg_regions (ps_gen s)) (gg_countries (ps_gen s)) outputs = Inr results)"

text \<open>\<open>errgroup\<close> returns the first error that a saver returns, whichever that is.\<close>

definition savers_error :: "(error option \<times> 'w) list \<Rightarrow> error option \<Rightarrow> bool" where
  "savers_error results err \<longleftrightarrow>
     (case err of None \<Rightarrow> \<forall>r \<in> set results. fst r = None | Some e \<Rightarrow> \<exists>r \<in> set results. fst r = Some e)"

definition no_output_set :: "generate_flags \<Rightarrow> bool" where
  "no_output_set gf \<longleftrightarrow> gf_output gf = None \<and> gf_outputV2 gf = None"

text \<open>\<open>generate\<close> may end with an error or none, and the files it created, each in its last state.\<close>

definition generate :: "('q, 'm, 'b) gen_env \<Rightarrow> 't save_env \<Rightarrow> ('r, 'w) command_env \<Rightarrow> 't \<Rightarrow> generate_flags
    \<Rightarrow> error option \<times> (gostring \<times> 'w) list \<Rightarrow> bool" where
  "generate E V X now gf res \<longleftrightarrow>
     (if no_output_set gf then res = (Some (Err ''either 'output' or 'output-v2' must be set''), [])
      else
        (case generate_setup X gf of
           Inl err \<Rightarrow> res = (Some err, [])
         | Inr (cfg, db) \<Rightarrow>
             (case open_outputs X gf of
                (Some err, outs) \<Rightarrow> res = (Some err, map (\<lambda>(path, out). (path, po_State out)) outs)
              | (None, []) \<Rightarrow> res = (None, [])
              | (None, outs) \<Rightarrow>
                  (\<exists>results err. ParseOSMData E V now cfg db (map snd outs) (map Some results) \<and> savers_error results err
                     \<and> res = (case err of
                          Some e \<Rightarrow> Some (Wrap ''error parsing osm with error'' e)
                        | None \<Rightarrow> if gf_heap gf then map_option (Wrap ''error writing heap profile'') (ce_heap X) else None,
                        zip (map fst outs) (map snd results))))))"

definition analyze :: "filesystem \<Rightarrow> 't loaders \<Rightarrow> gostring \<Rightarrow> (printed \<times> error option) option" where
  "analyze F L points_flag = PrintCacheSizeAnalysisForFile F L points_flag"

subsection \<open>What a run without an error has done\<close>

lemma rgc_path_suffix: "has_suffix (rgc_path path) (str ''.rgc'')"
  by (simp add: rgc_path_def has_suffix_def)

lemma castIterToObject_Inr: "castIterToObject obj (map Inr xs) = map Inr (map obj xs)"
  by (simp add: castIterToObject_def)

text \<open>The objects come in any order that keeps the one of each kind.\<close>

lemma object_order:
  assumes "iterConcurrently (\<lambda>x. \<not> isl x) (object_sources \<lparr>db_Nodes = map Inr nodes, db_Ways = map Inr ways, db_Relations = map Inr rels\<rparr>) (map Inr objs)"
  shows "mset objs = mset (map ObjNode nodes @ map ObjWay ways @ map ObjRelation rels)"
proof -
  obtain more where m: "merges (object_sources \<lparr>db_Nodes = map Inr nodes, db_Ways = map Inr ways, db_Relations = map Inr rels\<rparr>) (map Inr objs @ more)"
    "more = [] \<or> (\<exists>xs x. map Inr objs = xs @ [x :: osm_object result] \<and> isl x)"
    using iterConcurrently_yields [OF assms] unfolding not_not by blast
  have "\<not> isl x" if "map Inr objs = xs @ [x]" for xs :: "osm_object result list" and x
    using that by (metis in_set_conv_decomp in_set_conv_nth length_map nth_map sum.disc(2))
  then have "more = []" using m(2) by blast
  then have "mset (map Inr objs :: osm_object result list) = mset (map Inr (map ObjNode nodes @ map ObjWay ways @ map ObjRelation rels))"
    using merges_mset [OF m(1)] by (simp add: object_sources_def castIterToObject_Inr)
  then have "image_mset Inr (mset objs) = (image_mset Inr (mset (map ObjNode nodes @ map ObjWay ways @ map ObjRelation rels)) :: osm_object result multiset)"
    by (simp only: mset_map)
  then show ?thesis by (rule injD [OF multiset.inj_map, rotated]) (simp add: inj_def)
qed

lemma all_points_order:
  assumes "mset objs = mset objs'"
  shows "all_points E f objs = all_points E f objs'"
proof -
  have "sum_list (map g objs) = sum_list (map g objs')" for g :: "osm_object \<Rightarrow> geo_point multiset"
    using assms by (metis mset_map sum_mset_sum_list)
  then show ?thesis unfolding all_points_def using mset_eq_setD [OF assms] by simp
qed

text \<open>A run without an error that was given an output saved it in the v1 format.\<close>

lemma generate_saves:
  assumes "generate E V X now gf (None, files)" and "generate_setup X gf = Inr (cfg, db)"
    and "gf_output gf = Some name" "name \<noteq> []" and "ce_create X (rgc_path name) = Inr (wr, w0)"
  obtains outputs results w rest where "files = (rgc_path name, w) # rest" "ParseOSMData E V now cfg db outputs results"
    "0 < length outputs" "outputs ! 0 = \<lparr>po_Format = str ''v1'', po_Writer = wr, po_State = w0\<rparr>" "results ! 0 = Some (None, w)"
proof -
  let ?o = "\<lparr>po_Format = str ''v1'', po_Writer = wr, po_State = w0\<rparr>"
  have v1: "open_output X (str ''v1'') (gf_output gf) = Inr [(rgc_path name, ?o)]"
    using assms(3-5) by (simp add: open_output_def)
  show thesis
  proof (cases "open_output X (str ''v2'') (gf_outputV2 gf)")
    case (Inl err)
    then show ?thesis using assms(1,3) v1 by (simp add: generate_def no_output_set_def assms(2) open_outputs_def)
  next
    case (Inr v2)
    let ?outs = "(rgc_path name, ?o) # v2"
    have "open_outputs X gf = (None, ?outs)" by (simp add: open_outputs_def v1 Inr)
    then obtain results err where run: "ParseOSMData E V now cfg db (map snd ?outs) (map Some results)" "savers_error results err"
      "None = (case err of Some e \<Rightarrow> Some (Wrap ''error parsing osm with error'' e)
         | None \<Rightarrow> if gf_heap gf then map_option (Wrap ''error writing heap profile'') (ce_heap X) else None)"
      "files = zip (map fst ?outs) (map snd results)"
      using assms(1,3) by (auto simp: generate_def no_output_set_def assms(2))
    have "length (map Some results) = length (map snd ?outs)"
      using run(1) save_outputs_nth unfolding ParseOSMData_def saveWorker_def by blast
    then obtain r rs where r: "results = r # rs" by (cases results) simp_all
    have "err = None" using run(3) by (cases err) simp_all
    then have "fst r = None" using run(2) r by (simp add: savers_error_def)
    then have "map Some results ! 0 = Some (None, snd r)" using r by (cases r) simp
    then show ?thesis using that [OF _ run(1), of "snd r"] run(4) r by simp
  qed
qed

subsection \<open>The property\<close>

text \<open>
  C1. From the commands to the answer. After \<open>generate\<close> with a name for its output has ended without an error,
  the file, whose name ends with \<open>.rgc\<close>, is served by \<open>serve\<close>, and for a position with finite coordinates the answer is a
  point of some object of the maps within the search radius, or, only when no object has a
  point nearer than the radius, what the borders alone say. Its region and country come from a
  region or country relation around the position, and are missing only if there is none; a region
  stored with the point has precedence. Neither \<open>serve\<close> nor the search panics, and neither the order in which
  the objects are read nor that in which they are parsed matters, nor the time of the run, of which the file
  keeps whole seconds.
\<close>

theorem generated_and_served:
  assumes "env_laws E rects ok" and "length rels < 2 ^ 63" and "ids_ok E (set objs)"
    and "objs = map ObjNode nodes @ map ObjWay ways @ map ObjRelation rels"
    and "generate_setup X gf = Inr (cfg, \<lparr>db_Nodes = map Inr nodes, db_Ways = map Inr ways, db_Relations = map Inr rels\<rparr>)"
    and "fillRelCache E (map Inr rels) (NewGeoGen E cfg) = Some (None, f0)"
    and "gf_output gf = Some name" and "name \<noteq> []" and "ce_create X (rgc_path name) = Inr (wr, w0)"
    and "writer_ok wr out" and "out w0 = []"
    and "generate E V X now gf (None, files)" and "files ! 0 = (path, w)"
    and "v1_protos_ok (v1_pb (sv_loaders V))" and "v1_small (v1_pb (sv_loaders V))" and "\<forall>kvs. mset (sv_vis1 V kvs) = mset kvs"
    and "readable_time (cal (sv_loaders V)) now"
    and "size (all_points E f0 objs) + size (tally (zones_of_kind RelRegion E f0) (met_relations (set objs)))
        + size (tally (zones_of_kind RelCountry E f0) (met_relations (set objs))) < 2 ^ 32"
    and "file_holds F path (out w)" and "fl_points flags = path" and "window_narrows M (size (all_points E f0 objs))" and "qtree_laws (e_qtree B) held"
    and "\<forall>p \<in># all_points E f0 objs. is_fin (fst (gp_Point p)) \<and> is_fin (snd (gp_Point p))" and "is_fin lat" and "is_fin lon"
    and "\<not> is_nan (fl_searchRadius flags)" and "r = serve_radius (fl_searchRadius flags)"
  shows "has_suffix path (str ''.rgc'') \<and> (\<exists>g n zones region country. serve F M B (sv_loaders V) flags = Some (Inr (g, n)) \<and> 0 < n
    \<and> mset zones = image_mset (save_zone ZoneRegion) (tally (zones_of_kind RelRegion E f0) (met_relations (set objs)))
        + image_mset (save_zone ZoneCountry) (tally (zones_of_kind RelCountry E f0) (met_relations (set objs)))
    \<and> zone_answer B (stored_zones zones) ZoneRegion lat lon region \<and> zone_answer B (stored_zones zones) ZoneCountry lat lon country
    \<and> ((\<exists>p \<in># all_points E f0 objs. dist_to lat lon (save_point p) \<le> r * r
          \<and> handle_Find B g lat lon = Some (completed region country (pData (save_point p)), True))
       \<or> (\<forall>p \<in># all_points E f0 objs. \<not> dist_to lat lon (save_point p) < r * r)
          \<and> handle_Find B g lat lon = Some (borders_only region country)))"
proof -
  obtain outputs results rest where o: "files = (rgc_path name, w) # rest"
    "ParseOSMData E V now cfg \<lparr>db_Nodes = map Inr nodes, db_Ways = map Inr ways, db_Relations = map Inr rels\<rparr> outputs results"
    "0 < length outputs" "outputs ! 0 = \<lparr>po_Format = str ''v1'', po_Writer = wr, po_State = w0\<rparr>" "results ! 0 = Some (None, w)"
    by (rule generate_saves [OF assms(12,5,7,8,9)]) (use assms(13) in auto)
  have path: "path = rgc_path name" using o(1) assms(13) by simp
  obtain rels' objs' f0' s where run: "map Inr rels = (map Inr rels' :: osm_relation result list)"
    "iterConcurrently (\<lambda>x. \<not> isl x) (object_sources \<lparr>db_Nodes = map Inr nodes, db_Ways = map Inr ways, db_Relations = map Inr rels\<rparr>) (map Inr objs')"
    "generates E cfg rels' objs' f0' s"
    "saveWorker V cfg now (ps_sent s) (gg_regions (ps_gen s)) (gg_countries (ps_gen s)) outputs = Inr results"
    using o(2) by (auto simp: ParseOSMData_def)
  have eqs: "rels' = rels" using run(1) by (simp add: inj_map_eq_map inj_def)
  have f0: "f0' = f0" using run(3) assms(6) by (simp add: generates_def eqs)
  note gen = run(3) [unfolded eqs f0]
  have order: "mset objs' = mset objs" using object_order [OF run(2)] by (simp add: assms(4))
  note same = mset_eq_setD [OF order] all_points_order [OF order]
  have ids: "ids_ok E (set objs')" using assms(3) same(1) by simp
  have "mset (ps_sent s) = all_points E f0 objs
    \<and> mset (gg_regions (ps_gen s)) = tally (zones_of_kind RelRegion E f0) (met_relations (set objs))
    \<and> mset (gg_countries (ps_gen s)) = tally (zones_of_kind RelCountry E f0) (met_relations (set objs))"
    using parse_result [OF assms(1,2) ids assms(6)] gen unfolding generates_def same by blast
  then have sizes: "length (ps_sent s) = size (all_points E f0 objs)"
    "length (gg_regions (ps_gen s)) = size (tally (zones_of_kind RelRegion E f0) (met_relations (set objs)))"
    "length (gg_countries (ps_gen s)) = size (tally (zones_of_kind RelCountry E f0) (met_relations (set objs)))"
    by (metis size_mset)+
  have h: "length (ps_sent s) + length (gg_regions (ps_gen s)) + length (gg_countries (ps_gen s)) < 2 ^ 32" "window_narrows M (length (ps_sent s))"
    using assms(18,21) by (simp_all add: sizes)
  have w: "po_Format (outputs ! 0) = str ''v1''" "writer_ok (po_Writer (outputs ! 0)) out" "out (po_State (outputs ! 0)) = []"
    using assms(10,11) by (simp_all add: o(4))
  have held: "file_holds F (fl_points flags) (out w)" using assms(19,20) by simp
  from database_served [OF assms(1,2) ids gen run(4) o(3) w(1) o(5) w(2,3) assms(14-16) h(1) assms(17) held h(2) assms(22), unfolded same,
      OF assms(23-27)]
  show ?thesis unfolding path using rgc_path_suffix by blast
qed

subsection \<open>A witness\<close>

definition sample_flags :: generate_flags where
  "sample_flags = \<lparr>gf_output = Some [1], gf_outputV2 = None, gf_input = [[2]], gf_threads = 0, gf_version = 1, gf_localization = str ''en'',
     gf_profile = False, gf_heap = False\<rparr>"

definition sample_osm_db :: osm_db where
  "sample_osm_db = \<lparr>db_Nodes = map Inr [sample_house], db_Ways = map Inr [], db_Relations = map Inr [sample_admin]\<rparr>"

definition sample_command :: "(unit, byte list) command_env" where
  "sample_command = \<lparr>ce_gomaxprocs = 2, ce_telemetry = None, ce_profile = None, ce_heap = None, ce_mmap = \<lambda>_. Inr (),
     ce_OpenMultiDB = \<lambda>_. Inr sample_osm_db, ce_create = \<lambda>_. Inr (buffer_write, [])\<rparr>"

lemma sample_setup: "generate_setup sample_command sample_flags = Inr (sample_config, sample_osm_db)"
  by (simp add: generate_setup_def setup_telemetry_def open_database_def sample_command_def sample_flags_def generate_config_def ConfigDefault_def sample_config_def) (simp add: str_def)

lemma sample_merge: "iterConcurrently (\<lambda>x. \<not> isl x) (object_sources sample_osm_db) (map Inr sample_database)"
proof -
  let ?a = "Inr (ObjNode sample_house) :: osm_object result" and ?b = "Inr (ObjRelation sample_admin) :: osm_object result"
  have "merges [[], [], []] ([] :: osm_object result list)" by (rule merges_done) simp
  then have "merges [[], [], [?b]] [?b]" using merges_next [of 2 "[[], [], [?b]]" ?b "[]" "[]"] by simp
  then have "merges [[?a], [], [?b]] [?a, ?b]" using merges_next [of 0 "[[?a], [], [?b]]" ?a "[]" "[?b]"] by simp
  moreover have "object_sources sample_osm_db = [[?a], [], [?b]]" "map Inr sample_database = [?a, ?b]"
    by (simp_all add: object_sources_def sample_osm_db_def castIterToObject_def sample_database_def)
  ultimately show ?thesis using iterConcurrently_iff [of "[[?a], [], [?b]]" "\<lambda>x. \<not> isl x"] by simp
qed

lemma sample_caches_filled:
  obtains f where "fillRelCache sample_gen0 (map Inr [sample_admin]) sample_new = Some (None, f)" "sample_plain f"
proof -
  let ?mp = "[[map (\<lambda>(x, y). sample_corner x y) [(1, 1), (2, 1), (2, 2), (1, 1)]]]"
  let ?f = "sample_new\<lparr>regionIndex := InsertBorder sample_orb0 list_qtree (regionIndex sample_new) (str ''R'') ?mp\<rparr>"
  have kind: "rel_cache_kind sample_osm_tags (rel_Tags sample_admin) = AsRegion" "tag_Map sample_osm_tags (rel_Tags sample_admin) (str ''type'') = str ''boundary''"
    by (simp_all add: sample_admin_def rel_cache_kind_def sample_osm_tags_def str_def nameKey_def)
  have R: "str ''R'' \<noteq> []" "rel_Members sample_admin = rel_Members sample_region" "BoundIsZero sample_gen0 b = False" for b
    by (simp_all add: str_def sample_admin_def sample_gen0_def sample_gen_def)
  have "cacheLocalization sample_gen0 sample_new (rel_Tags sample_admin) = sample_new"
    by (simp add: cacheLocalization_def sample_plainD [OF sample_new_plain] sample_admin_tags)
  then have "cacheRel sample_gen0 sample_admin sample_new = Some ?f"
    using R by (simp add: cacheRel_def cacheRelRegion_def kind sample_admin_tags sample_polygon Let_def)
  moreover have "sample_plain ?f"
    using sample_new_plain
    by (simp add: sample_plain_def NewGeoGen_def calcPlace_def calcRegion_def QueryPoint_def NewBorderTree_def InsertBorder_def list_qtree_def sample_orb0_def)
  ultimately show thesis using that [of ?f] by simp
qed

lemma generated_and_served_witness:
  "\<exists>files path bytes g n region country. generate sample_gen0 sample_save sample_command 4 sample_flags (None, files) \<and> files = [(path, bytes)]
    \<and> serve (sample_cache_files bytes bytes) sample_lib sample_env (sv_loaders sample_save)
        \<lparr>fl_points = path, fl_searchRadius = f64_of_int 2, fl_pointsPerThread = 0\<rparr> = Some (Inr (g, n))
    \<and> handle_Find sample_env g (f64_of_int 50) (f64_of_int 30) = Some (completed region country (pData (save_point sample_house_point)), True)"
proof (rule sample_caches_filled)
  fix f
  assume f: "fillRelCache sample_gen0 (map Inr [sample_admin]) sample_new = Some (None, f)" "sample_plain f"
  obtain s where s: "generates sample_gen0 sample_config [sample_admin] sample_database f s" "ps_sent s = [sample_house_point]"
    "gg_regions (ps_gen s) = [\<lparr>gz_Name = str ''R'', gz_Bounds = zero_bound, gz_Polygon = []\<rparr>]" "gg_countries (ps_gen s) = []"
    by (rule sample_run [OF f]) simp_all
  have outs: "open_outputs sample_command sample_flags = (None, [(rgc_path [1], sample_outputs ! 0)])"
    by (simp add: open_outputs_def open_output_def sample_flags_def sample_command_def sample_outputs_def)
  have "ParseOSMData sample_gen0 sample_save 4 sample_config sample_osm_db [sample_outputs ! 0] (map Some [(None, sample_v1_file)])"
    unfolding ParseOSMData_def
  proof (intro exI conjI)
    show "db_Relations sample_osm_db = map Inr [sample_admin]" by (simp add: sample_osm_db_def)
    have "sample_outputs = [sample_outputs ! 0]" by (simp add: sample_outputs_def)
    then show "saveWorker sample_save sample_config 4 (ps_sent s) (gg_regions (ps_gen s)) (gg_countries (ps_gen s)) [sample_outputs ! 0]
        = Inr (map Some [(None, sample_v1_file)])"
      using sample_worker [OF s(2,4,3)] by simp
  qed (rule sample_merge s(1))+
  then have gen: "generate sample_gen0 sample_save sample_command 4 sample_flags (None, [(rgc_path [1], sample_v1_file)])"
    unfolding generate_def sample_setup outs
    by (auto simp: sample_flags_def no_output_set_def savers_error_def intro!: exI [of _ "[(None, sample_v1_file)]"] exI [of _ None])
  define flags where "flags = \<lparr>fl_points = rgc_path [1], fl_searchRadius = f64_of_int 2, fl_pointsPerThread = 0\<rparr>"
  let ?F = "sample_cache_files sample_v1_file sample_v1_file"
  have name: "rgc_path [1] = [1] @ str ''.rgc''" by (simp add: rgc_path_def has_suffix_def str_def)
  have held: "file_holds ?F (rgc_path [1]) sample_v1_file"
    using file_reader_ok unfolding name by (auto simp: file_holds_def sample_cache_files_def has_suffix_def str_def)
  have r: "serve_radius (f64_of_int 2) = f64_of_int 2"
    using f64_of_int_le_iff [of 2 0] by (simp add: serve_radius_def small_int_def f64_of_int_zero)
  have fin: "is_fin (f64_of_int 30)" "is_fin (f64_of_int 50)" "\<not> is_nan (fl_searchRadius flags)"
    using small_int_exact(2) [of 30] small_int_exact(2) [of 50] small_int_exact(2) [of 2] by (simp_all add: small_int_def is_fin_iff flags_def)
  have near: "dist_to (f64_of_int 50) (f64_of_int 30) (save_point sample_house_point) = f64_of_int 0"
    by (simp add: dist_to_def sqrtDist_def save_point_def sample_house_point_def small_int_def Let_def)
  have less: "f64_of_int 0 < f64_of_int 2 * f64_of_int 2" by (simp add: small_int_def)
  have objs: "sample_database = map ObjNode [sample_house] @ map ObjWay [] @ map ObjRelation [sample_admin]" by (simp add: sample_database_def)
  note pts = sample_database_points [OF f(2)] and zones = sample_database_zones [OF f(2)]
  have h: "length [sample_admin] < 2 ^ 63" "\<forall>kvs. mset (sv_vis1 sample_save kvs) = mset kvs"
    "window_narrows sample_lib (size (all_points sample_gen0 f sample_database))"
    "size (all_points sample_gen0 f sample_database) + size (tally (zones_of_kind RelRegion sample_gen0 f) (met_relations (set sample_database)))
      + size (tally (zones_of_kind RelCountry sample_gen0 f) (met_relations (set sample_database))) < 2 ^ 32"
    "\<forall>p \<in># all_points sample_gen0 f sample_database. is_fin (fst (gp_Point p)) \<and> is_fin (snd (gp_Point p))"
    using fin by (simp_all add: sample_save_laws(8) small_window_narrows pts zones sample_house_point_def)
  have c: "gf_output sample_flags = Some [1]" "[1] \<noteq> ([] :: byte list)" "ce_create sample_command (rgc_path [1]) = Inr (buffer_write, [])"
    "[(rgc_path [1], sample_v1_file)] ! 0 = (rgc_path [1], sample_v1_file)" "fl_points flags = rgc_path [1]"
    by (simp_all add: sample_flags_def sample_command_def flags_def)
  from generated_and_served [where out = "\<lambda>s. s", OF sample_gen0_laws h(1) sample_database_ids objs sample_setup [unfolded sample_osm_db_def] f(1) c(1-3)
      buffer_write_ok refl gen c(4) sample_save_laws(1,2) h(2) sample_save_laws(3) h(4) held c(5) h(3) sample_search(2) h(5) fin(2,1,3) refl]
  obtain g n region country where g: "serve ?F sample_lib sample_env (sv_loaders sample_save) flags = Some (Inr (g, n))"
    "handle_Find sample_env g (f64_of_int 50) (f64_of_int 30) = Some (completed region country (pData (save_point sample_house_point)), True)"
    using near less unfolding pts by (auto simp: flags_def r)
  then show ?thesis using gen unfolding flags_def by blast
qed

end
