(* ===== verification/Requests.thy ===== *)
theory Requests
  imports Pipeline Server
begin

section \<open>The geocoder behind the server\<close>

text \<open>
  What \<open>serve\<close> of \<^verbatim>\<open>cmd/main.go\<close> hands to the server keeps the contract of the interface
  \<open>Geocoder\<close>: with the search radius that \<open>serve\<close> chooses the geocoder answers every position, also
  one with coordinates that are infinite or not a number, which \<open>ParseFloat\<close> reads.
\<close>

subsection \<open>The geocoder in memory\<close>

definition memory_ready :: "'q borders_env \<Rightarrow> 'q r_geo_coder \<Rightarrow> bool" where
  "memory_ready E f \<longleftrightarrow> bush_ok (tree f) \<and> \<not> is_pos_inf (m_searchRadius f * m_searchRadius f)
     \<and> (\<forall>lon lat. query_border E (m_regions f) lon lat \<noteq> None \<and> query_border E (m_countries f) lon lat \<noteq> None)"

lemma Within_inside:
  assumes "bush_ok b"
  obtains ps where "\<forall>p \<in> set ps. sqrtDist (pX p) (pY p) x y \<le> r * r"
    "\<And>(h :: ('a, 's) handler) s. Within b x y r h s = Some (fst (run_handler h ps s))"
proof -
  let ?q = "\<lparr>c_x = x, c_y = y, c_r = r, c_r2 = r * r\<rparr>" and ?n = "int (length (points b))"
  let ?v = "circle_visit b ?q (0, ?n - 1, 0)"
  have "seg (items (arrays b)) 0 (?n - 1) = items (arrays b)" using seg_all [of "items (arrays b)"] bush_okD(2) [OF assms] by simp
  then have "mset ?v \<subseteq># filter_mset (circle_hit ?q) (mset (items (arrays b)))"
    using visit_sound [of "nodeSize b" "circle_hit ?q" "circle_left ?q" "circle_right ?q" "items (arrays b)" 0 "?n - 1" 0] by simp
  from set_mset_mono [OF this] have "t \<in> set ?v \<Longrightarrow> t \<in> set (items (arrays b)) \<and> circle_hit ?q t" for t by auto
  moreover have "pX (point_at b t) = tx t \<and> pY (point_at b t) = ty t" if "t \<in> set (items (arrays b))" for t
    using that bush_okD(3) [OF assms] by (auto simp: point_at_def)
  ultimately have "\<forall>p \<in> set (map (point_at b) ?v). sqrtDist (pX p) (pY p) x y \<le> r * r"
    by (auto simp: circle_hit_def sq_dist_def)
  from that [OF this] show thesis by (simp only: Within_visit [OF assms])
qed

lemma with_borders_total:
  assumes "query_border E rs lon lat \<noteq> None" "query_border E cs lon lat \<noteq> None"
  shows "with_borders E rs cs lon lat out \<noteq> None" "by_borders E rs cs lon lat \<noteq> None"
  using assms by (auto simp: with_borders_def by_borders_def Let_def)

lemma Find_total:
  assumes "memory_ready E f"
  shows "Find E f lat lon \<noteq> None"
proof -
  let ?r2 = "m_searchRadius f * m_searchRadius f"
  have ok: "bush_ok (tree f)" "\<not> is_pos_inf ?r2"
    "query_border E (m_regions f) lon lat \<noteq> None" "query_border E (m_countries f) lon lat \<noteq> None"
    using assms by (simp_all add: memory_ready_def)
  obtain ps where ps: "\<forall>p \<in> set ps. sqrtDist (pX p) (pY p) lon lat \<le> ?r2"
    "\<And>(h :: (geo_info, (geo_info option \<times> f64) option) handler) s. Within (tree f) lon lat (m_searchRadius f) h s = Some (fst (run_handler h ps s))"
    by (rule Within_inside [OF ok(1), where 's = "(geo_info option \<times> f64) option"]) blast
  show ?thesis
  proof (cases "ps = []")
    case True
    then show ?thesis using with_borders_total(2) [OF ok(3,4)] by (simp add: Find_def FindInRadius_def ps(2) is_pos_inf_def)
  next
    case False
    have "\<forall>p \<in> set ps. dist_to lat lon p \<le> ?r2" using ps(1) by (simp add: dist_to_def)
    from keep_better_chosen [OF this ok(2) False] obtain p where "\<not> is_pos_inf (dist_to lat lon p)"
      "fst (run_handler (keep_better lat lon) ps (Some (None, inf64 False))) = Some (Some (pData p), dist_to lat lon p)" by blast
    moreover obtain out where "with_borders E (m_regions f) (m_countries f) lon lat (info_value (pData p)) = Some out"
      using with_borders_total(1) [OF ok(3,4)] by blast
    ultimately show ?thesis by (simp add: Find_def FindInRadius_def ps(2))
  qed
qed

interpretation memory: geocoder_interface "memory_ready E" "Find E" for E :: "'q borders_env"
  by unfold_locales (rule Find_total)

text \<open>What \<open>serve\<close> hands to the server, and what it is when the cache is loaded into memory.\<close>

definition handle_ready :: "'q borders_env \<Rightarrow> 'q geocoder_handle \<Rightarrow> bool" where
  "handle_ready E g \<longleftrightarrow>
     (case g of
        InMemory f \<Rightarrow> memory_ready E f
      | OnDisk d \<Rightarrow> \<exists>f. memory_ready E f \<and> (\<forall>lat lon. disk_Find E d lat lon = Find E f lat lon))"

lemma handle_Find_total: "handle_ready E g \<Longrightarrow> handle_Find E g lat lon \<noteq> None"
  using memory.ask_total by (auto simp: handle_ready_def handle_Find_def split: geocoder_handle.splits)

interpretation handle: geocoder_interface "handle_ready E" "handle_Find E" for E :: "'q borders_env"
  by unfold_locales (rule handle_Find_total)

lemma served_ready:
  assumes "openReader F (fl_points flags) = Inr st" and "\<not> detectV2Cache F (fl_points flags)"
    and "LoadFromReader L (buffered (4 * 1024 * 1024) st) = Some (Inr (pts, zones))" and "window_narrows M (length pts)"
    and "qtree_laws (e_qtree E) held" and "length zones < 2 ^ 63"
  obtains f n where "serve F M E L flags = Some (Inr (InMemory f, n))" "0 < n" "memory_ready E f"
proof -
  define r where "r = serve_radius (fl_searchRadius flags)"
  let ?opts = "[WithLogger, SearchRadius r]"
  obtain b where b: "bush_ok b" "LoadGeoCoderFromReader M E L (buffered (4 * 1024 * 1024) st) ?opts
      = Some (Inr \<lparr>tree = b, m_regions = Some (fst (load_borders E zones)),
       m_countries = Some (snd (load_borders E zones)), m_searchRadius = o_searchRadius (loadOptions ?opts)\<rparr>)"
    by (rule loaded_in_memory [OF assms(3,4)]) blast
  let ?f = "\<lparr>tree = b, m_regions = Some (fst (load_borders E zones)),
       m_countries = Some (snd (load_borders E zones)), m_searchRadius = o_searchRadius (loadOptions ?opts)\<rparr>"
  have "query_border E (Some (fst (load_borders E zones))) lon lat \<noteq> None \<and> query_border E (Some (snd (load_borders E zones))) lon lat \<noteq> None" for lon lat
    unfolding load_borders_split fst_conv snd_conv
    using query_border_answer [OF assms(5,6), where zt = ZoneRegion and lat = lat and lon = lon]
      query_border_answer [OF assms(5,6), where zt = ZoneCountry and lat = lat and lon = lon] by (metis option.distinct(1))
  then have "memory_ready E ?f"
    using b(1) serve_radius_finite [of "fl_searchRadius flags"] by (simp add: memory_ready_def loadOptions_serve r_def)
  moreover have "LoadGeoCoderFromFile F M E L (fl_points flags) ?opts = Some (Inr ?f)"
    using b(2) by (simp add: LoadGeoCoderFromFile_def assms(1))
  ultimately show thesis
    using that [of ?f "if fl_pointsPerThread flags \<le> 0 then 1000 else fl_pointsPerThread flags"] assms(2)
    by (simp add: serve_def Let_def r_def)
qed

lemma v1_served_ready:
  assumes "writer_ok w out" and "out s = []" and "window_narrows M (length pts)" and "length pts + length zones < 2 ^ 32"
    and "v1_protos_ok (v1_pb L)" and "v1_small (v1_pb L)" and "\<forall>kvs :: (gostring \<times> int) list. mset (vis kvs) = mset kvs"
    and "readable_time (cal L) (md_DateCreated meta)" and "SaveV1 (v1_pb L) (cal L) vis pts zones meta w s = Some (None, s')"
    and "file_holds F name (out s')" and "qtree_laws (e_qtree E) held" and "fl_points flags = name"
  obtains f n where "serve F M E L flags = Some (Inr (InMemory f, n))" "0 < n" "memory_ready E f"
proof -
  note v1 = v1_file_prefix [OF assms(1,2,5,6,7,4,8,9)]
  have opens: "openReader F (fl_points flags) = Inr \<lparr>st_chunks = [out s'], st_end = EOF\<rparr>" "\<not> detectV2Cache F (fl_points flags)"
    using assms(10,12) detect_bytes [OF assms(10) v1(3,1)] v1(2)
    by (auto simp: openReader_def file_holds_def COMPATIBILITY_LEVEL_v1_def COMPATIBILITY_LEVEL_v2_def)
  have load: "LoadFromReader L (buffered (4 * 1024 * 1024) \<lparr>st_chunks = [out s'], st_end = EOF\<rparr>) = Some (Inr (pts, stored_zones zones))"
    by (rule v1_file_loaded [OF assms(1,2,5,6,7,4,8,9) buffered_file [OF v1(3)]])
  have "length (stored_zones zones) \<le> length zones + length zones" unfolding stored_zones_def by (simp add: add_mono)
  then have "length (stored_zones zones) < 2 ^ 63" using assms(4) by simp
  from served_ready [OF opens load assms(3,11) this] that show thesis by blast
qed

subsection \<open>The property\<close>

text \<open>
  C3. A server with a cache in memory answers every request. Whatever points and zones a
  cache of the v1 or the older format holds, also with coordinates that are infinite or not a number, once it
  loads, \<open>serve\<close> starts, and then no position makes the geocoder panic. A
  single position is answered with 200 and its record or with 204, or with 400 if a coordinate does not parse.
  A list is answered with 400 if it does not parse, otherwise, however the goroutines run, with 200 and a record for
  every position in order, or 500 if they cannot be encoded. The records are those of the
  positions on at least two processors, and on one processor for lists shorter than
  \<open>pointsPerThread\<close>; a longer list gets empty records on a machine with one processor.
\<close>

theorem requests_answered:
  assumes "openReader F (fl_points flags) = Inr st" and "\<not> detectV2Cache F (fl_points flags)"
    and "LoadFromReader L (buffered (4 * 1024 * 1024) st) = Some (Inr (pts, zones))" and "window_narrows M (length pts)"
    and "qtree_laws (e_qtree E) held" and "length zones < 2 ^ 63" and "1 \<le> gomaxprocs"
  shows "\<exists>g n. serve F M E L flags = Some (Inr (g, n))
    \<and> (case ParseFloat J latS of Inl e \<Rightarrow> \<exists>c'. RGeoCodeHandler J (finder_of (handle_Find E) g) latS lonS c = (\<lparr>status = 400, body = []\<rparr>, c')
       | Inr lat \<Rightarrow>
           (case ParseFloat J lonS of Inl e \<Rightarrow> \<exists>c'. RGeoCodeHandler J (finder_of (handle_Find E) g) latS lonS c = (\<lparr>status = 400, body = []\<rparr>, c')
            | Inr lon \<Rightarrow> \<exists>i ok c'. handle_Find E g lat lon = Some (i, ok)
                \<and> RGeoCodeHandler J (finder_of (handle_Find E) g) latS lonS c
                  = (if ok then \<lparr>status = 200, body = (case MarshalInfo J i of Inl e \<Rightarrow> [] | Inr data \<Rightarrow> data)\<rparr> else \<lparr>status = 204, body = []\<rparr>, c')))
    \<and> (\<forall>mt. (\<forall>ps k. multithreadedFind (finder_of (handle_Find E) g) ps k (mt ps k)) \<longrightarrow>
        (case UnmarshalPoints J request of
           Inl e \<Rightarrow> \<exists>c'. RGeoMultipleCodeHandler J (finder_of (handle_Find E) g) n gomaxprocs mt request c
             = Some (\<lparr>status = 400, body = map of_char ''failed to parse request: '' @ ErrorText J e\<rparr>, c')
         | Inr req \<Rightarrow> \<exists>res c'.
             (if gomaxprocs = 1 \<and> n \<le> int (length req) then res = replicate (length req) empty_info
              else map Some res = map (\<lambda>p. map_option fst (handle_Find E g (fst p) (snd p))) req)
             \<and> RGeoMultipleCodeHandler J (finder_of (handle_Find E) g) n gomaxprocs mt request c
               = Some (case MarshalInfoList J res of Inl e \<Rightarrow> \<lparr>status = 500, body = []\<rparr> | Inr data \<Rightarrow> \<lparr>status = 200, body = data\<rparr>, c')))"
proof -
  obtain f n where f: "serve F M E L flags = Some (Inr (InMemory f, n))" "0 < n" "memory_ready E f"
    by (rule served_ready [OF assms(1-6)])
  have ready: "handle_ready E (InMemory f)" using f(3) by (simp add: handle_ready_def)
  show ?thesis
    by (intro exI [of _ "InMemory f"] exI [of _ n] conjI allI impI f(1) handle.every_single_request [OF ready]
        handle.every_list_request [OF ready _ assms(7) f(2)]) (drule spec, erule spec)
qed

subsection \<open>A witness\<close>

lemma requests_answered_witness:
  "\<exists>g n i ok c'. serve (sample_cache_files sample_v1_file sample_v1_file) sample_lib sample_env sample_loaders
        \<lparr>fl_points = [1], fl_searchRadius = f64_of_int 2, fl_pointsPerThread = 0\<rparr> = Some (Inr (g, n))
    \<and> handle_Find sample_env g 0 0 = Some (i, ok)
    \<and> RGeoCodeHandler sample_json (finder_of (handle_Find sample_env) g) [] [] \<lparr>addressCallCount = 0, addressMultiCallCount = 0, addressesEncoded = 0\<rparr>
      = (if ok then \<lparr>status = 200, body = Name i\<rparr> else \<lparr>status = 204, body = []\<rparr>, c')"
proof -
  let ?F = "sample_cache_files sample_v1_file sample_v1_file"
  let ?flags = "\<lparr>fl_points = [1], fl_searchRadius = f64_of_int 2, fl_pointsPerThread = 0\<rparr>"
  have held: "file_holds ?F [1] sample_v1_file" by (rule sample_cache_files_hold)
  have n: "length sample_pts + length sample_zones < 2 ^ 32" "window_narrows sample_lib (length sample_pts)" "length (stored_zones sample_zones) < 2 ^ 63"
    by (simp_all add: small_window_narrows sample_pts_def sample_zones_def stored_zones_def)
  have L: "v1_protos_ok (v1_pb sample_loaders)" "v1_small (v1_pb sample_loaders)" "readable_time (cal sample_loaders) (md_DateCreated sample_meta)"
    "SaveV1 (v1_pb sample_loaders) (cal sample_loaders) (\<lambda>kvs. kvs) sample_pts sample_zones sample_meta buffer_write [] = Some (None, sample_v1_file)"
    using sample_v1_ok sample_calendar_readable(1) sample_SaveV1 by (simp_all add: sample_loaders_def)
  have ids: "\<forall>kvs :: (gostring \<times> int) list. mset ((\<lambda>kvs. kvs) kvs) = mset kvs" by simp
  note prefix = v1_file_prefix [OF buffer_write_ok refl L(1,2) ids n(1) L(3,4)]
  have load: "LoadFromReader sample_loaders (buffered (4 * 1024 * 1024) \<lparr>st_chunks = [sample_v1_file], st_end = EOF\<rparr>)
      = Some (Inr (sample_pts, stored_zones sample_zones))"
    by (rule v1_file_loaded [OF buffer_write_ok refl L(1,2) ids n(1) L(3,4) buffered_file [OF prefix(3)]])
  have open1: "openReader ?F (fl_points ?flags) = Inr \<lparr>st_chunks = [sample_v1_file], st_end = EOF\<rparr>"
    using held by (simp add: openReader_def file_holds_def)
  have detect: "\<not> detectV2Cache ?F (fl_points ?flags)"
    using detect_bytes [OF held prefix(3,1)] prefix(2) by (simp add: COMPATIBILITY_LEVEL_v1_def COMPATIBILITY_LEVEL_v2_def)
  have J: "ParseFloat sample_json [] = Inr 0" "UnmarshalPoints sample_json [0, 0, 0] = Inr [(0, 0), (0, 0), (0, 0)]" "MarshalInfo sample_json i = Inr (Name i)" for i
    by (simp_all add: sample_json_def)
  show ?thesis
    using requests_answered [OF open1 detect load n(2) sample_search(2) n(3) order_refl, of sample_json "[]" "[]"
        "\<lparr>addressCallCount = 0, addressMultiCallCount = 0, addressesEncoded = 0\<rparr>" "[0, 0, 0]"] unfolding J sum.case
    by (elim exE conjE) (intro exI conjI, assumption+)
qed

end
