(* ===== verification/Simulate.thy ===== *)
theory Simulate
  imports Requests
begin

section \<open>The load tests\<close>

text \<open>
  \<^verbatim>\<open>cmd/simulate\<close>: \<open>bench\<close> sends lists of random positions to a server, \<open>compare\<close> sends each list
  to two servers and compares the answers field by field. The workers take requests from a
  channel that is filled and closed before they start; a step of the transition system is a worker
  that takes a request, finishes it or finds none. The network and the JSON of the positions
  are parameters. Printing is left out, and the text of a difference is the value it shows.
\<close>

subsection \<open>Flags\<close>

record load_flags =
  lf_count :: int
  lf_workers :: int
  lf_repeat :: int
  lf_minLat :: f64
  lf_maxLat :: f64
  lf_minLon :: f64
  lf_maxLon :: f64

text \<open>Without a flag: 100 positions in a request, one worker and one request, in the box of London.\<close>

definition default_load_flags :: load_flags where
  "default_load_flags = \<lparr>lf_count = 100, lf_workers = 1, lf_repeat = 1, lf_minLat = F64 0x4049A66666666666, lf_maxLat = F64 0x4049D9999999999A,
     lf_minLon = F64 0xBFE0000000000000, lf_maxLon = F64 0x3FC999999999999A\<rparr>"

definition default_server :: gostring where
  "default_server = str ''http://localhost:8080''"

definition check_flags :: "load_flags \<Rightarrow> error option" where
  "check_flags fl =
     (if lf_maxLat fl \<le> lf_minLat fl \<or> lf_maxLon fl \<le> lf_minLon fl then Some (Err ''invalid bounding box: min must be less than max'')
      else if lf_count fl \<le> 0 \<or> lf_workers fl \<le> 0 \<or> lf_repeat fl \<le> 0 then Some (Err ''count, workers, and repeat must be positive'')
      else None)"

definition trim_suffix :: "gostring \<Rightarrow> gostring \<Rightarrow> gostring" where
  "trim_suffix s suf = (if has_suffix s suf then take (length s - length suf) s else s)"

definition endpoint :: "gostring \<Rightarrow> gostring" where
  "endpoint server = trim_suffix server (str ''/'') @ str ''/rgeocode/multiaddress''"

text \<open>The draws are what \<open>rand.Float64\<close> returned, two for each position.\<close>

definition is_draw :: "f64 \<Rightarrow> bool" where
  "is_draw u \<longleftrightarrow> 0 \<le> u \<and> u < 1"

definition generatePoints :: "load_flags \<Rightarrow> (f64 \<times> f64) list \<Rightarrow> position list" where
  "generatePoints fl draws =
     map (\<lambda>(u, v). (lf_minLat fl + u * (lf_maxLat fl - lf_minLat fl), lf_minLon fl + v * (lf_maxLon fl - lf_minLon fl))) draws"

subsection \<open>Requests\<close>

text \<open>
  A request took so many microseconds; it failed, or its response has a status and a body, whose
  reading may fail.
\<close>

type_synonym exchange = "int \<times> (int \<times> byte list result) result"

record load_tally =
  successCount :: int
  failureCount :: int
  totalPoints :: int
  latenciesUs :: "int list"

definition no_requests :: load_tally where
  "no_requests = \<lparr>successCount = 0, failureCount = 0, totalPoints = 0, latenciesUs = []\<rparr>"

definition bench_reply :: "int \<Rightarrow> exchange \<Rightarrow> load_tally \<Rightarrow> load_tally" where
  "bench_reply numPoints x t =
     (let t = t\<lparr>latenciesUs := latenciesUs t @ [fst x]\<rparr> in
      (case snd x of
         Inl e \<Rightarrow> t\<lparr>failureCount := failureCount t + 1\<rparr>
       | Inr (code, content) \<Rightarrow>
           if code = StatusOK then t\<lparr>successCount := successCount t + 1, totalPoints := totalPoints t + numPoints\<rparr>
           else t\<lparr>failureCount := failureCount t + 1\<rparr>))"

subsection \<open>Comparison\<close>

datatype difference = Differs string gostring gostring | WeightDiffers byte byte

definition differ :: "string \<Rightarrow> gostring \<Rightarrow> gostring \<Rightarrow> difference list" where
  "differ field x y = (if x \<noteq> y then [Differs field x y] else [])"

definition compareInfo :: "geo_model_info \<Rightarrow> geo_model_info \<Rightarrow> difference list" where
  "compareInfo a b =
     differ ''name'' (Name a) (Name b) @ differ ''street'' (Street a) (Street b)
     @ differ ''house_number'' (HouseNumber a) (HouseNumber b) @ differ ''city'' (City a) (City b)
     @ differ ''region'' (Region a) (Region b) @ differ ''country'' (Country a) (Country b)
     @ (if gm_Weight a \<noteq> gm_Weight b then [WeightDiffers (gm_Weight a) (gm_Weight b)] else [])"

datatype detail = Fields "difference list" | ResponseLength int int

record mismatch_entry =
  mm_Lat :: f64
  mm_Lon :: f64
  mm_Detail :: detail

record compare_tally = load_tally +
  matchCount :: int
  mismatchCount :: int
  mismatches :: "mismatch_entry list"

definition no_comparisons :: compare_tally where
  "no_comparisons = load_tally.extend no_requests \<lparr>matchCount = 0, mismatchCount = 0, mismatches = []\<rparr>"

definition doPost :: "exchange \<Rightarrow> int list \<Rightarrow> ((int \<times> byte list) result) \<times> int list" where
  "doPost x latencies =
     ((case snd x of
         Inl e \<Rightarrow> Inl e
       | Inr (code, Inl e) \<Rightarrow> Inl e
       | Inr (code, Inr data) \<Rightarrow> Inr (code, data)), latencies @ [fst x])"

definition compare_at :: "position list \<Rightarrow> geo_model_info list \<Rightarrow> geo_model_info list \<Rightarrow> nat \<Rightarrow> compare_tally \<Rightarrow> compare_tally" where
  "compare_at pts listA listB i t =
     (let diffs = compareInfo (listA ! i) (listB ! i) in
      if diffs = [] then t\<lparr>matchCount := matchCount t + 1\<rparr>
      else t\<lparr>mismatchCount := mismatchCount t + 1,
             mismatches := mismatches t @ [\<lparr>mm_Lat = fst (pts ! i), mm_Lon = snd (pts ! i), mm_Detail = Fields diffs\<rparr>]\<rparr>)"

definition go_abs :: "int \<Rightarrow> int" where
  "go_abs n = (if n < 0 then - n else n)"

definition compare_lists :: "position list \<Rightarrow> geo_model_info list \<Rightarrow> geo_model_info list \<Rightarrow> compare_tally \<Rightarrow> compare_tally" where
  "compare_lists pts listA listB t =
     (let t = fold (compare_at pts listA listB) [0 ..< min (min (length listA) (length listB)) (length pts)] t in
      if length listA \<noteq> length listB then
        t\<lparr>mismatchCount := mismatchCount t + go_abs (int (length listA) - int (length listB)),
          mismatches := mismatches t @ [\<lparr>mm_Lat = 0, mm_Lon = 0, mm_Detail = ResponseLength (int (length listA)) (int (length listB))\<rparr>]\<rparr>
      else t)"

record load_json =
  MarshalPoints :: "position list \<Rightarrow> byte list result"
  UnmarshalInfoList :: "byte list \<Rightarrow> geo_model_info list result"

definition compare_replies :: "load_json \<Rightarrow> int \<Rightarrow> position list \<Rightarrow> exchange \<Rightarrow> exchange \<Rightarrow> compare_tally \<Rightarrow> compare_tally" where
  "compare_replies T numPoints pts xA xB t =
     (let (respA, latencies) = doPost xA (latenciesUs t); (respB, latencies) = doPost xB latencies;
          t = t\<lparr>latenciesUs := latencies\<rparr> in
      (case (respA, respB) of
         (Inr (codeA, bodyA), Inr (codeB, bodyB)) \<Rightarrow>
           if codeA \<noteq> StatusOK \<or> codeB \<noteq> StatusOK then t\<lparr>failureCount := failureCount t + 1\<rparr>
           else
             (let t = t\<lparr>successCount := successCount t + 1, totalPoints := totalPoints t + numPoints\<rparr> in
              (case UnmarshalInfoList T bodyA of
                 Inl e \<Rightarrow> t\<lparr>failureCount := failureCount t + 1\<rparr>
               | Inr listA \<Rightarrow>
                   (case UnmarshalInfoList T bodyB of
                      Inl e \<Rightarrow> t\<lparr>failureCount := failureCount t + 1\<rparr>
                    | Inr listB \<Rightarrow> compare_lists pts listA listB t)))
       | _ \<Rightarrow> t\<lparr>failureCount := failureCount t + 1\<rparr>))"

subsection \<open>A request of a worker\<close>

text \<open>\<open>net url request x\<close>: posting the request to the address may end with the exchange \<open>x\<close>.\<close>

type_synonym network = "gostring \<Rightarrow> byte list \<Rightarrow> exchange \<Rightarrow> bool"

definition generated :: "load_flags \<Rightarrow> position list \<Rightarrow> bool" where
  "generated fl pts \<longleftrightarrow> (\<exists>draws. length draws = nat (lf_count fl) \<and> (\<forall>(u, v) \<in> set draws. is_draw u \<and> is_draw v)
     \<and> pts = generatePoints fl draws)"

inductive bench_job :: "load_json \<Rightarrow> network \<Rightarrow> load_flags \<Rightarrow> gostring \<Rightarrow> load_tally \<Rightarrow> load_tally \<Rightarrow> bool"
  for T :: load_json and net :: network and fl :: load_flags and server :: gostring where
  not_marshalled: "generated fl pts \<Longrightarrow> MarshalPoints T pts = Inl e \<Longrightarrow> bench_job T net fl server t (t\<lparr>failureCount := failureCount t + 1\<rparr>)"
| posted: "generated fl pts \<Longrightarrow> MarshalPoints T pts = Inr request \<Longrightarrow> net (endpoint server) request x
    \<Longrightarrow> bench_job T net fl server t (bench_reply (lf_count fl) x t)"

inductive compare_job :: "load_json \<Rightarrow> network \<Rightarrow> load_flags \<Rightarrow> gostring \<Rightarrow> gostring \<Rightarrow> compare_tally \<Rightarrow> compare_tally \<Rightarrow> bool"
  for T :: load_json and net :: network and fl :: load_flags and serverA serverB :: gostring where
  not_marshalled: "generated fl pts \<Longrightarrow> MarshalPoints T pts = Inl e
    \<Longrightarrow> compare_job T net fl serverA serverB t (t\<lparr>failureCount := failureCount t + 1\<rparr>)"
| both_posted: "generated fl pts \<Longrightarrow> MarshalPoints T pts = Inr request
    \<Longrightarrow> net (endpoint serverA) request xA \<Longrightarrow> net (endpoint serverB) request xB
    \<Longrightarrow> compare_job T net fl serverA serverB t (compare_replies T (lf_count fl) pts xA xB t)"

subsection \<open>The workers\<close>

record 't load_run =
  lr_work :: "nat list"
  lr_workers :: "worker list"
  lr_tally :: 't

definition load_init :: "load_flags \<Rightarrow> 't \<Rightarrow> 't load_run" where
  "load_init fl t = \<lparr>lr_work = [0 ..< nat (lf_repeat fl)], lr_workers = replicate (nat (lf_workers fl)) Idle, lr_tally = t\<rparr>"

inductive load_step :: "('t \<Rightarrow> 't \<Rightarrow> bool) \<Rightarrow> 't load_run \<Rightarrow> 't load_run \<Rightarrow> bool"
  for job :: "'t \<Rightarrow> 't \<Rightarrow> bool" where
  takes: "w < length (lr_workers s) \<Longrightarrow> lr_workers s ! w = Idle \<Longrightarrow> lr_work s = i # rest
    \<Longrightarrow> load_step job s (s\<lparr>lr_work := rest, lr_workers := (lr_workers s)[w := Busy i]\<rparr>)"
| finishes: "w < length (lr_workers s) \<Longrightarrow> lr_workers s ! w = Busy i \<Longrightarrow> job (lr_tally s) t
    \<Longrightarrow> load_step job s (s\<lparr>lr_tally := t, lr_workers := (lr_workers s)[w := Idle]\<rparr>)"
| leaves: "w < length (lr_workers s) \<Longrightarrow> lr_workers s ! w = Idle \<Longrightarrow> lr_work s = []
    \<Longrightarrow> load_step job s (s\<lparr>lr_workers := (lr_workers s)[w := Exited]\<rparr>)"

definition load_done :: "'t load_run \<Rightarrow> bool" where
  "load_done s \<longleftrightarrow> (\<forall>w \<in> set (lr_workers s). w = Exited)"

text \<open>What a test may end with: an error of the flags, or the tally after \<open>wg.Wait()\<close>.\<close>

definition load_test :: "load_flags \<Rightarrow> ('t \<Rightarrow> 't \<Rightarrow> bool) \<Rightarrow> 't \<Rightarrow> 't result \<Rightarrow> bool" where
  "load_test fl job t0 r \<longleftrightarrow>
     (case check_flags fl of
        Some e \<Rightarrow> r = Inl e
      | None \<Rightarrow> \<exists>s. (load_step job)\<^sup>*\<^sup>* (load_init fl t0) s \<and> load_done s \<and> r = Inr (lr_tally s))"

definition bench :: "load_json \<Rightarrow> network \<Rightarrow> load_flags \<Rightarrow> gostring \<Rightarrow> load_tally result \<Rightarrow> bool" where
  "bench T net fl server = load_test fl (bench_job T net fl server) no_requests"

definition compare_servers :: "load_json \<Rightarrow> network \<Rightarrow> load_flags \<Rightarrow> gostring \<Rightarrow> gostring \<Rightarrow> compare_tally result \<Rightarrow> bool" where
  "compare_servers T net fl serverA serverB = load_test fl (compare_job T net fl serverA serverB) no_comparisons"

subsection \<open>The latencies of the report\<close>

record latency_report =
  lat_min :: int
  lat_avg :: int
  lat_p50 :: int
  lat_p95 :: int
  lat_p99 :: int
  lat_max :: int

text \<open>A test without a single latency prints no report.\<close>

definition latency_report :: "int list \<Rightarrow> latency_report option option" where
  "latency_report latencies =
     (if latencies = [] then Some None
      else
        (let ls = sort latencies; n = int (length ls) in do {
           p50 \<leftarrow> get ls (n * 50 div 100);
           p95 \<leftarrow> get ls (n * 95 div 100);
           p99 \<leftarrow> get ls (n * 99 div 100);
           minL \<leftarrow> get ls 0;
           maxL \<leftarrow> get ls (n - 1);
           avg \<leftarrow> go_div (fold (\<lambda>l total. i64 (total + l)) ls 0) n;
           Some (Some \<lparr>lat_min = minL, lat_avg = avg, lat_p50 = p50, lat_p95 = p95, lat_p99 = p99, lat_max = maxL\<rparr>)
         }))"

subsection \<open>Every request is done once\<close>

text \<open>
  \<open>k\<close> requests are finished, the others wait in the channel or are with a worker, who leaves only
  when the channel is empty.
\<close>

definition busy :: "worker \<Rightarrow> nat" where
  "busy w = (case w of Busy _ \<Rightarrow> 1 | _ \<Rightarrow> 0)"

definition load_inv :: "load_flags \<Rightarrow> ('t \<Rightarrow> 't \<Rightarrow> bool) \<Rightarrow> 't \<Rightarrow> 't load_run \<Rightarrow> bool" where
  "load_inv fl job t0 s \<longleftrightarrow> length (lr_workers s) = nat (lf_workers fl) \<and> (Exited \<in> set (lr_workers s) \<longrightarrow> lr_work s = [])
     \<and> (\<exists>k. (job ^^ k) t0 (lr_tally s) \<and> k + length (lr_work s) + sum_list (map busy (lr_workers s)) = nat (lf_repeat fl))"

definition load_cost :: "'t load_run \<Rightarrow> nat" where
  "load_cost s = 2 * length (lr_work s) + sum_list (map worker_cost (lr_workers s))"

lemma load_inv_init: "load_inv fl job t0 (load_init fl t0)"
  by (auto simp: load_inv_def load_init_def busy_def sum_list_replicate intro: exI [of _ 0])

lemma load_inv_step:
  assumes "load_inv fl job t0 s" "load_step job s s'"
  shows "load_inv fl job t0 s'"
  using assms(2)
proof cases
  case (takes w i rest)
  then show ?thesis
    using assms(1) sum_list_map_update [of w "lr_workers s" busy "Busy i"]
    by (auto simp: load_inv_def busy_def dest: set_update_subset_insert [THEN subsetD])
next
  case (finishes w i t)
  obtain k where k: "(job ^^ k) t0 (lr_tally s)" "k + length (lr_work s) + sum_list (map busy (lr_workers s)) = nat (lf_repeat fl)"
    using assms(1) by (auto simp: load_inv_def)
  have "(job ^^ Suc k) t0 t" using k(1) finishes(4) by auto
  then show ?thesis
    using assms(1) finishes k(2) sum_list_map_update [of w "lr_workers s" busy Idle]
    by (auto simp: load_inv_def busy_def dest: set_update_subset_insert [THEN subsetD] intro!: exI [of _ "Suc k"])
next
  case (leaves w)
  then show ?thesis
    using assms(1) sum_list_map_update [of w "lr_workers s" busy Exited] by (auto simp: load_inv_def busy_def)
qed

lemma load_step_cost:
  assumes "load_step job s s'"
  shows "load_cost s' < load_cost s"
  using assms
proof cases
  case (takes w i rest)
  then show ?thesis using sum_list_map_update [of w "lr_workers s" worker_cost "Busy i"] by (simp add: load_cost_def worker_cost_def)
next
  case (finishes w i t)
  then show ?thesis using sum_list_map_update [of w "lr_workers s" worker_cost Idle] by (simp add: load_cost_def worker_cost_def)
next
  case (leaves w)
  then show ?thesis using sum_list_map_update [of w "lr_workers s" worker_cost Exited] by (simp add: load_cost_def worker_cost_def)
qed

interpretation load_kept: preserved "load_step job" "load_inv fl job t0" for job fl t0
  by unfold_locales (rule load_inv_step)

lemma load_test_jobs:
  assumes "load_test fl job t0 (Inr t)"
  shows "check_flags fl = None" "(job ^^ nat (lf_repeat fl)) t0 t"
proof -
  show c: "check_flags fl = None" using assms by (auto simp: load_test_def split: option.splits)
  then have w: "0 < nat (lf_workers fl)" by (auto simp: check_flags_def split: if_splits)
  obtain s where s: "(load_step job)\<^sup>*\<^sup>* (load_init fl t0) s" "load_done s" "t = lr_tally s"
    using assms c by (auto simp: load_test_def)
  have inv: "load_inv fl job t0 s" by (rule load_kept.inv_steps [OF s(1) load_inv_init])
  then have "Exited \<in> set (lr_workers s)" using s(2) w by (cases "lr_workers s") (auto simp: load_inv_def load_done_def)
  moreover have "sum_list (map busy (lr_workers s)) = 0"
    using s(2) by (induction "lr_workers s") (auto simp: load_done_def busy_def)
  ultimately show "(job ^^ nat (lf_repeat fl)) t0 t" using inv s(3) by (auto simp: load_inv_def simp del: sum_list_eq_0_iff)
qed

text \<open>What every request keeps holds of the result.\<close>

lemma jobs_keep:
  assumes "(job ^^ n) t0 t" "P 0 t0" "\<And>k t t'. P k t \<Longrightarrow> job t t' \<Longrightarrow> P (Suc k) t'"
  shows "P n t"
  using assms(1)
proof (induction n arbitrary: t)
  case (Suc n)
  then show ?case using assms(3) by (auto elim: relpowp_Suc_E)
qed (simp add: assms(2))

text \<open>
  Every run of a test ends: in every state that is reached each worker that has not left can make a
  step, whatever the others do, every step makes the cost smaller, and a state in which all have left can be reached.
\<close>

definition every_run_ends :: "('t \<Rightarrow> 't \<Rightarrow> bool) \<Rightarrow> 't load_run \<Rightarrow> bool" where
  "every_run_ends job s0 \<longleftrightarrow>
     (\<forall>s. (load_step job)\<^sup>*\<^sup>* s0 s \<longrightarrow>
        (\<forall>w < length (lr_workers s). lr_workers s ! w \<noteq> Exited \<longrightarrow> (\<exists>s'. load_step job s s' \<and> lr_workers s' ! w \<noteq> lr_workers s ! w))
        \<and> (load_done s \<or> (\<exists>s'. load_step job s s')) \<and> (\<forall>s'. load_step job s s' \<longrightarrow> load_cost s' < load_cost s)
        \<and> (\<exists>s'. (load_step job)\<^sup>*\<^sup>* s s' \<and> load_done s'))"

text \<open>A test ends when every request can be finished.\<close>

locale load_jobs =
  fixes ready :: "'n \<Rightarrow> bool" and job :: "'n \<Rightarrow> 't \<Rightarrow> 't \<Rightarrow> bool"
  assumes job_total: "ready n \<Longrightarrow> \<exists>t'. job n t t'"
begin

lemma worker_moves:
  assumes "ready n" "w < length (lr_workers s)" "lr_workers s ! w \<noteq> Exited"
  shows "\<exists>s'. load_step (job n) s s' \<and> lr_workers s' ! w \<noteq> lr_workers s ! w"
proof (cases "lr_workers s ! w")
  case Idle
  show ?thesis
  proof (cases "lr_work s")
    case Nil
    show ?thesis by (rule exI, rule conjI, rule load_step.leaves [OF assms(2) Idle Nil]) (simp add: assms(2) Idle)
  next
    case (Cons i rest)
    show ?thesis by (rule exI, rule conjI, rule load_step.takes [OF assms(2) Idle Cons]) (simp add: assms(2) Idle)
  qed
next
  case (Busy i)
  obtain t where t: "job n (lr_tally s) t" using job_total [OF assms(1)] by blast
  show ?thesis by (rule exI, rule conjI, rule load_step.finishes [where job = "job n" and t = t, OF assms(2) Busy t]) (simp add: assms(2) Busy)
qed (use assms(3) in simp)

lemma load_progress:
  assumes "ready n" "\<not> load_done s"
  shows "\<exists>s'. load_step (job n) s s'"
proof -
  obtain w where "w < length (lr_workers s)" "lr_workers s ! w \<noteq> Exited"
    using assms(2) by (auto simp: load_done_def in_set_conv_nth)
  then show ?thesis using worker_moves [OF assms(1)] by blast
qed

sublocale run: process "load_step (job n)" "\<lambda>_. ready n" load_done load_cost for n
  by unfold_locales (auto intro: load_progress load_step_cost)

lemma runs_end: "ready n \<Longrightarrow> every_run_ends (job n) s0"
  unfolding every_run_ends_def using worker_moves run.runs by blast

lemma test_ends: "ready n \<Longrightarrow> \<exists>r. load_test fl (job n) t0 r"
  using run.ends [of n "load_init fl t0"] by (cases "check_flags fl") (auto simp: load_test_def)

end

subsection \<open>Both tests end\<close>

definition net_total :: "network \<Rightarrow> bool" where
  "net_total net \<longleftrightarrow> (\<forall>url request. \<exists>x. net url request x)"

lemma some_generated: "\<exists>pts. generated fl pts"
proof -
  have "is_draw 0" by (simp add: is_draw_def f64_le_iff f64_less_iff f64_key_def one_f64_def zero_f64_def f64_mag_def f64_neg_def is_nan_def inf_mag_def hidden_bit_def)
  then have "generated fl (generatePoints fl (replicate (nat (lf_count fl)) (0, 0)))"
    unfolding generated_def by (intro exI conjI) (auto simp: set_replicate_conv_if)
  then show ?thesis ..
qed

lemma generated_length: "generated fl pts \<Longrightarrow> length pts = nat (lf_count fl)"
  by (auto simp: generated_def generatePoints_def)

interpretation bench_load: load_jobs net_total "\<lambda>net. bench_job T net fl server" for T fl server
proof
  fix net :: network and t
  assume "net_total net"
  moreover obtain pts where "generated fl pts" using some_generated by blast
  ultimately show "\<exists>t'. bench_job T net fl server t t'"
    using bench_job.intros by (cases "MarshalPoints T pts") (unfold net_total_def, blast+)
qed

interpretation compare_load: load_jobs net_total "\<lambda>net. compare_job T net fl serverA serverB" for T fl serverA serverB
proof
  fix net :: network and t
  assume "net_total net"
  moreover obtain pts where "generated fl pts" using some_generated by blast
  ultimately show "\<exists>t'. compare_job T net fl serverA serverB t t'"
    using compare_job.not_marshalled [of fl pts T _ net serverA serverB t] compare_job.both_posted [of fl pts T _ net serverA _ serverB _ t]
    by (cases "MarshalPoints T pts") (unfold net_total_def, blast+)
qed

subsection \<open>Counting\<close>

definition load_counts :: "int \<Rightarrow> nat \<Rightarrow> 'a load_tally_scheme \<Rightarrow> bool" where
  "load_counts numPoints k t \<longleftrightarrow> successCount t + failureCount t = int k \<and> totalPoints t = numPoints * successCount t \<and> 0 \<le> successCount t"

lemma bench_counts:
  assumes "bench T net fl server (Inr t)"
  shows "load_counts (lf_count fl) (nat (lf_repeat fl)) t"
proof -
  have "load_counts (lf_count fl) (Suc k) t'" if "load_counts (lf_count fl) k t" "bench_job T net fl server t t'" for k t t'
    using that(2,1) by cases (auto simp: load_counts_def bench_reply_def Let_def algebra_simps split: sum.splits prod.splits)
  moreover have "load_counts (lf_count fl) 0 no_requests" by (simp add: load_counts_def no_requests_def)
  ultimately show ?thesis using jobs_keep [where P = "load_counts (lf_count fl)", OF load_test_jobs(2) [OF assms [unfolded bench_def]]] by blast
qed

subsection \<open>Equal answers\<close>

lemma differ_Nil [simp]: "differ field x y = [] \<longleftrightarrow> x = y"
  by (simp add: differ_def)

lemma compareInfo_Nil [simp]: "compareInfo a b = [] \<longleftrightarrow> a = b"
  by (cases a; cases b) (auto simp: compareInfo_def)

lemma compare_lists_same: "compare_lists pts l l t = t\<lparr>matchCount := matchCount t + int (min (length l) (length pts))\<rparr>"
proof -
  have "fold (compare_at pts l l) [0 ..< n] t = t\<lparr>matchCount := matchCount t + int n\<rparr>" for n
    by (induction n) (simp_all add: compare_at_def)
  then show ?thesis by (simp add: compare_lists_def)
qed

text \<open>Answers of 200 that can be decoded have the same body, a list with an entry for every position.\<close>

definition same_replies :: "load_json \<Rightarrow> position list \<Rightarrow> exchange \<Rightarrow> exchange \<Rightarrow> bool" where
  "same_replies T pts xA xB \<longleftrightarrow>
     (\<forall>a b. snd xA = Inr (StatusOK, Inr a) \<longrightarrow> snd xB = Inr (StatusOK, Inr b) \<longrightarrow>
        a = b \<and> (\<exists>l. UnmarshalInfoList T a = Inr l \<and> length l = length pts))"

definition all_match :: "int \<Rightarrow> nat \<Rightarrow> compare_tally \<Rightarrow> bool" where
  "all_match numPoints k t \<longleftrightarrow> load_counts numPoints k t \<and> mismatchCount t = 0 \<and> mismatches t = [] \<and> matchCount t = totalPoints t"

lemma same_replies_match:
  assumes "all_match numPoints k t" "same_replies T pts xA xB" "int (length pts) = numPoints"
  shows "all_match numPoints (Suc k) (compare_replies T numPoints pts xA xB t)"
proof (cases "\<exists>a b. snd xA = Inr (StatusOK, Inr a) \<and> snd xB = Inr (StatusOK, Inr b)")
  case True
  then obtain a b where ab: "snd xA = Inr (StatusOK, Inr a)" "snd xB = Inr (StatusOK, Inr b)" by blast
  then obtain l where l: "a = b" "UnmarshalInfoList T a = Inr l" "length l = length pts"
    using assms(2) unfolding same_replies_def by blast
  have "compare_replies T numPoints pts xA xB t = compare_lists pts l l
      (t\<lparr>latenciesUs := latenciesUs t @ [fst xA] @ [fst xB], successCount := successCount t + 1, totalPoints := totalPoints t + numPoints\<rparr>)"
    using l(2) unfolding compare_replies_def doPost_def Let_def ab l(1) by simp
  then show ?thesis
    using assms(1,3) l(3) by (simp add: compare_lists_same all_match_def load_counts_def distrib_left)
next
  case False
  let ?t = "t\<lparr>latenciesUs := latenciesUs t @ [fst xA] @ [fst xB], failureCount := failureCount t + 1\<rparr>"
  have "compare_replies T numPoints pts xA xB t = ?t"
    using False unfolding compare_replies_def doPost_def Let_def
    by (cases "snd xA"; cases "snd xB") (auto split: sum.splits prod.splits)
  then show ?thesis using assms(1) by (simp add: all_match_def load_counts_def)
qed

subsection \<open>Latencies\<close>

lemma length_filter_sort: "length (filter P (sort ls)) = length (filter P ls)"
proof -
  have "mset (filter P (sort ls)) = mset (filter P ls)" by simp
  then show ?thesis by (rule mset_eq_length)
qed

lemma rank_of_position:
  assumes "i < length ls"
  shows "length (filter (\<lambda>l. l < sort ls ! i) ls) \<le> i" "i < length (filter (\<lambda>l. l \<le> sort ls ! i) ls)"
proof -
  let ?ls = "sort ls"
  have i: "i < length ?ls" using assms by simp
  have order: "a \<le> b \<Longrightarrow> b < length ?ls \<Longrightarrow> ?ls ! a \<le> ?ls ! b" for a b by (simp add: sorted_nth_mono)
  have "filter (\<lambda>l. l < ?ls ! i) (drop i ?ls) = []"
    unfolding filter_empty_conv using order [of i] by (auto simp: in_set_conv_nth not_less)
  then have "filter (\<lambda>l. l < ?ls ! i) ?ls = filter (\<lambda>l. l < ?ls ! i) (take i ?ls)"
    by (metis append_Nil2 append_take_drop_id filter_append)
  then have "length (filter (\<lambda>l. l < ?ls ! i) ?ls) \<le> i"
    using length_filter_le [of "\<lambda>l. l < ?ls ! i" "take i ?ls"] i by simp
  then show "length (filter (\<lambda>l. l < ?ls ! i) ls) \<le> i" by (simp only: length_filter_sort)
  have "filter (\<lambda>l. l \<le> ?ls ! i) (take (Suc i) ?ls) = take (Suc i) ?ls"
    unfolding filter_id_conv using order i by (auto simp: in_set_conv_nth)
  then have "length (filter (\<lambda>l. l \<le> ?ls ! i) ?ls) = Suc i + length (filter (\<lambda>l. l \<le> ?ls ! i) (drop (Suc i) ?ls))"
    using i by (metis append_take_drop_id filter_append length_append length_take min.absorb2 Suc_leI)
  then show "i < length (filter (\<lambda>l. l \<le> ?ls ! i) ls)" by (simp add: length_filter_sort)
qed

lemma fold_i64_sum:
  assumes "\<forall>l \<in> set ls. 0 \<le> l" "0 \<le> a" "a + sum_list ls < 2 ^ 63"
  shows "fold (\<lambda>l total. i64 (total + l)) ls a = a + sum_list ls"
  using assms
proof (induction ls arbitrary: a)
  case (Cons l ls)
  have "0 \<le> sum_list ls" using Cons.prems(1) by (simp add: sum_list_nonneg)
  then have "is_i64 (a + l)" using Cons.prems by (simp add: is_i64_def)
  then show ?case using Cons by (simp add: i64_id add.assoc)
qed simp

definition at_rank :: "nat \<Rightarrow> int \<Rightarrow> int list \<Rightarrow> bool" where
  "at_rank q p ls \<longleftrightarrow> length (filter (\<lambda>l. l < p) ls) \<le> length ls * q div 100 \<and> length ls * q div 100 < length (filter (\<lambda>l. l \<le> p) ls)"

lemma sum_list_between:
  assumes "\<forall>l \<in> set ls. a \<le> l \<and> l \<le> (b :: int)"
  shows "int (length ls) * a \<le> sum_list ls \<and> sum_list ls \<le> int (length ls) * b"
  using assms by (induction ls) (auto simp: algebra_simps)

lemma latency_report_ok:
  assumes "ls \<noteq> []" "\<forall>l \<in> set ls. 0 \<le> l" "sum_list ls < 2 ^ 63"
  obtains r where "latency_report ls = Some (Some r)"
    and "at_rank 50 (lat_p50 r) ls" "at_rank 95 (lat_p95 r) ls" "at_rank 99 (lat_p99 r) ls"
    and "lat_min r = Min (set ls)" "lat_max r = Max (set ls)" "lat_min r \<le> lat_avg r" "lat_avg r \<le> lat_max r"
    and "lat_min r \<le> lat_p50 r" "lat_p50 r \<le> lat_p95 r" "lat_p95 r \<le> lat_p99 r" "lat_p99 r \<le> lat_max r"
proof -
  let ?ls = "sort ls" and ?n = "length ls"
  have n: "0 < ?n" using assms(1) by simp
  have i: "?n * q div 100 < ?n" if "q < 100" for q :: nat
    using n that by (simp add: div_less_iff_less_mult)
  have order: "a \<le> b \<Longrightarrow> b < ?n \<Longrightarrow> ?ls ! a \<le> ?ls ! b" for a b by (simp add: sorted_nth_mono)
  have at: "get ?ls (int ?n * int q div 100) = Some (?ls ! (?n * q div 100))" if "q < 100" for q :: nat
  proof -
    have "int ?n * int q div 100 = int (?n * q div 100)" by (simp add: zdiv_int)
    then show ?thesis using i [OF that] by (simp only: get_def) simp
  qed
  have ends: "\<forall>l \<in> set ls. ?ls ! 0 \<le> l \<and> l \<le> ?ls ! (?n - 1)"
  proof
    fix l assume "l \<in> set ls"
    then have "l \<in> set ?ls" by simp
    then obtain k where "k < ?n" "l = ?ls ! k" unfolding in_set_conv_nth [of l ?ls] by auto
    then show "?ls ! 0 \<le> l \<and> l \<le> ?ls ! (?n - 1)" using order [of 0 k] order [of k "?n - 1"] by simp
  qed
  have mem: "?ls ! k \<in> set ls" if "k < ?n" for k using nth_mem [of k ?ls] that by simp
  have mm: "?ls ! 0 = Min (set ls)" "?ls ! (?n - 1) = Max (set ls)"
    using ends mem [of 0] mem [of "?n - 1"] n by (auto intro: Min_eqI [symmetric] Max_eqI [symmetric])
  define avg where "avg = sum_list ls div int ?n"
  have "sum_list ?ls = sum_list ls" by (metis mset_sort sum_mset_sum_list)
  then have total: "fold (\<lambda>l total. i64 (total + l)) ?ls 0 = sum_list ls" using fold_i64_sum [of ?ls 0] assms(2,3) by simp
  have pos: "0 \<le> sum_list ls" using assms(2) by (simp add: sum_list_nonneg)
  have avg: "go_div (sum_list ls) (int ?n) = Some avg"
    using n pos by (auto simp: go_div_def avg_def sgn_if)
  have sums: "int ?n * (?ls ! 0) \<le> sum_list ls" "sum_list ls \<le> int ?n * (?ls ! (?n - 1))"
    using sum_list_between [OF ends] by simp_all
  have bounds: "?ls ! 0 \<le> avg" "avg \<le> ?ls ! (?n - 1)"
    using zdiv_mono1 [OF sums(1), of "int ?n"] zdiv_mono1 [OF sums(2), of "int ?n"] n by (simp_all add: avg_def)
  let ?r = "\<lparr>lat_min = ?ls ! 0, lat_avg = avg, lat_p50 = ?ls ! (?n * 50 div 100), lat_p95 = ?ls ! (?n * 95 div 100),
      lat_p99 = ?ls ! (?n * 99 div 100), lat_max = ?ls ! (?n - 1)\<rparr>"
  have "nat (int ?n - 1) = ?n - 1" by arith
  then have get_ends: "get ?ls 0 = Some (?ls ! 0)" "get ?ls (int ?n - 1) = Some (?ls ! (?n - 1))"
    using n by (simp_all add: get_def)
  have report: "latency_report ls = Some (Some ?r)"
    using at [of 50] at [of 95] at [of 99] unfolding latency_report_def Let_def length_sort total get_ends avg
    by (simp only: assms(1) if_False bind.simps of_nat_numeral)
  have rank: "at_rank q (?ls ! (?n * q div 100)) ls" if "q < 100" for q
    using rank_of_position [OF i [OF that]] by (simp add: at_rank_def)
  have le: "?n * 50 div 100 \<le> ?n * 95 div 100" "?n * 95 div 100 \<le> ?n * 99 div 100" "?n * 99 div 100 \<le> ?n - 1"
    using i [of 99] by (auto intro: div_le_mono)
  show thesis
  proof (rule that [OF report], unfold latency_report.simps)
    show "at_rank 50 (?ls ! (?n * 50 div 100)) ls" "at_rank 95 (?ls ! (?n * 95 div 100)) ls" "at_rank 99 (?ls ! (?n * 99 div 100)) ls"
      by (rule rank, simp)+
    show "?ls ! 0 \<le> ?ls ! (?n * 50 div 100)" by (rule order [OF _ i]) simp_all
    show "?ls ! (?n * 50 div 100) \<le> ?ls ! (?n * 95 div 100)" by (rule order [OF le(1) i]) simp
    show "?ls ! (?n * 95 div 100) \<le> ?ls ! (?n * 99 div 100)" by (rule order [OF le(2) i]) simp
    show "?ls ! (?n * 99 div 100) \<le> ?ls ! (?n - 1)" by (rule order [OF le(3)]) (use n in simp)
  qed (rule mm bounds)+
qed

subsection \<open>The report of a load test\<close>

lemma job_latencies:
  assumes "bench T net fl server (Inr t)" "\<forall>url request x. net url request x \<longrightarrow> 0 \<le> fst x"
  shows "\<forall>l \<in> set (latenciesUs t). 0 \<le> l"
proof -
  let ?P = "\<lambda>_ t. \<forall>l \<in> set (latenciesUs t). 0 \<le> l"
  have "?P (Suc k) t'" if "?P k t" "bench_job T net fl server t t'" for k :: nat and t t'
    using that(2,1)
  proof cases
    case (posted pts request x)
    moreover have "0 \<le> fst x" using posted(4) assms(2) by blast
    ultimately show ?thesis using that(1) by (auto simp: bench_reply_def Let_def split: sum.splits prod.splits)
  qed simp
  moreover have "?P 0 no_requests" by (simp add: no_requests_def)
  ultimately show ?thesis
    using jobs_keep [where P = ?P, OF load_test_jobs(2) [OF assms(1) [unfolded bench_def]]] by blast
qed

text \<open>
  C39. Every run of \<open>bench\<close> ends: no worker is ever stuck, whatever the others and the network do. Its report is right: every request is counted once,
  as a success or as a failure, the positions are those of the successes, and when a latency was
  measured the report has the smallest and the largest, an average between them, and percentiles in order: at most the
  share of 50, 95 or 99 percent of the latencies is smaller, and more than it is not larger.
\<close>

theorem bench_reports:
  assumes "net_total net" and "\<forall>url request x. net url request x \<longrightarrow> 0 \<le> fst x" and "check_flags fl = None"
  shows "every_run_ends (bench_job T net fl server) (load_init fl no_requests)
    \<and> (\<exists>t. bench T net fl server (Inr t))
    \<and> (\<forall>t. bench T net fl server (Inr t) \<longrightarrow>
         successCount t + failureCount t = lf_repeat fl \<and> totalPoints t = lf_count fl * successCount t
         \<and> (latenciesUs t \<noteq> [] \<and> sum_list (latenciesUs t) < 2 ^ 63 \<longrightarrow>
             (\<exists>r. latency_report (latenciesUs t) = Some (Some r)
                \<and> lat_min r = Min (set (latenciesUs t)) \<and> lat_max r = Max (set (latenciesUs t))
                \<and> lat_min r \<le> lat_avg r \<and> lat_avg r \<le> lat_max r \<and> lat_p50 r \<le> lat_p95 r \<and> lat_p95 r \<le> lat_p99 r
                \<and> at_rank 50 (lat_p50 r) (latenciesUs t) \<and> at_rank 95 (lat_p95 r) (latenciesUs t) \<and> at_rank 99 (lat_p99 r) (latenciesUs t))))"
proof (intro conjI allI impI)
  show "every_run_ends (bench_job T net fl server) (load_init fl no_requests)" by (rule bench_load.runs_end [OF assms(1)])
next
  obtain r where "bench T net fl server r" using bench_load.test_ends [OF assms(1)] unfolding bench_def by blast
  then show "\<exists>t. bench T net fl server (Inr t)" using assms(3) by (auto simp: bench_def load_test_def)
next
  fix t assume t: "bench T net fl server (Inr t)"
  have "0 < lf_repeat fl" using assms(3) by (auto simp: check_flags_def split: if_splits)
  then show "successCount t + failureCount t = lf_repeat fl" "totalPoints t = lf_count fl * successCount t"
    using bench_counts [OF t] by (simp_all add: load_counts_def)
  assume "latenciesUs t \<noteq> [] \<and> sum_list (latenciesUs t) < 2 ^ 63"
  then show "\<exists>r. latency_report (latenciesUs t) = Some (Some r)
      \<and> lat_min r = Min (set (latenciesUs t)) \<and> lat_max r = Max (set (latenciesUs t))
      \<and> lat_min r \<le> lat_avg r \<and> lat_avg r \<le> lat_max r \<and> lat_p50 r \<le> lat_p95 r \<and> lat_p95 r \<le> lat_p99 r
      \<and> at_rank 50 (lat_p50 r) (latenciesUs t) \<and> at_rank 95 (lat_p95 r) (latenciesUs t) \<and> at_rank 99 (lat_p99 r) (latenciesUs t)"
    using latency_report_ok [of "latenciesUs t"] job_latencies [OF t assms(2)] by metis
qed

subsection \<open>Two servers with the same answers\<close>

text \<open>Posting a list of positions to \<^verbatim>\<open>server/server.go\<close>: any time, an error of the network, or the answer of the handler.\<close>

definition server_answers :: "json \<Rightarrow> finder \<Rightarrow> int \<Rightarrow> int \<Rightarrow> byte list \<Rightarrow> exchange \<Rightarrow> bool" where
  "server_answers J geo pointsPerThread gomaxprocs request x \<longleftrightarrow>
     (case snd x of
        Inl e \<Rightarrow> True
      | Inr (code, content) \<Rightarrow>
          (\<exists>mt c r c'. (\<forall>ps k. multithreadedFind geo ps k (mt ps k))
             \<and> RGeoMultipleCodeHandler J geo pointsPerThread gomaxprocs mt request c = Some (r, c')
             \<and> code = status r \<and> (case content of Inl e \<Rightarrow> True | Inr data \<Rightarrow> data = body r)))"

text \<open>
  What the encoders of \<open>compare\<close> and of the server have in common: a list of positions or of records that
  one encodes the other decodes to a list of the same length.
\<close>

definition json_lengths :: "json \<Rightarrow> load_json \<Rightarrow> bool" where
  "json_lengths J T \<longleftrightarrow>
     (\<forall>pts b. MarshalPoints T pts = Inr b \<longrightarrow> (\<exists>req. UnmarshalPoints J b = Inr req \<and> length req = length pts))
     \<and> (\<forall>is b. MarshalInfoList J is = Inr b \<longrightarrow> (\<exists>is'. UnmarshalInfoList T b = Inr is' \<and> length is' = length is))"

lemma json_lengthsD:
  assumes "json_lengths J T"
  shows "MarshalPoints T pts = Inr b \<Longrightarrow> \<exists>req. UnmarshalPoints J b = Inr req \<and> length req = length pts"
    and "MarshalInfoList J is = Inr b \<Longrightarrow> \<exists>l. UnmarshalInfoList T b = Inr l \<and> length l = length is"
  using assms unfolding json_lengths_def by blast+

lemma answer_body:
  assumes "server_answers J geo pointsPerThread gomaxprocs request x" "snd x = Inr (StatusOK, Inr data)"
    and "2 \<le> gomaxprocs" "0 < pointsPerThread" "UnmarshalPoints J request = Inr req"
  shows "MarshalInfoList J (map (\<lambda>p. fst (geo (fst p) (snd p))) req) = Inr data"
proof -
  obtain mt c r c' where r: "\<And>ps k. multithreadedFind geo ps k (mt ps k)"
    "RGeoMultipleCodeHandler J geo pointsPerThread gomaxprocs mt request c = Some (r, c')" "status r = 200" "data = body r"
    using assms(1,2) by (auto simp: server_answers_def StatusOK_def)
  then show ?thesis
    using multi_handler_answers [OF r(1) assms(3,4), of J request c] assms(5) by (auto split: sum.splits)
qed

lemma equal_servers_match:
  assumes "compare_servers T net fl serverA serverB (Inr t)" and "json_lengths J T" and "0 < n"
    and "net (endpoint serverA) = server_answers J geo n procsA" and "net (endpoint serverB) = server_answers J geo n procsB"
    and "2 \<le> procsA" and "2 \<le> procsB"
  shows "all_match (lf_count fl) (nat (lf_repeat fl)) t"
proof -
  note jobs = load_test_jobs [OF assms(1) [unfolded compare_servers_def]]
  have count: "0 < lf_count fl" using jobs(1) by (auto simp: check_flags_def split: if_splits)
  have "all_match (lf_count fl) (Suc k) t'"
    if a: "all_match (lf_count fl) k t" and "compare_job T net fl serverA serverB t t'" for k t t'
    using that(2)
  proof cases
    case (not_marshalled pts e)
    then show ?thesis using a by (simp add: all_match_def load_counts_def)
  next
    case (both_posted pts request xA xB)
    obtain req where req: "UnmarshalPoints J request = Inr req" "length req = length pts"
      using json_lengthsD(1) [OF assms(2) both_posted(3)] by blast
    have A: "server_answers J geo n procsA request xA" and B: "server_answers J geo n procsB request xB"
      using both_posted(4,5) assms(4,5) by simp_all
    have "same_replies T pts xA xB"
      unfolding same_replies_def
    proof (intro allI impI)
      fix a b assume "snd xA = Inr (StatusOK, Inr a)" "snd xB = Inr (StatusOK, Inr b)"
      then have ab: "MarshalInfoList J (map (\<lambda>p. fst (geo (fst p) (snd p))) req) = Inr a" "MarshalInfoList J (map (\<lambda>p. fst (geo (fst p) (snd p))) req) = Inr b"
        using answer_body [OF A _ assms(6,3) req(1)] answer_body [OF B _ assms(7,3) req(1)] by blast+
      then obtain l where "UnmarshalInfoList T a = Inr l" "length l = length req"
        using json_lengthsD(2) [OF assms(2) ab(1)] unfolding length_map by blast
      then show "a = b \<and> (\<exists>l. UnmarshalInfoList T a = Inr l \<and> length l = length pts)"
        using ab(2) unfolding ab(1) by (simp add: req(2))
    qed
    then show ?thesis
      unfolding both_posted(1) using same_replies_match [OF a, of T pts xA xB] generated_length [OF both_posted(2)] count by simp
  qed
  moreover have "all_match (lf_count fl) 0 no_comparisons"
    by (simp add: all_match_def load_counts_def no_comparisons_def no_requests_def load_tally.defs)
  ultimately show ?thesis using jobs_keep [where P = "all_match (lf_count fl)", OF jobs(2)] by blast
qed

text \<open>
  C2. The two formats of a cache answer requests alike, as \<open>compare\<close> sees it. When the same points and zones
  are saved in both formats and served, no text of a point has a NUL byte or more than 512 bytes, and both servers
  have at least two processors, then the geocoders give the same answer at every place without panicking, and \<open>compare\<close>, run
  against the two servers, reports no mismatch: every run of it ends, every position of a successful request matches, and every
  request is one success or one failure, for every interleaving of its workers and of the
  goroutines of the servers, and whatever the network loses.
\<close>

theorem formats_compare_equal:
  assumes "writer_ok w out" and "out s = []" and "window_narrows M (length pts)" and "length pts + length zones < 2 ^ 32"
    and "v1_protos_ok (v1_pb L)" and "v1_small (v1_pb L)" and "v2_protos_ok (v2_pb L)" and "v2_fits (v2_pb L) (cal L) pts zones meta"
    and "\<forall>kvs :: (gostring \<times> int) list. mset (vis1 kvs) = mset kvs" and "\<forall>kvs. mset (vis2 kvs) = mset kvs"
    and "readable_time (cal L) (md_DateCreated meta)"
    and "SaveV1 (v1_pb L) (cal L) vis1 pts zones meta w s = Some (None, s1)"
    and "SaveV2 M (v2_pb L) (cal L) vis2 pts zones meta w s = Some (None, s2)"
    and "file_holds F name1 (out s1)" and "file_holds F name2 (out s2)" and "length (out s2) < 2 ^ 63" and "short_texts pts"
    and "qtree_laws (e_qtree E) held" and "json_lengths J T" and "check_flags fl = None" and "2 \<le> procsA" and "2 \<le> procsB"
  shows "\<exists>g1 g2 n. serve F M E L (flags\<lparr>fl_points := name1\<rparr>) = Some (Inr (g1, n))
    \<and> serve F M E L (flags\<lparr>fl_points := name2\<rparr>) = Some (Inr (g2, n))
    \<and> (\<forall>lat lon. handle_Find E g1 lat lon \<noteq> None \<and> handle_Find E g2 lat lon = handle_Find E g1 lat lon)
    \<and> (\<forall>net. net_total net \<and> net (endpoint serverA) = server_answers J (finder_of (handle_Find E) g1) n procsA
         \<and> net (endpoint serverB) = server_answers J (finder_of (handle_Find E) g2) n procsB
       \<longrightarrow> every_run_ends (compare_job T net fl serverA serverB) (load_init fl no_comparisons)
         \<and> (\<exists>t. compare_servers T net fl serverA serverB (Inr t))
         \<and> (\<forall>t. compare_servers T net fl serverA serverB (Inr t) \<longrightarrow>
              mismatchCount t = 0 \<and> mismatches t = [] \<and> matchCount t = lf_count fl * successCount t
              \<and> successCount t + failureCount t = lf_repeat fl))"
proof -
  obtain g1 g2 n where g: "serve F M E L (flags\<lparr>fl_points := name1\<rparr>) = Some (Inr (g1, n))"
    "serve F M E L (flags\<lparr>fl_points := name2\<rparr>) = Some (Inr (g2, n))" "0 < n" "\<forall>lat lon. handle_Find E g1 lat lon = handle_Find E g2 lat lon"
    using served_alike [OF assms(1-17)] by blast
  obtain f where "g1 = InMemory f" "memory_ready E f"
    using v1_served_ready [OF assms(1-6,9,11,12,14,18), of "flags\<lparr>fl_points := name1\<rparr>"] g(1) by auto
  then have total: "handle_Find E g1 lat lon \<noteq> None" for lat lon using Find_total by (simp add: handle_Find_def)
  have same: "finder_of (handle_Find E) g2 = finder_of (handle_Find E) g1"
    using g(4) by (intro ext) (simp add: finder_of_def)
  have "every_run_ends (compare_job T net fl serverA serverB) (load_init fl no_comparisons)
      \<and> (\<exists>t. compare_servers T net fl serverA serverB (Inr t))
      \<and> (\<forall>t. compare_servers T net fl serverA serverB (Inr t) \<longrightarrow>
           mismatchCount t = 0 \<and> mismatches t = [] \<and> matchCount t = lf_count fl * successCount t
           \<and> successCount t + failureCount t = lf_repeat fl)"
    if net: "net_total net" "net (endpoint serverA) = server_answers J (finder_of (handle_Find E) g1) n procsA"
      "net (endpoint serverB) = server_answers J (finder_of (handle_Find E) g2) n procsB" for net
  proof (intro conjI allI impI)
    show "every_run_ends (compare_job T net fl serverA serverB) (load_init fl no_comparisons)" by (rule compare_load.runs_end [OF net(1)])
  next
    obtain r where "compare_servers T net fl serverA serverB r"
      using compare_load.test_ends [OF net(1)] unfolding compare_servers_def by blast
    then show "\<exists>t. compare_servers T net fl serverA serverB (Inr t)" using assms(20) by (auto simp: compare_servers_def load_test_def)
  next
    fix t assume "compare_servers T net fl serverA serverB (Inr t)"
    from equal_servers_match [OF this assms(19) g(3) net(2) net(3) [unfolded same] assms(21,22)]
    have m: "all_match (lf_count fl) (nat (lf_repeat fl)) t" .
    have "0 < lf_repeat fl" using assms(20) by (auto simp: check_flags_def split: if_splits)
    then show "mismatchCount t = 0" "mismatches t = []" "matchCount t = lf_count fl * successCount t" "successCount t + failureCount t = lf_repeat fl"
      using m by (simp_all add: all_match_def load_counts_def)
  qed
  then show ?thesis using g(1,2,4) total by (intro exI [of _ g1] exI [of _ g2] exI [of _ n]) auto
qed

subsection \<open>Witnesses\<close>

definition sample_load :: load_flags where
  "sample_load = \<lparr>lf_count = 2, lf_workers = 2, lf_repeat = 3, lf_minLat = f64_of_int 51, lf_maxLat = f64_of_int 52,
     lf_minLon = f64_of_int 0, lf_maxLon = f64_of_int 1\<rparr>"

lemma default_load_flags_ok: "check_flags default_load_flags = None"
  by (simp add: check_flags_def default_load_flags_def less_eq_f64_def f64_key_def f64_mag_def f64_neg_def is_nan_def inf_mag_def hidden_bit_def)

lemma sample_load_ok: "check_flags sample_load = None"
  by (simp add: check_flags_def sample_load_def small_int_def)

definition sample_load_json :: load_json where
  "sample_load_json = \<lparr>MarshalPoints = \<lambda>pts. Inr (map (\<lambda>_. 0) pts),
     UnmarshalInfoList = \<lambda>bs. Inr (map (\<lambda>b. empty_info\<lparr>gm_Weight := b\<rparr>) bs)\<rparr>"

definition sample_server_json :: json where
  "sample_server_json = sample_json\<lparr>MarshalInfoList := \<lambda>is. Inr (map gm_Weight is), UnmarshalPoints := \<lambda>bs. Inr (map (\<lambda>_. (0, 0)) bs)\<rparr>"

lemma sample_json_lengths: "json_lengths sample_server_json sample_load_json"
  by (auto simp: json_lengths_def sample_server_json_def sample_load_json_def)

lemma bench_reports_witness:
  "\<exists>t. bench sample_load_json (\<lambda>url request x. x = (5, Inr (200, Inr []))) sample_load [] (Inr t)
     \<and> successCount t + failureCount t = 3 \<and> totalPoints t = 2 * successCount t"
  using bench_reports [of "\<lambda>url request x. x = (5, Inr (200, Inr []))" sample_load sample_load_json "[]"] sample_load_ok
  by (auto simp: net_total_def sample_load_def)

lemma formats_compare_equal_witness:
  "\<exists>v1 v2 g1 g2 n. SaveV1 sample_v1_protos sample_calendar (\<lambda>kvs. kvs) sample_pts sample_zones sample_meta buffer_write [] = Some (None, v1)
    \<and> SaveV2 sample_lib sample_v2_protos sample_calendar (\<lambda>kvs. kvs) sample_pts sample_zones sample_meta buffer_write [] = Some (None, v2)
    \<and> serve (sample_cache_files v1 v2) sample_lib sample_env sample_loaders \<lparr>fl_points = [1], fl_searchRadius = f64_of_int 2, fl_pointsPerThread = 0\<rparr> = Some (Inr (g1, n))
    \<and> serve (sample_cache_files v1 v2) sample_lib sample_env sample_loaders \<lparr>fl_points = [2], fl_searchRadius = f64_of_int 2, fl_pointsPerThread = 0\<rparr> = Some (Inr (g2, n))
    \<and> (\<exists>t. compare_servers sample_load_json
           (\<lambda>url. if url = endpoint [1] then server_answers sample_server_json (finder_of (handle_Find sample_env) g1) n 2
                  else server_answers sample_server_json (finder_of (handle_Find sample_env) g2) n 2) sample_load [1] [2] (Inr t)
         \<and> mismatches t = [] \<and> matchCount t = 2 * successCount t \<and> successCount t + failureCount t = 3)"
proof -
  obtain v2 where v2: "SaveV2 sample_lib sample_v2_protos sample_calendar (\<lambda>kvs. kvs) sample_pts sample_zones sample_meta buffer_write [] = Some (None, v2)"
    "length v2 < 2 ^ 63" using sample_SaveV2 by blast
  have n: "window_narrows sample_lib (length sample_pts)" "length sample_pts + length sample_zones < 2 ^ 32" "short_texts sample_pts"
    by (simp_all add: small_window_narrows sample_pts_def sample_zones_def short_texts_def info_strings_def)
  have L: "v1_pb sample_loaders = sample_v1_protos" "v2_pb sample_loaders = sample_v2_protos" "cal sample_loaders = sample_calendar"
    by (simp_all add: sample_loaders_def)
  have ids: "\<forall>kvs :: (gostring \<times> int) list. mset ((\<lambda>kvs. kvs) kvs) = mset kvs" "\<forall>kvs :: (gostring \<times> u32) list. mset ((\<lambda>kvs. kvs) kvs) = mset kvs"
    by simp_all
  note all = formats_compare_equal [where L = sample_loaders and E = sample_env and flags = "\<lparr>fl_points = [], fl_searchRadius = f64_of_int 2, fl_pointsPerThread = 0\<rparr>"
      and serverA = "[1]" and serverB = "[2]",
      unfolded L, OF buffer_write_ok refl n(1,2) sample_v1_ok(1,2) sample_v2_ok sample_v2_fits ids sample_calendar_readable(1) sample_SaveV1 v2(1)
      sample_cache_files_hold v2(2) n(3) sample_search(2) sample_json_lengths sample_load_ok order_refl order_refl]
  from all obtain g1 g2 m where g:
    "serve (sample_cache_files sample_v1_file v2) sample_lib sample_env sample_loaders \<lparr>fl_points = [1], fl_searchRadius = f64_of_int 2, fl_pointsPerThread = 0\<rparr> = Some (Inr (g1, m))"
    "serve (sample_cache_files sample_v1_file v2) sample_lib sample_env sample_loaders \<lparr>fl_points = [2], fl_searchRadius = f64_of_int 2, fl_pointsPerThread = 0\<rparr> = Some (Inr (g2, m))"
    and run: "\<forall>net. net_total net \<and> net (endpoint [1]) = server_answers sample_server_json (finder_of (handle_Find sample_env) g1) m 2
         \<and> net (endpoint [2]) = server_answers sample_server_json (finder_of (handle_Find sample_env) g2) m 2
       \<longrightarrow> (\<exists>t. compare_servers sample_load_json net sample_load [1] [2] (Inr t))
         \<and> (\<forall>t. compare_servers sample_load_json net sample_load [1] [2] (Inr t) \<longrightarrow>
              mismatchCount t = 0 \<and> mismatches t = [] \<and> matchCount t = lf_count sample_load * successCount t
              \<and> successCount t + failureCount t = lf_repeat sample_load)"
    unfolding serve_flags.simps by blast
  let ?net = "\<lambda>url. if url = endpoint [1] then server_answers sample_server_json (finder_of (handle_Find sample_env) g1) m 2
      else server_answers sample_server_json (finder_of (handle_Find sample_env) g2) m 2"
  have "server_answers J geo k procs request (0, Inl EOF)" for J geo k procs request by (simp add: server_answers_def)
  then have "net_total ?net" unfolding net_total_def by (intro allI exI [of _ "(0, Inl EOF)"]) simp
  moreover have "endpoint [2] \<noteq> endpoint [1]" by (simp add: endpoint_def trim_suffix_def has_suffix_def str_def)
  ultimately obtain t where "compare_servers sample_load_json ?net sample_load [1] [2] (Inr t)"
    "mismatches t = []" "matchCount t = 2 * successCount t" "successCount t + failureCount t = 3"
    using run [rule_format, of ?net] by (auto simp: sample_load_def)
  then show ?thesis using g sample_SaveV1 v2(1) by blast
qed

end
