(* ===== verification/Stats.thy ===== *)
theory Stats
  imports Float64 Prelude
begin

section \<open>Run-time statistics\<close>

text \<open>
  \<^verbatim>\<open>internal/stats/collector.go\<close>: the summary of the samples that were taken while the generator
  ran, and the choice of the samples for the report. \<open>Collector\<close> takes the samples; printing them is left out.
\<close>

record stat_point =
  sp_Timestamp :: int
  sp_ElapsedSeconds :: f64
  sp_HeapAlloc :: u64
  sp_HeapSys :: u64
  sp_HeapInuse :: u64
  sp_StackInuse :: u64
  sp_TotalAlloc :: u64
  sp_Sys :: u64
  sp_NumGC :: u32
  sp_ProcessRSSBytes :: u64
  sp_CPUPercent :: f64
  sp_SystemCPU :: "f64 list"
  sp_NumGoroutine :: int

record stats_summary =
  PeakHeapAlloc :: u64
  PeakHeapSys :: u64
  PeakSys :: u64
  PeakProcessRSS :: u64
  PeakCPUPercent :: f64
  AvgCPUPercent :: f64
  PeakGoroutines :: int
  TotalGCCycles :: u32
  SampleCount :: int
  SampleIntervalMs :: int

text \<open>\<open>if v > peak { peak = v }\<close>\<close>

definition raise_peak :: "'a :: ord \<Rightarrow> 'a \<Rightarrow> 'a" where
  "raise_peak v peak = (if peak < v then v else peak)"

definition add_sample :: "stat_point \<Rightarrow> stats_summary \<times> f64 \<Rightarrow> stats_summary \<times> f64" where
  "add_sample s st = (case st of (acc, totalCPU) \<Rightarrow>
     (acc\<lparr>PeakHeapAlloc := raise_peak (sp_HeapAlloc s) (PeakHeapAlloc acc), PeakHeapSys := raise_peak (sp_HeapSys s) (PeakHeapSys acc),
        PeakSys := raise_peak (sp_Sys s) (PeakSys acc), PeakProcessRSS := raise_peak (sp_ProcessRSSBytes s) (PeakProcessRSS acc),
        PeakCPUPercent := raise_peak (sp_CPUPercent s) (PeakCPUPercent acc), PeakGoroutines := raise_peak (sp_NumGoroutine s) (PeakGoroutines acc),
        TotalGCCycles := raise_peak (sp_NumGC s) (TotalGCCycles acc)\<rparr>,
      totalCPU + sp_CPUPercent s))"

definition calculateSummary :: "int \<Rightarrow> stat_point list \<Rightarrow> stats_summary \<Rightarrow> stats_summary" where
  "calculateSummary intervalMs samples acc =
     (if samples = [] then acc
      else
        (case fold add_sample samples (acc, 0) of
           (acc, totalCPU) \<Rightarrow>
             acc\<lparr>SampleCount := int (length samples), SampleIntervalMs := intervalMs,
               AvgCPUPercent := totalCPU / f64_of_int (int (length samples))\<rparr>))"

definition no_summary :: stats_summary where
  "no_summary = \<lparr>PeakHeapAlloc = 0, PeakHeapSys = 0, PeakSys = 0, PeakProcessRSS = 0, PeakCPUPercent = 0, AvgCPUPercent = 0,
     PeakGoroutines = 0, TotalGCCycles = 0, SampleCount = 0, SampleIntervalMs = 0\<rparr>"

subsection \<open>The samples of a report\<close>

text \<open>\<open>int(x)\<close>, towards zero.\<close>

definition int_of_f64 :: "f64 \<Rightarrow> int" where
  "int_of_f64 x =
     (let n = sgn (sval x) * (\<bar>sval x\<bar> div int unit_scale) in
      if is_fin x \<and> is_i64 n then n else - (2 ^ 63))"

definition maxSamples :: int where
  "maxSamples = 100"

definition sample_index :: "int \<Rightarrow> int \<Rightarrow> int" where
  "sample_index n i = int_of_f64 (f64_of_int i * (f64_of_int (n - 1) / f64_of_int (maxSamples - 1)))"

definition report_samples :: "'p list \<Rightarrow> 'p list option" where
  "report_samples samples =
     (if int (length samples) > maxSamples
      then those (map (\<lambda>i. get samples (sample_index (int (length samples)) i)) [0..maxSamples - 1])
      else Some samples)"

subsection \<open>Peaks\<close>

lemma raise_peak_max [simp]: "raise_peak v p = max v (p :: 'a :: linorder)"
  by (auto simp: raise_peak_def max_def)

lemma fold_add_sample:
  "fold add_sample samples (acc, t) =
     (acc\<lparr>PeakHeapAlloc := fold max (map sp_HeapAlloc samples) (PeakHeapAlloc acc),
        PeakHeapSys := fold max (map sp_HeapSys samples) (PeakHeapSys acc), PeakSys := fold max (map sp_Sys samples) (PeakSys acc),
        PeakProcessRSS := fold max (map sp_ProcessRSSBytes samples) (PeakProcessRSS acc),
        PeakCPUPercent := fold raise_peak (map sp_CPUPercent samples) (PeakCPUPercent acc),
        PeakGoroutines := fold max (map sp_NumGoroutine samples) (PeakGoroutines acc),
        TotalGCCycles := fold max (map sp_NumGC samples) (TotalGCCycles acc)\<rparr>, fold (\<lambda>s t. t + sp_CPUPercent s) samples t)"
  by (induction samples arbitrary: acc t) (simp_all add: add_sample_def)

lemma fold_max: "fold max xs a = Max (insert a (set xs))" for a :: "'a :: linorder"
  using Max.set_eq_fold [of a xs] by simp

lemma summary_peaks:
  assumes "samples \<noteq> []" "r = calculateSummary ms samples no_summary"
  shows "PeakHeapAlloc r = Max (sp_HeapAlloc ` set samples)" "PeakHeapSys r = Max (sp_HeapSys ` set samples)"
    "PeakSys r = Max (sp_Sys ` set samples)" "PeakProcessRSS r = Max (sp_ProcessRSSBytes ` set samples)"
    "TotalGCCycles r = Max (sp_NumGC ` set samples)" "SampleCount r = int (length samples)" "SampleIntervalMs r = ms"
  using assms(1) unfolding assms(2) by (simp_all add: calculateSummary_def fold_add_sample no_summary_def fold_max)

lemma summary_goroutines:
  assumes "samples \<noteq> []" "\<forall>s \<in> set samples. 0 \<le> sp_NumGoroutine s"
  shows "PeakGoroutines (calculateSummary ms samples no_summary) = Max (sp_NumGoroutine ` set samples)"
proof -
  have "0 \<le> Max (sp_NumGoroutine ` set samples)" using assms(1,2) by (simp add: Max_ge_iff) (metis list.set_intros(1) neq_Nil_conv)
  then show ?thesis using assms(1) by (simp add: calculateSummary_def fold_add_sample no_summary_def fold_max)
qed

subsection \<open>Rounding between representable values\<close>

lemma rounded_between:
  assumes "\<not> is_nan z" "f64_key z = rkey s q" "0 < q" "k < 2 ^ 53" "e \<le> 2044"
  shows "s \<le> int (k * 2 ^ e) * int q \<Longrightarrow> sval z \<le> int (k * 2 ^ e)"
    and "int (k * 2 ^ e) * int q \<le> s \<Longrightarrow> int (k * 2 ^ e) \<le> sval z"
proof -
  let ?y = "round_f64 (int (k * 2 ^ e) * int q) q"
  have "nat \<bar>int (k * 2 ^ e)\<bar> = k * 2 ^ e" by (simp only: abs_of_nat nat_int)
  moreover have "k < 2 * hidden_bit" using assms(4) by (simp add: hidden_bit_def)
  ultimately have y: "sval ?y = int (k * 2 ^ e)" "f64_key ?y = rkey (int (k * 2 ^ e) * int q) q"
    using round_f64_exact(1) assms(3,5) by (blast, simp only: round_f64_key)
  show "s \<le> int (k * 2 ^ e) * int q \<Longrightarrow> sval z \<le> int (k * 2 ^ e)"
    using rkey_mono [OF assms(3)] sval_le_iff [of z ?y] assms(1,2) y by simp
  show "int (k * 2 ^ e) * int q \<le> s \<Longrightarrow> int (k * 2 ^ e) \<le> sval z"
    using rkey_mono [OF assms(3)] sval_le_iff [of ?y z] assms(1,2) y by simp
qed

lemma f64_div_fin:
  assumes "is_fin x" "is_fin y" "\<not> f64_neg x" "\<not> f64_neg y" "0 < sval y"
  shows "\<not> is_nan (x / y)" and "f64_key (x / y) = rkey (sval x * int unit_scale) (nat (sval y))"
proof -
  have n: "\<not> is_nan x" "\<not> is_inf x" "\<not> is_nan y" "\<not> is_inf y" using assms(1,2) by (simp_all add: is_fin_iff)
  have v: "sval x = int (mag_val (f64_mag x))" "sval y = int (mag_val (f64_mag y))" using assms(3,4) by (simp_all add: sval_def)
  have "f64_mag y \<noteq> 0" by (rule notI) (use assms(5) v(2) in simp)
  from this have e: "x / y = mk_f64 False (round_mag (mag_val (f64_mag x) * unit_scale) (mag_val (f64_mag y)))"
    using n assms(3,4) by (simp add: divide_f64_def Let_def)
  show "\<not> is_nan (x / y)" by (simp add: e)
  have "0 < mag_val (f64_mag y)" using assms(5) v(2) by simp
  moreover have "0 \<le> sval x * int unit_scale" by (simp add: v(1))
  moreover have "nat (sval x * int unit_scale) = mag_val (f64_mag x) * unit_scale" by (simp add: v(1) nat_mult_distrib)
  ultimately have "rkey (sval x * int unit_scale) (nat (sval y)) = int (round_mag (mag_val (f64_mag x) * unit_scale) (mag_val (f64_mag y)))"
    using v(2) by (auto simp: rkey_nonneg)
  then show "f64_key (x / y) = rkey (sval x * int unit_scale) (nat (sval y))" by (simp add: e)
qed

subsection \<open>The index of a sample\<close>

lemma unit_parts: "int unit_scale = 256 * 2 ^ 1066" "int unit_scale = 2 * 2 ^ 1073"
proof -
  have e: "(2 :: int) ^ 1074 = 2 ^ 8 * 2 ^ 1066" "(2 :: int) ^ 1074 = 2 ^ 1 * 2 ^ 1073" unfolding power_add [symmetric] by simp_all
  show "int unit_scale = 256 * 2 ^ 1066" unfolding unit_scale_def of_nat_power of_nat_numeral e(1) by simp
  show "int unit_scale = 2 * 2 ^ 1073" unfolding unit_scale_def of_nat_power of_nat_numeral e(2) by simp
qed

lemma step_between:
  assumes m: "0 \<le> m" "m < 2 ^ 40" and q: "q = f64_of_int m / f64_of_int 99"
  shows "\<not> is_nan q" "99 * sval q \<le> (256 * m + 98) * 2 ^ 1066" "(256 * m - 98) * 2 ^ 1066 \<le> 99 * sval q"
proof -
  define U where "U = int unit_scale"
  define P where "P = (2 :: int) ^ 1066"
  have U: "U = 256 * P" "0 < U" "0 < P" unfolding U_def P_def using unit_parts(1) by simp_all
  have small: "small_int m" "small_int 99" using m by (simp_all add: small_int_def)
  have v: "sval (f64_of_int m) = m * U" "sval (f64_of_int 99) = 99 * U" unfolding U_def by (simp_all only: small_int_exact(1) small)
  have fin: "is_fin (f64_of_int m)" "is_fin (f64_of_int 99)" by (simp_all only: small_int_exact(2) small)
  have neg: "\<not> f64_neg (f64_of_int m)" "\<not> f64_neg (f64_of_int 99)" using m(1) by (simp_all add: f64_neg_of_int)
  have key: "\<not> is_nan q" "f64_key q = rkey (m * U * U) (nat (99 * U))"
    using f64_div_fin [OF fin neg] v U(2) unfolding q U_def [symmetric] by simp_all
  show "\<not> is_nan q" by (rule key(1))
  have Q: "0 < nat (99 * U)" "int (nat (99 * U)) = 99 * U" using U(2) by simp_all
  define k where "k = (256 * m + 98) div 99"
  have k: "0 \<le> k" "256 * m \<le> 99 * k" "99 * k \<le> 256 * m + 98" "k < 2 ^ 53" using m unfolding k_def by simp_all
  have nk: "int (nat k * 2 ^ 1066) = k * P" "nat k < 2 ^ 53" using k(1,4) by (simp_all add: P_def)
  have "m * U * U \<le> k * P * (99 * U)"
  proof -
    have "(256 * m) * (P * U) \<le> (99 * k) * (P * U)" using k(2) U by (intro mult_right_mono) simp_all
    then show ?thesis by (simp add: U(1) mult.assoc mult.left_commute)
  qed
  then have "sval q \<le> k * P" using rounded_between(1) [OF key Q(1) nk(2), of 1066] unfolding nk(1) Q(2) by simp
  then have "99 * sval q \<le> 99 * k * P" by simp
  also have "\<dots> \<le> (256 * m + 98) * P" using k(3) U(3) by (intro mult_right_mono) simp_all
  finally show "99 * sval q \<le> (256 * m + 98) * 2 ^ 1066" unfolding P_def .
  define j where "j = 256 * m div 99"
  have j: "0 \<le> j" "99 * j \<le> 256 * m" "256 * m - 98 \<le> 99 * j" "j < 2 ^ 53" using m unfolding j_def by simp_all
  have nj: "int (nat j * 2 ^ 1066) = j * P" "nat j < 2 ^ 53" using j(1,4) by (simp_all add: P_def)
  have "j * P * (99 * U) \<le> m * U * U"
  proof -
    have "(99 * j) * (P * U) \<le> (256 * m) * (P * U)" using j(2) U by (intro mult_right_mono) simp_all
    then show ?thesis by (simp add: U(1) mult.assoc mult.left_commute)
  qed
  then have "j * P \<le> sval q" using rounded_between(2) [OF key Q(1) nj(2), of 1066] unfolding nj(1) Q(2) by simp
  then have "99 * j * P \<le> 99 * sval q" by simp
  moreover have "(256 * m - 98) * P \<le> 99 * j * P" using j(3) U(3) by (intro mult_right_mono) simp_all
  ultimately show "(256 * m - 98) * 2 ^ 1066 \<le> 99 * sval q" unfolding P_def by linarith
qed

lemma fin_by_value:
  assumes "\<not> is_nan x" "\<bar>sval x\<bar> < 2 ^ 1200"
  shows "is_fin x"
proof (rule ccontr)
  assume "\<not> is_fin x"
  then have "inf_mag \<le> f64_mag x" by (simp add: is_fin_def)
  then have "mag_val inf_mag \<le> mag_val (f64_mag x)" by (simp add: mag_val_le_iff)
  then have "int (mag_val inf_mag) \<le> \<bar>sval x\<bar>" by (simp add: abs_sval)
  moreover have "(2 :: int) ^ 1200 \<le> 2 ^ 2046" by (rule power_increasing) simp_all
  moreover have "2 ^ 2046 \<le> int (mag_val inf_mag)" unfolding mag_val_inf hidden_bit_def by simp
  ultimately show False using assms(2) by linarith
qed

lemma value_bound: "\<bar>v\<bar> \<le> 2 ^ 60 * 2 ^ 1073 \<Longrightarrow> \<bar>v\<bar> < (2 :: int) ^ 1200"
proof -
  have "(2 :: int) ^ 60 * 2 ^ 1073 < 2 ^ 1200" unfolding power_add [symmetric] by (rule power_strict_increasing) simp_all
  then show "\<bar>v\<bar> \<le> 2 ^ 60 * 2 ^ 1073 \<Longrightarrow> \<bar>v\<bar> < (2 :: int) ^ 1200" by linarith
qed

text \<open>The product that is cut to an index, in units of \<open>2 ^ -1074\<close>.\<close>

definition product_value :: "int \<Rightarrow> int \<Rightarrow> int" where
  "product_value m i = sval (f64_of_int i * (f64_of_int m / f64_of_int 99))"

lemma product_value:
  assumes m: "1 \<le> m" "m < 2 ^ 40"
  shows "0 \<le> i \<Longrightarrow> i \<le> j \<Longrightarrow> j \<le> 99 \<Longrightarrow> product_value m i \<le> product_value m j"
    and "product_value m 0 = 0"
    and "product_value m 99 \<le> (2 * m + 1) * 2 ^ 1073" "(2 * m - 1) * 2 ^ 1073 \<le> product_value m 99"
    and "0 \<le> i \<Longrightarrow> i \<le> 99 \<Longrightarrow> \<not> is_nan (f64_of_int i * (f64_of_int m / f64_of_int 99))"
proof -
  define U where "U = int unit_scale"
  define P where "P = (2 :: int) ^ 1066"
  define R where "R = (2 :: int) ^ 1073"
  define q where "q = f64_of_int m / f64_of_int 99"
  have R: "R = 128 * P" "0 < P" using unit_parts unfolding R_def P_def by simp_all
  have U: "U = 2 * R" unfolding U_def R_def by (rule unit_parts)
  note step = step_between [of m q, folded P_def]
  have s: "\<not> is_nan q" "99 * sval q \<le> (256 * m + 98) * P" "(256 * m - 98) * P \<le> 99 * sval q"
    using step m by (simp_all add: q_def)
  have pos: "0 \<le> sval q"
  proof -
    have "0 \<le> (256 * m - 98) * P" using m R(2) by simp
    then show ?thesis using s(3) by linarith
  qed
  have "99 * sval q \<le> 2 ^ 60 * R"
  proof -
    have "(256 * m + 98) * P \<le> 2 ^ 60 * P" using m R(2) by (intro mult_right_mono) simp_all
    also have "\<dots> \<le> 2 ^ 60 * R" using R by simp
    finally show ?thesis using s(2) by linarith
  qed
  then have "is_fin q" using s(1) pos value_bound [of "sval q"] unfolding R_def by (intro fin_by_value) simp_all
  have key: "\<not> is_nan (f64_of_int i * q)" "f64_key (f64_of_int i * q) = rkey (i * U * sval q) unit_scale" if "0 \<le> i" "i \<le> 99" for i
  proof -
    have "small_int i" using that by (simp add: small_int_def)
    from f64_mult_fin [OF small_int_exact(2) [OF this] \<open>is_fin q\<close>] small_int_exact(1) [OF this]
    show "\<not> is_nan (f64_of_int i * q)" "f64_key (f64_of_int i * q) = rkey (i * U * sval q) unit_scale" by (simp_all add: U_def)
  qed
  then show "0 \<le> i \<Longrightarrow> i \<le> 99 \<Longrightarrow> \<not> is_nan (f64_of_int i * (f64_of_int m / f64_of_int 99))" by (simp add: q_def)
  have U0: "0 < U" using U R by simp
  show "0 \<le> i \<Longrightarrow> i \<le> j \<Longrightarrow> j \<le> 99 \<Longrightarrow> product_value m i \<le> product_value m j"
  proof -
    assume ij: "0 \<le> i" "i \<le> j" "j \<le> 99"
    have "i * U * sval q \<le> j * U * sval q" using ij pos U0 by (intro mult_right_mono) simp_all
    then have "f64_key (f64_of_int i * q) \<le> f64_key (f64_of_int j * q)"
      using key(2) ij rkey_mono [OF unit_scale_pos] by simp
    then show ?thesis using key(1) [of i] key(1) [of j] ij by (simp add: product_value_def q_def [symmetric] sval_le_iff)
  qed
  show "product_value m 0 = 0"
  proof -
    have "f64_key (f64_of_int 0 * q) = 0" using key(2) [of 0] by simp
    then show ?thesis by (auto simp: product_value_def q_def [symmetric] f64_key_def sval_def split: if_splits)
  qed
  have nk: "int (nat (2 * m + 1) * 2 ^ 1073) = (2 * m + 1) * R" "nat (2 * m + 1) < 2 ^ 53" using m by (simp_all add: R_def)
  have "99 * U * sval q \<le> (2 * m + 1) * R * U"
  proof -
    have "99 * sval q \<le> (2 * m + 1) * R"
      using s(2) R(2) mult_right_mono [of 98 128 P] by (simp add: R(1) algebra_simps)
    then have "99 * sval q * U \<le> (2 * m + 1) * R * U" using U0 by (intro mult_right_mono) simp_all
    then show ?thesis by (simp add: mult.commute mult.left_commute)
  qed
  then have "product_value m 99 \<le> (2 * m + 1) * R"
    using rounded_between(1) [OF key [of 99] unit_scale_pos nk(2), of 1073]
    unfolding nk(1) product_value_def q_def [symmetric] U_def [symmetric] by simp
  then show "product_value m 99 \<le> (2 * m + 1) * 2 ^ 1073" unfolding R_def .
  have nj: "int (nat (2 * m - 1) * 2 ^ 1073) = (2 * m - 1) * R" "nat (2 * m - 1) < 2 ^ 53" using m by (simp_all add: R_def)
  have "(2 * m - 1) * R * U \<le> 99 * U * sval q"
  proof -
    have "(2 * m - 1) * R \<le> 99 * sval q"
      using s(3) R(2) mult_right_mono [of 98 128 P] by (simp add: R(1) algebra_simps)
    then have "(2 * m - 1) * R * U \<le> 99 * sval q * U" using U0 by (intro mult_right_mono) simp_all
    then show ?thesis by (simp add: mult.commute mult.left_commute)
  qed
  then have "(2 * m - 1) * R \<le> product_value m 99"
    using rounded_between(2) [OF key [of 99] unit_scale_pos nj(2), of 1073]
    unfolding nj(1) product_value_def q_def [symmetric] U_def [symmetric] by simp
  then show "(2 * m - 1) * 2 ^ 1073 \<le> product_value m 99" unfolding R_def .
qed

lemma sample_index_value:
  assumes m: "1 \<le> m" "m < 2 ^ 40" and i: "0 \<le> i" "i \<le> 99"
  shows "sample_index (m + 1) i = product_value m i div int unit_scale" "0 \<le> product_value m i" "product_value m i \<le> (2 * m + 1) * 2 ^ 1073"
proof -
  define R where "R = (2 :: int) ^ 1073"
  have U: "int unit_scale = 2 * R" unfolding R_def by (rule unit_parts)
  have R: "0 < R" by (simp add: R_def)
  note V = product_value [OF m]
  show lo: "0 \<le> product_value m i" using V(1) [of 0 i] V(2) i by simp
  have hi: "product_value m i \<le> (2 * m + 1) * R" using V(1) [of i 99] V(3) i unfolding R_def by linarith
  then show "product_value m i \<le> (2 * m + 1) * 2 ^ 1073" unfolding R_def .
  have "(2 * m + 1) * R \<le> 2 ^ 60 * R" using m R by (intro mult_right_mono) simp_all
  then have "is_fin (f64_of_int i * (f64_of_int m / f64_of_int 99))"
    using V(5) [OF i] lo hi value_bound [of "product_value m i"] unfolding product_value_def R_def by (intro fin_by_value) simp_all
  moreover have "product_value m i div (2 * R) \<le> m"
    using zdiv_mono1 [OF hi, of "2 * R"] R div_mult_mult2 [of R "2 * m + 1" 2] by simp
  moreover have "0 \<le> product_value m i div (2 * R)" using lo R by (simp add: pos_imp_zdiv_nonneg_iff)
  moreover have "sgn (product_value m i) * (\<bar>product_value m i\<bar> div (2 * R)) = product_value m i div (2 * R)"
    using lo by (cases "product_value m i = 0") (simp_all add: sgn_if)
  ultimately have "int_of_f64 (f64_of_int i * (f64_of_int m / f64_of_int 99)) = product_value m i div (2 * R)"
    using m unfolding int_of_f64_def U product_value_def [symmetric] by (simp add: is_i64_def)
  then show "sample_index (m + 1) i = product_value m i div int unit_scale"
    unfolding U by (simp add: sample_index_def maxSamples_def)
qed

lemma sample_indices:
  assumes n: "100 < n" "n \<le> 2 ^ 40"
  shows "0 \<le> i \<Longrightarrow> i \<le> 99 \<Longrightarrow> 0 \<le> sample_index n i \<and> sample_index n i < n"
    and "0 \<le> i \<Longrightarrow> i \<le> j \<Longrightarrow> j \<le> 99 \<Longrightarrow> sample_index n i \<le> sample_index n j"
    and "sample_index n 0 = 0" and "n - 2 \<le> sample_index n 99"
proof -
  define m where "m = n - 1"
  define R where "R = (2 :: int) ^ 1073"
  have m: "1 \<le> m" "m < 2 ^ 40" "n = m + 1" using n by (simp_all add: m_def)
  have U: "int unit_scale = 2 * R" and R: "0 < R" unfolding R_def using unit_parts(2) by simp_all
  note V = sample_index_value [OF m(1,2)]
  show "0 \<le> i \<Longrightarrow> i \<le> 99 \<Longrightarrow> 0 \<le> sample_index n i \<and> sample_index n i < n"
  proof -
    assume i: "0 \<le> i" "i \<le> 99"
    have "product_value m i \<le> (2 * m + 1) * R" using V(3) [OF i] unfolding R_def .
    then have "product_value m i div (2 * R) \<le> m"
      using zdiv_mono1 [of _ _ "2 * R"] R div_mult_mult2 [of R "2 * m + 1" 2] by fastforce
    moreover have "0 \<le> product_value m i div (2 * R)" using V(2) [OF i] R by (simp add: pos_imp_zdiv_nonneg_iff)
    ultimately show ?thesis using V(1) [OF i] by (simp add: m(3) U)
  qed
  show "0 \<le> i \<Longrightarrow> i \<le> j \<Longrightarrow> j \<le> 99 \<Longrightarrow> sample_index n i \<le> sample_index n j"
    using V(1) [of i] V(1) [of j] product_value(1) [OF m(1,2), of i j] R by (simp add: m(3) U zdiv_mono1)
  show "sample_index n 0 = 0" using V(1) [of 0] product_value(2) [OF m(1,2)] by (simp add: m(3))
  have "(2 * m - 1) * R \<le> product_value m 99" using product_value(4) [OF m(1,2)] unfolding R_def .
  then have "(2 * m - 1) div 2 \<le> product_value m 99 div (2 * R)"
    using zdiv_mono1 [of "(2 * m - 1) * R" "product_value m 99" "2 * R"] R div_mult_mult2 [of R "2 * m - 1" 2] by simp
  then show "n - 2 \<le> sample_index n 99" using V(1) [of 99] by (simp add: m(3) U)
qed

lemma those_map_Some: "(\<And>x. x \<in> set xs \<Longrightarrow> f x = Some (g x)) \<Longrightarrow> those (map f xs) = Some (map g xs)"
  by (induction xs) simp_all

subsection \<open>Properties\<close>

text \<open>
  C38. The report shows all samples, or a hundred of them: the indices that are computed in floating
  point never leave the slice, ascend, begin with the first sample and end with the last one
  or the one before it, for up to \<open>2 ^ 40\<close> samples.
\<close>

theorem report_samples_spread:
  assumes "length samples \<le> 2 ^ 40"
  shows "\<exists>ks. report_samples samples = Some (map ((!) samples) ks) \<and> length ks = min (length samples) 100 \<and> sorted ks
    \<and> (\<forall>j \<in> set ks. j < length samples) \<and> (samples \<noteq> [] \<longrightarrow> hd ks = 0 \<and> length samples - 2 \<le> last ks)"
proof (cases "int (length samples) > maxSamples")
  case False
  then have "samples \<noteq> [] \<longrightarrow> length samples - 2 \<le> last [0..<length samples]" by (cases samples) (simp_all add: last_conv_nth)
  then show ?thesis using False
    by (intro exI [of _ "[0..<length samples]"]) (auto simp: report_samples_def map_nth maxSamples_def)
next
  case True
  let ?n = "int (length samples)"
  have n: "100 < ?n" "?n \<le> 2 ^ 40" using True assms by (simp_all add: maxSamples_def)
  note I = sample_indices [OF n]
  define us :: "int list" where "us = [0..99]"
  have us: "set us = {0..99}" "length us = 100" "sorted us" "us \<noteq> []" "hd us = 0" "last us = 99"
    unfolding us_def by (rule set_upto, rule trans [OF length_upto], simp, rule sorted_upto, code_simp+)
  define ks where "ks = map (\<lambda>i. nat (sample_index ?n i)) us"
  have "those (map (\<lambda>i. get samples (sample_index ?n i)) us) = Some (map (\<lambda>i. samples ! nat (sample_index ?n i)) us)"
    using I(1) us(1) by (intro those_map_Some) simp
  then have "report_samples samples = Some (map ((!) samples) ks)" using True
    unfolding report_samples_def us_def [symmetric] by (simp add: maxSamples_def ks_def us_def)
  moreover have "length ks = 100" by (simp add: ks_def us)
  moreover have "sorted_wrt (\<lambda>i j. nat (sample_index ?n i) \<le> nat (sample_index ?n j)) us"
    by (rule sorted_wrt_mono_rel [OF _ us(3)]) (use I(2) us(1) in \<open>auto intro: nat_mono\<close>)
  from this have "sorted ks" by (simp add: ks_def sorted_wrt_map)
  moreover have "\<forall>j \<in> set ks. j < length samples" using I(1) by (auto simp: ks_def us nat_less_iff)
  moreover have "hd ks = 0" using I(3) by (simp add: ks_def us hd_map)
  moreover have "length samples - 2 \<le> last ks" using I(4) by (simp add: ks_def us last_map)
  ultimately show ?thesis using n by (intro exI [of _ ks]) simp
qed

subsection \<open>A witness\<close>

lemma report_samples_spread_witness:
  "\<exists>ks. report_samples (replicate 250 (0 :: nat)) = Some (map ((!) (replicate 250 0)) ks) \<and> length ks = 100 \<and> hd ks = 0"
  using report_samples_spread [of "replicate 250 (0 :: nat)"] by auto

end
