(* ===== verification/Collector.thy ===== *)
theory Collector
  imports Stats StringTable Binary
begin

section \<open>The collector of statistics\<close>

text \<open>
  \<open>Collector\<close> of \<^verbatim>\<open>internal/stats/collector.go\<close>: a goroutine takes a sample when it begins, at every
  tick, and when it is told to stop; \<open>Stop\<close> tells it, waits for it, and makes the summary. Times and
  durations count nanoseconds. What a sample reads from the run-time and the process
  is a \<open>measured\<close>.
\<close>

record measured =
  ms_HeapAlloc :: u64
  ms_HeapSys :: u64
  ms_HeapInuse :: u64
  ms_StackInuse :: u64
  ms_TotalAlloc :: u64
  ms_Sys :: u64
  ms_NumGC :: u32
  ms_NumGoroutine :: int
  ms_RSS :: "u64 option result"
  ms_CPUPercent :: "f64 result"
  ms_SystemCPU :: "f64 list result"

record runtime_stats =
  rs_StartTime :: int
  rs_EndTime :: int
  rs_TotalElapsed :: int
  rs_ElapsedHuman :: gostring
  rs_Samples :: "stat_point list"
  rs_Summary :: stats_summary

record collector =
  cl_stats :: runtime_stats
  cl_startTime :: int
  cl_stopChan :: bool
  cl_doneChan :: bool
  cl_interval :: int

text \<open>The channels are whether they are closed. The zero time is 0.\<close>

definition NewCollector :: "'p result \<Rightarrow> int \<Rightarrow> collector result" where
  "NewCollector proc interval =
     map_sum (Wrap ''failed to get process info'') (\<lambda>_. \<lparr>cl_stats = \<lparr>rs_StartTime = 0, rs_EndTime = 0, rs_TotalElapsed = 0,
         rs_ElapsedHuman = [], rs_Samples = [], rs_Summary = no_summary\<rparr>,
       cl_startTime = 0, cl_stopChan = False, cl_doneChan = False, cl_interval = interval\<rparr>) proc"

definition Start :: "int \<Rightarrow> collector \<Rightarrow> collector" where
  "Start now c = c\<lparr>cl_startTime := now, cl_stats := (cl_stats c)\<lparr>rs_StartTime := now\<rparr>\<rparr>"

text \<open>Go's division and remainder of durations are towards zero.\<close>

definition duration_Seconds :: "int \<Rightarrow> f64" where
  "duration_Seconds d =
     (let sec = sgn d * (\<bar>d\<bar> div 10 ^ 9); nsec = d - sec * 10 ^ 9 in
      f64_of_int sec + f64_of_int nsec / f64_of_int (10 ^ 9))"

definition duration_Milliseconds :: "int \<Rightarrow> int" where
  "duration_Milliseconds d = sgn d * (\<bar>d\<bar> div 10 ^ 6)"

definition sample_point :: "int \<Rightarrow> int \<Rightarrow> measured \<Rightarrow> stat_point" where
  "sample_point elapsed now m =
     \<lparr>sp_Timestamp = now, sp_ElapsedSeconds = duration_Seconds elapsed,
      sp_HeapAlloc = ms_HeapAlloc m, sp_HeapSys = ms_HeapSys m, sp_HeapInuse = ms_HeapInuse m, sp_StackInuse = ms_StackInuse m,
      sp_TotalAlloc = ms_TotalAlloc m, sp_Sys = ms_Sys m, sp_NumGC = ms_NumGC m,
      sp_ProcessRSSBytes = (case ms_RSS m of Inr (Some rss) \<Rightarrow> rss | _ \<Rightarrow> 0),
      sp_CPUPercent = (case ms_CPUPercent m of Inr percent \<Rightarrow> percent | _ \<Rightarrow> 0),
      sp_SystemCPU = (case ms_SystemCPU m of Inr percents \<Rightarrow> percents | _ \<Rightarrow> []),
      sp_NumGoroutine = ms_NumGoroutine m\<rparr>"

definition take_sample :: "int \<Rightarrow> int \<Rightarrow> measured \<Rightarrow> collector \<Rightarrow> collector" where
  "take_sample t now m c =
     c\<lparr>cl_stats := (cl_stats c)\<lparr>rs_Samples := rs_Samples (cl_stats c) @ [sample_point (t - cl_startTime c) now m]\<rparr>\<rparr>"

text \<open>The end of \<open>Stop\<close>, after the goroutine has ended.\<close>

definition finish_stats :: "(int \<Rightarrow> gostring) \<Rightarrow> int \<Rightarrow> collector \<Rightarrow> collector" where
  "finish_stats human now c =
     (let s = (cl_stats c)\<lparr>rs_EndTime := now, rs_TotalElapsed := now - rs_StartTime (cl_stats c),
        rs_ElapsedHuman := human (now - rs_StartTime (cl_stats c))\<rparr> in
      c\<lparr>cl_stats := s\<lparr>rs_Summary := calculateSummary (duration_Milliseconds (cl_interval c)) (rs_Samples s) (rs_Summary s)\<rparr>\<rparr>)"

subsection \<open>The goroutine\<close>

datatype loop_phase = Begins | Selects | Ended | Crashed
datatype stop_phase = NotStopped | Waits | Stopped

record collection =
  cn_collector :: collector
  cn_loop :: loop_phase
  cn_stop :: stop_phase

definition started :: "int \<Rightarrow> collector \<Rightarrow> collection" where
  "started now c = \<lparr>cn_collector = Start now c, cn_loop = Begins, cn_stop = NotStopped\<rparr>"

text \<open>
  \<open>time.NewTicker\<close> panics unless the interval is positive. A \<open>select\<close> with both channels ready
  takes either.
\<close>

inductive collect_step :: "(int \<Rightarrow> gostring) \<Rightarrow> collection \<Rightarrow> collection \<Rightarrow> bool"
  for human :: "int \<Rightarrow> gostring" where
  panics: "cn_loop s = Begins \<Longrightarrow> cl_interval (cn_collector s) \<le> 0 \<Longrightarrow> collect_step human s (s\<lparr>cn_loop := Crashed\<rparr>)"
| begins: "cn_loop s = Begins \<Longrightarrow> 0 < cl_interval (cn_collector s)
    \<Longrightarrow> collect_step human s (s\<lparr>cn_loop := Selects, cn_collector := take_sample t now m (cn_collector s)\<rparr>)"
| ticks: "cn_loop s = Selects
    \<Longrightarrow> collect_step human s (s\<lparr>cn_collector := take_sample t now m (cn_collector s)\<rparr>)"
| told: "cn_loop s = Selects \<Longrightarrow> cl_stopChan (cn_collector s)
    \<Longrightarrow> collect_step human s (s\<lparr>cn_loop := Ended, cn_collector := (take_sample t now m (cn_collector s))\<lparr>cl_doneChan := True\<rparr>\<rparr>)"
| stops: "cn_stop s = NotStopped \<Longrightarrow> cn_loop s \<noteq> Crashed
    \<Longrightarrow> collect_step human s (s\<lparr>cn_stop := Waits, cn_collector := (cn_collector s)\<lparr>cl_stopChan := True\<rparr>\<rparr>)"
| stopped: "cn_stop s = Waits \<Longrightarrow> cl_doneChan (cn_collector s) \<Longrightarrow> cn_loop s \<noteq> Crashed
    \<Longrightarrow> collect_step human s (s\<lparr>cn_stop := Stopped, cn_collector := finish_stats human now (cn_collector s)\<rparr>)"

subsection \<open>The invariant\<close>

definition collect_inv :: "int \<Rightarrow> collection \<Rightarrow> bool" where
  "collect_inv interval s \<longleftrightarrow>
     (let c = cn_collector s; n = length (rs_Samples (cl_stats c)) in
      cl_interval c = interval
      \<and> (cl_stopChan c \<longleftrightarrow> cn_stop s \<noteq> NotStopped) \<and> (cl_doneChan c \<longleftrightarrow> cn_loop s = Ended)
      \<and> (cn_loop s = Selects \<longrightarrow> 0 < interval \<and> 1 \<le> n) \<and> (cn_loop s = Ended \<longrightarrow> 0 < interval \<and> 2 \<le> n)
      \<and> (cn_stop s = Stopped \<longrightarrow> cn_loop s = Ended) \<and> (cn_loop s = Crashed \<longrightarrow> interval \<le> 0)
      \<and> (cn_stop s \<noteq> Stopped \<longrightarrow> rs_Summary (cl_stats c) = no_summary)
      \<and> (cn_stop s = Stopped \<longrightarrow> rs_Summary (cl_stats c) = calculateSummary (duration_Milliseconds interval) (rs_Samples (cl_stats c)) no_summary
           \<and> rs_TotalElapsed (cl_stats c) = rs_EndTime (cl_stats c) - rs_StartTime (cl_stats c)))"

lemma collect_inv_init:
  assumes "NewCollector proc interval = Inr c"
  shows "collect_inv interval (started now c)"
  using assms by (cases proc) (auto simp: NewCollector_def collect_inv_def started_def Start_def Let_def)

lemma collect_inv_step:
  assumes "collect_inv interval s" "collect_step human s s'"
  shows "collect_inv interval s'"
  using assms(2,1) by cases (auto simp: collect_inv_def take_sample_def finish_stats_def Let_def)

interpretation collecting: preserved "collect_step human" "collect_inv interval" for human interval
  by unfold_locales (rule collect_inv_step)

lemmas collect_reached = collecting.inv_steps [OF _ collect_inv_init]

subsection \<open>It can always be stopped\<close>

definition loop_left :: "loop_phase \<Rightarrow> nat" where
  "loop_left p = (case p of Begins \<Rightarrow> 2 | Selects \<Rightarrow> 1 | _ \<Rightarrow> 0)"

definition stop_left :: "stop_phase \<Rightarrow> nat" where
  "stop_left p = (case p of NotStopped \<Rightarrow> 2 | Waits \<Rightarrow> 1 | Stopped \<Rightarrow> 0)"

lemma collect_nearer:
  assumes "collect_inv interval s" "0 < interval" "cn_stop s \<noteq> Stopped"
  shows "\<exists>s'. collect_step human s s' \<and> loop_left (cn_loop s') + stop_left (cn_stop s') < loop_left (cn_loop s) + stop_left (cn_stop s)"
proof (cases "cn_stop s")
  case NotStopped
  then have "collect_step human s (s\<lparr>cn_stop := Waits, cn_collector := (cn_collector s)\<lparr>cl_stopChan := True\<rparr>\<rparr>)"
    using assms by (intro collect_step.stops) (auto simp: collect_inv_def Let_def)
  then show ?thesis using NotStopped by (intro exI conjI) (assumption, simp add: stop_left_def)
next
  case Waits
  then have c: "cl_stopChan (cn_collector s)" "cl_interval (cn_collector s) = interval" "cn_loop s \<noteq> Crashed"
    using assms by (auto simp: collect_inv_def Let_def)
  show ?thesis
  proof (cases "cn_loop s")
    case Begins
    then show ?thesis using collect_step.begins [OF Begins] c(2) assms(2) by (intro exI conjI) (assumption | simp add: loop_left_def)+
  next
    case Selects
    show ?thesis using collect_step.told [OF Selects c(1)] Selects by (intro exI conjI) (assumption | simp add: loop_left_def)+
  next
    case Ended
    then have "cl_doneChan (cn_collector s)" using assms(1) by (simp add: collect_inv_def Let_def)
    then show ?thesis using collect_step.stopped [OF Waits _ c(3)] Waits by (intro exI conjI) (assumption | simp add: stop_left_def)+
  qed (use c in simp)
qed (use assms in simp)

lemma collect_can_stop:
  assumes "collect_inv interval s" "0 < interval"
  shows "\<exists>s'. (collect_step human)\<^sup>*\<^sup>* s s' \<and> cn_stop s' = Stopped"
  using assms(1)
proof (induction "loop_left (cn_loop s) + stop_left (cn_stop s)" arbitrary: s rule: less_induct)
  case less
  show ?case
  proof (cases "cn_stop s = Stopped")
    case False
    then obtain s' where s': "collect_step human s s'"
      "loop_left (cn_loop s') + stop_left (cn_stop s') < loop_left (cn_loop s) + stop_left (cn_stop s)"
      using collect_nearer [OF less.prems assms(2)] by blast
    then obtain s'' where "(collect_step human)\<^sup>*\<^sup>* s' s''" "cn_stop s'' = Stopped" using less.hyps collect_inv_step [OF less.prems] by blast
    then show ?thesis using s'(1) converse_rtranclp_into_rtranclp by metis
  qed blast
qed

subsection \<open>Properties\<close>

text \<open>
  C40. A collector with a positive interval does not crash and can always be stopped, however its ticks come,
  and what \<open>Stop\<close> returns describes the samples: there are at least two, the summary counts all of them and has their largest values,
  and the elapsed time is the one between start and end. With an interval that
  is not positive the goroutine can only panic, which ends the program.
\<close>

theorem collector_reports:
  assumes "NewCollector proc interval = Inr c" and "(collect_step human)\<^sup>*\<^sup>* (started now c) s"
  shows "(0 < interval \<longrightarrow> cn_loop s \<noteq> Crashed \<and> (\<exists>s'. (collect_step human)\<^sup>*\<^sup>* s s' \<and> cn_stop s' = Stopped))
    \<and> (cn_stop s = Stopped \<longrightarrow>
         (let st = cl_stats (cn_collector s) in
          2 \<le> length (rs_Samples st) \<and> SampleCount (rs_Summary st) = int (length (rs_Samples st))
          \<and> SampleIntervalMs (rs_Summary st) = interval div 10 ^ 6
          \<and> PeakHeapAlloc (rs_Summary st) = Max (sp_HeapAlloc ` set (rs_Samples st))
          \<and> PeakProcessRSS (rs_Summary st) = Max (sp_ProcessRSSBytes ` set (rs_Samples st))
          \<and> TotalGCCycles (rs_Summary st) = Max (sp_NumGC ` set (rs_Samples st))
          \<and> rs_TotalElapsed st = rs_EndTime st - rs_StartTime st))
    \<and> (interval \<le> 0 \<longrightarrow> cn_loop s \<in> {Begins, Crashed} \<and> cn_stop s \<noteq> Stopped)"
proof -
  have inv: "collect_inv interval s" by (rule collect_reached [OF assms(2,1)])
  have live: "cn_loop s \<noteq> Crashed" if "0 < interval" using inv that by (auto simp: collect_inv_def Let_def)
  have crash: "cn_loop s \<in> {Begins, Crashed} \<and> cn_stop s \<noteq> Stopped" if "interval \<le> 0"
    using inv that by (cases "cn_loop s") (auto simp: collect_inv_def Let_def)
  let ?st = "cl_stats (cn_collector s)"
  have report: "2 \<le> length (rs_Samples ?st) \<and> SampleCount (rs_Summary ?st) = int (length (rs_Samples ?st))
      \<and> SampleIntervalMs (rs_Summary ?st) = interval div 10 ^ 6
      \<and> PeakHeapAlloc (rs_Summary ?st) = Max (sp_HeapAlloc ` set (rs_Samples ?st))
      \<and> PeakProcessRSS (rs_Summary ?st) = Max (sp_ProcessRSSBytes ` set (rs_Samples ?st))
      \<and> TotalGCCycles (rs_Summary ?st) = Max (sp_NumGC ` set (rs_Samples ?st))
      \<and> rs_TotalElapsed ?st = rs_EndTime ?st - rs_StartTime ?st" if "cn_stop s = Stopped"
  proof -
    have i: "0 < interval" "2 \<le> length (rs_Samples ?st)" "rs_TotalElapsed ?st = rs_EndTime ?st - rs_StartTime ?st"
      "rs_Summary ?st = calculateSummary (duration_Milliseconds interval) (rs_Samples ?st) no_summary"
      using inv that by (auto simp: collect_inv_def Let_def)
    have "duration_Milliseconds interval = interval div 10 ^ 6" using i(1) by (simp add: duration_Milliseconds_def)
    moreover have "rs_Samples ?st \<noteq> []" using i(2) by auto
    ultimately show ?thesis using summary_peaks [OF _ i(4)] i(2,3) by simp
  qed
  show ?thesis using live crash report collect_can_stop [OF inv] by (simp add: Let_def)
qed

subsection \<open>A witness\<close>

lemma collector_reports_witness:
  "\<exists>s. (collect_step (\<lambda>_. []))\<^sup>*\<^sup>* (started 5 \<lparr>cl_stats = \<lparr>rs_StartTime = 0, rs_EndTime = 0, rs_TotalElapsed = 0,
         rs_ElapsedHuman = [], rs_Samples = [], rs_Summary = no_summary\<rparr>, cl_startTime = 0, cl_stopChan = False, cl_doneChan = False, cl_interval = 10 ^ 9\<rparr>) s
    \<and> cn_stop s = Stopped \<and> 2 \<le> length (rs_Samples (cl_stats (cn_collector s)))
    \<and> SampleIntervalMs (rs_Summary (cl_stats (cn_collector s))) = 1000"
proof -
  let ?c = "\<lparr>cl_stats = \<lparr>rs_StartTime = 0, rs_EndTime = 0, rs_TotalElapsed = 0,
         rs_ElapsedHuman = [], rs_Samples = [], rs_Summary = no_summary\<rparr>, cl_startTime = 0, cl_stopChan = False, cl_doneChan = False, cl_interval = 10 ^ 9\<rparr>"
  have c: "NewCollector (Inr ()) (10 ^ 9) = Inr ?c" by (simp add: NewCollector_def)
  obtain s where s: "(collect_step (\<lambda>_. []))\<^sup>*\<^sup>* (started 5 ?c) s" "cn_stop s = Stopped"
    using collector_reports [OF c, of "\<lambda>_. []" 5 "started 5 ?c"] by auto
  then show ?thesis using collector_reports [OF c s(1)] by (intro exI [of _ s]) (simp add: Let_def)
qed

end
