(* ===== verification/Spec2Isabelle.thy ===== *)
theory Spec2Isabelle
  imports RangeIndex Geocoder_Search GeomMaker Tee OsmRun Unmarshal Commands Simulate Collector
begin

text \<open>
  A verification development for \<^verbatim>\<open>rgeocache\<close>, a reverse geocoder in Go: a parser extracts
  named points and region borders from OpenStreetMap data, a cache file stores them, and a
  geocoder loads the file and answers which address, region and country belong to a
  position.

  \<^bold>\<open>Parts and theories.\<close>
  \<^item> \<open>Prelude\<close>: Go values. A slice access that may be out of range is \<open>get\<close>/\<open>put\<close> with
    \<^const>\<open>None\<close> for the panic, \<open>int\<close> is an integer and \<open>i64\<close> its wrap-around where it matters,
    \<open>for_each\<close> is a loop that may panic. \<open>process\<close> is the locale of a transition system that keeps
    an invariant and ends; the goroutines of \<open>Tee\<close>, \<open>Server\<close>, \<open>ParseRun\<close>, \<open>OsmRun\<close>,
    \<open>Concurrently\<close> and \<open>Simulate\<close> interpret it.
  \<^item> \<open>Rounding\<close>, \<open>Float64\<close>, \<open>Float32\<close>: IEEE-754 numbers on their bits, with comparison, sum,
    product, quotient and the conversions between the two widths. The rounding lemmas are
    proved once for any number of fraction bits.
  \<^item> \<open>KDBush\<close>, \<open>KDBush_Query\<close> (\<^verbatim>\<open>kdbush/kdbush.go\<close>): the index in memory. Its state is the two
    arrays \<open>idxs\<close> and \<open>coords\<close>; \<open>NewBush\<close> sorts them by \<open>sselect\<close>, \<open>Range\<close> and \<open>Within\<close> walk
    them with an explicit stack. \<open>kd_search\<close> is the locale of a traversal that prunes soundly;
    both queries interpret it.
  \<^item> \<open>Binary\<close>, \<open>KDBush_Disk\<close>, \<open>PointData\<close> (\<^verbatim>\<open>kdbush/kdbush_disk.go\<close>, \<^verbatim>\<open>save/v2/pointdata.go\<close>): the
    same index in a file. \<open>codec\<close> is the locale of a record encoding, interpreted by the v2
    point record; the lemmas about files are proved once in it.
  \<^item> \<open>RangeIndex\<close> (\<^verbatim>\<open>internal/rangeindex/index.go\<close>): a map from integers kept as maximal segments
    in a B-tree, abstracted to the map it stands for.
  \<^item> \<open>BorderTree\<close> (\<^verbatim>\<open>internal/bordertree/bordertree.go\<close>): borders with a quadtree of their boxes.
  \<^item> \<open>StringTable\<close> (\<^verbatim>\<open>save/v1/dedupemap.go\<close>, \<^verbatim>\<open>save/v2/strings.go\<close>): the two tables that number
    strings; \<open>interner\<close> is the locale of what both promise, interpreted by both.
  \<^item> \<open>Stream\<close>: an \<open>io.Reader\<close> as the chunks it delivers and its final error; protobuf codecs and
    the calendar as parameters. \<open>proto_ok\<close> is the law of the codecs; \<open>readable_time\<close> says that a written time
    can be read, though not exactly, and \<open>reads_time\<close> what is read.
  \<^item> \<open>CacheModel\<close> (\<^verbatim>\<open>cachesaver/model\<close>, \<^verbatim>\<open>geomodel/info.go\<close>, \<^verbatim>\<open>polygon.go\<close> of both formats): points,
    zones, metadata, and geometry rounded to \<^verbatim>\<open>float32\<close>.
  \<^item> \<open>CacheV2\<close>, \<open>CacheV1\<close> (\<^verbatim>\<open>cachesaver/save/v2\<close>, \<^verbatim>\<open>cachesaver/save/v1\<close>): saving and loading of the
    two formats. An iterator is the list of what it yields; the goroutines of the v1 reader
    hand on their values in order, so the pipeline is a composition of list functions.
  \<^item> \<open>CacheSaver\<close> (\<^verbatim>\<open>cachesaver\<close>): magic bytes, level, choice of the loader, size analysis.
  \<^item> \<open>Geocoder\<close>, \<open>Geocoder_Search\<close> (\<^verbatim>\<open>geocoder\<close>): the geocoder in memory and on a file, their
    options and loaders, and what a search answers.
  \<^item> \<open>GeomMaker\<close> (\<^verbatim>\<open>geoparser/geommaker.go\<close>): the ways of a relation joined to rings and assembled
    to polygons.
  \<^item> \<open>Localize\<close> (\<^verbatim>\<open>geoparser/localize.go\<close>, \<^verbatim>\<open>cache.go\<close>, \<^verbatim>\<open>calc.go\<close>): the state of the generator, the
    pass that remembers translated names and the borders of places and regions, and the
    names an object gets from them.
  \<^item> \<open>Parser\<close>, \<open>ParseRun\<close> (\<^verbatim>\<open>geoparser/parser.go\<close>, \<^verbatim>\<open>fill_cache.go\<close>): the points and zones of a node, a
    way or a relation, and the goroutines that parse all of them, a transition system of tasks
    that share the indices of parsed ids and send their points over a channel of ten to the saver.
  \<^item> \<open>Generate\<close> (\<^verbatim>\<open>geoparser/geogen.go\<close>, \<^verbatim>\<open>save.go\<close>): from the objects of a database to the outputs.
  \<^item> \<open>OsmRun\<close> (\<^verbatim>\<open>geoparser/geogen.go\<close>, \<^verbatim>\<open>fill_cache.go\<close>): the goroutines of a run of the generator and what
    becomes of their errors, a transition system.
  \<^item> \<open>Tee\<close> (\<^verbatim>\<open>geoparser/save.go\<close>): the copies of a stream for several savers, a transition system
    of a source, its channels and the savers.
  \<^item> \<open>Server\<close> (\<^verbatim>\<open>server/server.go\<close>): the HTTP handlers and the pool of goroutines, a transition
    system of a producer, a channel and workers. \<open>Unmarshal\<close> (\<^verbatim>\<open>server/unmarshal.go\<close>): a parser of
    lists of positions that only its tests call.
  \<^item> \<open>Serve\<close> (\<^verbatim>\<open>cmd/main.go\<close>): the command that tells the format of the cache file, loads it and
    hands the geocoder to the server. \<open>Pipeline\<close>: the stages composed, from the database to an answer.
    \<open>Requests\<close> (\<^verbatim>\<open>geocoder/locator.go\<close>): \<open>geocoder_interface\<close>, the locale of what the handlers
    rely on, interpreted by the geocoder in memory and by what \<open>serve\<close> hands to the server.
  \<^item> \<open>Concurrently\<close> (\<^verbatim>\<open>geoparser/fill_cache.go\<close>): several iterators read at once, a transition system
    whose results are exactly the merges of the sources.
  \<^item> \<open>Commands\<close> (\<^verbatim>\<open>cmd/main.go\<close>): the command \<open>generate\<close> from its flags to the files it leaves.
  \<^item> \<open>Simulate\<close> (\<^verbatim>\<open>cmd/simulate\<close>): the load test of a server and the comparison of two servers. Both are
    workers that finish requests; \<open>load_jobs\<close> is the locale of requests that can always be finished.
  \<^item> \<open>Stats\<close>, \<open>Collector\<close> (\<^verbatim>\<open>internal/stats/collector.go\<close>): the summary and the report of run-time
    statistics, and the goroutine that takes the samples until it is stopped.

  \<^bold>\<open>What the theorems show.\<close> Building an index never fails and gives a k-d tree of the points;
  \<open>Range\<close> finds exactly the points of the box and \<open>Within\<close> visits exactly those of the circle up
  to its boundary. The index written to a file answers as the one in memory. The range
  index is the map it stands for, with its segments disjoint and maximal. A saved v1
  cache is read back unchanged up to the precision of zone geometry; a saved v2 cache opens
  in place with the same content. On top of that, the geocoder in memory and the one on a
  file give the same answers, a search never panics for radii whose square is finite, and its
  answer is a point in the radius, a nearest one when the weights are equal, completed by
  the borders that contain the position. Assembling polygons loses and invents no edge and
  panics for one shape of relation only, a lone outer way without nodes (\<open>unorientable\<close>), and the
  passes over a database do not panic without such a relation (\<open>orientable\<close>). The pool of the server ends and answers every position in order for every
  interleaving, and so do the copies of \<open>Tee\<close> while every saver reads. Names are translated by what
  some relation says, regions and cities are those of borders around the position. Parsing
  ends while the saver receives, and gives the same points and zones for every interleaving, each way and relation once;
  the cache generated from them loads with exactly these points and zones, and the server
  answers alike for a cache of either format whose texts have no NUL byte and at most 512 bytes, so that
  every comparison of two such servers on at least two processors ends without a mismatch. Composed: after \<open>generate\<close> has ended without an error, \<open>serve\<close> answers a position with
  a point of an object of the maps within the search radius, completed by the relations around it.
  A server with a cache in memory answers every request, whatever the position, but on one
  processor a long list with empty records. Every run of the load test ends, counts
  every request once and its percentiles have their rank; the collector of
  statistics can always be stopped and its summary bounds its samples.
  The negative results (the largest key of a range
  index, the coordinates lost when a v2 cache is read as a stream, a dominated point as
  answer, the panic at an infinite distance, a border that its simplification loses, empty answers with one processor, the copies
  blocked by a saver that fails early, the runs of the generator that hang after an error) are theorems too.

  \<^bold>\<open>Bounds, fuel, termination.\<close> \<open>sselect\<close> runs on fuel, one unit for a round or a call, and
  \<open>nat (right - left) + 1\<close> units are proved to be enough; every other function is total by a measure.
  The middle of a segment, \<open>int(math.Floor(float64(left+right)/2))\<close>, is the integer half, which
  \<open>floor_half\<close> proves for the indices that fit a \<^verbatim>\<open>float64\<close> exactly. \<open>window_narrows\<close> is the only
  assumption on the sampling step of the selection, and holds outright up to 600 points.
  \<open>v2_fits\<close> and \<open>v1_small\<close> say that the sections of a file fit the 32-bit sizes of its header.

  \<^bold>\<open>Parameters.\<close> Code outside the repository: \<open>math.Log/Exp/Sqrt\<close> (\<open>mathlib\<close>), the B-tree, the
  quadtree and planar geometry of \<^verbatim>\<open>orb\<close> (the orientation of an empty ring may panic), protobuf, gob, zstd, \<^verbatim>\<open>mmap\<close>, files, RFC 3339 times, the
  order in which a Go map is visited, the tags and the database of OpenStreetMap objects, the
  concurrent map of \<^verbatim>\<open>xsync\<close>, the resampling of lines and the sampling of points in an area.

  \<^bold>\<open>Not modelled.\<close> Fused multiply-add, which some targets use for \<open>x*y + z\<close>; the conversion of a NaN
  to an integer follows amd64. Numbers inside error texts, and the difference of \<^verbatim>\<open>%s\<close> and
  \<^verbatim>\<open>%w\<close>, since an error is kept as its messages around a cause. Log messages. \<open>Close\<close> methods.
  The dead code \<open>orthoDist\<close>, \<open>distance\<close>, \<open>hsin\<close> and \<open>mapZoneType\<close>. The locks of the range index:
  each operation is atomic. In \<open>ParseRun\<close> a step is a whole object, one member of a road, or a point sent or received; the
  claims of ids and the appended zones of one object are not interleaved
  more finely. Every goroutine may start at any time, so a bound on their number only leaves out interleavings. The first pass is one sequence of relations, in whatever order. The random sampling of an
  area is a function of its relation. Progress bars and printed counters. In \<open>Simulate\<close> a request
  of a worker is one step: its changes of the counters commute and are not interleaved more finely. Two outputs
  of \<open>generate\<close> are two files. The set-up of the HTTP server, telemetry, profiling, the printing of
  statistics and of the results of the load tests, all of which only pass values to other code or report on it;
  \<open>uniqueGeoPoints\<close>, which nothing calls.
\<close>

end
